(* ===== verification/Nuc_Prelude.thy ===== *)
theory Nuc_Prelude
  imports Main "HOL-Library.Word" "HOL-Library.Multiset"
begin

text \<open>
  Shared vocabulary of the development: the machine types of the C++ sources, the few
  standard-library algorithms the components share (erase of the first match, erase-remove,
  insertion at the lower bound), and the list facts about point updates that the
  interleaving models need.
\<close>

unbundle bit_operations_syntax

section \<open>Machine types\<close>

type_synonym u8 = "8 word"
type_synonym u16 = "16 word"
type_synonym u32 = "32 word"
type_synonym u64 = "64 word"

text \<open>\<open>NUClear::id_t\<close> is \<open>std::size_t\<close>, 64 bits wide on the platforms modelled.\<close>

type_synonym nid = "64 word"

section \<open>Lemma collections\<close>

named_theorems list_upd_simps \<open>sums and counts under a point update\<close>
named_theorems erase_simps \<open>facts on erasing the first match of a list\<close>

section \<open>Standard algorithms on vectors\<close>

text \<open>\<open>v.erase(std::find_if(v.begin(), v.end(), P))\<close>, guarded by the usual test for the end.\<close>

fun erase_first :: "('a \<Rightarrow> bool) \<Rightarrow> 'a list \<Rightarrow> 'a list" where
  "erase_first P [] = []"
| "erase_first P (x # xs) = (if P x then xs else x # erase_first P xs)"

text \<open>The position a \<open>std::lower_bound\<close> insertion uses: before the first element not less than the new one.\<close>

definition insert_lower :: "('a \<Rightarrow> 'a \<Rightarrow> bool) \<Rightarrow> 'a \<Rightarrow> 'a list \<Rightarrow> 'a list" where
  "insert_lower lt x xs = takeWhile (\<lambda>y. lt y x) xs @ x # dropWhile (\<lambda>y. lt y x) xs"

lemma erase_first_id [erase_simps]: "\<forall>x \<in> set xs. \<not> P x \<Longrightarrow> erase_first P xs = xs"
  by (induction xs) auto

lemma set_erase_first: "set (erase_first P xs) \<subseteq> set xs"
  by (induction xs) auto

lemma erase_first_subset: "x \<in> set (erase_first P xs) \<Longrightarrow> x \<in> set xs"
  using set_erase_first by (rule subsetD)

lemma erase_first_keeps: "x \<in> set xs \<Longrightarrow> \<not> P x \<Longrightarrow> x \<in> set (erase_first P xs)"
  by (induction xs) auto

lemma distinct_map_erase_first:
  "distinct (map f xs) \<Longrightarrow> distinct (map f (erase_first P xs))"
  by (induction xs) (auto dest: erase_first_subset)

lemma erase_first_distinct_filter:
  assumes "distinct (map f xs)"
  shows "erase_first (\<lambda>x. f x = k) xs = filter (\<lambda>x. f x \<noteq> k) xs"
  using assms by (induction xs) (auto simp: image_iff intro!: filter_True [symmetric])

lemma length_erase_first:
  "length (erase_first P xs) = length xs - (if \<exists>x \<in> set xs. P x then 1 else 0)"
proof (induction xs)
  case (Cons a xs)
  then show ?case by (cases xs) auto
qed simp

lemma mset_insert_lower: "mset (insert_lower lt x xs) = add_mset x (mset xs)"
proof -
  have "mset (takeWhile (\<lambda>y. lt y x) xs) + mset (dropWhile (\<lambda>y. lt y x) xs) = mset xs"
    by (metis mset_append takeWhile_dropWhile_id)
  then show ?thesis by (simp add: insert_lower_def)
qed

lemma set_insert_lower [simp]: "set (insert_lower lt x xs) = insert x (set xs)"
  by (metis mset_insert_lower set_mset_add_mset_insert set_mset_mset)

lemma length_insert_lower [simp]: "length (insert_lower lt x xs) = Suc (length xs)"
  by (metis mset_insert_lower size_add_mset size_mset)

section \<open>Point updates of lists\<close>

lemma sum_list_map_update [list_upd_simps]:
  fixes f :: "'a \<Rightarrow> int"
  assumes "i < length xs"
  shows "sum_list (map f (xs[i := x])) = sum_list (map f xs) - f (xs ! i) + f x"
  using assms by (induction xs arbitrary: i) (auto split: nat.splits)

lemma sum_list_nonneg_int:
  fixes f :: "'a \<Rightarrow> int"
  assumes "\<And>x. x \<in> set xs \<Longrightarrow> 0 \<le> f x"
  shows "0 \<le> sum_list (map f xs)"
  using assms by (induction xs) auto

lemma sum_list_zero_int:
  fixes f :: "'a \<Rightarrow> int"
  assumes "\<And>x. x \<in> set xs \<Longrightarrow> f x = 0"
  shows "sum_list (map f xs) = 0"
  using assms by (induction xs) auto

lemma sum_list_cong:
  fixes f g :: "'a \<Rightarrow> int"
  assumes "\<And>x. x \<in> set xs \<Longrightarrow> f x = g x"
  shows "sum_list (map f xs) = sum_list (map g xs)"
  using assms by (induction xs) auto

lemma sum_list_mset_cong: "mset xs = mset ys \<Longrightarrow> sum_list (map f xs) = (sum_list (map f ys) :: int)"
  by (metis mset_map sum_mset_sum_list)

lemma distinct_mset_cong: "mset xs = mset ys \<Longrightarrow> distinct xs = distinct ys"
  by (metis mset_eq_imp_distinct_iff)

lemma sum_list_store_update:
  fixes f :: "'a \<Rightarrow> int"
  assumes "distinct q" and "h \<in> set q"
  shows "sum_list (map (\<lambda>x. f ((s(h := v)) x)) q) = sum_list (map (\<lambda>x. f (s x)) q) - f (s h) + f v"
proof -
  obtain xs ys where split: "q = xs @ h # ys"
    using assms(2) split_list by fast
  have "sum_list (map (\<lambda>x. f ((s(h := v)) x)) zs) = sum_list (map (\<lambda>x. f (s x)) zs)" if "h \<notin> set zs" for zs
    by (rule sum_list_cong) (use that in auto)
  then show ?thesis
    using assms(1) by (simp add: split)
qed

section \<open>Counters\<close>

lemma small_word_eq_0:
  assumes "m < 2 ^ 32"
  shows "(of_nat m :: 32 word) = 0 \<longleftrightarrow> m = 0"
  using assms dvd_imp_le [of "2 ^ 32" m] by (auto simp: word_of_nat_eq_0_iff)

lemma small_word64_eq_0:
  assumes "m < 2 ^ 64"
  shows "(of_nat m :: 64 word) = 0 \<longleftrightarrow> m = 0"
  using assms dvd_imp_le [of "2 ^ 64" m] by (auto simp: word_of_nat_eq_0_iff)

lemma u16_bound: "unat (c :: u16) < 65536"
  using unsigned_less [of c] by simp

lemma unat_small16 [simp]: "k < 65536 \<Longrightarrow> unat (of_nat k :: u16) = k"
  by (simp add: unat_of_nat)

lemma of_nat16_inj: "j < 65536 \<Longrightarrow> k < 65536 \<Longrightarrow> (of_nat j :: u16) = of_nat k \<longleftrightarrow> j = k"
  by (metis unat_small16)

section \<open>std::map\<close>

text \<open>
  A \<open>std::map\<close> is the list of its entries in key order: insertion at the key's place, update of an
  existing entry, and erasure.
\<close>

definition key_insert :: "('k :: linorder) \<Rightarrow> 'v \<Rightarrow> ('k \<times> 'v) list \<Rightarrow> ('k \<times> 'v) list" where
  "key_insert k v m = insert_lower (\<lambda>a b. fst a < fst b) (k, v) m"

definition key_update :: "'k \<Rightarrow> ('v \<Rightarrow> 'v) \<Rightarrow> ('k \<times> 'v) list \<Rightarrow> ('k \<times> 'v) list" where
  "key_update k f m = map (\<lambda>(k', v). (k', if k' = k then f v else v)) m"

definition key_erase :: "'k \<Rightarrow> ('k \<times> 'v) list \<Rightarrow> ('k \<times> 'v) list" where
  "key_erase k m = filter (\<lambda>(k', v). k' \<noteq> k) m"

lemma map_of_key_insert:
  "k \<notin> fst ` set m \<Longrightarrow> map_of (key_insert k v m) = (map_of m)(k \<mapsto> v)"
proof -
  assume k: "k \<notin> fst ` set m"
  let ?p = "\<lambda>y. fst y < fst (k, v)"
  have "map_of m k = None"
    using k by (simp add: map_of_eq_None_iff)
  moreover have "map_of m = map_of (takeWhile ?p m @ dropWhile ?p m)"
    by simp
  moreover have "k \<notin> fst ` set (takeWhile ?p m)"
    using k by (auto dest: set_takeWhileD)
  then have "map_of (takeWhile ?p m) k = None"
    by (simp add: map_of_eq_None_iff)
  ultimately show ?thesis
    by (auto simp: key_insert_def insert_lower_def fun_eq_iff map_add_def split: option.splits
        simp del: takeWhile_dropWhile_id)
qed

lemma map_of_key_update:
  "map_of (key_update k f m) = (\<lambda>x. if x = k then map_option f (map_of m x) else map_of m x)"
  by (induction m) (auto simp: key_update_def fun_eq_iff)

lemma map_of_key_erase: "map_of (key_erase k m) = (map_of m)(k := None)"
  by (induction m) (auto simp: key_erase_def)

lemma fst_key_update [simp]: "map fst (key_update k f m) = map fst m"
  by (auto simp: key_update_def split_beta)

lemma distinct_key_insert:
  assumes "distinct (map fst m)" and "k \<notin> fst ` set m"
  shows "distinct (map fst (key_insert k v m))"
proof -
  have "mset (map fst (key_insert k v m)) = mset (k # map fst m)"
    unfolding key_insert_def mset_map mset_insert_lower by simp
  then have "distinct (map fst (key_insert k v m)) \<longleftrightarrow> distinct (k # map fst m)"
    by (rule distinct_mset_cong)
  then show ?thesis using assms by simp
qed

lemma set_key_insert [simp]: "set (key_insert k v m) = insert (k, v) (set m)"
  by (simp add: key_insert_def)

lemma sorted_key_insert:
  assumes "sorted (map fst m)"
  shows "sorted (map fst (key_insert k v m))"
proof -
  let ?p = "\<lambda>y. fst y < fst (k, v)"
  have "sorted (map fst (takeWhile ?p m @ dropWhile ?p m))" using assms by simp
  then have parts: "sorted (map fst (takeWhile ?p m))" "sorted (map fst (dropWhile ?p m))"
    by (simp_all only: map_append sorted_append)
  have low: "fst x < k" if "x \<in> set (takeWhile ?p m)" for x
    using that by (auto dest: set_takeWhileD)
  have high: "k \<le> fst x" if "x \<in> set (dropWhile ?p m)" for x
  proof -
    have ne: "dropWhile ?p m \<noteq> []" using that by (metis empty_iff list.set(1))
    then obtain y ys where d: "dropWhile ?p m = y # ys" by (meson neq_Nil_conv)
    have "\<not> ?p (hd (dropWhile ?p m))" using ne by (rule hd_dropWhile)
    then have "k \<le> fst y" unfolding d by simp
    moreover have "fst y \<le> fst x" using parts(2) that unfolding d by auto
    ultimately show ?thesis by (rule order_trans)
  qed
  show ?thesis
    unfolding key_insert_def insert_lower_def
    using parts low high by (fastforce simp: sorted_append)
qed

text \<open>Two maps with the same entries are the same list.\<close>

lemma sorted_map_unique:
  assumes "sorted (map fst m)" "distinct (map fst m)" "sorted (map fst m')" "distinct (map fst m')" "set m = set m'"
  shows "m = m'"
proof (rule map_sorted_distinct_set_unique [of fst])
  show "inj_on fst (set m \<union> set m')"
    using assms(2,5) by (simp add: distinct_map)
qed (use assms in auto)

lemma key_update_id: "map_of m k = Some v \<Longrightarrow> distinct (map fst m) \<Longrightarrow> key_update k (\<lambda>_. v) m = m"
  unfolding key_update_def by (rule map_idI) (auto dest: eq_key_imp_eq_value)

end
