(* ===== verification/Block_Queue.thy ===== *)
theory Block_Queue
  imports Nuc_Prelude "HOL-Library.Monad_Syntax"
begin

text \<open>
  The two block queues behind the scheduler (\<open>queue/MPSCQueue.hpp\<close>, \<open>queue/TaskQueue.hpp\<close>), the
  block helpers they share (\<open>queue/detail/block_ops.hpp\<close>) and the interface \<open>queue/Queue.hpp\<close>
  as a locale. This theory runs one operation at a time, each to its end: pointers are
  addresses into \<open>mem\<close>, \<open>None\<close> as the result of an operation means that it does not return
  (it spins on a slot nobody will commit, or follows a null block), and the contract lemmas show
  that well-formed queues never do that. The interleaving of the same atomic steps is in
  \<open>Queue_Race\<close>.
\<close>

section \<open>Blocks and the block list\<close>

definition BLOCK_SIZE :: nat where
  "BLOCK_SIZE = 64"

text \<open>
  A block: the payload objects alive in the slots' raw storage, the \<open>committed\<close> flags, the two
  counters and the link. The \<open>TaskQueue\<close> block has a third counter.
\<close>

record 'a qblock =
  storage :: "nat \<Rightarrow> 'a option"
  committed :: "nat \<Rightarrow> bool"
  wr :: nat
  rd :: nat
  next_block :: "nat option"

record 'a tqblock = "'a qblock" +
  consumed :: nat

text \<open>
  The queue object and the heap its blocks live in: \<open>alloc\<close> is the next fresh address,
  \<open>graveyard\<close> the list threaded through \<open>graveyard_next\<close>.
\<close>

record 'b qstate =
  mem :: "nat \<Rightarrow> 'b"
  alloc :: nat
  head :: nat
  tail :: nat
  graveyard :: "nat list"

type_synonym 'a mpsc = "'a qblock qstate"
type_synonym 'a taskq = "'a tqblock qstate"

definition published :: "('a, 'z) qblock_scheme \<Rightarrow> nat" where
  "published b = min (wr b) BLOCK_SIZE"

text \<open>\<open>allocate_block\<close>: \<open>new Block()\<close> for each of the two block types.\<close>

definition mpsc_block :: "'a qblock" where
  "mpsc_block = \<lparr>storage = (\<lambda>_. None), committed = (\<lambda>_. False), wr = 0, rd = 0, next_block = None\<rparr>"

definition taskq_block :: "'a tqblock" where
  "taskq_block = \<lparr>storage = (\<lambda>_. None), committed = (\<lambda>_. False), wr = 0, rd = 0, next_block = None,
                  consumed = 0\<rparr>"

definition upd_block :: "nat \<Rightarrow> ('b \<Rightarrow> 'b) \<Rightarrow> 'b qstate \<Rightarrow> 'b qstate" where
  "upd_block b f q = q\<lparr>mem := (mem q)(b := f (mem q b))\<rparr>"

definition retire_block :: "nat \<Rightarrow> 'b qstate \<Rightarrow> 'b qstate" where
  "retire_block b q = q\<lparr>graveyard := b # graveyard q\<rparr>"

text \<open>
  \<open>link_next_block\<close>: the strong CAS on \<open>next\<close> from null. On failure \<open>expected\<close> holds the pointer
  found and the candidate is freed by its \<open>unique_ptr\<close>.
\<close>

definition link_next_block ::
  "('a, 'z) qblock_scheme \<Rightarrow> nat \<Rightarrow> ('a, 'z) qblock_scheme qstate \<Rightarrow> bool \<times> ('a, 'z) qblock_scheme qstate"
where
  "link_next_block candidate b q =
     (let expected = next_block (mem q b) in
      if expected = None
      then (True, q\<lparr>mem := (mem q)(alloc q := candidate, b := (mem q b)\<lparr>next_block := Some (alloc q)\<rparr>),
                    alloc := Suc (alloc q)\<rparr>)
      else (expected \<noteq> None, q))"

definition advance_tail :: "nat \<Rightarrow> nat \<Rightarrow> 'b qstate \<Rightarrow> 'b qstate" where
  "advance_tail expected nxt q = (if tail q = expected then q\<lparr>tail := nxt\<rparr> else q)"

definition empty_queue :: "'b \<Rightarrow> 'b qstate" where
  "empty_queue fresh = \<lparr>mem = (\<lambda>_. fresh), alloc = 1, head = 0, tail = 0, graveyard = []\<rparr>"

text \<open>Placement-new of the payload into slot \<open>i\<close>, then the release store of \<open>committed\<close>.\<close>

definition commit_slot :: "nat \<Rightarrow> 'a \<Rightarrow> ('a, 'z) qblock_scheme \<Rightarrow> ('a, 'z) qblock_scheme" where
  "commit_slot i x b = b\<lparr>storage := (storage b)(i := Some x), committed := (committed b)(i := True)\<rparr>"

section \<open>Enqueue\<close>

text \<open>
  Both queues enqueue the same way: claim an index with \<open>fetch_add\<close> on the tail block; past the
  end of the block, link a successor, advance the tail and retry.
\<close>

partial_function (option) enqueue ::
  "('a, 'z) qblock_scheme \<Rightarrow> 'a \<Rightarrow> ('a, 'z) qblock_scheme qstate \<Rightarrow> ('a, 'z) qblock_scheme qstate option"
where
  "enqueue fresh item q =
     (let b = tail q;
          index = wr (mem q b);
          q1 = upd_block b (\<lambda>k. k\<lparr>wr := Suc index\<rparr>) q
      in if index < BLOCK_SIZE
         then Some (upd_block b (commit_slot index item) q1)
         else let q2 = snd (link_next_block fresh b q1)
              in case next_block (mem q2 b) of
                   None \<Rightarrow> None
                 | Some nxt \<Rightarrow> enqueue fresh item (advance_tail b nxt q2))"

definition mpsc_enqueue :: "'a \<Rightarrow> 'a mpsc \<Rightarrow> 'a mpsc option" where
  "mpsc_enqueue = enqueue mpsc_block"

definition taskq_enqueue :: "'a \<Rightarrow> 'a taskq \<Rightarrow> 'a taskq option" where
  "taskq_enqueue = enqueue taskq_block"

section \<open>Dequeue\<close>

text \<open>\<open>MPSCQueue::try_dequeue\<close>: the single consumer owns \<open>head_block\<close> and its \<open>read\<close> counter.\<close>

partial_function (option) mpsc_try_dequeue :: "'a mpsc \<Rightarrow> ('a option \<times> 'a mpsc) option" where
  "mpsc_try_dequeue q =
     (let b = head q;
          write_observed = wr (mem q b);
          pub = min write_observed BLOCK_SIZE;
          i = rd (mem q b)
      in if i < pub
         then (if \<not> committed (mem q b) i then None
               else case storage (mem q b) i of
                      None \<Rightarrow> None
                    | Some out \<Rightarrow>
                        Some (Some out,
                              upd_block b (\<lambda>k. k\<lparr>storage := (storage k)(i := None), rd := Suc i\<rparr>) q))
         else case next_block (mem q b) of
                None \<Rightarrow> (if write_observed > BLOCK_SIZE then mpsc_try_dequeue q else Some (None, q))
              | Some nxt \<Rightarrow> mpsc_try_dequeue (retire_block b (q\<lparr>head := nxt\<rparr>)))"

text \<open>\<open>TaskQueue::destroy_slot\<close> and \<open>TaskQueue::try_reclaim_block\<close>.\<close>

definition destroy_slot :: "nat \<Rightarrow> ('a, 'z) qblock_scheme \<Rightarrow> ('a, 'z) qblock_scheme" where
  "destroy_slot i b = b\<lparr>storage := (storage b)(i := None), committed := (committed b)(i := False)\<rparr>"

definition try_reclaim_block :: "nat \<Rightarrow> 'a taskq \<Rightarrow> 'a taskq" where
  "try_reclaim_block b q =
     (if consumed (mem q b) \<noteq> BLOCK_SIZE then q
      else if head q \<noteq> b then q
      else case next_block (mem q b) of
             None \<Rightarrow> q
           | Some nxt \<Rightarrow> retire_block b (q\<lparr>head := nxt\<rparr>))"

text \<open>\<open>TaskQueue::try_dequeue\<close>: run alone, each CAS succeeds with the value just loaded.\<close>

partial_function (option) taskq_try_dequeue :: "'a taskq \<Rightarrow> ('a option \<times> 'a taskq) option" where
  "taskq_try_dequeue q =
     (let b = head q;
          pub = published (mem q b);
          i = rd (mem q b)
      in if pub \<le> i
         then (if consumed (mem q b) < pub then taskq_try_dequeue q
               else case next_block (mem q b) of
                      None \<Rightarrow> (if pub = 0 \<and> wr (mem q b) > 0 then taskq_try_dequeue q else Some (None, q))
                    | Some nxt \<Rightarrow> taskq_try_dequeue (retire_block b (q\<lparr>head := nxt\<rparr>)))
         else let q1 = upd_block b (\<lambda>k. k\<lparr>rd := Suc i\<rparr>) q
              in if \<not> committed (mem q1 b) i then None
                 else case storage (mem q1 b) i of
                        None \<Rightarrow> None
                      | Some out \<Rightarrow>
                          let q2 = upd_block b (\<lambda>k. (destroy_slot i k)\<lparr>consumed := Suc (consumed k)\<rparr>) q1
                          in Some (Some out,
                                   if consumed (mem q2 b) = BLOCK_SIZE then try_reclaim_block b q2 else q2))"

text \<open>\<open>TaskQueue::empty\<close> walks the blocks from the head.\<close>

partial_function (option) taskq_empty_from :: "nat \<Rightarrow> 'a taskq \<Rightarrow> bool option" where
  "taskq_empty_from b q =
     (if rd (mem q b) < published (mem q b) then Some False
      else case next_block (mem q b) of
             None \<Rightarrow> Some True
           | Some nxt \<Rightarrow> taskq_empty_from nxt q)"

definition taskq_empty :: "'a taskq \<Rightarrow> bool option" where
  "taskq_empty q = taskq_empty_from (head q) q"

text \<open>
  The destructors: the payloads whose destructors run, block by block from the head. The MPSC
  block derives liveness from the window between the counters, the MPMC block from the flags.
\<close>

definition mpsc_destroy_live_slots :: "'a qblock \<Rightarrow> 'a list" where
  "mpsc_destroy_live_slots b = map (\<lambda>i. the (storage b i)) [rd b ..< published b]"

definition taskq_destroy_live_slots :: "'a tqblock \<Rightarrow> 'a list" where
  "taskq_destroy_live_slots b =
     map (\<lambda>i. the (storage b i)) (filter (committed b) [0 ..< BLOCK_SIZE])"

partial_function (option) destroy_from ::
  "(('a, 'z) qblock_scheme \<Rightarrow> 'a list) \<Rightarrow> nat option \<Rightarrow> ('a, 'z) qblock_scheme qstate
    \<Rightarrow> ('a list \<times> nat list) option"
where
  "destroy_from live cur q =
     (case cur of
        None \<Rightarrow> Some ([], [])
      | Some b \<Rightarrow> do { (rest, freed) \<leftarrow> destroy_from live (next_block (mem q b)) q;
                      Some (live (mem q b) @ rest, b # freed) })"

text \<open>
  A destructor gives the payloads it destroys and the addresses it deletes: the live blocks, then
  the graveyard.
\<close>

definition mpsc_destroy :: "'a mpsc \<Rightarrow> ('a list \<times> nat list) option" where
  "mpsc_destroy q = do { (xs, freed) \<leftarrow> destroy_from mpsc_destroy_live_slots (Some (head q)) q;
                         Some (xs, freed @ graveyard q) }"

definition taskq_destroy :: "'a taskq \<Rightarrow> ('a list \<times> nat list) option" where
  "taskq_destroy q = do { (xs, freed) \<leftarrow> destroy_from taskq_destroy_live_slots (Some (head q)) q;
                          Some (xs, freed @ graveyard q) }"

section \<open>Well-formed queues and their contents\<close>

text \<open>
  A well-formed queue, between operations: the blocks from address 0 are linked in allocation
  order and the last one is the tail; every block before the tail has overflowed; everything before
  the head is drained and lies in the graveyard. The parameter \<open>lo\<close> says from which index on the
  \<open>committed\<close> flags are set, as a function of the read counter: the MPSC consumer leaves them
  set, the MPMC one clears them.
\<close>

definition block_items :: "('a, 'z) qblock_scheme \<Rightarrow> 'a list" where
  "block_items b = map (\<lambda>i. the (storage b i)) [rd b ..< published b]"

definition queue_items :: "('a, 'z) qblock_scheme qstate \<Rightarrow> 'a list" where
  "queue_items q = concat (map (\<lambda>a. block_items (mem q a)) [head q ..< Suc (tail q)])"

definition block_ok :: "(nat \<Rightarrow> nat) \<Rightarrow> ('a, 'z) qblock_scheme \<Rightarrow> bool" where
  "block_ok lo b \<longleftrightarrow>
     rd b \<le> published b
     \<and> (\<forall>i. committed b i \<longleftrightarrow> lo (rd b) \<le> i \<and> i < published b)
     \<and> (\<forall>i. storage b i \<noteq> None \<longleftrightarrow> rd b \<le> i \<and> i < published b)"

definition chain_ok :: "('a, 'z) qblock_scheme qstate \<Rightarrow> bool" where
  "chain_ok q \<longleftrightarrow>
     alloc q = Suc (tail q) \<and> head q \<le> tail q \<and> graveyard q = rev [0 ..< head q]
     \<and> wr (mem q (tail q)) \<le> BLOCK_SIZE
     \<and> (\<forall>a \<le> tail q. next_block (mem q a) = (if a = tail q then None else Some (Suc a)))
     \<and> (\<forall>a < tail q. BLOCK_SIZE < wr (mem q a))
     \<and> (\<forall>a. head q < a \<and> a \<le> tail q \<longrightarrow> rd (mem q a) = 0)
     \<and> (\<forall>a < head q. rd (mem q a) = BLOCK_SIZE)"

definition queue_ok :: "(nat \<Rightarrow> nat) \<Rightarrow> ('a, 'z) qblock_scheme qstate \<Rightarrow> bool" where
  "queue_ok lo q \<longleftrightarrow> chain_ok q \<and> (\<forall>a \<le> tail q. block_ok lo (mem q a))"

definition mpsc_ok :: "'a mpsc \<Rightarrow> bool" where
  "mpsc_ok q \<longleftrightarrow> queue_ok (\<lambda>_. 0) q"

definition taskq_ok :: "'a taskq \<Rightarrow> bool" where
  "taskq_ok q \<longleftrightarrow> queue_ok id q \<and> (\<forall>a \<le> tail q. consumed (mem q a) = rd (mem q a))"

lemmas block_defs = block_ok_def block_items_def published_def BLOCK_SIZE_def

lemma block_items_commit:
  assumes "block_ok lo b" and "wr b < BLOCK_SIZE"
  shows "block_items (commit_slot (wr b) x (b\<lparr>wr := Suc (wr b)\<rparr>)) = block_items b @ [x]"
proof -
  have "rd b \<le> wr b"
    using assms(1) by (simp add: block_ok_def published_def)
  then show ?thesis
    using assms(2) by (simp add: block_items_def published_def commit_slot_def min_def)
qed

lemma published_room: "wr b < BLOCK_SIZE \<Longrightarrow> published b = wr b"
  by (simp add: published_def)

lemma block_ok_commit:
  assumes "block_ok lo b" and "wr b < BLOCK_SIZE" and "lo (rd b) \<le> rd b"
  shows "block_ok lo (commit_slot (wr b) x (b\<lparr>wr := Suc (wr b)\<rparr>))"
proof -
  have "published (b\<lparr>wr := Suc (wr b)\<rparr>) = Suc (wr b)"
    using assms(2) by (simp add: published_def)
  then show ?thesis
    using assms published_room [OF assms(2)]
    by (auto simp: block_ok_def commit_slot_def published_def less_Suc_eq)
qed

lemma queue_items_split:
  assumes "head q \<le> tail q"
  shows "queue_items q = concat (map (\<lambda>a. block_items (mem q a)) [head q ..< tail q])
           @ block_items (mem q (tail q))"
  using assms by (simp add: queue_items_def)

lemma queue_items_head:
  assumes "head q \<le> tail q"
  shows "queue_items q = block_items (mem q (head q))
           @ concat (map (\<lambda>a. block_items (mem q a)) [Suc (head q) ..< Suc (tail q)])"
  using assms by (simp add: queue_items_def upt_conv_Cons del: upt_Suc)

lemma concat_map_cong_upt:
  assumes "\<And>a. m \<le> a \<Longrightarrow> a < n \<Longrightarrow> f a = g a"
  shows "concat (map f [m ..< n]) = concat (map g [m ..< n])"
  by (rule arg_cong [of _ _ concat], rule map_cong) (use assms in auto)

section \<open>Enqueue appends\<close>

definition tail_push :: "'a \<Rightarrow> ('a, 'z) qblock_scheme qstate \<Rightarrow> ('a, 'z) qblock_scheme qstate" where
  "tail_push x q = upd_block (tail q) (\<lambda>k. commit_slot (wr k) x (k\<lparr>wr := Suc (wr k)\<rparr>)) q"

lemma enqueue_room:
  "wr (mem q (tail q)) < BLOCK_SIZE \<Longrightarrow> enqueue fresh x q = Some (tail_push x q)"
  by (simp add: enqueue.simps tail_push_def upd_block_def commit_slot_def Let_def)

lemma tail_push_ok:
  assumes ok: "queue_ok lo q" and room: "wr (mem q (tail q)) < BLOCK_SIZE" and lo: "\<And>n. lo n \<le> n"
  shows "queue_ok lo (tail_push x q) \<and> queue_items (tail_push x q) = queue_items q @ [x]"
proof
  have b: "block_ok lo (mem q (tail q))" and hd: "head q \<le> tail q"
    using ok by (auto simp: queue_ok_def chain_ok_def)
  show "queue_ok lo (tail_push x q)"
    using ok room block_ok_commit [OF b room lo]
    by (auto simp: queue_ok_def chain_ok_def tail_push_def upd_block_def)
      (auto simp: commit_slot_def)
  have "concat (map (\<lambda>a. block_items (mem (tail_push x q) a)) [head q ..< tail q])
      = concat (map (\<lambda>a. block_items (mem q a)) [head q ..< tail q])"
    by (rule concat_map_cong_upt) (auto simp: tail_push_def upd_block_def)
  then show "queue_items (tail_push x q) = queue_items q @ [x]"
    using hd block_items_commit [OF b room]
    by (simp add: queue_items_split tail_push_def upd_block_def)
qed

text \<open>A full tail block: a successor is linked, the tail moves to it, and the loop runs once more.\<close>

definition grown :: "('a, 'z) qblock_scheme \<Rightarrow> ('a, 'z) qblock_scheme qstate \<Rightarrow> ('a, 'z) qblock_scheme qstate"
where
  "grown fresh q = q\<lparr>mem := (mem q)(alloc q := fresh,
                            tail q := (mem q (tail q))\<lparr>wr := Suc (wr (mem q (tail q))), next_block := Some (alloc q)\<rparr>),
                    alloc := Suc (alloc q), tail := alloc q\<rparr>"

lemma enqueue_full:
  assumes "queue_ok lo q" and "wr (mem q (tail q)) = BLOCK_SIZE"
  shows "enqueue fresh x q = enqueue fresh x (grown fresh q)"
  using assms
  by (subst enqueue.simps)
    (simp add: queue_ok_def chain_ok_def upd_block_def link_next_block_def advance_tail_def grown_def Let_def)

lemma grown_ok:
  assumes ok: "queue_ok lo q" and full: "wr (mem q (tail q)) = BLOCK_SIZE"
    and fresh: "block_ok lo fresh" "wr fresh = 0" "rd fresh = 0" "next_block fresh = None"
  shows "queue_ok lo (grown fresh q) \<and> queue_items (grown fresh q) = queue_items q"
proof
  have hd: "head q \<le> tail q" and al: "alloc q = Suc (tail q)"
    using ok by (auto simp: queue_ok_def chain_ok_def)
  have last: "block_ok lo ((mem q (tail q))\<lparr>wr := Suc (wr (mem q (tail q))), next_block := Some (Suc (tail q))\<rparr>)"
    using ok full by (auto simp: queue_ok_def block_defs)
  show "queue_ok lo (grown fresh q)"
    using ok full fresh last
    by (auto simp: queue_ok_def chain_ok_def grown_def le_Suc_eq less_Suc_eq)
  have same: "block_items ((mem q (tail q))\<lparr>wr := Suc (wr (mem q (tail q))), next_block := Some (Suc (tail q))\<rparr>)
      = block_items (mem q (tail q))"
    using full by (auto simp: block_defs)
  have emp: "block_items fresh = []"
    using fresh by (simp add: block_defs)
  have "concat (map (\<lambda>a. block_items (mem (grown fresh q) a)) [head q ..< tail q])
      = concat (map (\<lambda>a. block_items (mem q a)) [head q ..< tail q])"
    by (rule concat_map_cong_upt) (auto simp: grown_def al)
  then show "queue_items (grown fresh q) = queue_items q"
    using hd same emp by (simp add: queue_items_split grown_def al queue_items_def)
qed

lemma enqueue_appends:
  assumes ok: "queue_ok lo q" and lo: "\<And>n. lo n \<le> n"
    and fresh: "block_ok lo fresh" "wr fresh = 0" "rd fresh = 0" "next_block fresh = None"
  shows "\<exists>q'. enqueue fresh x q = Some q' \<and> queue_ok lo q' \<and> queue_items q' = queue_items q @ [x]"
proof (cases "wr (mem q (tail q)) < BLOCK_SIZE")
  case True
  then show ?thesis using enqueue_room tail_push_ok [OF ok True lo] by metis
next
  case False
  with ok have full: "wr (mem q (tail q)) = BLOCK_SIZE"
    by (auto simp: queue_ok_def chain_ok_def)
  have room: "wr (mem (grown fresh q) (tail (grown fresh q))) < BLOCK_SIZE"
    using ok fresh by (simp add: grown_def queue_ok_def chain_ok_def BLOCK_SIZE_def)
  show ?thesis
    using enqueue_full [OF ok full, of fresh x] enqueue_room [OF room, of fresh x]
      grown_ok [OF ok full fresh] tail_push_ok [OF _ room lo] by metis
qed

section \<open>Dequeue removes the front\<close>

text \<open>A drained head block with a successor is skipped and retired; nothing is lost by it.\<close>

definition skip_head :: "'b qstate \<Rightarrow> 'b qstate" where
  "skip_head q = retire_block (head q) (q\<lparr>head := Suc (head q)\<rparr>)"

lemma skip_head_ok:
  assumes ok: "queue_ok lo q" and drained: "rd (mem q (head q)) = published (mem q (head q))"
    and more: "head q < tail q"
  shows "queue_ok lo (skip_head q) \<and> queue_items (skip_head q) = queue_items q"
proof
  have "BLOCK_SIZE < wr (mem q (head q))"
    using ok more by (auto simp: queue_ok_def chain_ok_def)
  then have full: "rd (mem q (head q)) = BLOCK_SIZE"
    using drained by (simp add: published_def)
  show "queue_ok lo (skip_head q)"
    using ok full more by (auto simp: queue_ok_def chain_ok_def skip_head_def retire_block_def less_Suc_eq)
  have "block_items (mem q (head q)) = []"
    using drained by (simp add: block_items_def)
  then show "queue_items (skip_head q) = queue_items q"
    using queue_items_head [of q] more
    by (simp add: skip_head_def retire_block_def queue_items_def del: upt_Suc)
qed

text \<open>Taking the front slot of the head block.\<close>

lemma pop_head_ok:
  assumes ok: "queue_ok lo q" and some: "rd (mem q (head q)) < published (mem q (head q))"
    and b': "rd b' = Suc (rd (mem q (head q)))" "wr b' = wr (mem q (head q))"
      "next_block b' = next_block (mem q (head q))"
      "storage b' = (storage (mem q (head q)))(rd (mem q (head q)) := None)"
      "block_ok lo b'"
  shows "queue_ok lo (upd_block (head q) (\<lambda>_. b') q)
    \<and> queue_items q = the (storage (mem q (head q)) (rd (mem q (head q))))
        # queue_items (upd_block (head q) (\<lambda>_. b') q)"
proof
  let ?b = "mem q (head q)"
  have hd: "head q \<le> tail q"
    using ok by (auto simp: queue_ok_def chain_ok_def)
  show "queue_ok lo (upd_block (head q) (\<lambda>_. b') q)"
    using ok b' by (auto simp: queue_ok_def chain_ok_def upd_block_def)
  have pub: "published b' = published ?b"
    using b' by (simp add: published_def)
  have items: "block_items ?b = the (storage ?b (rd ?b)) # block_items b'"
    using some b' pub by (simp add: block_items_def upt_conv_Cons)
  have "concat (map (\<lambda>a. block_items (mem (upd_block (head q) (\<lambda>_. b') q) a)) [Suc (head q) ..< Suc (tail q)])
      = concat (map (\<lambda>a. block_items (mem q a)) [Suc (head q) ..< Suc (tail q)])"
    by (rule concat_map_cong_upt) (auto simp: upd_block_def)
  then show "queue_items q = the (storage ?b (rd ?b)) # queue_items (upd_block (head q) (\<lambda>_. b') q)"
    using hd items queue_items_head [of q] queue_items_head [of "upd_block (head q) (\<lambda>_. b') q"]
    by (simp add: upd_block_def del: upt_Suc)
qed

text \<open>The three situations a single-threaded consumer can find at the head.\<close>

lemma head_cases [consumes 1, case_names pop skip empty]:
  assumes "queue_ok lo q"
  obtains (pop) "rd (mem q (head q)) < published (mem q (head q))"
      "committed (mem q (head q)) (rd (mem q (head q))) \<or> rd (mem q (head q)) < lo (rd (mem q (head q)))"
      "storage (mem q (head q)) (rd (mem q (head q))) \<noteq> None"
  | (skip) "rd (mem q (head q)) = published (mem q (head q))" "head q < tail q"
      "next_block (mem q (head q)) = Some (Suc (head q))"
  | (empty) "rd (mem q (head q)) = published (mem q (head q))" "head q = tail q"
      "next_block (mem q (head q)) = None" "wr (mem q (head q)) \<le> BLOCK_SIZE"
      "queue_items q = []"
proof -
  let ?b = "mem q (head q)"
  have hd: "head q \<le> tail q" and b: "block_ok lo ?b"
    using assms by (auto simp: queue_ok_def chain_ok_def)
  consider "rd ?b < published ?b" | "rd ?b = published ?b" "head q < tail q"
    | "rd ?b = published ?b" "head q = tail q"
    using b hd unfolding block_ok_def by linarith
  then show thesis
  proof cases
    case 1
    then show thesis using b by (intro pop) (auto simp: block_ok_def)
  next
    case 2
    then show thesis using assms by (intro skip) (auto simp: queue_ok_def chain_ok_def)
  next
    case 3
    then have "queue_items q = []"
      by (simp add: queue_items_def block_items_def)
    then show thesis using 3 assms by (intro empty) (auto simp: queue_ok_def chain_ok_def)
  qed
qed

definition front :: "'a list \<Rightarrow> 'a option" where
  "front xs = (case xs of [] \<Rightarrow> None | x # _ \<Rightarrow> Some x)"

lemma front_simps [simp]: "front [] = None" "front (x # xs) = Some x"
  by (simp_all add: front_def)

lemma block_ok_mpsc_pop:
  assumes "block_ok (\<lambda>_. 0) b" and "rd b < published b"
  shows "block_ok (\<lambda>_. 0) (b\<lparr>storage := (storage b)(rd b := None), rd := Suc (rd b)\<rparr>)"
proof -
  have "published (b\<lparr>storage := (storage b)(rd b := None), rd := Suc (rd b)\<rparr>) = published b"
    by (simp add: published_def)
  moreover have "Suc (rd b) \<le> i \<longleftrightarrow> i \<noteq> rd b \<and> rd b \<le> i" for i
    by auto
  ultimately show ?thesis
    using assms unfolding block_ok_def by simp
qed

lemmas mpsc_unfold = mpsc_try_dequeue.simps [unfolded Let_def, folded published_def]

lemma mpsc_dequeue_front:
  assumes "mpsc_ok q"
  shows "\<exists>q'. mpsc_try_dequeue q = Some (front (queue_items q), q') \<and> mpsc_ok q'
    \<and> queue_items q' = tl (queue_items q)"
  using assms
proof (induction q rule: measure_induct_rule [where f = "\<lambda>q. tail q - head q"])
  case (less q)
  let ?b = "mem q (head q)"
  have ok: "queue_ok (\<lambda>_. 0) q"
    using less.prems by (simp add: mpsc_ok_def)
  from ok show ?case
  proof (cases rule: head_cases)
    case pop
    let ?b' = "?b\<lparr>storage := (storage ?b)(rd ?b := None), rd := Suc (rd ?b)\<rparr>"
    have "block_ok (\<lambda>_. 0) ?b"
      using ok by (auto simp: queue_ok_def chain_ok_def)
    then have "block_ok (\<lambda>_. 0) ?b'"
      using pop(1) by (rule block_ok_mpsc_pop)
    then have upd: "mpsc_ok (upd_block (head q) (\<lambda>_. ?b') q)"
        "queue_items q = the (storage ?b (rd ?b)) # queue_items (upd_block (head q) (\<lambda>_. ?b') q)"
      using pop_head_ok [OF ok pop(1), of ?b'] by (auto simp: mpsc_ok_def)
    have "mpsc_try_dequeue q
        = Some (Some (the (storage ?b (rd ?b))), upd_block (head q) (\<lambda>_. ?b') q)"
      using pop by (subst mpsc_unfold) (auto simp: upd_block_def split: option.splits)
    then show ?thesis using upd by simp
  next
    case skip
    have "mpsc_try_dequeue q = mpsc_try_dequeue (skip_head q)"
      using skip by (subst mpsc_unfold) (simp add: skip_head_def)
    moreover have "mpsc_ok (skip_head q)" "queue_items (skip_head q) = queue_items q"
      using skip_head_ok [OF ok skip(1,2)] by (simp_all add: mpsc_ok_def)
    moreover have "tail (skip_head q) - head (skip_head q) < tail q - head q"
      using skip(2) by (simp add: skip_head_def retire_block_def)
    ultimately show ?thesis using less.IH by metis
  next
    case empty
    have "mpsc_try_dequeue q = Some (None, q)"
      using empty by (subst mpsc_unfold) simp
    then show ?thesis using empty less.prems by simp
  qed
qed


lemmas taskq_unfold = taskq_try_dequeue.simps [unfolded Let_def]

lemma block_ok_taskq_pop:
  assumes "block_ok id b" and "rd b < published b"
  shows "block_ok id ((destroy_slot (rd b) (b\<lparr>rd := Suc (rd b)\<rparr>))\<lparr>consumed := c\<rparr>)"
proof -
  have "published ((destroy_slot (rd b) (b\<lparr>rd := Suc (rd b)\<rparr>))\<lparr>consumed := c\<rparr>) = published b"
    by (simp add: published_def destroy_slot_def)
  moreover have "Suc (rd b) \<le> i \<longleftrightarrow> i \<noteq> rd b \<and> rd b \<le> i" for i
    by auto
  ultimately show ?thesis
    using assms unfolding block_ok_def by (simp add: destroy_slot_def)
qed

lemma taskq_ok_consumed: "taskq_ok q \<Longrightarrow> consumed (mem q (head q)) = rd (mem q (head q))"
  by (simp add: taskq_ok_def queue_ok_def chain_ok_def)

lemma taskq_skip_ok:
  assumes "taskq_ok q" "rd (mem q (head q)) = published (mem q (head q))" "head q < tail q"
  shows "taskq_ok (skip_head q) \<and> queue_items (skip_head q) = queue_items q"
  using assms skip_head_ok [of id q]
  by (auto simp: taskq_ok_def skip_head_def retire_block_def)

lemma try_reclaim_ok:
  assumes ok: "taskq_ok q" and full: "consumed (mem q (head q)) = BLOCK_SIZE"
  shows "taskq_ok (try_reclaim_block (head q) q)
    \<and> queue_items (try_reclaim_block (head q) q) = queue_items q"
proof -
  have qok: "queue_ok id q"
    using ok by (simp add: taskq_ok_def)
  have rd: "rd (mem q (head q)) = BLOCK_SIZE"
    using full taskq_ok_consumed [OF ok] by simp
  from qok show ?thesis
  proof (cases rule: head_cases)
    case pop
    then show ?thesis using rd by (simp add: published_def)
  next
    case skip
    then have "try_reclaim_block (head q) q = skip_head q"
      using full by (simp add: try_reclaim_block_def skip_head_def)
    then show ?thesis using taskq_skip_ok [OF ok skip(1,2)] by simp
  next
    case empty
    then show ?thesis using ok by (simp add: try_reclaim_block_def)
  qed
qed

lemma taskq_dequeue_front:
  assumes "taskq_ok q"
  shows "\<exists>q'. taskq_try_dequeue q = Some (front (queue_items q), q') \<and> taskq_ok q'
    \<and> queue_items q' = tl (queue_items q)"
  using assms
proof (induction q rule: measure_induct_rule [where f = "\<lambda>q. tail q - head q"])
  case (less q)
  let ?b = "mem q (head q)"
  have ok: "queue_ok id q" and con: "consumed ?b = rd ?b"
    using less.prems taskq_ok_consumed by (auto simp: taskq_ok_def)
  from ok show ?case
  proof (cases rule: head_cases)
    case pop
    let ?b' = "(destroy_slot (rd ?b) (?b\<lparr>rd := Suc (rd ?b)\<rparr>))\<lparr>consumed := Suc (rd ?b)\<rparr>"
    let ?q' = "upd_block (head q) (\<lambda>_. ?b') q"
    have "block_ok id ?b"
      using ok by (auto simp: queue_ok_def chain_ok_def)
    then have "block_ok id ?b'"
      using pop(1) by (rule block_ok_taskq_pop)
    then have upd: "queue_ok id ?q'" "queue_items q = the (storage ?b (rd ?b)) # queue_items ?q'"
      using pop_head_ok [OF ok pop(1), of ?b'] by (auto simp: destroy_slot_def)
    then have "taskq_ok ?q'"
      using less.prems by (auto simp: taskq_ok_def upd_block_def destroy_slot_def)
    moreover have "taskq_try_dequeue q = Some (Some (the (storage ?b (rd ?b))),
        if Suc (rd ?b) = BLOCK_SIZE then try_reclaim_block (head q) ?q' else ?q')"
      using pop con by (subst taskq_unfold) (auto simp: upd_block_def destroy_slot_def)
    moreover have "taskq_ok (try_reclaim_block (head q) ?q')
        \<and> queue_items (try_reclaim_block (head q) ?q') = queue_items ?q'"
      if "Suc (rd ?b) = BLOCK_SIZE"
      using try_reclaim_ok [of ?q'] \<open>taskq_ok ?q'\<close> that by (simp add: upd_block_def)
    ultimately show ?thesis using upd by auto
  next
    case skip
    have "taskq_try_dequeue q = taskq_try_dequeue (skip_head q)"
      using skip con by (subst taskq_unfold) (simp add: skip_head_def)
    moreover have "taskq_ok (skip_head q)" "queue_items (skip_head q) = queue_items q"
      using taskq_skip_ok [OF less.prems skip(1,2)] by simp_all
    moreover have "tail (skip_head q) - head (skip_head q) < tail q - head q"
      using skip(2) by (simp add: skip_head_def retire_block_def)
    ultimately show ?thesis using less.IH by metis
  next
    case empty
    have "published ?b = wr ?b"
      using empty(4) by (simp add: published_def)
    then have "taskq_try_dequeue q = Some (None, q)"
      using empty con by (subst taskq_unfold) auto
    then show ?thesis using empty less.prems by simp
  qed
qed

section \<open>empty() and the destructors\<close>

lemma taskq_empty_from_eq:
  assumes "queue_ok lo q" and "b \<le> tail q"
  shows "taskq_empty_from b q = Some (concat (map (\<lambda>a. block_items (mem q a)) [b ..< Suc (tail q)]) = [])"
  using assms(2)
proof (induction b rule: measure_induct_rule [where f = "\<lambda>b. tail q - b"])
  case (less b)
  have b: "block_ok lo (mem q b)"
    and nx: "next_block (mem q b) = (if b = tail q then None else Some (Suc b))"
    using assms less.prems by (auto simp: queue_ok_def chain_ok_def)
  have drained: "block_items (mem q b) = [] \<longleftrightarrow> \<not> rd (mem q b) < published (mem q b)"
    by (auto simp: block_items_def)
  show ?case
  proof (cases "b = tail q")
    case True
    then show ?thesis using nx drained by (subst taskq_empty_from.simps) simp
  next
    case False
    then have "taskq_empty_from (Suc b) q
        = Some (concat (map (\<lambda>a. block_items (mem q a)) [Suc b ..< Suc (tail q)]) = [])"
      using less.prems by (intro less.IH) auto
    moreover have "[b ..< Suc (tail q)] = b # [Suc b ..< Suc (tail q)]"
      using less.prems by (simp add: upt_conv_Cons del: upt_Suc)
    ultimately show ?thesis
      using False nx drained by (subst taskq_empty_from.simps) (auto simp del: upt_Suc)
  qed
qed

lemma taskq_empty_iff: "taskq_ok q \<Longrightarrow> taskq_empty q = Some (queue_items q = [])"
  unfolding taskq_empty_def queue_items_def
  by (rule taskq_empty_from_eq [of id]) (auto simp: taskq_ok_def queue_ok_def chain_ok_def)

lemma destroy_from_eq:
  assumes "queue_ok lo q" and "b \<le> tail q" and "\<And>k. block_ok lo k \<Longrightarrow> live k = block_items k"
  shows "destroy_from live (Some b) q
    = Some (concat (map (\<lambda>a. block_items (mem q a)) [b ..< Suc (tail q)]), [b ..< Suc (tail q)])"
  using assms(2)
proof (induction b rule: measure_induct_rule [where f = "\<lambda>b. tail q - b"])
  case (less b)
  have b: "live (mem q b) = block_items (mem q b)"
    and nx: "next_block (mem q b) = (if b = tail q then None else Some (Suc b))"
    using assms less.prems by (auto simp: queue_ok_def chain_ok_def)
  have split: "[b ..< Suc (tail q)] = b # [Suc b ..< Suc (tail q)]"
    using less.prems by (simp add: upt_conv_Cons del: upt_Suc)
  show ?case
  proof (cases "b = tail q")
    case True
    then show ?thesis using nx b by (subst destroy_from.simps) (simp add: destroy_from.simps [of _ None])
  next
    case False
    then have "destroy_from live (Some (Suc b)) q
        = Some (concat (map (\<lambda>a. block_items (mem q a)) [Suc b ..< Suc (tail q)]), [Suc b ..< Suc (tail q)])"
      using less.prems by (intro less.IH) auto
    then show ?thesis
      unfolding split using False nx b by (subst destroy_from.simps) (simp del: upt_Suc)
  qed
qed

lemma mpsc_live_slots: "mpsc_destroy_live_slots k = block_items k"
  by (simp add: mpsc_destroy_live_slots_def block_items_def)

lemma taskq_live_slots:
  assumes "block_ok id k"
  shows "taskq_destroy_live_slots k = block_items k"
proof -
  have "filter (\<lambda>i. rd k \<le> i \<and> i < published k) [0 ..< BLOCK_SIZE] = [rd k ..< published k]"
  proof (rule sorted_distinct_set_unique)
    show "set (filter (\<lambda>i. rd k \<le> i \<and> i < published k) [0 ..< BLOCK_SIZE]) = set [rd k ..< published k]"
      by (auto simp: published_def)
  qed (simp_all add: sorted_wrt_filter)
  moreover have "committed k = (\<lambda>i. rd k \<le> i \<and> i < published k)"
    using assms by (auto simp: block_ok_def)
  ultimately show ?thesis
    by (simp add: taskq_destroy_live_slots_def block_items_def)
qed

lemma mpsc_destroy_eq:
  assumes "mpsc_ok q"
  shows "mpsc_destroy q = Some (queue_items q, [head q ..< alloc q] @ rev [0 ..< head q])"
proof -
  have ok: "queue_ok (\<lambda>_. 0) q" and shape: "head q \<le> tail q" "alloc q = Suc (tail q)" "graveyard q = rev [0 ..< head q]"
    using assms by (simp_all add: mpsc_ok_def queue_ok_def chain_ok_def)
  have "destroy_from mpsc_destroy_live_slots (Some (head q)) q = Some (queue_items q, [head q ..< alloc q])"
    unfolding queue_items_def shape(2) by (rule destroy_from_eq [OF ok shape(1)]) (rule mpsc_live_slots)
  then show ?thesis by (simp add: mpsc_destroy_def shape(3))
qed

lemma taskq_destroy_eq:
  assumes "taskq_ok q"
  shows "taskq_destroy q = Some (queue_items q, [head q ..< alloc q] @ rev [0 ..< head q])"
proof -
  have ok: "queue_ok id q" and shape: "head q \<le> tail q" "alloc q = Suc (tail q)" "graveyard q = rev [0 ..< head q]"
    using assms by (simp_all add: taskq_ok_def queue_ok_def chain_ok_def)
  have "destroy_from taskq_destroy_live_slots (Some (head q)) q = Some (queue_items q, [head q ..< alloc q])"
    unfolding queue_items_def shape(2) by (rule destroy_from_eq [OF ok shape(1)]) (rule taskq_live_slots)
  then show ?thesis by (simp add: taskq_destroy_def shape(3))
qed

lemma each_block_once:
  assumes "queue_ok lo q"
  shows "mset ([head q ..< alloc q] @ rev [0 ..< head q]) = mset [0 ..< alloc q]"
proof -
  have "[0 ..< alloc q] = [0 ..< head q] @ [head q ..< alloc q]"
    using assms upt_add_eq_append [of 0 "head q" "alloc q - head q"]
    by (simp add: queue_ok_def chain_ok_def)
  then show ?thesis by simp
qed

section \<open>The queue interface\<close>

text \<open>
  A sequence of calls on a \<open>Queue<T>\<close>, and the list it has to behave like: \<open>Dequeue\<close>
  answers with the oldest element or with \<open>None\<close> when there is none.
\<close>

datatype 'a queue_call = Enqueue 'a | Dequeue

fun queue_run ::
  "('a \<Rightarrow> 'q \<Rightarrow> 'q option) \<Rightarrow> ('q \<Rightarrow> ('a option \<times> 'q) option) \<Rightarrow> 'a queue_call list \<Rightarrow> 'q
    \<Rightarrow> ('a option list \<times> 'q) option"
where
  "queue_run enq deq [] q = Some ([], q)"
| "queue_run enq deq (Enqueue x # cs) q = do { q' \<leftarrow> enq x q; queue_run enq deq cs q' }"
| "queue_run enq deq (Dequeue # cs) q =
     do { (r, q') \<leftarrow> deq q; (rs, q'') \<leftarrow> queue_run enq deq cs q'; Some (r # rs, q'') }"

fun list_run :: "'a queue_call list \<Rightarrow> 'a list \<Rightarrow> 'a option list \<times> 'a list" where
  "list_run [] xs = ([], xs)"
| "list_run (Enqueue x # cs) xs = list_run cs (xs @ [x])"
| "list_run (Dequeue # cs) xs = (let (rs, ys) = list_run cs (tl xs) in (front xs # rs, ys))"

locale fifo_queue =
  fixes enq :: "'a \<Rightarrow> 'q \<Rightarrow> 'q option"
    and deq :: "'q \<Rightarrow> ('a option \<times> 'q) option"
    and items :: "'q \<Rightarrow> 'a list"
    and wf :: "'q \<Rightarrow> bool"
  assumes enq_law: "wf q \<Longrightarrow> \<exists>q'. enq x q = Some q' \<and> wf q' \<and> items q' = items q @ [x]"
    and deq_law: "wf q \<Longrightarrow> \<exists>q'. deq q = Some (front (items q), q') \<and> wf q' \<and> items q' = tl (items q)"
begin

lemma run_refines_list:
  "wf q \<Longrightarrow> \<exists>q'. queue_run enq deq cs q = Some (fst (list_run cs (items q)), q')
    \<and> wf q' \<and> items q' = snd (list_run cs (items q))"
proof (induction cs arbitrary: q)
  case (Cons c cs)
  show ?case
  proof (cases c)
    case (Enqueue x)
    obtain q' where "enq x q = Some q'" "wf q'" "items q' = items q @ [x]"
      using enq_law [OF Cons.prems] by blast
    then show ?thesis using Cons.IH [of q'] Enqueue by auto
  next
    case Dequeue
    obtain q' where "deq q = Some (front (items q), q')" "wf q'" "items q' = tl (items q)"
      using deq_law [OF Cons.prems] by blast
    then show ?thesis using Cons.IH [of q'] Dequeue by (auto simp: split_beta Let_def)
  qed
qed simp

end

interpretation mq: fifo_queue mpsc_enqueue mpsc_try_dequeue queue_items mpsc_ok
proof
  fix x :: 'a and q :: "'a mpsc"
  assume ok: "mpsc_ok q"
  show "\<exists>q'. mpsc_enqueue x q = Some q' \<and> mpsc_ok q' \<and> queue_items q' = queue_items q @ [x]"
    unfolding mpsc_enqueue_def mpsc_ok_def
    by (rule enqueue_appends) (use ok in \<open>simp_all add: mpsc_ok_def mpsc_block_def block_defs\<close>)
  show "\<exists>q'. mpsc_try_dequeue q = Some (front (queue_items q), q') \<and> mpsc_ok q'
      \<and> queue_items q' = tl (queue_items q)"
    by (rule mpsc_dequeue_front [OF ok])
qed

lemma tail_push_consumed: "consumed (mem (tail_push x q) a) = consumed (mem q a)"
  by (simp add: tail_push_def upd_block_def commit_slot_def)

lemma tail_push_rd: "rd (mem (tail_push x q) a) = rd (mem q a)"
  by (simp add: tail_push_def upd_block_def commit_slot_def)

lemma tail_push_tail [simp]: "tail (tail_push x q) = tail q"
  by (simp add: tail_push_def upd_block_def)

text \<open>Enqueue does not touch the \<open>consumed\<close> counters.\<close>

lemma taskq_enqueue_ok:
  assumes ok: "taskq_ok q"
  shows "\<exists>q'. taskq_enqueue x q = Some q' \<and> taskq_ok q' \<and> queue_items q' = queue_items q @ [x]"
proof -
  have qok: "queue_ok id q" and con: "\<forall>a \<le> tail q. consumed (mem q a) = rd (mem q a)"
    using ok by (simp_all add: taskq_ok_def)
  have "\<exists>q'. taskq_enqueue x q = Some q' \<and> queue_ok id q' \<and> queue_items q' = queue_items q @ [x]"
    unfolding taskq_enqueue_def
    by (rule enqueue_appends [OF qok]) (simp_all add: taskq_block_def block_defs)
  moreover have "\<forall>a \<le> tail q'. consumed (mem q' a) = rd (mem q' a)" if "taskq_enqueue x q = Some q'" for q'
  proof (cases "wr (mem q (tail q)) < BLOCK_SIZE")
    case True
    then have "q' = tail_push x q"
      using that by (simp add: taskq_enqueue_def enqueue_room)
    then show ?thesis using con by (simp add: tail_push_consumed tail_push_rd)
  next
    case False
    then have full: "wr (mem q (tail q)) = BLOCK_SIZE" and al: "alloc q = Suc (tail q)"
      using qok by (auto simp: queue_ok_def chain_ok_def)
    have "wr (mem (grown taskq_block q) (tail (grown taskq_block q))) < BLOCK_SIZE"
      using qok by (simp add: grown_def queue_ok_def chain_ok_def BLOCK_SIZE_def taskq_block_def)
    then have "q' = tail_push x (grown taskq_block q)"
      using that enqueue_full [OF qok full, of taskq_block x] by (simp add: taskq_enqueue_def enqueue_room)
    then show ?thesis
      using con al by (auto simp: tail_push_consumed tail_push_rd grown_def taskq_block_def le_Suc_eq)
  qed
  ultimately show ?thesis by (auto simp: taskq_ok_def)
qed

interpretation tq: fifo_queue taskq_enqueue taskq_try_dequeue queue_items taskq_ok
  by unfold_locales (fact taskq_enqueue_ok taskq_dequeue_front)+

lemma empty_queue_ok:
  "mpsc_ok (empty_queue mpsc_block)" "queue_items (empty_queue mpsc_block) = []"
  "taskq_ok (empty_queue taskq_block)" "queue_items (empty_queue taskq_block) = []"
  by (simp_all add: mpsc_ok_def taskq_ok_def queue_ok_def chain_ok_def queue_items_def empty_queue_def
      mpsc_block_def taskq_block_def block_defs)

text \<open>
  C7. Run by one thread at a time, a \<open>TaskQueue\<close> is a FIFO list: from the constructor, any
  sequence of \<open>enqueue\<close> and \<open>try_dequeue\<close> calls returns (no call spins or follows a null
  block), every dequeue answers with the oldest payload not yet taken and answers false exactly when
  there is none, across any number of 64-slot blocks. Afterwards \<open>empty()\<close> tells whether
  payloads remain, and the destructor destroys exactly those and deletes every block ever allocated
  exactly once.
\<close>

theorem taskq_is_fifo:
  "\<exists>q. queue_run taskq_enqueue taskq_try_dequeue cs (empty_queue taskq_block)
         = Some (fst (list_run cs []), q)
     \<and> taskq_empty q = Some (snd (list_run cs []) = [])
     \<and> (\<exists>freed. taskq_destroy q = Some (snd (list_run cs []), freed) \<and> mset freed = mset [0 ..< alloc q])"
  using tq.run_refines_list [OF empty_queue_ok(3), unfolded empty_queue_ok, of cs]
  by (auto simp: taskq_empty_iff taskq_destroy_eq taskq_ok_def intro!: each_block_once [simplified])

text \<open>
  The same for \<open>MPSCQueue\<close>: one thread at a time it is a FIFO list over any sequence of
  calls, and its destructor destroys exactly the payloads left and deletes every block once.
\<close>

theorem mpsc_is_fifo:
  "\<exists>q. queue_run mpsc_enqueue mpsc_try_dequeue cs (empty_queue mpsc_block)
         = Some (fst (list_run cs []), q)
     \<and> (\<exists>freed. mpsc_destroy q = Some (snd (list_run cs []), freed) \<and> mset freed = mset [0 ..< alloc q])"
  using mq.run_refines_list [OF empty_queue_ok(1), unfolded empty_queue_ok, of cs]
  by (auto simp: mpsc_destroy_eq mpsc_ok_def intro!: each_block_once [simplified])

text \<open>\<open>link_next_block\<close> answers true whether it linked its own block or lost the race.\<close>

lemma link_next_block_true: "fst (link_next_block fresh b q)"
  by (simp add: link_next_block_def Let_def)

end
