(* ===== verification/Task_Order.thy ===== *)
theory Task_Order
  imports Nuc_Prelude
begin

text \<open>
  Task priorities: the values of the \<open>Priority\<close> DSL words, the fixed scheduler buckets of
  \<open>queue/Priority.hpp\<close> and the execution order of tasks (\<open>operator<\<close> of \<open>ReactionTask\<close> and
  of \<open>Group::LockHandle\<close>).
\<close>

section \<open>Priority words and buckets\<close>

text \<open>The words of \<open>dsl/word/Priority.hpp\<close>, each a struct with a constant \<open>value\<close>.\<close>

datatype priority_word = W_REALTIME | W_HIGH | W_NORMAL | W_LOW | W_IDLE

fun priority_value :: "priority_word \<Rightarrow> int" where
  "priority_value W_REALTIME = 1000"
| "priority_value W_HIGH = 750"
| "priority_value W_NORMAL = 500"
| "priority_value W_LOW = 250"
| "priority_value W_IDLE = 0"

text \<open>The bucket enumeration; \<open>level_index\<close> is the \<open>static_cast\<close> to its underlying value.\<close>

datatype PriorityLevel = REALTIME | HIGH | NORMAL | LOW | IDLE

fun level_index :: "PriorityLevel \<Rightarrow> nat" where
  "level_index REALTIME = 0"
| "level_index HIGH = 1"
| "level_index NORMAL = 2"
| "level_index LOW = 3"
| "level_index IDLE = 4"

definition PRIORITY_BUCKETS :: nat where
  "PRIORITY_BUCKETS = level_index IDLE + 1"

definition priority_level :: "int \<Rightarrow> PriorityLevel" where
  "priority_level p =
     (if p \<ge> 1000 then REALTIME
      else if p \<ge> 750 then HIGH
      else if p \<ge> 500 then NORMAL
      else if p \<ge> 250 then LOW
      else IDLE)"

definition priority_index :: "int \<Rightarrow> nat" where
  "priority_index p = level_index (priority_level p)"

lemma priority_index_simp:
  "priority_index p =
     (if p \<ge> 1000 then 0 else if p \<ge> 750 then 1 else if p \<ge> 500 then 2 else if p \<ge> 250 then 3 else 4)"
  by (simp add: priority_index_def priority_level_def)

lemma PRIORITY_BUCKETS_5 [simp]: "PRIORITY_BUCKETS = 5"
  by (simp add: PRIORITY_BUCKETS_def)

lemma priority_index_less [simp]: "priority_index p < 5"
  by (simp add: priority_index_simp)

lemma priority_index_antimono: "p \<le> q \<Longrightarrow> priority_index q \<le> priority_index p"
  by (auto simp: priority_index_simp)

section \<open>The order tasks run in\<close>

text \<open>
  The two fields \<open>operator<\<close> reads of a \<open>ReactionTask\<close> (and of a \<open>LockHandle\<close>):
  \<open>lhs.priority == rhs.priority ? lhs.id < rhs.id : lhs.priority > rhs.priority\<close>.
\<close>

datatype task_key = TaskKey (tk_priority: int) (tk_id: nid)

fun task_less :: "task_key \<Rightarrow> task_key \<Rightarrow> bool" where
  "task_less (TaskKey p i) (TaskKey q j) = (if p = q then i < j else p > q)"

instantiation task_key :: linorder
begin

definition less_task_key :: "task_key \<Rightarrow> task_key \<Rightarrow> bool" where
  "less_task_key a b \<longleftrightarrow> task_less a b"

definition less_eq_task_key :: "task_key \<Rightarrow> task_key \<Rightarrow> bool" where
  "less_eq_task_key a b \<longleftrightarrow> a = b \<or> task_less a b"

instance
proof
  fix x y z :: task_key
  show "x < y \<longleftrightarrow> x \<le> y \<and> \<not> y \<le> x"
    by (cases x; cases y) (auto simp: less_task_key_def less_eq_task_key_def split: if_splits)
  show "x \<le> x"
    by (simp add: less_eq_task_key_def)
  show "x \<le> y \<Longrightarrow> y \<le> z \<Longrightarrow> x \<le> z"
    by (cases x; cases y; cases z) (auto simp: less_eq_task_key_def split: if_splits)
  show "x \<le> y \<Longrightarrow> y \<le> x \<Longrightarrow> x = y"
    by (cases x; cases y) (auto simp: less_eq_task_key_def split: if_splits)
  show "x \<le> y \<or> y \<le> x"
    by (cases x; cases y) (auto simp: less_eq_task_key_def)
qed

end

lemma task_less_iff [simp]: "task_less a b \<longleftrightarrow> a < b"
  by (simp add: less_task_key_def)

lemma task_less_code [code]: "(a :: task_key) < b \<longleftrightarrow> task_less a b"
  by simp

lemma less_task_key_iff: "TaskKey p i < TaskKey q j \<longleftrightarrow> p > q \<or> (p = q \<and> i < j)"
  by (auto simp: less_task_key_def simp del: task_less_iff)

text \<open>A key that orders first never sits in a later bucket.\<close>

lemma less_imp_bucket_le: "a \<le> b \<Longrightarrow> priority_index (tk_priority a) \<le> priority_index (tk_priority b)"
  by (cases a; cases b)
    (auto simp: less_eq_task_key_def less_task_key_iff simp del: task_less_iff split: if_splits
      intro!: priority_index_antimono)

text \<open>
  The execution order of tasks is a strict total order on keys with distinct ids, and the
  bucket scan never contradicts it across buckets: whenever a task has a strictly smaller bucket
  index than another, it also comes first in the order \<open>operator<\<close> gives, and the index always
  addresses one of the \<open>PRIORITY_BUCKETS\<close> queues.
\<close>

theorem bucket_order_refines_task_order:
  "(priority_index (tk_priority a) < priority_index (tk_priority b) \<longrightarrow> task_less a b)
   \<and> (tk_id a \<noteq> tk_id b \<longrightarrow> task_less a b \<noteq> task_less b a)
   \<and> \<not> task_less a a
   \<and> (task_less a b \<and> task_less b c \<longrightarrow> task_less a c)
   \<and> priority_index (tk_priority a) < PRIORITY_BUCKETS"
proof -
  have "priority_index (tk_priority a) < priority_index (tk_priority b) \<Longrightarrow> a < b"
    using less_imp_bucket_le [of b a] by (meson leD not_le_imp_less)
  moreover have "tk_id a \<noteq> tk_id b \<Longrightarrow> (a < b) \<noteq> (b < a)"
    by (metis less_asym linorder_less_linear)
  ultimately show ?thesis by auto
qed

theorem bucket_order_refines_task_order_witness:
  "task_less (TaskKey 1000 7) (TaskKey 999 1) \<and> priority_index 1000 < priority_index 999
   \<and> task_less (TaskKey 500 1) (TaskKey 500 2)"
  using bucket_order_refines_task_order [of "TaskKey 1000 7" "TaskKey 999 1" "TaskKey 0 0"]
  by (simp add: priority_index_simp less_task_key_iff)

text \<open>The five DSL words select the five buckets, in order.\<close>

lemma priority_word_bucket:
  "priority_level (priority_value w) =
     (case w of W_REALTIME \<Rightarrow> REALTIME | W_HIGH \<Rightarrow> HIGH | W_NORMAL \<Rightarrow> NORMAL
              | W_LOW \<Rightarrow> LOW | W_IDLE \<Rightarrow> IDLE)"
  by (cases w) (simp_all add: priority_level_def)

end
