(* ===== verification/Sched_Lock.thy ===== *)
theory Sched_Lock
  imports Nuc_Prelude
begin

text \<open>
  The lock interface of the scheduler (\<open>Lock.hpp\<close>, \<open>Lock.cpp\<close>), \<open>CombinedLock\<close> and
  \<open>CountingLock\<close>. A lock's \<open>lock()\<close> is a function on the state the lock shares with its owner
  (the group, the counter): it answers and may change that state. \<open>lock_family\<close> is the
  contract the scheduler relies on; the groups satisfy it in \<open>Group_Tokens\<close>, the counting
  locks here.
\<close>

section \<open>Lock and CombinedLock\<close>

type_synonym 's slock = "'s \<Rightarrow> bool \<times> 's"

text \<open>\<open>Lock::lock\<close>, the base class' default.\<close>

definition base_lock :: "'s slock" where
  "base_lock s = (True, s)"

text \<open>The \<open>locks\<close> vector of a \<open>CombinedLock\<close>, its constructors and \<open>add\<close>.\<close>

type_synonym 's combined = "'s slock list"

definition combined_new :: "'s slock option \<Rightarrow> 's combined" where
  "combined_new l = (case l of None \<Rightarrow> [] | Some k \<Rightarrow> [k])"

definition combined_add :: "'s slock \<Rightarrow> 's combined \<Rightarrow> 's combined" where
  "combined_add l ls = ls @ [l]"

text \<open>\<open>CombinedLock::lock\<close>: stops at the first refusal and keeps what the earlier ones acquired.\<close>

fun combined_lock :: "'s combined \<Rightarrow> 's slock" where
  "combined_lock [] s = (True, s)"
| "combined_lock (l # ls) s = (let (ok, s') = l s in if \<not> ok then (False, s') else combined_lock ls s')"

section \<open>The contract of a family of locks\<close>

text \<open>
  Locks named by keys over one shared state: a successful \<open>lock()\<close> leaves the lock held, no
  \<open>lock()\<close> takes another one away, and asking a held lock again succeeds without an effect.
\<close>

locale lock_family =
  fixes acquire :: "'k \<Rightarrow> 's slock"
    and holds :: "'k \<Rightarrow> 's \<Rightarrow> bool"
    and inv :: "'s \<Rightarrow> bool"
  assumes acquire_inv: "inv s \<Longrightarrow> inv (snd (acquire k s))"
    and acquire_holds: "inv s \<Longrightarrow> fst (acquire k s) = holds k (snd (acquire k s))"
    and acquire_keeps: "inv s \<Longrightarrow> holds j s \<Longrightarrow> holds j (snd (acquire k s))"
    and acquire_again: "inv s \<Longrightarrow> holds k s \<Longrightarrow> acquire k s = (True, s)"
begin

lemma combined_inv: "inv s \<Longrightarrow> inv (snd (combined_lock (map acquire ks) s))"
  by (induction ks arbitrary: s) (use acquire_inv in \<open>auto simp: split_beta Let_def\<close>)

lemma combined_keeps:
  "inv s \<Longrightarrow> holds j s \<Longrightarrow> holds j (snd (combined_lock (map acquire ks) s))"
  by (induction ks arbitrary: s) (use acquire_inv acquire_keeps in \<open>auto simp: split_beta Let_def\<close>)

lemma combined_true_iff:
  "inv s \<Longrightarrow> fst (combined_lock (map acquire ks) s)
    \<longleftrightarrow> (\<forall>k \<in> set ks. holds k (snd (combined_lock (map acquire ks) s)))"
proof (induction ks arbitrary: s)
  case (Cons k ks)
  let ?s = "snd (acquire k s)"
  have inv: "inv ?s" and r: "fst (acquire k s) = holds k ?s"
    using Cons.prems acquire_inv acquire_holds by auto
  show ?case
  proof (cases "fst (acquire k s)")
    case True
    then have "holds k (snd (combined_lock (map acquire ks) ?s))"
      using r combined_keeps [OF inv] by simp
    then show ?thesis using Cons.IH [OF inv] True by (simp add: split_beta Let_def)
  next
    case False
    then show ?thesis using r by (auto simp: split_beta Let_def)
  qed
qed simp

lemma combined_again:
  "inv s \<Longrightarrow> \<forall>k \<in> set ks. holds k s \<Longrightarrow> combined_lock (map acquire ks) s = (True, s)"
  by (induction ks) (simp_all add: acquire_again)

lemma combined_sticky:
  assumes "inv s" and "fst (combined_lock (map acquire ks) s)"
  shows "combined_lock (map acquire ks) (snd (combined_lock (map acquire ks) s))
    = (True, snd (combined_lock (map acquire ks) s))"
  using assms combined_true_iff combined_again combined_inv by blast

end

section \<open>CountingLock\<close>

text \<open>
  The lock object remembers its step and whether it hit the target; the counter it refers to is
  an \<open>atomic<int>\<close>, whose arithmetic wraps at 32 bits.
\<close>

record counting_lock =
  cl_step :: "32 word"
  cl_locked :: bool

definition counting_new :: "32 word \<Rightarrow> 32 word \<Rightarrow> 32 word \<Rightarrow> counting_lock \<times> 32 word" where
  "counting_new step target counter =
     (\<lparr>cl_step = step, cl_locked = (counter + step = target)\<rparr>, counter + step)"

definition counting_destroy :: "counting_lock \<Rightarrow> 32 word \<Rightarrow> 32 word" where
  "counting_destroy l counter = counter - cl_step l"

definition counting_lock_fn :: "counting_lock \<Rightarrow> 's slock" where
  "counting_lock_fn l s = (cl_locked l, s)"

text \<open>
  The counter and the live locks on it, under any order of constructions (each with its own step
  and target) and destructions.
\<close>

datatype counting_op = NewLock "32 word" "32 word" | DestroyLock nat

fun counting_step :: "counting_op \<Rightarrow> counting_lock list \<times> 32 word \<Rightarrow> counting_lock list \<times> 32 word" where
  "counting_step (NewLock st tg) (ls, c) = (let (l, c') = counting_new st tg c in (l # ls, c'))"
| "counting_step (DestroyLock i) (ls, c) =
     (if i < length ls then (take i ls @ drop (Suc i) ls, counting_destroy (ls ! i) c) else (ls, c))"

lemma counting_step_sum:
  assumes "snd s = c0 + sum_list (map cl_step (fst s))"
  shows "snd (counting_step ev s) = c0 + sum_list (map cl_step (fst (counting_step ev s)))"
proof (cases ev; cases s)
  fix i ls c
  assume ev: "ev = DestroyLock i" and s: "s = (ls, c)"
  show ?thesis
  proof (cases "i < length ls")
    case True
    have "sum_list (map cl_step ls) = sum_list (map cl_step (take i ls @ ls ! i # drop (Suc i) ls))"
      using True by (metis id_take_nth_drop)
    then show ?thesis using assms ev s True by (simp add: counting_destroy_def)
  qed (use assms ev s in simp)
qed (use assms in \<open>simp add: counting_new_def Let_def\<close>)

lemma counting_run_sum:
  "snd s = c0 + sum_list (map cl_step (fst s)) \<Longrightarrow>
   snd (fold counting_step evs s) = c0 + sum_list (map cl_step (fst (fold counting_step evs s)))"
proof (induction evs arbitrary: s)
  case (Cons ev evs)
  then show ?case using counting_step_sum [OF Cons.prems, of ev] by simp
qed simp

definition idle_step :: "counting_op \<Rightarrow> counting_op" where
  "idle_step ev = (case ev of NewLock _ _ \<Rightarrow> NewLock (- 1) 0 | DestroyLock i \<Rightarrow> DestroyLock i)"

lemma idle_steps_step: "\<forall>l \<in> set (fst s). cl_step l = - 1 \<Longrightarrow>
  \<forall>l \<in> set (fst (fold counting_step (map idle_step evs) s)). cl_step l = - 1"
proof (induction evs arbitrary: s)
  case (Cons ev evs)
  have "\<forall>l \<in> set (fst (counting_step (idle_step ev) s)). cl_step l = - 1"
    using Cons.prems
    by (cases ev; cases s) (auto simp: idle_step_def counting_new_def dest: in_set_takeD in_set_dropD)
  then show ?case using Cons.IH by simp
qed simp

lemma sum_list_minus_ones:
  "\<forall>l \<in> set ls. cl_step l = - 1 \<Longrightarrow> sum_list (map cl_step ls) = - of_nat (length ls)"
  by (induction ls) simp_all

text \<open>
  The counter the idle locks share (default step \<open>-1\<close>, target 0): after any sequence of
  constructions and destructions on a counter that started at \<open>n\<close>, the counter is \<open>n\<close> minus
  the number of live locks, and the next lock to be constructed answers \<open>lock()\<close> with true exactly
  when it is the \<open>n\<close>-th live one, so exactly the last of \<open>n\<close> threads to become idle gets it,
  however the earlier ones came and went.
\<close>

theorem idle_counter_last_one_locks:
  assumes "fold counting_step (map idle_step evs) ([], of_nat n) = (ls, c)"
    and "n < 2 ^ 32" and "length ls < n"
  shows "c = of_nat (n - length ls)
    \<and> (cl_locked (fst (counting_new (- 1) 0 c)) \<longleftrightarrow> Suc (length ls) = n)"
proof -
  let ?r = "fold counting_step (map idle_step evs) ([], of_nat n)"
  have "c = of_nat n + sum_list (map cl_step ls)"
    using counting_run_sum [of "([], of_nat n)" "of_nat n" "map idle_step evs"] assms(1) by simp
  moreover have "\<forall>l \<in> set ls. cl_step l = - 1"
    using idle_steps_step [of "([], of_nat n)" evs] assms(1) by simp
  ultimately have c: "c = of_nat (n - length ls)"
    using assms(3) by (simp add: sum_list_minus_ones of_nat_diff)
  have "c - 1 = of_nat (n - length ls - 1)"
    using assms(3) by (simp add: c of_nat_diff)
  moreover have "(of_nat (n - length ls - 1) :: 32 word) = 0 \<longleftrightarrow> n - length ls - 1 = 0"
    by (rule small_word_eq_0) (use assms(2) in simp)
  moreover have "cl_locked (fst (counting_new (- 1) 0 c)) \<longleftrightarrow> c - 1 = 0"
    by (simp add: counting_new_def)
  moreover have "n - length ls - 1 = 0 \<longleftrightarrow> Suc (length ls) = n"
    using assms(3) by linarith
  ultimately show ?thesis using c by argo
qed

theorem idle_counter_last_one_locks_witness:
  "cl_locked (fst (counting_new (- 1) 0 (1 :: 32 word)))"
  using idle_counter_last_one_locks [of "[NewLock 0 0, NewLock 0 0, DestroyLock 0]" 2 "[\<lparr>cl_step = - 1, cl_locked = False\<rparr>]" 1]
  by (simp add: idle_step_def counting_new_def counting_destroy_def)

interpretation counted: lock_family counting_lock_fn "\<lambda>l _. cl_locked l" "\<lambda>_. True"
  by unfold_locales (simp_all add: counting_lock_fn_def)

end
