(* ===== verification/Reaction_Core.thy ===== *)
theory Reaction_Core
  imports Task_Order Sched_Lock
begin

text \<open>
  Reactions and their tasks: \<open>threading/Reaction\<close>, \<open>ReactionTask\<close>, \<open>ReactionHandle\<close>, the
  \<open>CallbackGenerator\<close> that makes a task from a reaction, the statistics it records, and the
  words \<open>Buffer\<close>, \<open>Single\<close> and \<open>Once\<close> that act on a reaction's task count. The DSL
  functions a reaction was declared with are the fields of \<open>dsl_ops\<close>; the world carries the
  reactions, the statistics objects, the id sources, the thread's current task and the events
  emitted.
\<close>

section \<open>Descriptors, tasks and statistics\<close>

text \<open>Descriptors are compared by pointer; \<open>pd_ref\<close> and \<open>gd_ref\<close> are these pointers.\<close>

record pool_descriptor =
  pd_ref :: nat
  pd_name :: string
  pd_concurrency :: int
  pd_counts_for_idle :: bool
  pd_persistent :: bool

record group_descriptor =
  gd_ref :: nat
  gd_name :: string
  gd_concurrency :: int

datatype Inline = NEVER | NEUTRAL | ALWAYS

record id_pair =
  reaction_id :: nid
  task_id :: nid

record reaction_identifiers =
  ri_name :: string
  ri_reactor :: string
  ri_dsl :: string
  ri_function :: string

text \<open>
  \<open>ReactionStatistics\<close>: the instants are those \<open>Event::now()\<close> read, \<open>None\<close> before it did.
  The groups of a task, a \<open>std::set\<close> of pointers, are the list in iteration order.
\<close>

record 'e reaction_statistics =
  rs_identifiers :: "reaction_identifiers option"
  rs_cause :: id_pair
  rs_target :: id_pair
  rs_target_pool :: pool_descriptor
  rs_target_groups :: "group_descriptor list"
  rs_created :: "int option"
  rs_started :: "int option"
  rs_finished :: "int option"
  rs_exception :: "'e option"

datatype event_kind = CREATED | MISSING_DATA | BLOCKED | STARTED | FINISHED

datatype emitted = ReactionEvent event_kind nat | EmitStatistics nat | SetThreadPriority int

text \<open>
  \<open>t_parent\<close> and \<open>t_statistics\<close> are the pointers, null as \<open>None\<close>. The bound callback is
  not a field: \<open>call_operator\<close> returns the data it captured beside the task.
\<close>

record reaction_task =
  t_parent :: "nat option"
  t_id :: nid
  t_run_inline :: bool
  t_priority :: int
  t_should_inline :: Inline
  t_pool :: pool_descriptor
  t_groups :: "group_descriptor list"
  t_statistics :: "nat option"

definition task_key_of :: "reaction_task \<Rightarrow> task_key" where
  "task_key_of t = TaskKey (t_priority t) (t_id t)"

text \<open>\<open>unbinders\<close> are names of the functions in the list, logged when they are called.\<close>

record reaction =
  r_identifiers :: reaction_identifiers
  r_id :: nid
  r_emit_stats :: bool
  r_active_tasks :: int
  r_enabled :: bool
  r_unbinders :: "nat list"

text \<open>
  The world a thread sees: reactions by address (\<open>None\<close> once expired), the two id sources, the
  \<open>thread_local current_task\<close>, the statistics objects, the readings of the clock, the events
  emitted, the unbinders called, and whatever state the DSL words and the user keep.
\<close>

record ('e, 'u) world =
  reactions :: "nat \<Rightarrow> reaction option"
  next_reaction_id :: nid
  next_task_id :: nid
  current_task :: "reaction_task option"
  stats :: "nat \<Rightarrow> 'e reaction_statistics"
  stats_alloc :: nat
  times :: "nat \<Rightarrow> int"
  reads :: nat
  emissions :: "emitted list"
  unbound :: "(nat \<times> nat) list"
  user :: 'u

definition emit :: "emitted \<Rightarrow> ('e, 'u) world \<Rightarrow> ('e, 'u) world" where
  "emit ev w = w\<lparr>emissions := emissions w @ [ev]\<rparr>"

definition upd_reaction :: "nat \<Rightarrow> (reaction \<Rightarrow> reaction) \<Rightarrow> ('e, 'u) world \<Rightarrow> ('e, 'u) world" where
  "upd_reaction a f w = w\<lparr>reactions := (reactions w)(a := map_option f (reactions w a))\<rparr>"

definition upd_stats ::
  "nat \<Rightarrow> ('e reaction_statistics \<Rightarrow> 'e reaction_statistics) \<Rightarrow> ('e, 'u) world \<Rightarrow> ('e, 'u) world"
where
  "upd_stats a f w = w\<lparr>stats := (stats w)(a := f (stats w a))\<rparr>"

text \<open>\<open>Event::now()\<close>: one reading of the clock.\<close>

definition event_now :: "('e, 'u) world \<Rightarrow> int \<times> ('e, 'u) world" where
  "event_now w = (times w (reads w), w\<lparr>reads := Suc (reads w)\<rparr>)"

section \<open>Reaction and ReactionHandle\<close>

definition reaction_next_id :: "('e, 'u) world \<Rightarrow> nid \<times> ('e, 'u) world" where
  "reaction_next_id w = (next_reaction_id w, w\<lparr>next_reaction_id := next_reaction_id w + 1\<rparr>)"

definition new_reaction :: "nat \<Rightarrow> reaction_identifiers \<Rightarrow> ('e, 'u) world \<Rightarrow> ('e, 'u) world" where
  "new_reaction a idents w =
     (let (i, w') = reaction_next_id w
      in w'\<lparr>reactions := (reactions w')(a \<mapsto>
            \<lparr>r_identifiers = idents, r_id = i, r_emit_stats = True, r_active_tasks = 0, r_enabled = True,
             r_unbinders = []\<rparr>)\<rparr>)"

definition reaction_unbind :: "nat \<Rightarrow> ('e, 'u) world \<Rightarrow> ('e, 'u) world" where
  "reaction_unbind a w =
     (case reactions w a of
        None \<Rightarrow> w
      | Some r \<Rightarrow> w\<lparr>unbound := unbound w @ map (\<lambda>u. (a, u)) (r_unbinders r)\<rparr>)"

text \<open>A handle holds a \<open>weak_ptr\<close>: every operation is a no-op once the reaction is gone.\<close>

definition handle_enable :: "bool \<Rightarrow> nat \<Rightarrow> ('e, 'u) world \<Rightarrow> ('e, 'u) world" where
  "handle_enable on a w = upd_reaction a (\<lambda>r. r\<lparr>r_enabled := on\<rparr>) w"

definition handle_enabled :: "nat \<Rightarrow> ('e, 'u) world \<Rightarrow> bool" where
  "handle_enabled a w = (case reactions w a of None \<Rightarrow> False | Some r \<Rightarrow> r_enabled r)"

definition handle_unbind :: "nat \<Rightarrow> ('e, 'u) world \<Rightarrow> ('e, 'u) world" where
  "handle_unbind a w = (case reactions w a of None \<Rightarrow> w | Some _ \<Rightarrow> reaction_unbind a w)"

definition handle_bool :: "nat \<Rightarrow> ('e, 'u) world \<Rightarrow> bool" where
  "handle_bool a w = (reactions w a \<noteq> None)"

section \<open>Constructing and destroying a task\<close>

definition task_next_id :: "('e, 'u) world \<Rightarrow> nid \<times> ('e, 'u) world" where
  "task_next_id w = (next_task_id w, w\<lparr>next_task_id := next_task_id w + 1\<rparr>)"

definition parent_of :: "reaction_task \<Rightarrow> ('e, 'u) world \<Rightarrow> reaction option" where
  "parent_of t w = Option.bind (t_parent t) (reactions w)"

text \<open>\<open>make_statistics\<close>: none when the parent or the causing task has them disabled.\<close>

definition make_statistics :: "reaction_task \<Rightarrow> ('e, 'u) world \<Rightarrow> nat option \<times> ('e, 'u) world" where
  "make_statistics t w =
     (if (case parent_of t w of None \<Rightarrow> False | Some r \<Rightarrow> \<not> r_emit_stats r)
         \<or> (case current_task w of None \<Rightarrow> False | Some ct \<Rightarrow> t_statistics ct = None)
      then (None, w)
      else
        let cause_reaction = (case current_task w of None \<Rightarrow> 0
              | Some ct \<Rightarrow> (case parent_of ct w of None \<Rightarrow> 0 | Some r \<Rightarrow> r_id r));
            cause_task = (case current_task w of None \<Rightarrow> 0 | Some ct \<Rightarrow> t_id ct);
            target_reaction = (case parent_of t w of None \<Rightarrow> 0 | Some r \<Rightarrow> r_id r);
            (created, w1) = event_now w;
            s = \<lparr>rs_identifiers = map_option r_identifiers (parent_of t w),
                 rs_cause = \<lparr>reaction_id = cause_reaction, task_id = cause_task\<rparr>,
                 rs_target = \<lparr>reaction_id = target_reaction, task_id = t_id t\<rparr>,
                 rs_target_pool = t_pool t, rs_target_groups = t_groups t,
                 rs_created = Some created, rs_started = None, rs_finished = None, rs_exception = None\<rparr>;
            a = stats_alloc w1
        in (Some a, w1\<lparr>stats := (stats w1)(a := s), stats_alloc := Suc a\<rparr>))"

text \<open>
  The DSL functions of a reaction. Those that run while the task is made read the world and may
  change the state of the words (\<open>'u\<close>); \<open>run_inline\<close> may throw (\<open>InlineFuser\<close> does). Those
  that run with the task are world transformers that may throw.
\<close>

record ('d, 'e, 'u) dsl_ops =
  op_priority :: "reaction_task \<Rightarrow> ('e, 'u) world \<Rightarrow> int"
  op_inline :: "reaction_task \<Rightarrow> ('e, 'u) world \<Rightarrow> 'e + Inline"
  op_pool :: "reaction_task \<Rightarrow> ('e, 'u) world \<Rightarrow> pool_descriptor"
  op_group :: "reaction_task \<Rightarrow> ('e, 'u) world \<Rightarrow> group_descriptor list"
  op_precondition :: "reaction_task \<Rightarrow> ('e, 'u) world \<Rightarrow> bool \<times> 'u"
  op_get :: "reaction_task \<Rightarrow> ('e, 'u) world \<Rightarrow> 'd list \<times> 'u"
  op_good :: "'d \<Rightarrow> bool"
  op_scope :: "reaction_task \<Rightarrow> ('e, 'u) world \<Rightarrow> 'e option \<times> ('e, 'u) world"
  op_pre_run :: "reaction_task \<Rightarrow> ('e, 'u) world \<Rightarrow> 'e option \<times> ('e, 'u) world"
  op_callback :: "'d list \<Rightarrow> ('e, 'u) world \<Rightarrow> 'e option \<times> ('e, 'u) world"
  op_post_run :: "reaction_task \<Rightarrow> ('e, 'u) world \<Rightarrow> 'e option \<times> ('e, 'u) world"
  op_scope_exit :: "reaction_task \<Rightarrow> ('e, 'u) world \<Rightarrow> ('e, 'u) world"

text \<open>
  The constructor, member by member in declaration order (a later DSL function sees the earlier
  members; the ones not yet initialised are given their defaults here), then the active count and
  the inline resolution.
\<close>

definition resolve_inline :: "Inline \<Rightarrow> bool \<Rightarrow> bool" where
  "resolve_inline i request_inline =
     (case i of NEVER \<Rightarrow> False | ALWAYS \<Rightarrow> True | NEUTRAL \<Rightarrow> request_inline)"

definition blank_task :: "nat option \<Rightarrow> nid \<Rightarrow> reaction_task" where
  "blank_task p i =
     \<lparr>t_parent = p, t_id = i, t_run_inline = False, t_priority = 0, t_should_inline = NEUTRAL,
      t_pool = \<lparr>pd_ref = 0, pd_name = [], pd_concurrency = 0, pd_counts_for_idle = False, pd_persistent = False\<rparr>,
      t_groups = [], t_statistics = None\<rparr>"

definition bump_active :: "int \<Rightarrow> nat option \<Rightarrow> ('e, 'u) world \<Rightarrow> ('e, 'u) world" where
  "bump_active d p w =
     (case p of None \<Rightarrow> w | Some a \<Rightarrow> upd_reaction a (\<lambda>r. r\<lparr>r_active_tasks := r_active_tasks r + d\<rparr>) w)"

definition construct_task ::
  "nat option \<Rightarrow> bool \<Rightarrow> ('d, 'e, 'u) dsl_ops \<Rightarrow> ('e, 'u) world \<Rightarrow> ('e + reaction_task) \<times> ('e, 'u) world"
where
  "construct_task parent request_inline ops w =
     (let (i, w1) = task_next_id w;
          t0 = blank_task parent i;
          t1 = t0\<lparr>t_priority := op_priority ops t0 w1\<rparr>
      in case op_inline ops t1 w1 of
           Inl e \<Rightarrow> (Inl e, w1)
         | Inr inl \<Rightarrow>
             let t2 = t1\<lparr>t_should_inline := inl\<rparr>;
                 t3 = t2\<lparr>t_pool := op_pool ops t2 w1\<rparr>;
                 t4 = t3\<lparr>t_groups := op_group ops t3 w1\<rparr>;
                 (st, w2) = make_statistics t4 w1;
                 t5 = t4\<lparr>t_statistics := st\<rparr>;
                 w3 = bump_active 1 parent w2
             in (Inr (t5\<lparr>t_run_inline := resolve_inline inl request_inline\<rparr>), w3))"

definition destroy_task :: "reaction_task \<Rightarrow> ('e, 'u) world \<Rightarrow> ('e, 'u) world" where
  "destroy_task t w = bump_active (- 1) (t_parent t) w"

section \<open>CallbackGenerator\<close>

text \<open>\<open>MergeTransients::merge\<close>: \<open>d = t = d ? d : t\<close>, on the data the words mark as transient.\<close>

definition merge_transient :: "('d \<Rightarrow> bool) \<Rightarrow> 'd \<Rightarrow> 'd \<Rightarrow> 'd \<times> 'd" where
  "merge_transient good t d = (let v = (if good d then d else t) in (v, v))"

text \<open>
  The generator keeps one stored value per transient element; \<open>dindex\<close> are their positions in
  the data tuple (\<open>TransientDataElements<DSL>::index\<close>).
\<close>

fun merge_transients :: "('d \<Rightarrow> bool) \<Rightarrow> nat list \<Rightarrow> 'd list \<Rightarrow> 'd list \<Rightarrow> 'd list \<times> 'd list" where
  "merge_transients good [] ts data = (ts, data)"
| "merge_transients good (i # is) [] data = ([], data)"
| "merge_transients good (i # is) (t # ts) data =
     (let (t', d') = merge_transient good t (data ! i);
          (ts', data') = merge_transients good is ts (data[i := d'])
      in (t' # ts', data'))"

definition check_data :: "('d \<Rightarrow> bool) \<Rightarrow> 'd list \<Rightarrow> bool" where
  "check_data good data = list_all good data"

record ('d, 'e, 'u) generator =
  g_ops :: "('d, 'e, 'u) dsl_ops"
  g_dindex :: "nat list"
  g_transients :: "'d list"

definition emit_event :: "event_kind \<Rightarrow> reaction_task \<Rightarrow> ('e, 'u) world \<Rightarrow> ('e, 'u) world" where
  "emit_event k t w = (case t_statistics t of None \<Rightarrow> w | Some a \<Rightarrow> emit (ReactionEvent k a) w)"

text \<open>\<open>CallbackGenerator::operator()\<close>: an exception of the constructor leaves it.\<close>

definition call_operator ::
  "nat \<Rightarrow> bool \<Rightarrow> ('d, 'e, 'u) generator \<Rightarrow> ('e, 'u) world
    \<Rightarrow> ('e + (reaction_task \<times> 'd list) option) \<times> ('d, 'e, 'u) generator \<times> ('e, 'u) world"
where
  "call_operator r request_inline g w =
     (let ops = g_ops g in
      case construct_task (Some r) request_inline ops w of
        (Inl e, w1) \<Rightarrow> (Inl e, g, w1)
      | (Inr task, w1) \<Rightarrow>
          (let (run, u) = op_precondition ops task w1; w2 = w1\<lparr>user := u\<rparr> in
           if \<not> run then (Inr None, g, destroy_task task (emit_event BLOCKED task w2))
           else
             let (data, u') = op_get ops task w2;
                 w3 = w2\<lparr>user := u'\<rparr>;
                 (ts, data') = merge_transients (op_good ops) (g_dindex g) (g_transients g) data;
                 g' = g\<lparr>g_transients := ts\<rparr>
             in if \<not> check_data (op_good ops) data'
                then (Inr None, g', destroy_task task (emit_event MISSING_DATA task w3))
                else (Inr (Some (task, data')), g', emit_event CREATED task w3)))"

definition get_task ::
  "nat \<Rightarrow> bool \<Rightarrow> ('d, 'e, 'u) generator \<Rightarrow> ('e, 'u) world
    \<Rightarrow> ('e + (reaction_task \<times> 'd list) option) \<times> ('d, 'e, 'u) generator \<times> ('e, 'u) world"
where
  "get_task r request_inline g w =
     (if \<not> handle_enabled r w then (Inr None, g, w) else call_operator r request_inline g w)"

text \<open>
  The bound callback. \<open>try_steps\<close> is the body of its \<open>try\<close> block: the first exception ends it;
  the scope object is destroyed on both ways out once it has been constructed.
\<close>

definition try_steps ::
  "('d, 'e, 'u) dsl_ops \<Rightarrow> reaction_task \<Rightarrow> 'd list \<Rightarrow> ('e, 'u) world \<Rightarrow> 'e option \<times> ('e, 'u) world"
where
  "try_steps ops t data w =
     (case op_scope ops t w of
        (Some e, w1) \<Rightarrow> (Some e, w1)
      | (None, w1) \<Rightarrow>
          (let (r, w4) =
             (case op_pre_run ops t w1 of
                (Some e, w2) \<Rightarrow> (Some e, w2)
              | (None, w2) \<Rightarrow>
                  (case op_callback ops data w2 of
                     (Some e, w3) \<Rightarrow> (Some e, w3)
                   | (None, w3) \<Rightarrow> op_post_run ops t w3))
           in (r, op_scope_exit ops t w4)))"

definition bound_callback ::
  "('d, 'e, 'u) dsl_ops \<Rightarrow> reaction_task \<Rightarrow> 'd list \<Rightarrow> ('e, 'u) world \<Rightarrow> ('e, 'u) world"
where
  "bound_callback ops t data w =
     (let w1 = emit (SetThreadPriority (t_priority t)) w;
          w2 = (case t_statistics t of
                  None \<Rightarrow> w1
                | Some a \<Rightarrow> (let (now, w') = event_now w1
                             in emit_event STARTED t (upd_stats a (\<lambda>s. s\<lparr>rs_started := Some now\<rparr>) w')));
          (exn, w3) = try_steps ops t data w2
      in case t_statistics t of
           None \<Rightarrow> w3
         | Some a \<Rightarrow>
             (let w4 = (case exn of None \<Rightarrow> w3 | Some e \<Rightarrow> upd_stats a (\<lambda>s. s\<lparr>rs_exception := Some e\<rparr>) w3);
                  (now, w5) = event_now w4;
                  w6 = emit_event FINISHED t (upd_stats a (\<lambda>s. s\<lparr>rs_finished := Some now\<rparr>) w5)
              in emit (EmitStatistics a) w6))"

definition run_task ::
  "('d, 'e, 'u) dsl_ops \<Rightarrow> reaction_task \<Rightarrow> 'd list \<Rightarrow> ('e, 'u) world \<Rightarrow> ('e, 'u) world"
where
  "run_task ops t data w =
     (let old = current_task w;
          w1 = bound_callback ops t data (w\<lparr>current_task := Some t\<rparr>)
      in w1\<lparr>current_task := old\<rparr>)"

section \<open>Buffer, Single and Once\<close>

definition buffer_precondition :: "int \<Rightarrow> reaction_task \<Rightarrow> ('e, 'u) world \<Rightarrow> bool \<times> 'u" where
  "buffer_precondition n t w =
     ((case parent_of t w of None \<Rightarrow> False | Some r \<Rightarrow> r_active_tasks r < n + 1), user w)"

definition single_precondition :: "reaction_task \<Rightarrow> ('e, 'u) world \<Rightarrow> bool \<times> 'u" where
  "single_precondition = buffer_precondition 1"

definition once_post_run :: "reaction_task \<Rightarrow> ('e, 'u) world \<Rightarrow> 'e option \<times> ('e, 'u) world" where
  "once_post_run t w = (None, case t_parent t of None \<Rightarrow> w | Some a \<Rightarrow> reaction_unbind a w)"

section \<open>What the parts leave alone\<close>

definition active_of :: "nat \<Rightarrow> ('e, 'u) world \<Rightarrow> int" where
  "active_of a w = (case reactions w a of None \<Rightarrow> 0 | Some r \<Rightarrow> r_active_tasks r)"

named_theorems world_simps

lemma emit_frame [world_simps]:
  "reactions (emit ev w) = reactions w" "emissions (emit ev w) = emissions w @ [ev]"
  "current_task (emit ev w) = current_task w" "stats (emit ev w) = stats w"
  by (simp_all add: emit_def)

lemma emit_event_frame [world_simps]:
  "reactions (emit_event k t w) = reactions w" "current_task (emit_event k t w) = current_task w"
  "emissions (emit_event k t w)
     = emissions w @ (case t_statistics t of None \<Rightarrow> [] | Some a \<Rightarrow> [ReactionEvent k a])"
  by (simp_all add: emit_event_def world_simps split: option.splits)

lemma event_now_frame [world_simps]:
  "reactions (snd (event_now w)) = reactions w" "emissions (snd (event_now w)) = emissions w"
  "current_task (snd (event_now w)) = current_task w" "stats (snd (event_now w)) = stats w"
  by (simp_all add: event_now_def)

lemma make_statistics_frame [world_simps]:
  "reactions (snd (make_statistics t w)) = reactions w"
  "emissions (snd (make_statistics t w)) = emissions w"
  "current_task (snd (make_statistics t w)) = current_task w"
  by (simp_all add: make_statistics_def event_now_def Let_def)

lemma bump_active_frame [world_simps]:
  "emissions (bump_active d p w) = emissions w" "current_task (bump_active d p w) = current_task w"
  "stats (bump_active d p w) = stats w"
  by (simp_all add: bump_active_def upd_reaction_def split: option.splits)

lemma active_of_bump:
  "active_of a (bump_active d p w)
     = active_of a w + (if p = Some a \<and> reactions w a \<noteq> None then d else 0)"
  by (auto simp: active_of_def bump_active_def upd_reaction_def split: option.splits)

lemma bump_keeps_reactions:
  "reactions (bump_active d p w) a = None \<longleftrightarrow> reactions w a = None"
  by (auto simp: bump_active_def upd_reaction_def split: option.splits)

lemma bump_keeps_some:
  "(\<exists>y. reactions (bump_active d p w) a = Some y) \<longleftrightarrow> (\<exists>y. reactions w a = Some y)"
  using bump_keeps_reactions [of d p w a] by (metis not_Some_eq)

lemma active_of_cong: "reactions w = reactions w' \<Longrightarrow> active_of a w = active_of a w'"
  by (simp add: active_of_def)

lemma construct_task_frame:
  "construct_task p ri ops w = (res, w') \<Longrightarrow>
   emissions w' = emissions w \<and> (reactions w' a = None \<longleftrightarrow> reactions w a = None)
   \<and> active_of a w' = active_of a w
       + (if p = Some a \<and> reactions w a \<noteq> None \<and> (\<exists>t. res = Inr t) then 1 else 0)
   \<and> (\<forall>t. res = Inr t \<longrightarrow> t_parent t = p)"
  by (auto simp: construct_task_def task_next_id_def blank_task_def Let_def split_beta world_simps
      active_of_bump bump_keeps_reactions split: sum.splits)
    (auto simp: active_of_def world_simps)

section \<open>The count of active tasks\<close>

text \<open>What one request for a task adds to the event stream, given its outcome.\<close>

definition accepted :: "('e + (reaction_task \<times> 'd list) option) \<Rightarrow> int" where
  "accepted res = (case res of Inr (Some _) \<Rightarrow> 1 | _ \<Rightarrow> 0)"

lemma get_task_account:
  assumes "get_task r ri g w = (res, g', w')"
  shows "active_of a w' = active_of a w + (if a = r \<and> reactions w r \<noteq> None then accepted res else 0)
    \<and> (reactions w' a = None \<longleftrightarrow> reactions w a = None)"
proof (cases "handle_enabled r w")
  case False
  then show ?thesis using assms by (auto simp: get_task_def accepted_def)
next
  case True
  obtain c w1 where c: "construct_task (Some r) ri (g_ops g) w = (c, w1)"
    by (cases "construct_task (Some r) ri (g_ops g) w")
  note fr = construct_task_frame [OF c]
  show ?thesis
  proof (cases c)
    case (Inl e)
    then show ?thesis
      using assms True c fr [of a] by (auto simp: get_task_def call_operator_def accepted_def Let_def)
  next
    case (Inr t)
    have par: "t_parent t = Some r"
      using fr Inr by simp
    have act: "active_of a (w1\<lparr>user := u\<rparr>) = active_of a w1" for u
      by (simp add: active_of_def)
    have act': "active_of a (emit_event k t w) = active_of a w" for k w
      by (rule active_of_cong) (simp add: world_simps)
    show ?thesis
      using assms True c Inr fr [of a]
      by (auto simp: get_task_def call_operator_def Let_def split_beta destroy_task_def par act act'
          active_of_bump accepted_def world_simps bump_keeps_reactions bump_keeps_some split: if_splits prod.splits)
  qed
qed

text \<open>
  A history of one program: requests for tasks of reactions (each with its generator) and the
  destruction of tasks that were handed out. \<open>live\<close> lists the tasks not yet destroyed.
\<close>

datatype ('d, 'e, 'u) task_op = Request nat bool "('d, 'e, 'u) generator" | Destroy nat

fun task_op_step ::
  "('d, 'e, 'u) task_op \<Rightarrow> reaction_task list \<times> ('e, 'u) world \<Rightarrow> reaction_task list \<times> ('e, 'u) world"
where
  "task_op_step (Request r ri g) (live, w) =
     (case get_task r ri g w of
        (Inr (Some (t, _)), _, w') \<Rightarrow> (live @ [t], w')
      | (_, _, w') \<Rightarrow> (live, w'))"
| "task_op_step (Destroy i) (live, w) =
     (if i < length live then (take i live @ drop (Suc i) live, destroy_task (live ! i) w) else (live, w))"

definition live_of :: "nat \<Rightarrow> reaction_task list \<Rightarrow> int" where
  "live_of a live = sum_list (map (\<lambda>t. if t_parent t = Some a then 1 else 0) live)"

lemma construct_task_parent: "fst (construct_task p ri ops w) = Inr t \<Longrightarrow> t_parent t = p"
  using construct_task_frame [of p ri ops w] by (metis prod.collapse)

lemma get_task_parent:
  "get_task r ri g w = (Inr (Some (t, d)), g', w') \<Longrightarrow> t_parent t = Some r"
  by (auto simp: get_task_def call_operator_def Let_def split_beta construct_task_parent
      split: if_splits prod.splits sum.splits)

lemma live_of_remove:
  "i < length live \<Longrightarrow> live_of a (take i live @ drop (Suc i) live)
    = live_of a live - (if t_parent (live ! i) = Some a then 1 else 0)"
proof -
  assume i: "i < length live"
  have "live_of a live = live_of a (take i live @ live ! i # drop (Suc i) live)"
    using id_take_nth_drop [OF i] by simp
  then show ?thesis by (simp add: live_of_def)
qed

lemma task_op_step_account:
  assumes "reactions (snd s) a \<noteq> None" and "active_of a (snd s) = live_of a (fst s)"
  shows "reactions (snd (task_op_step ev s)) a \<noteq> None
    \<and> active_of a (snd (task_op_step ev s)) = live_of a (fst (task_op_step ev s))"
proof (cases ev; cases s)
  fix r ri g live w
  assume ev: "ev = Request r ri g" and s: "s = (live, w)"
  obtain res g' w' where g: "get_task r ri g w = (res, g', w')"
    by (cases "get_task r ri g w") auto
  show ?thesis
    using get_task_account [OF g, of a] g ev s assms get_task_parent [of r ri g w]
    by (auto simp: accepted_def live_of_def split: sum.splits option.splits prod.splits)
next
  fix i live w
  assume ev: "ev = Destroy i" and s: "s = (live, w)"
  show ?thesis
    using ev s assms
    by (auto simp: destroy_task_def active_of_bump live_of_remove bump_keeps_some)
qed

text \<open>
  C18. The task count of a reaction is exact: over any history of requests (accepted, blocked by a
  precondition, lacking data, or leaving the constructor with an exception) and destructions, the
  \<open>active_tasks\<close> of an existing reaction equals the number of its tasks handed out and not yet
  destroyed; a refused request leaves nothing behind.
\<close>

theorem active_tasks_counts_live:
  assumes "reactions w a \<noteq> None" and "active_of a w = 0"
  shows "active_of a (snd (fold task_op_step evs ([], w))) = live_of a (fst (fold task_op_step evs ([], w)))"
proof -
  have "reactions (snd s) a \<noteq> None \<Longrightarrow> active_of a (snd s) = live_of a (fst s) \<Longrightarrow>
    active_of a (snd (fold task_op_step evs s)) = live_of a (fst (fold task_op_step evs s))" for s
    by (induction evs arbitrary: s) (simp, metis task_op_step_account fold_simps(2))
  then show ?thesis using assms by (simp add: live_of_def)
qed


text \<open>A concrete reaction for the examples below: no DSL words beyond \<open>Buffer<n>\<close>.\<close>

definition example_pool :: pool_descriptor where
  "example_pool = \<lparr>pd_ref = 1, pd_name = ''Default'', pd_concurrency = 2, pd_counts_for_idle = True,
                   pd_persistent = False\<rparr>"

definition example_ops :: "int \<Rightarrow> (nat, string, unit) dsl_ops" where
  "example_ops n =
     \<lparr>op_priority = (\<lambda>_ _. 500), op_inline = (\<lambda>_ _. Inr NEUTRAL), op_pool = (\<lambda>_ _. example_pool),
      op_group = (\<lambda>_ _. []), op_precondition = buffer_precondition n, op_get = (\<lambda>_ _. ([7], ())),
      op_good = (\<lambda>d. d \<noteq> 0), op_scope = (\<lambda>_ w. (None, w)), op_pre_run = (\<lambda>_ w. (None, w)),
      op_callback = (\<lambda>_ w. (Some ''boom'', w)), op_post_run = (\<lambda>_ w. (None, w)), op_scope_exit = (\<lambda>_ w. w)\<rparr>"

definition example_gen :: "int \<Rightarrow> (nat, string, unit) generator" where
  "example_gen n = \<lparr>g_ops = example_ops n, g_dindex = [], g_transients = []\<rparr>"

definition example_world :: "(string, unit) world" where
  "example_world =
     new_reaction 10 \<lparr>ri_name = ''r'', ri_reactor = ''R'', ri_dsl = ''on'', ri_function = ''f''\<rparr>
       \<lparr>reactions = (\<lambda>_. None), next_reaction_id = 1, next_task_id = 1, current_task = None,
        stats = (\<lambda>_. undefined), stats_alloc = 0, times = int, reads = 0, emissions = [], unbound = [], user = ()\<rparr>"

lemmas example_defs = example_world_def new_reaction_def reaction_next_id_def example_gen_def example_ops_def
  get_task_def call_operator_def construct_task_def task_next_id_def blank_task_def make_statistics_def
  parent_of_def event_now_def handle_enabled_def buffer_precondition_def bump_active_def upd_reaction_def
  emit_event_def emit_def check_data_def destroy_task_def resolve_inline_def

theorem active_tasks_counts_live_witness:
  "active_of 10 (snd (fold task_op_step
     [Request 10 False (example_gen 1), Request 10 False (example_gen 1)] ([], example_world)))
   = live_of 10 (fst (fold task_op_step
     [Request 10 False (example_gen 1), Request 10 False (example_gen 1)] ([], example_world)))"
  by (rule active_tasks_counts_live) (simp_all add: active_of_def example_defs)


section \<open>Running a task\<close>

text \<open>
  C19. Running a bound task. Inside, the thread's current task is the running one, the STARTED event
  has been emitted with its time recorded; whatever the scope, the pre-run, the user callback and the
  post-run do, including throwing, the run ends with the FINISHED event and the statistics message as
  the last two emissions, the exception that ended it recorded in the statistics, and the thread's
  previous current task restored. A task without statistics emits nothing itself and records nothing.
\<close>

theorem run_task_lifecycle:
  assumes w2: "w2 = (case t_statistics t of
        None \<Rightarrow> emit (SetThreadPriority (t_priority t)) (w\<lparr>current_task := Some t\<rparr>)
      | Some a \<Rightarrow> emit_event STARTED t (upd_stats a (\<lambda>s. s\<lparr>rs_started := Some (times w (reads w))\<rparr>)
          ((emit (SetThreadPriority (t_priority t)) (w\<lparr>current_task := Some t\<rparr>))\<lparr>reads := Suc (reads w)\<rparr>)))"
    and tried: "try_steps ops t data w2 = (exn, w3)"
  shows "current_task (run_task ops t data w) = current_task w
    \<and> current_task w2 = Some t
    \<and> emissions (run_task ops t data w) = emissions w3
        @ (case t_statistics t of None \<Rightarrow> [] | Some a \<Rightarrow> [ReactionEvent FINISHED a, EmitStatistics a])
    \<and> emissions w2 = emissions w @ SetThreadPriority (t_priority t)
        # (case t_statistics t of None \<Rightarrow> [] | Some a \<Rightarrow> [ReactionEvent STARTED a])
    \<and> stats (run_task ops t data w) = (case t_statistics t of
          None \<Rightarrow> stats w3
        | Some a \<Rightarrow> (stats w3)(a := (stats w3 a)\<lparr>
              rs_exception := (case exn of None \<Rightarrow> rs_exception (stats w3 a) | Some e \<Rightarrow> Some e),
              rs_finished := Some (times w3 (reads w3))\<rparr>))"
proof (cases "t_statistics t")
  case None
  then show ?thesis
    using w2 tried by (simp add: run_task_def bound_callback_def emit_def)
next
  case (Some a)
  have "bound_callback ops t data (w\<lparr>current_task := Some t\<rparr>) =
    (let w4 = (case exn of None \<Rightarrow> w3 | Some e \<Rightarrow> upd_stats a (\<lambda>s. s\<lparr>rs_exception := Some e\<rparr>) w3);
         w6 = emit_event FINISHED t (upd_stats a (\<lambda>s. s\<lparr>rs_finished := Some (times w4 (reads w4))\<rparr>)
               (w4\<lparr>reads := Suc (reads w4)\<rparr>))
     in emit (EmitStatistics a) w6)"
    using w2 tried Some by (simp add: bound_callback_def event_now_def emit_def Let_def split: prod.splits)
  then show ?thesis
    using w2 Some
    by (cases exn) (simp_all add: run_task_def emit_event_def emit_def upd_stats_def Let_def)
qed

theorem run_task_lifecycle_witness:
  "\<exists>t d w. get_task 10 False (example_gen 1) example_world = (Inr (Some (t, d)), example_gen 1, w)
     \<and> emissions (run_task (example_ops 1) t d w)
         = [ReactionEvent CREATED 0, SetThreadPriority 500, ReactionEvent STARTED 0,
            ReactionEvent FINISHED 0, EmitStatistics 0]
     \<and> rs_exception (stats (run_task (example_ops 1) t d w) 0) = Some ''boom''
     \<and> current_task (run_task (example_ops 1) t d w) = None"
proof -
  obtain t d w where g: "get_task 10 False (example_gen 1) example_world = (Inr (Some (t, d)), example_gen 1, w)"
      and t: "t_statistics t = Some 0" "t_priority t = 500"
      and w: "emissions w = [ReactionEvent CREATED 0]" "current_task w = None"
    by (simp add: example_defs)
  define w2 where "w2 = emit_event STARTED t (upd_stats 0 (\<lambda>s. s\<lparr>rs_started := Some (times w (reads w))\<rparr>)
          ((emit (SetThreadPriority (t_priority t)) (w\<lparr>current_task := Some t\<rparr>))\<lparr>reads := Suc (reads w)\<rparr>))"
  have tr: "try_steps (example_ops 1) t d w2 = (Some ''boom'', w2)"
    by (simp add: try_steps_def example_ops_def)
  have "emissions w2 = [ReactionEvent CREATED 0, SetThreadPriority 500, ReactionEvent STARTED 0]"
    using t w by (simp add: w2_def emit_event_def emit_def upd_stats_def)
  then show ?thesis
    using g t w run_task_lifecycle [OF _ tr, of w] by (intro exI [of _ t] exI [of _ d] exI [of _ w]) (simp add: w2_def)
qed

section \<open>Ids\<close>

definition take_task_ids :: "nat \<Rightarrow> ('e, 'u) world \<Rightarrow> nid list \<times> ('e, 'u) world" where
  "take_task_ids k w = ((\<lambda>(ids, w). let (i, w') = task_next_id w in (ids @ [i], w')) ^^ k) ([], w)"

lemma take_task_ids_eq:
  "take_task_ids k w
     = (map (\<lambda>j. next_task_id w + of_nat j) [0 ..< k], w\<lparr>next_task_id := next_task_id w + of_nat k\<rparr>)"
  unfolding take_task_ids_def by (induction k) (simp_all add: task_next_id_def Let_def)

text \<open>
  Task ids, a 64-bit counter that starts at 1, are pairwise distinct and never 0 (the id that
  means \<open>no task\<close>) for the first \<open>2^64 - 1\<close> tasks; the next one is 0.
\<close>

theorem task_ids_unique:
  assumes "next_task_id w = 1"
  shows "(k < 2 ^ 64 \<longrightarrow> distinct (fst (take_task_ids k w)) \<and> 0 \<notin> set (fst (take_task_ids k w)))
    \<and> fst (task_next_id (snd (take_task_ids (2 ^ 64 - 1) w))) = 0"
proof (intro conjI impI)
  assume k: "k < 2 ^ 64"
  have un: "unat (1 + of_nat j :: 64 word) = Suc j" if "j < k" for j
  proof -
    have "1 + of_nat j = (of_nat (Suc j) :: 64 word)"
      by simp
    then show ?thesis
      using that k by (simp only: unat_of_nat take_bit_nat_def) simp
  qed
  have inj: "inj_on (\<lambda>j. 1 + of_nat j :: 64 word) (set [0 ..< k])"
    by (rule inj_onI) (metis Suc_inject atLeastLessThan_iff set_upt un)
  show "distinct (fst (take_task_ids k w))"
    using inj assms by (simp add: take_task_ids_eq distinct_map)
  show "0 \<notin> set (fst (take_task_ids k w))"
    using un assms by (auto simp: take_task_ids_eq) (metis Zero_not_Suc unat_0)
next
  have "next_task_id w + of_nat (2 ^ 64 - 1) = 0"
    using assms by simp
  then show "fst (task_next_id (snd (take_task_ids (2 ^ 64 - 1) w))) = 0"
    unfolding take_task_ids_eq by (simp only: snd_conv task_next_id_def fst_conv) simp
qed

theorem task_ids_unique_witness:
  "distinct (fst (take_task_ids 3 example_world)) \<and> fst (take_task_ids 3 example_world) = [1, 2, 3]"
proof
  have one: "next_task_id example_world = 1"
    by (simp add: example_world_def new_reaction_def reaction_next_id_def)
  show "distinct (fst (take_task_ids 3 example_world))"
    using task_ids_unique [OF one, of 3] by simp
  show "fst (take_task_ids 3 example_world) = [1, 2, 3]"
    by (simp add: take_task_ids_eq one numeral_3_eq_3)
qed

section \<open>Buffer under concurrency\<close>

text \<open>
  The atomic steps each of any number of threads takes on one reaction with \<open>Buffer<n>\<close>: the
  constructor's \<open>fetch_add\<close>, the load the precondition compares, and the destructor's
  \<open>fetch_sub\<close>. A request is \<open>Counted\<close> after the first, and then either \<open>Held\<close> (handed out)
  or \<open>Refused\<close> (about to be destroyed). \<open>buffer_step n i\<close> is the next step of thread \<open>i\<close>.
\<close>

datatype buffer_pc = NoTask | Counted | Held | Refused

fun buffer_step :: "int \<Rightarrow> nat \<Rightarrow> int \<times> buffer_pc list \<Rightarrow> int \<times> buffer_pc list" where
  "buffer_step n i (active, pcs) =
     (if i < length pcs then
        (case pcs ! i of
           NoTask \<Rightarrow> (active + 1, pcs[i := Counted])
         | Counted \<Rightarrow> (active, pcs[i := (if active < n + 1 then Held else Refused)])
         | Held \<Rightarrow> (active - 1, pcs[i := NoTask])
         | Refused \<Rightarrow> (active - 1, pcs[i := NoTask]))
      else (active, pcs))"

definition buffer_live :: "buffer_pc list \<Rightarrow> int" where
  "buffer_live pcs = sum_list (map (\<lambda>c. if c = NoTask then 0 else 1) pcs)"

definition buffer_held :: "buffer_pc list \<Rightarrow> int" where
  "buffer_held pcs = sum_list (map (\<lambda>c. if c = Held then 1 else 0) pcs)"

definition buffer_inv :: "int \<Rightarrow> int \<times> buffer_pc list \<Rightarrow> bool" where
  "buffer_inv n s \<longleftrightarrow> fst s = buffer_live (snd s) \<and> buffer_held (snd s) \<le> n"

lemma buffer_held_live: "buffer_held pcs \<le> buffer_live pcs"
  unfolding buffer_held_def buffer_live_def by (induction pcs) auto

lemma buffer_step_inv:
  assumes "buffer_inv n s"
  shows "buffer_inv n (buffer_step n i s)"
proof (cases s)
  case (Pair active pcs)
  show ?thesis
  proof (cases "i < length pcs")
    case True
    have upd: "buffer_live (pcs[i := c]) = buffer_live pcs - (if pcs ! i = NoTask then 0 else 1) + (if c = NoTask then 0 else 1)"
        "buffer_held (pcs[i := c]) = buffer_held pcs - (if pcs ! i = Held then 1 else 0) + (if c = Held then 1 else 0)" for c
      using True by (simp_all add: buffer_live_def buffer_held_def list_upd_simps)
    show ?thesis
      using assms Pair True buffer_held_live [of "pcs[i := Held]"]
      by (cases "pcs ! i") (auto simp: buffer_inv_def upd)
  qed (use assms Pair in simp)
qed

lemma buffer_run_inv: "buffer_inv n s \<Longrightarrow> buffer_inv n (fold (buffer_step n) is s)"
  by (induction "is" arbitrary: s) (simp_all add: buffer_step_inv)

text \<open>
  C15. \<open>Buffer<n>\<close> holds in every interleaving: whatever threads race to create and destroy tasks of
  the reaction, at most \<open>n\<close> of its tasks are handed out at any time, and the counter always equals
  the number of requests between their increment and their decrement (so it returns to 0).
\<close>

theorem buffer_bound_all_schedules:
  assumes "0 \<le> n"
  shows "buffer_held (snd (fold (buffer_step n) sched (0, replicate k NoTask))) \<le> n
    \<and> fst (fold (buffer_step n) sched (0, replicate k NoTask))
        = buffer_live (snd (fold (buffer_step n) sched (0, replicate k NoTask)))"
proof -
  have "buffer_inv n (0, replicate k NoTask)"
    using assms by (simp add: buffer_inv_def buffer_live_def buffer_held_def sum_list_replicate)
  then show ?thesis
    using buffer_run_inv by (auto simp: buffer_inv_def)
qed

theorem buffer_bound_all_schedules_witness:
  "buffer_held (snd (fold (buffer_step 1) [0, 0, 1, 1, 0] (0, [NoTask, NoTask]))) = 0
   \<and> buffer_held (snd (fold (buffer_step 1) [0, 0, 1, 1] (0, [NoTask, NoTask]))) \<le> 1"
  using buffer_bound_all_schedules [of 1 "[0, 0, 1, 1]" 2]
  by (simp add: numeral_2_eq_2 buffer_held_def)

text \<open>The step of a thread that holds a counted request is the precondition of the word.\<close>

lemma buffer_step_is_precondition:
  assumes "reactions w a = Some r" and "t_parent t = Some a" and "i < length pcs" and "pcs ! i = Counted"
  shows "buffer_step n i (r_active_tasks r, pcs)
    = (r_active_tasks r, pcs[i := (if fst (buffer_precondition n t w) then Held else Refused)])"
  using assms by (simp add: buffer_precondition_def parent_of_def)

text \<open>
  What the bound costs: with \<open>Single\<close> (\<open>n = 1\<close>), two triggers that arrive together while no
  task of the reaction exists can refuse each other, so that neither runs. Both requests count
  themselves before either checks.
\<close>

theorem single_can_drop_both:
  "fold (buffer_step 1) [0, 1, 0, 1, 0, 1] (0, [NoTask, NoTask]) = (0, [NoTask, NoTask])
   \<and> snd (fold (buffer_step 1) [0, 1, 0, 1] (0, [NoTask, NoTask])) = [Refused, Refused]
   \<and> snd (fold (buffer_step 1) [0, 0] (0, [NoTask, NoTask])) = [Held, NoTask]"
  by simp

end
