(* ===== verification/Group_Tokens.thy ===== *)
theory Group_Tokens
  imports Reaction_Core
begin

text \<open>
  Groups (\<open>scheduler/Group.cpp\<close>, \<open>Group.hpp\<close>): the signed token counter, the five wait buckets of
  the lock-free fast path with the per-waiter arbiter slots, and the mutex-protected queue of lock
  handles of the slow path. Here each operation runs to its end before the next begins; the interleavings
  of the atomic steps inside them are in \<open>Group_Race\<close>. A wait bucket, a \<open>TaskQueue\<close>, is the list of
  its entries (\<open>Block_Queue\<close> proves that contract).
\<close>

section \<open>State\<close>

text \<open>A \<open>LockHandle\<close>; its \<open>notify\<close> function is the event \<open>EvNotify\<close> with the handle's address.\<close>

record lock_handle =
  lh_task_id :: nid
  lh_priority :: int
  lh_locked :: bool
  lh_notified :: bool

record 'p wait_entry =
  we_task :: reaction_task
  we_pool :: "'p option"
  we_clear_idle :: bool
  we_slot :: nat

text \<open>
  What a group does to the pools, in order: \<open>EvRegister\<close> and \<open>EvUnregister\<close> are the life of an
  \<open>ExternalWaiterRegistration\<close>, \<open>EvSubmit\<close> is \<open>Pool::submit\<close> of a task with a running lock
  (task, pool, clear_idle, force).
\<close>

datatype 'p group_event =
    EvRegister 'p
  | EvUnregister 'p
  | EvSubmit reaction_task "'p option" bool bool
  | EvNotify nat

text \<open>
  The arbiter slots and the handles are shared objects, so they live in stores by address.
  \<open>running\<close> counts the \<open>RunningLock\<close> objects alive (made by \<open>make_running_lock\<close> and not yet
  destroyed); the program has no such variable.
\<close>

record 'p group =
  concurrency :: int
  tokens :: int
  slow_pending :: int
  wait_buckets :: "'p wait_entry list list"
  slots :: "nat \<Rightarrow> bool"
  slot_alloc :: nat
  queue :: "nat list"
  handles :: "nat \<Rightarrow> lock_handle"
  handle_alloc :: nat
  running :: int
  events :: "'p group_event list"

definition new_group :: "group_descriptor \<Rightarrow> 'p group" where
  "new_group d = \<lparr>concurrency = gd_concurrency d, tokens = gd_concurrency d, slow_pending = 0,
     wait_buckets = replicate PRIORITY_BUCKETS [], slots = (\<lambda>_. False), slot_alloc = 0, queue = [],
     handles = (\<lambda>_. \<lparr>lh_task_id = 0, lh_priority = 0, lh_locked = False, lh_notified = False\<rparr>),
     handle_alloc = 0, running = 0, events = []\<rparr>"

definition log_event :: "'p group_event \<Rightarrow> 'p group \<Rightarrow> 'p group" where
  "log_event e g = g\<lparr>events := events g @ [e]\<rparr>"

definition add_tokens :: "int \<Rightarrow> 'p group \<Rightarrow> 'p group" where
  "add_tokens d g = g\<lparr>tokens := tokens g + d\<rparr>"

definition make_running_lock :: "'p group \<Rightarrow> 'p group" where
  "make_running_lock g = g\<lparr>running := running g + 1\<rparr>"

section \<open>Draining and releasing\<close>

text \<open>The first non-empty bucket, its front, and the buckets without it.\<close>

fun pop_buckets :: "'a list list \<Rightarrow> ('a \<times> 'a list list) option" where
  "pop_buckets [] = None"
| "pop_buckets (b # bs) =
     (case b of
        e # b' \<Rightarrow> Some (e, b' # bs)
      | [] \<Rightarrow> (case pop_buckets bs of None \<Rightarrow> None | Some (e, bs') \<Rightarrow> Some (e, [] # bs')))"

text \<open>\<open>WaitEntry\<close>'s destructor: the registration, if there is one, unregisters.\<close>

definition drop_registration :: "'p wait_entry \<Rightarrow> 'p group \<Rightarrow> 'p group" where
  "drop_registration e g = (case we_pool e of None \<Rightarrow> g | Some p \<Rightarrow> log_event (EvUnregister p) g)"

record drain_result =
  dr_drained :: bool
  dr_uncounted :: bool

definition drain_one_to_pool :: "'p group \<Rightarrow> drain_result \<times> 'p group" where
  "drain_one_to_pool g =
     (case pop_buckets (wait_buckets g) of
        None \<Rightarrow> (\<lparr>dr_drained = False, dr_uncounted = False\<rparr>, g)
      | Some (e, bs) \<Rightarrow>
          (let uncounted = \<not> slots g (we_slot e);
               g1 = g\<lparr>wait_buckets := bs, slots := (slots g)(we_slot e := True)\<rparr>;
               g2 = make_running_lock g1;
               g3 = log_event (EvSubmit (we_task e) (we_pool e) (we_clear_idle e) True) g2
           in (\<lparr>dr_drained = True, dr_uncounted = uncounted\<rparr>, drop_registration e g3)))"

text \<open>The statement every caller of \<open>drain_one_to_pool\<close> makes with its result.\<close>

definition drain_and_pay :: "'p group \<Rightarrow> 'p group" where
  "drain_and_pay g =
     (let (drained, g1) = drain_one_to_pool g
      in if dr_drained drained \<and> dr_uncounted drained then add_tokens (- 1) g1 else g1)"

text \<open>
  The loop \<open>notify_slow_path\<close> and \<open>~GroupLock\<close> share: walk the handles in queue order with the
  free tokens, mark those that fit and were not told yet.
\<close>

fun collect_notify :: "nat list \<Rightarrow> int \<Rightarrow> (nat \<Rightarrow> lock_handle) \<Rightarrow> nat list \<times> (nat \<Rightarrow> lock_handle)" where
  "collect_notify [] free hs = ([], hs)"
| "collect_notify (h # q) free hs =
     (let free' = free - (if lh_locked (hs h) then 0 else 1) in
      if free' \<ge> 0 \<and> \<not> lh_locked (hs h) \<and> \<not> lh_notified (hs h)
      then (let (ns, hs') = collect_notify q free' (hs(h := (hs h)\<lparr>lh_notified := True\<rparr>)) in (h # ns, hs'))
      else collect_notify q free' hs)"

definition notify_handles :: "nat list \<Rightarrow> 'p group \<Rightarrow> 'p group" where
  "notify_handles ns g = g\<lparr>events := events g @ map EvNotify ns\<rparr>"

definition notify_slow_path :: "'p group \<Rightarrow> 'p group" where
  "notify_slow_path g =
     (let (to_notify, hs) = collect_notify (queue g) (tokens g) (handles g)
      in notify_handles to_notify (g\<lparr>handles := hs\<rparr>))"

definition release_token :: "'p group \<Rightarrow> 'p group" where
  "release_token g =
     (let prev = tokens g;
          g1 = add_tokens 1 g
      in if prev < 0 then drain_and_pay g1
         else if slow_pending g1 > 0 then notify_slow_path g1
         else drain_and_pay g1)"

text \<open>\<open>~RunningLock\<close>.\<close>

definition destroy_running_lock :: "'p group \<Rightarrow> 'p group" where
  "destroy_running_lock g = release_token (g\<lparr>running := running g - 1\<rparr>)"

section \<open>The fast path\<close>

text \<open>The weak CAS loops: run alone, the first attempt with \<open>expected > 0\<close> succeeds.\<close>

definition try_acquire_running_lock :: "'p group \<Rightarrow> bool \<times> 'p group" where
  "try_acquire_running_lock g =
     (if slow_pending g > 0 then (False, g)
      else if tokens g > 0 then
        (let g1 = add_tokens (- 1) g in
         if slow_pending g1 > 0 then (False, release_token g1)
         else (True, make_running_lock g1))
      else (False, g))"

definition park_publish :: "reaction_task \<Rightarrow> 'p option \<Rightarrow> bool \<Rightarrow> 'p group \<Rightarrow> nat \<times> 'p group" where
  "park_publish task pool clear_idle g =
     (let slot = slot_alloc g;
          bucket = priority_index (t_priority task);
          g1 = g\<lparr>slots := (slots g)(slot := False), slot_alloc := Suc slot\<rparr>;
          g2 = (case pool of None \<Rightarrow> g1 | Some p \<Rightarrow> log_event (EvRegister p) g1);
          entry = \<lparr>we_task = task, we_pool = pool, we_clear_idle = clear_idle, we_slot = slot\<rparr>
      in (slot, g2\<lparr>wait_buckets := (wait_buckets g2)[bucket := wait_buckets g2 ! bucket @ [entry]]\<rparr>))"

definition park_reconcile :: "nat \<Rightarrow> 'p group \<Rightarrow> 'p group" where
  "park_reconcile slot g =
     (let prev = tokens g;
          g1 = add_tokens (- 1) g
      in if prev > 0 \<and> slow_pending g1 > 0 then release_token g1
         else if slots g1 slot then release_token g1
         else
           (let g2 = g1\<lparr>slots := (slots g1)(slot := True)\<rparr>
            in if prev > 0 then drain_and_pay g2 else g2))"

definition park :: "reaction_task \<Rightarrow> 'p option \<Rightarrow> bool \<Rightarrow> 'p group \<Rightarrow> 'p group" where
  "park task pool clear_idle g = (let (slot, g1) = park_publish task pool clear_idle g in park_reconcile slot g1)"

definition try_submit :: "reaction_task \<Rightarrow> 'p option \<Rightarrow> bool \<Rightarrow> 'p group \<Rightarrow> bool \<times> 'p group" where
  "try_submit task pool clear_idle g =
     (if slow_pending g = 0 \<and> tokens g > 0 then
        (let g1 = add_tokens (- 1) g in
         if slow_pending g1 > 0 then (False, park task pool clear_idle (release_token g1))
         else (True, log_event (EvSubmit task pool clear_idle False) (make_running_lock g1)))
      else (False, park task pool clear_idle g))"

section \<open>The slow path\<close>

definition handle_key :: "lock_handle \<Rightarrow> task_key" where
  "handle_key h = TaskKey (lh_priority h) (lh_task_id h)"

text \<open>The loop of \<open>Group::lock\<close>: handles that do not fit any more may be notified again.\<close>

fun clear_notified :: "nat list \<Rightarrow> int \<Rightarrow> (nat \<Rightarrow> lock_handle) \<Rightarrow> (nat \<Rightarrow> lock_handle)" where
  "clear_notified [] free hs = hs"
| "clear_notified (h # q) free hs =
     (let free' = free - (if lh_locked (hs h) then 0 else 1) in
      clear_notified q free' (if free' < 0 then hs(h := (hs h)\<lparr>lh_notified := False\<rparr>) else hs))"

text \<open>\<open>Group::lock\<close> makes the handle the new \<open>GroupLock\<close> owns.\<close>

definition group_lock :: "nid \<Rightarrow> int \<Rightarrow> 'p group \<Rightarrow> nat \<times> 'p group" where
  "group_lock i p g =
     (let h = handle_alloc g;
          hs = (handles g)(h := \<lparr>lh_task_id = i, lh_priority = p, lh_locked = False, lh_notified = False\<rparr>);
          q = insert_lower (\<lambda>a b. handle_key (hs a) < handle_key (hs b)) h (queue g)
      in (h, g\<lparr>slow_pending := slow_pending g + 1, handle_alloc := Suc h, queue := q,
               handles := clear_notified q (tokens g) hs\<rparr>))"

text \<open>\<open>GroupLock::lock\<close>: the scan that looks for the lock's own handle.\<close>

fun may_lock :: "nat list \<Rightarrow> int \<Rightarrow> (nat \<Rightarrow> lock_handle) \<Rightarrow> nat \<Rightarrow> bool" where
  "may_lock [] free hs me = False"
| "may_lock (h # q) free hs me =
     (let free' = free - (if lh_locked (hs h) then 0 else 1) in
      if free' < 0 then False else if h = me then True else may_lock q free' hs me)"

definition group_lock_lock :: "nat \<Rightarrow> 'p group \<Rightarrow> bool \<times> 'p group" where
  "group_lock_lock h g =
     (if lh_locked (handles g h) then (True, g)
      else if may_lock (queue g) (tokens g) (handles g) h
      then (True, add_tokens (- 1) (g\<lparr>handles := (handles g)(h := (handles g h)\<lparr>lh_locked := True\<rparr>)\<rparr>))
      else (False, g))"

text \<open>\<open>~GroupLock\<close>.\<close>

definition destroy_group_lock :: "nat \<Rightarrow> 'p group \<Rightarrow> 'p group" where
  "destroy_group_lock h g =
     (let was_locked = lh_locked (handles g h);
          prev_tokens = (if was_locked then tokens g else 0);
          g1 = (if was_locked
                then add_tokens 1 (g\<lparr>handles := (handles g)(h := (handles g h)\<lparr>lh_locked := False\<rparr>)\<rparr>)
                else g);
          removed = (h \<in> set (queue g1));
          g2 = g1\<lparr>queue := remove1 h (queue g1)\<rparr>;
          (to_notify, hs) = collect_notify (queue g2) (tokens g2) (handles g2);
          g3 = g2\<lparr>handles := hs\<rparr>;
          g4 = (if removed then g3\<lparr>slow_pending := slow_pending g3 - 1\<rparr> else g3);
          g5 = notify_handles to_notify g4
      in if was_locked \<and> prev_tokens < 0 then drain_and_pay g5
         else if was_locked \<and> slow_pending g5 = 0 then drain_and_pay g5
         else g5)"

text \<open>\<open>~Group\<close>: the entries still parked are destroyed, bucket by bucket.\<close>

definition destroy_group :: "'p group \<Rightarrow> 'p group" where
  "destroy_group g =
     (fold drop_registration (concat (wait_buckets g)) g)\<lparr>wait_buckets := map (\<lambda>_. []) (wait_buckets g)\<rparr>"

section \<open>Accounting\<close>

text \<open>
  \<open>parked\<close> lists the waiting entries in the order they would be drained. A parked waiter is
  counted when its slot is set: its token decrement has been made already.
\<close>

definition parked :: "'p group \<Rightarrow> 'p wait_entry list" where
  "parked g = concat (wait_buckets g)"

definition counted :: "'p group \<Rightarrow> int" where
  "counted g = sum_list (map (\<lambda>e. if slots g (we_slot e) then 1 else 0) (parked g))"

definition locked :: "'p group \<Rightarrow> int" where
  "locked g = sum_list (map (\<lambda>h. if lh_locked (handles g h) then 1 else 0) (queue g))"

definition acct :: "'p group \<Rightarrow> int" where
  "acct g = tokens g + running g + locked g + counted g"

definition margin :: "'p group \<Rightarrow> int" where
  "margin g = tokens g + counted g"

definition shape :: "'p group \<Rightarrow> bool" where
  "shape g \<longleftrightarrow> length (wait_buckets g) = PRIORITY_BUCKETS
     \<and> distinct (map we_slot (parked g)) \<and> (\<forall>e \<in> set (parked g). we_slot e < slot_alloc g)
     \<and> distinct (queue g) \<and> (\<forall>h \<in> set (queue g). h < handle_alloc g)
     \<and> (\<forall>h. lh_locked (handles g h) \<longrightarrow> h \<in> set (queue g))
     \<and> slow_pending g = int (length (queue g))
     \<and> sorted (map (\<lambda>h. handle_key (handles g h)) (queue g))"

definition group_ok :: "'p group \<Rightarrow> bool" where
  "group_ok g \<longleftrightarrow> shape g \<and> acct g = concurrency g \<and> 0 \<le> margin g"

lemmas group_simps = add_tokens_def make_running_lock_def log_event_def notify_handles_def

lemma counted_nonneg: "0 \<le> counted g"
  unfolding counted_def by (rule sum_list_nonneg_int) simp

lemma locked_nonneg: "0 \<le> locked g"
  unfolding locked_def by (rule sum_list_nonneg_int) simp

lemma pop_buckets_concat:
  "(case pop_buckets bs of None \<Rightarrow> concat bs = []
    | Some (e, bs') \<Rightarrow> concat bs = e # concat bs' \<and> length bs' = length bs)"
  by (induction bs) (auto split: list.splits option.splits)

lemma mset_concat_push:
  "i < length bs \<Longrightarrow> mset (concat (bs[i := bs ! i @ [e]])) = add_mset e (mset (concat bs))"
  by (induction bs arbitrary: i) (auto split: nat.splits)

text \<open>Frame facts: what is not touched keeps its contribution.\<close>

lemma counted_cong:
  "wait_buckets g' = wait_buckets g \<Longrightarrow> slots g' = slots g \<Longrightarrow> counted g' = counted g"
  by (simp add: counted_def parked_def)

lemma locked_cong:
  "queue g' = queue g \<Longrightarrow> (\<And>h. h \<in> set (queue g) \<Longrightarrow> lh_locked (handles g' h) = lh_locked (handles g h))
    \<Longrightarrow> locked g' = locked g"
  by (auto simp: locked_def intro!: arg_cong [of _ _ sum_list] map_cong)

lemma add_tokens_frame:
  "shape (add_tokens d g) = shape g" "acct (add_tokens d g) = acct g + d"
  "margin (add_tokens d g) = margin g + d" "concurrency (add_tokens d g) = concurrency g"
  "parked (add_tokens d g) = parked g" "running (add_tokens d g) = running g"
  "counted (add_tokens d g) = counted g" "locked (add_tokens d g) = locked g"
  "tokens (add_tokens d g) = tokens g + d"
  "slow_pending (add_tokens d g) = slow_pending g" "queue (add_tokens d g) = queue g"
  by (simp_all add: add_tokens_def shape_def acct_def margin_def counted_def locked_def parked_def)

lemma drain_and_pay_eq:
  "drain_and_pay g =
     (case pop_buckets (wait_buckets g) of
        None \<Rightarrow> g
      | Some (e, bs) \<Rightarrow>
          drop_registration e (g\<lparr>wait_buckets := bs, slots := (slots g)(we_slot e := True), running := running g + 1,
            tokens := tokens g - (if slots g (we_slot e) then 0 else 1),
            events := events g @ [EvSubmit (we_task e) (we_pool e) (we_clear_idle e) True]\<rparr>))"
  by (auto simp: drain_and_pay_def drain_one_to_pool_def drop_registration_def group_simps Let_def
      split: option.splits)

lemma drop_registration_frame:
  "drop_registration e g = g\<lparr>events := events g @ (case we_pool e of None \<Rightarrow> [] | Some p \<Rightarrow> [EvUnregister p])\<rparr>"
  by (simp add: drop_registration_def log_event_def split: option.splits)

lemma drain_and_pay_ok:
  assumes "shape g"
  shows "shape (drain_and_pay g) \<and> acct (drain_and_pay g) = acct g
    \<and> margin (drain_and_pay g) = margin g - (if parked g = [] then 0 else 1)
    \<and> concurrency (drain_and_pay g) = concurrency g \<and> slow_pending (drain_and_pay g) = slow_pending g
    \<and> locked (drain_and_pay g) = locked g \<and> queue (drain_and_pay g) = queue g
    \<and> handles (drain_and_pay g) = handles g \<and> parked (drain_and_pay g) = tl (parked g)
    \<and> running (drain_and_pay g) = running g + (if parked g = [] then 0 else 1)"
proof (cases "pop_buckets (wait_buckets g)")
  case None
  then have "parked g = []" "drain_and_pay g = g"
    using pop_buckets_concat [of "wait_buckets g"] by (simp_all add: drain_and_pay_eq parked_def)
  then show ?thesis using assms by simp
next
  case (Some r)
  obtain e bs where r: "r = (e, bs)"
    by (cases r)
  have p: "parked g = e # concat bs" and len: "length bs = length (wait_buckets g)"
    using Some r pop_buckets_concat [of "wait_buckets g"] by (simp_all add: parked_def)
  have "we_slot e \<notin> we_slot ` set (concat bs)"
    using assms p by (simp add: shape_def del: set_concat)
  then have other: "we_slot e' \<noteq> we_slot e" if "e' \<in> set (concat bs)" for e'
    using that by (metis image_eqI)
  let ?g = "drain_and_pay g"
  have pk: "parked ?g = concat bs"
    using Some r by (simp add: drain_and_pay_eq drop_registration_frame parked_def)
  have "counted ?g = sum_list (map (\<lambda>e'. if slots g (we_slot e') then 1 else 0) (concat bs))"
    unfolding counted_def pk
    by (rule arg_cong [of _ _ sum_list], rule map_cong)
      (use Some r other in \<open>auto simp: drain_and_pay_eq drop_registration_frame\<close>)
  then have cnt: "counted ?g = counted g - (if slots g (we_slot e) then 1 else 0)"
    using p by (simp add: counted_def)
  have loc: "locked ?g = locked g"
    using Some r by (simp add: drain_and_pay_eq drop_registration_frame locked_def)
  show ?thesis
    using Some r assms p pk cnt loc len
    by (auto simp: shape_def acct_def margin_def drain_and_pay_eq drop_registration_frame)
qed

lemma collect_notify_frame:
  "lh_locked (snd (collect_notify q free hs) h) = lh_locked (hs h)"
  "handle_key (snd (collect_notify q free hs) h) = handle_key (hs h)"
  by (induction q free hs rule: collect_notify.induct) (auto simp: Let_def split_beta handle_key_def)

lemma notified_ok:
  "shape (g\<lparr>handles := snd (collect_notify q free (handles g)), events := ev\<rparr>) = shape g"
  "acct (g\<lparr>handles := snd (collect_notify q free (handles g)), events := ev\<rparr>) = acct g"
  "margin (g\<lparr>handles := snd (collect_notify q free (handles g)), events := ev\<rparr>) = margin g"
  "locked (g\<lparr>handles := snd (collect_notify q free (handles g)), events := ev\<rparr>) = locked g"
  by (simp_all add: shape_def acct_def margin_def counted_def locked_def parked_def collect_notify_frame)

lemma notify_slow_path_eq:
  "notify_slow_path g = g\<lparr>handles := snd (collect_notify (queue g) (tokens g) (handles g)),
     events := events g @ map EvNotify (fst (collect_notify (queue g) (tokens g) (handles g)))\<rparr>"
  by (simp add: notify_slow_path_def notify_handles_def Let_def split_beta)

lemma release_token_ok:
  assumes "shape g"
  shows "shape (release_token g) \<and> acct (release_token g) = acct g + 1
    \<and> margin g \<le> margin (release_token g) \<and> concurrency (release_token g) = concurrency g
    \<and> slow_pending (release_token g) = slow_pending g \<and> locked (release_token g) = locked g
    \<and> queue (release_token g) = queue g"
proof -
  have "shape (add_tokens 1 g)"
    using assms by (simp add: add_tokens_frame)
  note d = drain_and_pay_ok [OF this]
  have "slow_pending (add_tokens 1 g) = slow_pending g" "queue (add_tokens 1 g) = queue g"
    by (simp_all add: add_tokens_def)
  then show ?thesis
    using d assms
    by (auto simp: release_token_def Let_def add_tokens_frame notify_slow_path_eq notified_ok)
qed

section \<open>Every operation keeps the invariant\<close>

lemma group_ok_new: "0 \<le> gd_concurrency d \<Longrightarrow> group_ok (new_group d)"
  by (simp add: group_ok_def new_group_def shape_def acct_def margin_def counted_def locked_def parked_def
      sum_list_replicate)

lemma destroy_running_lock_ok:
  assumes "group_ok g"
  shows "group_ok (destroy_running_lock g)"
proof -
  let ?g = "g\<lparr>running := running g - 1\<rparr>"
  have "shape ?g" "acct ?g = acct g - 1" "margin ?g = margin g" "concurrency ?g = concurrency g"
    using assms by (simp_all add: group_ok_def shape_def acct_def margin_def counted_def locked_def parked_def)
  then show ?thesis
    using release_token_ok [of ?g] assms by (auto simp: group_ok_def destroy_running_lock_def)
qed

lemma take_token_ok:
  assumes "group_ok g" and "tokens g > 0"
  shows "group_ok (make_running_lock (add_tokens (- 1) g))"
    "group_ok (log_event ev (make_running_lock (add_tokens (- 1) g)))"
  using assms counted_nonneg [of g]
  by (simp_all add: group_ok_def shape_def acct_def margin_def counted_def locked_def parked_def group_simps)

lemma bounce_ok:
  assumes "group_ok g" and "tokens g > 0"
  shows "group_ok (release_token (add_tokens (- 1) g))"
proof -
  have "margin (add_tokens (- 1) g) \<ge> 0"
    using assms counted_nonneg [of g] by (simp add: margin_def add_tokens_def counted_def parked_def)
  then show ?thesis
    using release_token_ok [of "add_tokens (- 1) g"] assms by (auto simp: group_ok_def add_tokens_frame)
qed

lemma try_acquire_ok: "group_ok g \<Longrightarrow> group_ok (snd (try_acquire_running_lock g))"
  using take_token_ok(1) bounce_ok by (auto simp: try_acquire_running_lock_def Let_def)

lemma parked_publish:
  assumes "shape g"
  shows "mset (parked (snd (park_publish t p ci g)))
    = add_mset \<lparr>we_task = t, we_pool = p, we_clear_idle = ci, we_slot = slot_alloc g\<rparr> (mset (parked g))"
  using assms mset_concat_push [of "priority_index (t_priority t)" "wait_buckets g"]
  by (auto simp: parked_def park_publish_def log_event_def shape_def Let_def split: option.splits)

lemma park_publish_ok:
  assumes "group_ok g"
  shows "group_ok (snd (park_publish t p ci g)) \<and> fst (park_publish t p ci g) = slot_alloc g
    \<and> (\<exists>e \<in> set (parked (snd (park_publish t p ci g))). we_slot e = slot_alloc g)
    \<and> \<not> slots (snd (park_publish t p ci g)) (slot_alloc g)
    \<and> locked (snd (park_publish t p ci g)) = locked g \<and> running (snd (park_publish t p ci g)) = running g"
proof -
  let ?g = "snd (park_publish t p ci g)"
  let ?e = "\<lparr>we_task = t, we_pool = p, we_clear_idle = ci, we_slot = slot_alloc g\<rparr>"
  have sh: "shape g"
    using assms by (simp add: group_ok_def)
  note m = parked_publish [OF sh, of t p ci]
  have st: "slots ?g = (slots g)(slot_alloc g := False)" "slot_alloc ?g = Suc (slot_alloc g)"
      "tokens ?g = tokens g" "running ?g = running g" "queue ?g = queue g" "handles ?g = handles g"
      "handle_alloc ?g = handle_alloc g" "slow_pending ?g = slow_pending g" "concurrency ?g = concurrency g"
      "length (wait_buckets ?g) = length (wait_buckets g)"
    by (simp_all add: park_publish_def log_event_def Let_def split: option.splits)
  have fresh: "we_slot e \<noteq> slot_alloc g" if "e \<in> set (parked g)" for e
    using sh that by (auto simp: shape_def)
  have "counted ?g = sum_list (map (\<lambda>e. if slots ?g (we_slot e) then 1 else 0) (?e # parked g))"
    unfolding counted_def by (rule sum_list_mset_cong) (simp add: m)
  also have "\<dots> = counted g"
    using fresh st(1) by (auto simp: counted_def intro!: arg_cong [of _ _ sum_list])
  finally have cnt: "counted ?g = counted g" .
  have loc: "locked ?g = locked g"
    by (simp add: locked_def st)
  have sl: "mset (map we_slot (parked ?g)) = mset (slot_alloc g # map we_slot (parked g))"
    unfolding mset_map m by simp
  have "distinct (slot_alloc g # map we_slot (parked g))"
    using sh fresh by (auto simp: shape_def)
  then have ds: "distinct (map we_slot (parked ?g))"
    by (rule iffD2 [OF distinct_mset_cong [OF sl]])
  have set_p: "set (parked ?g) = insert ?e (set (parked g))"
    using arg_cong [OF m, of set_mset] by simp
  have "shape ?g"
    using sh ds unfolding shape_def st set_p by (simp add: less_Suc_eq)
  moreover have "acct ?g = acct g" "margin ?g = margin g"
    by (simp_all add: acct_def margin_def st cnt loc)
  moreover have "fst (park_publish t p ci g) = slot_alloc g"
    by (simp add: park_publish_def Let_def)
  moreover have "\<not> slots ?g (slot_alloc g)" "?e \<in> set (parked ?g)" "we_slot ?e = slot_alloc g"
    by (simp_all add: st set_p)
  ultimately show ?thesis
    using assms loc st(4,9) unfolding group_ok_def by metis
qed

lemma park_reconcile_ok:
  assumes ok: "group_ok g" and e: "e \<in> set (parked g)" "we_slot e = slot" and free: "\<not> slots g slot"
  shows "group_ok (park_reconcile slot g)"
proof (cases "tokens g > 0 \<and> slow_pending g > 0")
  case True
  then show ?thesis
    using bounce_ok [OF ok] by (simp add: park_reconcile_def Let_def add_tokens_def)
next
  case False
  define g1 where "g1 = g\<lparr>tokens := tokens g - 1, slots := (slots g)(slot := True)\<rparr>"
  have ds: "distinct (map we_slot (parked g))"
    using ok by (simp add: group_ok_def shape_def)
  obtain xs ys where split: "parked g = xs @ e # ys"
    using e split_list by fast
  have others: "we_slot e' \<noteq> slot" if "e' \<in> set xs \<union> set ys" for e'
    using ds e that unfolding split by (auto simp: image_iff)
  have pk: "parked g1 = xs @ e # ys"
    using split by (simp add: g1_def parked_def)
  have part: "sum_list (map (\<lambda>e'. if slots g1 (we_slot e') then 1 else 0) zs)
      = (sum_list (map (\<lambda>e'. if slots g (we_slot e') then 1 else 0) zs) :: int)"
    if "set zs \<subseteq> set xs \<union> set ys" for zs
    by (rule sum_list_cong) (use others that in \<open>auto simp: g1_def\<close>)
  have "slots g1 slot"
    by (simp add: g1_def)
  then have "counted g1 = counted g + 1"
    using e free by (simp add: counted_def pk split part)
  then have g1: "shape g1" "acct g1 = acct g" "margin g1 = margin g" "concurrency g1 = concurrency g"
    using ok by (simp_all add: group_ok_def shape_def acct_def margin_def locked_def parked_def g1_def)
  have "park_reconcile slot g = (if tokens g > 0 then drain_and_pay g1 else g1)"
    using False free by (auto simp: park_reconcile_def Let_def g1_def add_tokens_def)
  moreover have "margin g1 \<ge> 1" if "tokens g > 0"
    using that \<open>counted g1 = counted g + 1\<close> counted_nonneg [of g] by (simp add: margin_def g1_def)
  ultimately show ?thesis
    using drain_and_pay_ok [OF g1(1)] g1 ok by (auto simp: group_ok_def)
qed

lemma park_ok: "group_ok g \<Longrightarrow> group_ok (park t p ci g)"
  using park_publish_ok [of g t p ci] park_reconcile_ok
  by (auto simp: park_def Let_def split_beta)

lemma try_submit_ok: "group_ok g \<Longrightarrow> group_ok (snd (try_submit t p ci g))"
  using take_token_ok(2) park_ok by (auto simp: try_submit_def Let_def add_tokens_frame)

lemma clear_notified_frame:
  "lh_locked (clear_notified q free hs h) = lh_locked (hs h)"
  "handle_key (clear_notified q free hs h) = handle_key (hs h)"
  by (induction q free hs rule: clear_notified.induct) (auto simp: Let_def handle_key_def)

lemma sorted_insert_lower:
  fixes f :: "'a \<Rightarrow> task_key"
  assumes "sorted (map f xs)"
  shows "sorted (map f (insert_lower (\<lambda>a b. f a < f b) x xs))"
proof -
  let ?l = "takeWhile (\<lambda>y. f y < f x) xs" and ?r = "dropWhile (\<lambda>y. f y < f x) xs"
  have l: "\<forall>y \<in> set ?l. f y < f x"
    by (auto dest: set_takeWhileD)
  have lr: "sorted (map f ?l)" "sorted (map f ?r)"
    using assms sorted_append [of "map f ?l" "map f ?r"] by (simp_all flip: map_append)
  have r: "\<forall>y \<in> set ?r. f x \<le> f y"
  proof (cases ?r)
    case (Cons z zs)
    then have "\<not> f z < f x"
      using hd_dropWhile [of "\<lambda>y. f y < f x" xs] by simp
    then show ?thesis using lr(2) Cons by force
  next
    case Nil
    show ?thesis unfolding Nil by simp
  qed
  have "\<forall>a \<in> set ?l. \<forall>b \<in> set ?r. f a \<le> f b" "\<forall>a \<in> set ?l. f a \<le> f x"
    using l r by (meson less_imp_le less_le_trans)+
  then show ?thesis
    using r lr by (auto simp: insert_lower_def sorted_append)
qed

lemma group_lock_ok:
  assumes "group_ok g"
  shows "group_ok (snd (group_lock i p g))"
proof -
  let ?g = "snd (group_lock i p g)" and ?h = "handle_alloc g"
  let ?hs = "(handles g)(?h := \<lparr>lh_task_id = i, lh_priority = p, lh_locked = False, lh_notified = False\<rparr>)"
  let ?q = "insert_lower (\<lambda>a b. handle_key (?hs a) < handle_key (?hs b)) ?h (queue g)"
  have sh: "shape g"
    using assms by (simp add: group_ok_def)
  have fresh: "?h \<notin> set (queue g)"
    using sh by (auto simp: shape_def)
  have unl: "\<not> lh_locked (handles g ?h)"
    using sh fresh by (auto simp: shape_def)
  have eq: "?g = g\<lparr>slow_pending := slow_pending g + 1, handle_alloc := Suc ?h, queue := ?q,
      handles := clear_notified ?q (tokens g) ?hs\<rparr>"
    by (simp add: group_lock_def Let_def)
  have "map (\<lambda>h. handle_key (?hs h)) (queue g) = map (\<lambda>h. handle_key (handles g h)) (queue g)"
    using fresh by (auto intro!: map_cong)
  then have "sorted (map (\<lambda>h. handle_key (?hs h)) (queue g))"
    using sh by (simp only: shape_def)
  then have sq: "sorted (map (\<lambda>h. handle_key (?hs h)) ?q)"
    by (rule sorted_insert_lower)
  have dq: "distinct ?q"
    using sh fresh distinct_mset_cong [of ?q "?h # queue g"] by (simp add: mset_insert_lower shape_def)
  have "locked ?g = sum_list (map (\<lambda>h. if lh_locked (?hs h) then 1 else 0) ?q)"
    unfolding locked_def eq by (simp add: clear_notified_frame)
  also have "\<dots> = sum_list (map (\<lambda>h. if lh_locked (?hs h) then 1 else 0) (?h # queue g))"
    by (rule sum_list_mset_cong) (simp add: mset_insert_lower)
  also have "\<dots> = locked g"
    unfolding locked_def using fresh by (simp, intro sum_list_cong) auto
  finally have loc: "locked ?g = locked g" .
  have "counted ?g = counted g"
    by (rule counted_cong) (simp_all add: eq)
  moreover have "shape ?g"
    using sh sq dq fresh unl unfolding eq
    by (auto simp: shape_def clear_notified_frame parked_def less_Suc_eq split: if_splits)
  ultimately show ?thesis
    using assms loc by (simp add: group_ok_def acct_def margin_def eq)
qed

lemma may_lock_tokens: "may_lock q free hs h \<Longrightarrow> \<not> lh_locked (hs h) \<Longrightarrow> free > 0 \<and> h \<in> set q"
proof (induction q free hs h rule: may_lock.induct)
  case (2 h q free hs me)
  then show ?case by (auto simp: Let_def split: if_splits)
qed simp

lemma locked_update:
  assumes "distinct (queue g)" and "h \<in> set (queue g)"
  shows "locked (g\<lparr>handles := (handles g)(h := (handles g h)\<lparr>lh_locked := b\<rparr>)\<rparr>)
    = locked g - (if lh_locked (handles g h) then 1 else 0) + (if b then 1 else 0)"
  using sum_list_store_update [OF assms, of "\<lambda>k. if lh_locked k then 1 else 0" "handles g"
      "(handles g h)\<lparr>lh_locked := b\<rparr>"]
  by (simp add: locked_def)

lemma group_lock_lock_ok:
  assumes "group_ok g"
  shows "group_ok (snd (group_lock_lock h g))"
proof (cases "\<not> lh_locked (handles g h) \<and> may_lock (queue g) (tokens g) (handles g) h")
  case True
  let ?g = "g\<lparr>handles := (handles g)(h := (handles g h)\<lparr>lh_locked := True\<rparr>)\<rparr>"
  have sh: "shape g" and mem: "h \<in> set (queue g)" and pos: "tokens g > 0"
    using assms True may_lock_tokens by (auto simp: group_ok_def)
  have "handle_key ((handles g h)\<lparr>lh_locked := True\<rparr>) = handle_key (handles g h)"
    by (simp add: handle_key_def)
  then have "map (\<lambda>x. handle_key (handles ?g x)) (queue g) = map (\<lambda>x. handle_key (handles g x)) (queue g)"
    by auto
  then have keys: "sorted (map (\<lambda>x. handle_key (handles ?g x)) (queue g))"
    using sh by (simp only: shape_def)
  have "shape ?g"
    using sh mem keys by (auto simp: shape_def parked_def)
  moreover have "locked ?g = locked g + 1" "counted ?g = counted g"
    using locked_update [of g h True] sh mem True
    by (simp_all add: shape_def counted_def parked_def)
  ultimately show ?thesis
    using assms True pos counted_nonneg [of g]
    by (simp add: group_lock_lock_def group_ok_def add_tokens_frame acct_def margin_def)
next
  case False
  then show ?thesis using assms by (auto simp: group_lock_lock_def)
qed

text \<open>The state \<open>~GroupLock\<close> leaves before it decides whether to drain.\<close>

definition lock_gone :: "nat \<Rightarrow> 'p group \<Rightarrow> 'p group" where
  "lock_gone h g = g\<lparr>tokens := tokens g + (if lh_locked (handles g h) then 1 else 0),
     handles := (handles g)(h := (handles g h)\<lparr>lh_locked := False\<rparr>),
     queue := remove1 h (queue g), slow_pending := slow_pending g - 1\<rparr>"

definition lock_gone_notified :: "nat \<Rightarrow> 'p group \<Rightarrow> 'p group" where
  "lock_gone_notified h g =
     (let g' = lock_gone h g; (ns, hs) = collect_notify (queue g') (tokens g') (handles g')
      in g'\<lparr>handles := hs, events := events g' @ map EvNotify ns\<rparr>)"

lemma destroy_group_lock_eq:
  assumes "h \<in> set (queue g)"
  shows "destroy_group_lock h g =
    (if lh_locked (handles g h) \<and> (tokens g < 0 \<or> slow_pending g = 1)
     then drain_and_pay (lock_gone_notified h g) else lock_gone_notified h g)"
proof -
  have "(handles g)(h := (handles g h)\<lparr>lh_locked := False\<rparr>) = handles g" if "\<not> lh_locked (handles g h)"
    using that by (auto simp: fun_eq_iff)
  then show ?thesis
    using assms
    by (auto simp: destroy_group_lock_def lock_gone_notified_def lock_gone_def notify_handles_def
        add_tokens_def Let_def split_beta intro!: arg_cong [of _ _ drain_and_pay])
qed

lemma lock_gone_ok:
  assumes ok: "group_ok g" and mem: "h \<in> set (queue g)"
  shows "shape (lock_gone h g) \<and> acct (lock_gone h g) = acct g
    \<and> margin (lock_gone h g) = margin g + (if lh_locked (handles g h) then 1 else 0)
    \<and> locked (lock_gone h g) = locked g - (if lh_locked (handles g h) then 1 else 0)"
proof -
  let ?g = "lock_gone h g"
  have sh: "shape g"
    using ok by (simp add: group_ok_def)
  have ds: "distinct (queue g)"
    using sh by (simp add: shape_def)
  have rm: "remove1 h (queue g) = filter (\<lambda>x. x \<noteq> h) (queue g)"
    using distinct_remove1_removeAll [OF ds] by (simp add: removeAll_filter_not_eq neq_commute)
  have key: "handle_key (handles ?g x) = handle_key (handles g x)" for x
    by (simp add: lock_gone_def handle_key_def)
  have "sorted (map (\<lambda>x. handle_key (handles g x)) (remove1 h (queue g)))"
    using sh sorted_filter [of "\<lambda>x. handle_key (handles g x)" "queue g"] by (simp add: shape_def rm)
  then have srt: "sorted (map (\<lambda>x. handle_key (handles ?g x)) (queue ?g))"
    unfolding key by (simp add: lock_gone_def)
  have len: "int (length (remove1 h (queue g))) = int (length (queue g)) - 1"
    using mem length_pos_if_in_set [OF mem] by (simp add: length_remove1 of_nat_diff Suc_le_eq)
  have shp: "shape ?g"
    using sh srt len mem ds by (auto simp: shape_def lock_gone_def parked_def set_remove1_eq)
  have m: "mset (queue g) = mset (h # remove1 h (queue g))"
    using mem by simp
  have "locked ?g = sum_list (map (\<lambda>x. if lh_locked (handles g x) then 1 else 0) (remove1 h (queue g)))"
    unfolding locked_def using ds by (simp add: lock_gone_def) (intro sum_list_cong, auto)
  moreover have "locked g
      = sum_list (map (\<lambda>x. if lh_locked (handles g x) then 1 else 0) (h # remove1 h (queue g)))"
    unfolding locked_def by (rule sum_list_mset_cong [OF m])
  ultimately have loc: "locked ?g = locked g - (if lh_locked (handles g h) then 1 else 0)"
    by simp
  have "counted ?g = counted g"
    by (rule counted_cong) (simp_all add: lock_gone_def)
  then show ?thesis
    using shp loc by (simp add: acct_def margin_def) (simp add: lock_gone_def)
qed

lemma lock_gone_notified_frame:
  "shape (lock_gone_notified h g) = shape (lock_gone h g)"
  "acct (lock_gone_notified h g) = acct (lock_gone h g)"
  "margin (lock_gone_notified h g) = margin (lock_gone h g)"
  "locked (lock_gone_notified h g) = locked (lock_gone h g)"
  "concurrency (lock_gone_notified h g) = concurrency g" "running (lock_gone_notified h g) = running g"
  "parked (lock_gone_notified h g) = parked g" "slow_pending (lock_gone_notified h g) = slow_pending g - 1"
  by (simp_all add: lock_gone_notified_def Let_def split_beta notified_ok)
    (simp_all add: lock_gone_def parked_def)

lemma destroy_group_lock_ok:
  assumes "group_ok g" and "h \<in> set (queue g)"
  shows "group_ok (destroy_group_lock h g)"
  using lock_gone_ok [OF assms] drain_and_pay_ok [of "lock_gone_notified h g"] assms
  by (auto simp: destroy_group_lock_eq group_ok_def lock_gone_notified_frame)

section \<open>Histories of a group\<close>

text \<open>
  The calls on a group, one after another. A running lock is destroyed only while one is alive and a
  group lock is used or destroyed only while it is (its handle is in the queue exactly then).
\<close>

datatype 'p group_op =
    Acquire
  | Submit reaction_task "'p option" bool
  | Finish
  | Lock nid int
  | TryLock nat
  | Unlock nat

fun group_step :: "'p group_op \<Rightarrow> 'p group \<Rightarrow> 'p group" where
  "group_step Acquire g = snd (try_acquire_running_lock g)"
| "group_step (Submit t p ci) g = snd (try_submit t p ci g)"
| "group_step Finish g = (if running g > 0 then destroy_running_lock g else g)"
| "group_step (Lock i p) g = snd (group_lock i p g)"
| "group_step (TryLock h) g = (if h \<in> set (queue g) then snd (group_lock_lock h g) else g)"
| "group_step (Unlock h) g = (if h \<in> set (queue g) then destroy_group_lock h g else g)"

lemma group_step_ok: "group_ok g \<Longrightarrow> group_ok (group_step ev g)"
  by (cases ev) (auto simp: try_acquire_ok try_submit_ok destroy_running_lock_ok group_lock_ok
      group_lock_lock_ok destroy_group_lock_ok)

lemma group_run_ok: "group_ok g \<Longrightarrow> group_ok (fold group_step evs g)"
  by (induction evs arbitrary: g) (simp_all add: group_step_ok)

lemma group_ok_bound: "group_ok g \<Longrightarrow> running g + locked g \<le> concurrency g"
  by (simp add: group_ok_def acct_def margin_def)

lemma concurrency_step:
  "group_ok g \<Longrightarrow> concurrency (group_step ev g) = concurrency g"
proof -
  assume ok: "group_ok g"
  have rt: "concurrency (release_token g') = concurrency g'" for g' :: "'a group"
    by (simp add: release_token_def Let_def drain_and_pay_eq notify_slow_path_eq drop_registration_frame
        add_tokens_def split: option.splits prod.splits)
  have dp: "concurrency (drain_and_pay g') = concurrency g'" for g' :: "'a group"
    by (simp add: drain_and_pay_eq drop_registration_frame split: option.splits prod.splits)
  have pr: "concurrency (park_reconcile sl g') = concurrency g'" for sl and g' :: "'a group"
    by (simp add: park_reconcile_def Let_def rt dp) (simp add: add_tokens_def)
  have pp: "concurrency (snd (park_publish t p ci g')) = concurrency g'" for t p ci and g' :: "'a group"
    by (simp add: park_publish_def Let_def log_event_def split: option.splits)
  show ?thesis
    by (cases ev) (simp_all add: try_acquire_running_lock_def try_submit_def park_def Let_def split_beta rt dp pr pp
        destroy_running_lock_def group_lock_def group_lock_lock_def destroy_group_lock_eq
        lock_gone_notified_frame add_tokens_frame log_event_def make_running_lock_def)
qed

lemma concurrency_run: "group_ok g \<Longrightarrow> concurrency (fold group_step evs g) = concurrency g"
  by (induction evs arbitrary: g) (simp_all add: group_step_ok concurrency_step)

text \<open>
  C1. A group never admits more than its concurrency as long as its operations run one at a time: for any history of submissions, running-lock
  acquisitions and destructions, group locks created, tried and destroyed, the running tasks plus the
  locked group locks stay within \<open>concurrency\<close>, and the signed counter is always exactly the
  concurrency minus the running tasks, the locked group locks and the parked waiters that have
  reserved their slot.
\<close>

theorem group_concurrency_bound:
  assumes "0 \<le> gd_concurrency d" and "g = fold group_step evs (new_group d)"
  shows "running g + locked g \<le> gd_concurrency d
    \<and> tokens g = gd_concurrency d - running g - locked g - counted g"
proof -
  have ok: "group_ok g" and c: "concurrency g = gd_concurrency d"
    using group_run_ok [OF group_ok_new] concurrency_run [OF group_ok_new] assms
    by (auto simp: new_group_def)
  show ?thesis
    using group_ok_bound [OF ok] ok c by (simp add: group_ok_def acct_def)
qed

text \<open>
  Descriptors and tasks for the examples.
\<close>

definition example_group :: "int \<Rightarrow> group_descriptor" where
  "example_group c = \<lparr>gd_ref = 5, gd_name = ''g'', gd_concurrency = c\<rparr>"

definition example_task :: "nid \<Rightarrow> int \<Rightarrow> reaction_task" where
  "example_task i p = (blank_task None i)\<lparr>t_priority := p\<rparr>"

lemmas group_eval = example_group_def example_task_def blank_task_def new_group_def try_submit_def park_def
  park_publish_def park_reconcile_def group_simps release_token_def drain_and_pay_eq drop_registration_frame
  notify_slow_path_eq destroy_running_lock_def priority_index_simp Let_def counted_def locked_def parked_def
  group_lock_def group_lock_lock_def insert_lower_def handle_key_def destroy_group_lock_eq
  lock_gone_notified_def lock_gone_def numeral_eq_Suc

theorem group_concurrency_bound_witness:
  "running (fold group_step [Submit (example_task 1 500) (Some ''p'') True, Submit (example_task 2 500) (Some ''p'') True]
     (new_group (example_group 1))) = 1
   \<and> counted (fold group_step [Submit (example_task 1 500) (Some ''p'') True, Submit (example_task 2 500) (Some ''p'') True]
     (new_group (example_group 1))) = 1"
  using group_concurrency_bound [of "example_group 1", OF _ refl,
      of "[Submit (example_task 1 500) (Some ''p'') True, Submit (example_task 2 500) (Some ''p'') True]"]
  by (simp add: group_eval)

end
