(* ===== verification/Group_Fairness.thy ===== *)
theory Group_Fairness
  imports Group_Tokens
begin

text \<open>
  What the groups of \<open>Group_Tokens\<close> promise to those who wait: parked tasks are always woken and
  handed over in priority and arrival order, slow-path handles lock and are notified in queue order,
  and the group locks satisfy the \<open>lock_family\<close> contract the scheduler combines.
\<close>

section \<open>No parked waiter is left without a wake-up\<close>

text \<open>
  \<open>served\<close>: while a waiter is parked, a running task, a locked group lock or a pending slow-path
  waiter is there whose end will look at the buckets again.
\<close>

definition served :: "'p group \<Rightarrow> bool" where
  "served g \<longleftrightarrow> 0 \<le> running g \<and> (parked g \<noteq> [] \<longrightarrow> 0 < running g + locked g + slow_pending g)"

lemma drain_served:
  assumes "shape g" and "0 \<le> running g"
  shows "served (drain_and_pay g)"
  using drain_and_pay_ok [OF assms(1)] assms locked_nonneg [of g]
  by (auto simp: served_def shape_def)

lemma release_served:
  assumes "shape g" and "0 \<le> running g"
  shows "served (release_token g)"
proof -
  have "shape (add_tokens 1 g)" "0 \<le> running (add_tokens 1 g)"
    using assms by (simp_all add: add_tokens_frame)
  note d = drain_served [OF this]
  have "served (notify_slow_path (add_tokens 1 g))" if "slow_pending g > 0"
    using that assms locked_nonneg [of "add_tokens 1 g"]
    by (simp add: served_def notify_slow_path_eq notified_ok) (simp add: add_tokens_def)
  then show ?thesis
    using d by (auto simp: release_token_def Let_def add_tokens_frame)
qed

lemma counted_parked: "counted g > 0 \<Longrightarrow> parked g \<noteq> []"
  by (auto simp: counted_def)

lemma park_served:
  assumes ok: "group_ok g" and sv: "served g" and c: "0 < concurrency g"
  shows "served (park t p ci g)"
proof -
  let ?g = "snd (park_publish t p ci g)" and ?s = "slot_alloc g"
  note pub = park_publish_ok [OF ok, of t p ci]
  have fr: "concurrency ?g = concurrency g" "tokens ?g = tokens g" "slow_pending ?g = slow_pending g"
    by (simp_all add: park_publish_def log_event_def Let_def split: option.splits)
  have sh: "shape ?g" and run: "0 \<le> running ?g"
    using pub sv by (auto simp: group_ok_def served_def)
  have acc: "running g + locked g + counted g = concurrency g - tokens g" and cnt: "counted ?g = counted g"
    using ok pub fr by (auto simp: group_ok_def acct_def)
  have waiting: "0 < running g + locked g + slow_pending g" if "tokens g \<le> 0"
    using that acc c sv ok locked_nonneg [of g] counted_parked [of g]
    by (cases "counted g > 0") (auto simp: served_def group_ok_def shape_def)
  have "served (park_reconcile ?s ?g)"
  proof (cases "tokens ?g > 0")
    case True
    have "served (drain_and_pay (add_tokens (- 1) ?g\<lparr>slots := (slots ?g)(?s := True)\<rparr>))"
      by (rule drain_served) (use sh run in \<open>auto simp: add_tokens_def shape_def parked_def\<close>)
    moreover have "served (release_token (add_tokens (- 1) ?g))"
      by (rule release_served) (use sh run in \<open>simp_all add: add_tokens_frame\<close>)
    ultimately show ?thesis
      using True pub by (auto simp: park_reconcile_def Let_def add_tokens_def)
  next
    case False
    then have "park_reconcile ?s ?g = add_tokens (- 1) ?g\<lparr>slots := (slots ?g)(?s := True)\<rparr>"
      using pub by (auto simp: park_reconcile_def Let_def add_tokens_def)
    moreover have "locked (?g\<lparr>tokens := x, slots := y\<rparr>) = locked g" for x y
      using pub by (simp add: locked_def)
    ultimately show ?thesis
      using waiting False fr run pub by (simp add: served_def add_tokens_def)
  qed
  then show ?thesis using pub by (simp add: park_def Let_def split_beta)
qed

text \<open>A history in which every group lock is destroyed only after it has locked.\<close>

fun locks_used :: "'p group_op list \<Rightarrow> 'p group \<Rightarrow> bool" where
  "locks_used [] g = True"
| "locks_used (ev # evs) g =
     ((case ev of Unlock h \<Rightarrow> h \<in> set (queue g) \<longrightarrow> lh_locked (handles g h) | _ \<Rightarrow> True)
      \<and> locks_used evs (group_step ev g))"

lemma group_step_served:
  assumes ok: "group_ok g" and sv: "served g" and c: "0 < concurrency g"
    and used: "\<And>h. ev = Unlock h \<Longrightarrow> h \<in> set (queue g) \<Longrightarrow> lh_locked (handles g h)"
  shows "served (group_step ev g)"
proof -
  have sh: "shape g" and run: "0 \<le> running g"
    using ok sv by (simp_all add: group_ok_def served_def)
  have take: "served (make_running_lock (add_tokens (- 1) g))"
      "served (log_event e (make_running_lock (add_tokens (- 1) g)))" for e
    using run locked_nonneg [of g] sh
    by (simp_all add: served_def group_simps locked_def parked_def shape_def)
  show ?thesis
  proof (cases ev)
    case Acquire
    then show ?thesis using take sv by (simp add: try_acquire_running_lock_def Let_def add_tokens_frame)
  next
    case (Submit t p ci)
    then show ?thesis
      using take park_served [OF ok sv c] by (simp add: try_submit_def Let_def add_tokens_frame)
  next
    case Finish
    have "shape (g\<lparr>running := running g - 1\<rparr>)"
      using sh by (simp add: shape_def parked_def)
    then show ?thesis
      using Finish sv release_served [of "g\<lparr>running := running g - 1\<rparr>"] by (simp add: destroy_running_lock_def)
  next
    case (Lock i p)
    let ?g = "snd (group_lock i p g)"
    have "0 < slow_pending ?g" "running ?g = running g"
      using sh by (simp_all add: group_lock_def Let_def shape_def)
    then show ?thesis using Lock run locked_nonneg [of ?g] by (simp add: served_def)
  next
    case (TryLock h)
    then show ?thesis
      using sv locked_update [of g h True] sh locked_nonneg [of g]
      by (auto simp: group_lock_lock_def served_def add_tokens_frame shape_def parked_def)
  next
    case (Unlock h)
    show ?thesis
    proof (cases "h \<in> set (queue g)")
      case True
      let ?g = "lock_gone_notified h g"
      have "shape ?g" "0 \<le> running ?g"
        using lock_gone_ok [OF ok True] run by (simp_all add: lock_gone_notified_frame)
      note d = drain_served [OF this]
      have "1 < slow_pending g" if "slow_pending g \<noteq> 1"
        using that sh length_pos_if_in_set [OF True] unfolding shape_def by linarith
      then have "served ?g" if "slow_pending g \<noteq> 1"
        using that run locked_nonneg [of ?g]
        by (simp add: served_def lock_gone_notified_frame)
      then show ?thesis
        using Unlock True used d by (auto simp: destroy_group_lock_eq)
    qed (use Unlock sv in simp)
  qed
qed

text \<open>
  No lost wake-up on the fast path: in any history in which group locks are destroyed only after
  they have locked, whenever tasks are parked in the wait buckets there is a running task of the group,
  a locked group lock, or a slow-path waiter still to come, each of which drains or re-examines the
  buckets when it ends. In particular a group that is quiet (nothing running, no group lock alive) has
  an empty waiting room and all its tokens.
\<close>

theorem group_no_lost_wakeup:
  assumes "0 < gd_concurrency d" and "locks_used evs (new_group d)" and "g = fold group_step evs (new_group d)"
  shows "(parked g \<noteq> [] \<longrightarrow> 0 < running g + locked g + slow_pending g)
    \<and> (running g = 0 \<and> queue g = [] \<longrightarrow> parked g = [] \<and> tokens g = gd_concurrency d)"
proof -
  have run: "group_ok g' \<Longrightarrow> served g' \<Longrightarrow> 0 < concurrency g' \<Longrightarrow> locks_used evs g' \<Longrightarrow> served (fold group_step evs g')"
    for g' :: "'a group"
  proof (induction evs arbitrary: g')
    case (Cons ev evs)
    have "served (group_step ev g')"
      by (rule group_step_served) (use Cons.prems in auto)
    then show ?case
      using Cons.IH [of "group_step ev g'"] Cons.prems by (simp add: group_step_ok concurrency_step)
  qed simp
  have new: "group_ok (new_group d :: 'a group)" "served (new_group d :: 'a group)"
    using group_ok_new [of d] assms(1) by (simp_all add: served_def new_group_def parked_def)
  have "served g"
    using run [OF new] assms by (simp add: new_group_def)
  moreover have "group_ok g" "concurrency g = gd_concurrency d"
    using group_run_ok [OF new(1)] concurrency_run [OF new(1)] assms by (simp_all add: new_group_def)
  ultimately show ?thesis
    by (auto simp: served_def group_ok_def acct_def shape_def locked_def counted_def)
qed

theorem group_no_lost_wakeup_witness:
  "running (fold group_step [Lock 1 500, Submit (example_task 2 500) (Some ''p'') True, TryLock 0, Unlock 0]
      (new_group (example_group 1))) = 1
   \<and> parked (fold group_step [Lock 1 500, Submit (example_task 2 500) (Some ''p'') True, TryLock 0, Unlock 0]
      (new_group (example_group 1))) = []"
  using group_no_lost_wakeup [of "example_group 1"
      "[Lock 1 500, Submit (example_task 2 500) (Some ''p'') True, TryLock 0, Unlock 0]", OF _ _ refl]
  by (simp add: group_eval)

text \<open>
  The provision matters: a task submitted while a group lock is pending hands its token back and
  parks uncounted; if that lock is then destroyed without ever locking, nothing wakes the task, although
  all tokens are free and nothing runs.
\<close>

theorem group_unused_lock_strands:
  "let g = fold group_step [Lock 1 500, Submit (example_task 2 500) (Some ''p'') True, Unlock 0]
         (new_group (example_group 1))
   in map we_task (parked g) = [example_task 2 500] \<and> tokens g = 1 \<and> running g = 0 \<and> queue g = []
      \<and> slow_pending g = 0 \<and> events g = [EvRegister ''p'', EvNotify 0]"
  by (simp add: group_eval)

section \<open>Who is drained, who may lock, who is told\<close>

text \<open>
  Bucket \<open>k\<close> holds the tasks of priority index \<open>k\<close>, oldest first (slots are numbered in the order
  the waiters arrived).
\<close>

definition waiter_before :: "'p wait_entry \<Rightarrow> 'p wait_entry \<Rightarrow> bool" where
  "waiter_before a b \<longleftrightarrow>
     priority_index (t_priority (we_task a)) < priority_index (t_priority (we_task b))
     \<or> priority_index (t_priority (we_task a)) = priority_index (t_priority (we_task b)) \<and> we_slot a < we_slot b"

fun bucketed :: "nat \<Rightarrow> 'p wait_entry list list \<Rightarrow> bool" where
  "bucketed k [] = True"
| "bucketed k (b # bs) =
     ((\<forall>e \<in> set b. priority_index (t_priority (we_task e)) = k) \<and> sorted_wrt (\<lambda>x y. we_slot x < we_slot y) b
      \<and> bucketed (Suc k) bs)"

lemma bucketed_index: "bucketed k bs \<Longrightarrow> e \<in> set (concat bs) \<Longrightarrow> k \<le> priority_index (t_priority (we_task e))"
  by (induction bs arbitrary: k) (auto, fastforce)

lemma bucketed_sorted: "bucketed k bs \<Longrightarrow> sorted_wrt waiter_before (concat bs)"
proof (induction bs arbitrary: k)
  case (Cons b bs)
  have "sorted_wrt waiter_before b"
    using Cons.prems by (auto simp: waiter_before_def intro: sorted_wrt_mono_rel [rotated])
  moreover have "waiter_before x y" if "x \<in> set b" "y \<in> set (concat bs)" for x y
    using Cons.prems that bucketed_index [of "Suc k" bs y] by (auto simp: waiter_before_def)
  ultimately show ?case
    using Cons by (auto simp: sorted_wrt_append)
qed simp

lemma bucketed_pop: "bucketed k bs \<Longrightarrow> pop_buckets bs = Some (e, bs') \<Longrightarrow> bucketed k bs'"
  by (induction bs arbitrary: k bs') (auto split: list.splits option.splits)

lemma bucketed_push:
  "bucketed k bs \<Longrightarrow> i < length bs \<Longrightarrow> priority_index (t_priority (we_task e)) = k + i \<Longrightarrow>
   \<forall>e' \<in> set (concat bs). we_slot e' < we_slot e \<Longrightarrow> bucketed k (bs[i := bs ! i @ [e]])"
  by (induction bs arbitrary: k i) (auto simp: sorted_wrt_append split: nat.splits)

definition fair_ok :: "'p group \<Rightarrow> bool" where
  "fair_ok g \<longleftrightarrow> bucketed 0 (wait_buckets g)"

lemma drain_fair: "fair_ok g \<Longrightarrow> fair_ok (drain_and_pay g)"
  using bucketed_pop by (auto simp: fair_ok_def drain_and_pay_eq drop_registration_frame split: option.splits)

lemma release_fair: "fair_ok g \<Longrightarrow> fair_ok (release_token g)"
  using drain_fair [of "add_tokens 1 g"]
  by (auto simp: release_token_def Let_def notify_slow_path_eq) (simp_all add: fair_ok_def add_tokens_def)

lemma park_fair:
  assumes "group_ok g" and "fair_ok g"
  shows "fair_ok (park t p ci g)"
proof -
  let ?g = "snd (park_publish t p ci g)"
  have "\<forall>e' \<in> set (concat (wait_buckets g)). we_slot e' < slot_alloc g"
    using assms(1) by (simp add: group_ok_def shape_def parked_def)
  then have pub: "fair_ok ?g"
    using assms bucketed_push [of 0 "wait_buckets g" "priority_index (t_priority t)"
        "\<lparr>we_task = t, we_pool = p, we_clear_idle = ci, we_slot = slot_alloc g\<rparr>"]
    by (auto simp: fair_ok_def park_publish_def Let_def log_event_def group_ok_def shape_def split: option.splits)
  have "fair_ok (park_reconcile sl ?g)" for sl
    using drain_fair [of "(add_tokens (- 1) ?g)\<lparr>slots := (slots ?g)(sl := True)\<rparr>"]
      release_fair [of "add_tokens (- 1) ?g"] pub
    by (auto simp: park_reconcile_def Let_def fair_ok_def add_tokens_def)
  then show ?thesis by (simp add: park_def Let_def split_beta)
qed

lemma group_step_fair:
  assumes "group_ok g" and "fair_ok g"
  shows "fair_ok (group_step ev g)"
proof -
  have frame: "fair_ok g'" if "wait_buckets g' = wait_buckets g" for g'
    using that assms(2) by (simp add: fair_ok_def)
  show ?thesis
  proof (cases ev)
    case Acquire
    then show ?thesis
      by (auto simp: try_acquire_running_lock_def Let_def add_tokens_frame intro!: frame)
        (auto simp: make_running_lock_def add_tokens_def)
  next
    case (Submit t p ci)
    then show ?thesis
      using park_fair [OF assms]
      by (auto simp: try_submit_def Let_def add_tokens_frame) (auto intro!: frame simp: group_simps)
  next
    case Finish
    have "fair_ok (g\<lparr>running := running g - 1\<rparr>)"
      by (rule frame) simp
    then show ?thesis
      using Finish assms(2) by (simp add: destroy_running_lock_def release_fair)
  next
    case (Unlock h)
    have "fair_ok (lock_gone_notified h g)"
      by (rule frame) (simp add: lock_gone_notified_def lock_gone_def Let_def split_beta)
    then show ?thesis
      using Unlock assms drain_fair by (auto simp: destroy_group_lock_eq)
  qed (auto simp: group_lock_def group_lock_lock_def add_tokens_def Let_def intro!: frame)
qed

lemma group_run_fair: "group_ok g \<Longrightarrow> fair_ok g \<Longrightarrow> fair_ok (fold group_step evs g)"
  by (induction evs arbitrary: g) (simp_all add: group_step_ok group_step_fair)

lemma fair_new: "fair_ok (new_group d)"
  by (simp add: fair_ok_def new_group_def numeral_eq_Suc)

text \<open>
  Hand-over on completion. In any reachable state, when a running task ends while waiters are
  parked and either no slow-path waiter is pending or a waiter is already owed a slot (negative tokens),
  exactly one parked task is submitted to its pool, with force, and it is the one that comes first: no
  other parked task has a more urgent bucket, or the same bucket and an earlier arrival.
\<close>

theorem group_hands_over_in_order:
  assumes "0 \<le> gd_concurrency d" and "g = fold group_step evs (new_group d)"
    and "0 < running g" and "parked g = e # es" and "tokens g < 0 \<or> slow_pending g = 0"
  shows "events (destroy_running_lock g) = events g @ EvSubmit (we_task e) (we_pool e) (we_clear_idle e) True
           # (case we_pool e of None \<Rightarrow> [] | Some p \<Rightarrow> [EvUnregister p])
    \<and> parked (destroy_running_lock g) = es \<and> running (destroy_running_lock g) = running g
    \<and> (\<forall>x \<in> set es. waiter_before e x)"
proof -
  have ok: "group_ok g" "fair_ok g"
    using group_run_ok [OF group_ok_new] group_run_fair [OF group_ok_new fair_new] assms(1,2) by auto
  let ?g = "add_tokens 1 (g\<lparr>running := running g - 1\<rparr>)"
  obtain bs where pop: "pop_buckets (wait_buckets g) = Some (e, bs)"
    using pop_buckets_concat [of "wait_buckets g"] assms(4)
    by (auto simp: parked_def split: option.splits)
  have p: "parked ?g = e # es" and same: "parked ?g = parked g"
    using assms(4) by (simp_all add: add_tokens_def parked_def)
  have sh: "shape ?g"
    using ok(1) unfolding group_ok_def shape_def same by (simp add: add_tokens_def)
  have d: "destroy_running_lock g = drain_and_pay ?g"
    using assms(5) by (auto simp: destroy_running_lock_def release_token_def Let_def add_tokens_frame)
  have "events (drain_and_pay ?g) = events g @ EvSubmit (we_task e) (we_pool e) (we_clear_idle e) True
           # (case we_pool e of None \<Rightarrow> [] | Some p \<Rightarrow> [EvUnregister p])"
    using pop by (simp add: drain_and_pay_eq drop_registration_frame add_tokens_def)
  moreover have "\<forall>x \<in> set es. waiter_before e x"
    using bucketed_sorted [of 0 "wait_buckets g"] ok(2) assms(4) by (simp add: fair_ok_def parked_def)
  moreover have "running ?g = running g - 1"
    by (simp add: add_tokens_def)
  ultimately show ?thesis
    using drain_and_pay_ok [OF sh] p d by simp
qed

theorem group_hands_over_in_order_witness:
  "map we_task (parked (destroy_running_lock (fold group_step
     [Submit (example_task 1 500) (Some ''p'') True, Submit (example_task 2 250) (Some ''p'') True,
      Submit (example_task 3 1000) (Some ''p'') True] (new_group (example_group 1)))))
   = [example_task 2 250]"
  using group_hands_over_in_order [of "example_group 1", OF _ refl,
      of "[Submit (example_task 1 500) (Some ''p'') True, Submit (example_task 2 250) (Some ''p'') True,
        Submit (example_task 3 1000) (Some ''p'') True]"]
  by (simp add: group_eval)

text \<open>The scan of \<open>GroupLock::lock\<close>, counted: the unlocked handles up to and including its own.\<close>

definition ahead :: "nat list \<Rightarrow> (nat \<Rightarrow> lock_handle) \<Rightarrow> nat \<Rightarrow> int" where
  "ahead q hs me = int (length (filter (\<lambda>x. \<not> lh_locked (hs x)) (takeWhile (\<lambda>x. x \<noteq> me) q)))"

lemma may_lock_iff:
  "\<not> lh_locked (hs me) \<Longrightarrow> may_lock q free hs me \<longleftrightarrow> me \<in> set q \<and> ahead q hs me < free"
proof (induction q free hs me rule: may_lock.induct)
  case (2 h q free hs me)
  have "ahead (h # q) hs me = (if h = me then 0 else (if lh_locked (hs h) then 0 else 1) + ahead q hs me)"
    by (simp add: ahead_def)
  moreover have "0 \<le> ahead q hs me"
    by (simp add: ahead_def)
  ultimately show ?case
    using 2 by (auto simp: Let_def)
qed (simp add: ahead_def)

lemma may_lock_cong:
  "(\<And>x. x \<in> set q \<Longrightarrow> lh_locked (hs x) = lh_locked (hs' x)) \<Longrightarrow> may_lock q free hs me = may_lock q free hs' me"
  by (induction q arbitrary: free) (auto simp: Let_def)

lemma may_lock_free: "may_lock q free hs me \<Longrightarrow> 0 \<le> free"
  by (cases q) (auto simp: Let_def split: if_splits)

lemma collect_notify_spec:
  "distinct q \<Longrightarrow> fst (collect_notify q free hs)
     = filter (\<lambda>h. \<not> lh_locked (hs h) \<and> \<not> lh_notified (hs h) \<and> may_lock q free hs h) q
   \<and> (\<forall>x. lh_notified (snd (collect_notify q free hs) x)
        \<longleftrightarrow> lh_notified (hs x) \<or> x \<in> set (fst (collect_notify q free hs)))"
proof (induction q free hs rule: collect_notify.induct)
  case (2 h q free hs)
  define free' where "free' = free - (if lh_locked (hs h) then 0 else 1)"
  define hs1 where "hs1 = hs(h := (hs h)\<lparr>lh_notified := True\<rparr>)"
  have h: "h \<notin> set q" "distinct q"
    using "2.prems" by auto
  have tail: "filter (\<lambda>x. \<not> lh_locked (hs x) \<and> \<not> lh_notified (hs x) \<and> may_lock (h # q) free hs x) q
      = filter (\<lambda>x. \<not> lh_locked (hs x) \<and> \<not> lh_notified (hs x) \<and> may_lock q free' hs x) q"
    by (rule filter_cong) (use h in \<open>auto simp: free'_def [symmetric] Let_def dest: may_lock_free\<close>)
  have cong: "filter (\<lambda>x. \<not> lh_locked (hs1 x) \<and> \<not> lh_notified (hs1 x) \<and> may_lock q free' hs1 x) q
      = filter (\<lambda>x. \<not> lh_locked (hs x) \<and> \<not> lh_notified (hs x) \<and> may_lock q free' hs x) q"
  proof (rule filter_cong)
    fix x assume x: "x \<in> set q"
    have "may_lock q free' hs1 x = may_lock q free' hs x"
      by (rule may_lock_cong) (simp add: hs1_def)
    then show "(\<not> lh_locked (hs1 x) \<and> \<not> lh_notified (hs1 x) \<and> may_lock q free' hs1 x)
        = (\<not> lh_locked (hs x) \<and> \<not> lh_notified (hs x) \<and> may_lock q free' hs x)"
      using x h by (auto simp: hs1_def)
  qed simp
  show ?case
  proof (cases "free' \<ge> 0 \<and> \<not> lh_locked (hs h) \<and> \<not> lh_notified (hs h)")
    case True
    have l: "free' = free - 1" "1 \<le> free" "\<not> lh_locked (hs h)" "\<not> lh_notified (hs h)"
      using True by (auto simp: free'_def)
    then have eq: "collect_notify (h # q) free hs
        = (h # fst (collect_notify q free' hs1), snd (collect_notify q free' hs1))"
      by (simp add: hs1_def Let_def split_beta)
    have "may_lock (h # q) free hs h"
      using l by (simp add: Let_def)
    then have head: "filter (\<lambda>x. \<not> lh_locked (hs x) \<and> \<not> lh_notified (hs x) \<and> may_lock (h # q) free hs x) (h # q)
        = h # filter (\<lambda>x. \<not> lh_locked (hs x) \<and> \<not> lh_notified (hs x) \<and> may_lock (h # q) free hs x) q"
      using l by (simp only: filter.simps simp_thms if_True)
    have told: "lh_notified (hs1 x) \<longleftrightarrow> lh_notified (hs x) \<or> x = h" for x
      by (simp add: hs1_def)
    show ?thesis
      unfolding eq fst_conv snd_conv head tail
      using "2.IH"(1) [OF free'_def True h(2), folded hs1_def] cong told by auto
  next
    case False
    then have eq: "collect_notify (h # q) free hs = collect_notify q free' hs"
      by (auto simp: free'_def Let_def)
    have "\<not> (\<not> lh_locked (hs h) \<and> \<not> lh_notified (hs h) \<and> may_lock (h # q) free hs h)"
      using False by (auto simp: free'_def Let_def split: if_splits)
    then have head: "filter (\<lambda>x. \<not> lh_locked (hs x) \<and> \<not> lh_notified (hs x) \<and> may_lock (h # q) free hs x) (h # q)
        = filter (\<lambda>x. \<not> lh_locked (hs x) \<and> \<not> lh_notified (hs x) \<and> may_lock (h # q) free hs x) q"
      by (simp only: filter.simps if_False)
    show ?thesis
      unfolding eq head tail by (rule "2.IH"(2) [OF free'_def False h(2)])
  qed
qed simp

text \<open>
  The slow path is served in order. In any reachable state the handles wait in the queue in the
  order of \<open>operator<\<close>; a group lock that does not hold yet can lock exactly when there are more free
  tokens than waiting handles before its own (so as soon as a token is free, the first waiting handle can);
  and while any group lock is alive no fast-path submission starts a task and no running lock is acquired.
\<close>

theorem group_slow_path_in_order:
  assumes "0 \<le> gd_concurrency d" and "g = fold group_step evs (new_group d)" and "h \<in> set (queue g)"
  shows "sorted (map (\<lambda>x. handle_key (handles g x)) (queue g))
    \<and> (fst (group_lock_lock h g) \<longleftrightarrow> lh_locked (handles g h) \<or> ahead (queue g) (handles g) h < tokens g)
    \<and> fst (try_submit t p ci g) = False \<and> fst (try_acquire_running_lock g) = False"
proof -
  have ok: "group_ok g"
    using group_run_ok [OF group_ok_new] assms(1,2) by auto
  then have "slow_pending g > 0" "sorted (map (\<lambda>x. handle_key (handles g x)) (queue g))"
    using assms(3) length_pos_if_in_set [OF assms(3)] unfolding group_ok_def shape_def by auto
  then show ?thesis
    using assms(3) may_lock_iff [of "handles g" h "queue g" "tokens g"]
    by (auto simp: group_lock_lock_def try_submit_def try_acquire_running_lock_def)
qed

theorem group_slow_path_in_order_witness:
  "fst (group_lock_lock 1 (fold group_step [Lock 1 500, Lock 2 750] (new_group (example_group 1))))
   \<and> \<not> fst (group_lock_lock 0 (fold group_step [Lock 1 500, Lock 2 750] (new_group (example_group 1))))"
  using group_slow_path_in_order [of "example_group 1", OF _ refl, of 1 "[Lock 1 500, Lock 2 750]"]
    group_slow_path_in_order [of "example_group 1", OF _ refl, of 0 "[Lock 1 500, Lock 2 750]"]
  by (simp add: group_eval ahead_def less_task_key_iff)

text \<open>
  Whoever can lock is told. When the end of a running task leaves a free token and slow-path
  waiters exist, the notifications sent are exactly those of the waiting handles that can lock now and
  were not told before, in queue order; afterwards every waiting handle that can lock has been told, and
  locking any one of them succeeds.
\<close>

theorem group_notifies_exactly:
  assumes "0 \<le> gd_concurrency d" and "g = fold group_step evs (new_group d)"
    and "0 < running g" and "0 \<le> tokens g" and "queue g \<noteq> []" and "g' = destroy_running_lock g"
  shows "events g' = events g @ map EvNotify (filter (\<lambda>h. \<not> lh_locked (handles g h)
          \<and> \<not> lh_notified (handles g h) \<and> ahead (queue g) (handles g) h < tokens g + 1) (queue g))
    \<and> (\<forall>h \<in> set (queue g'). fst (group_lock_lock h g') \<longrightarrow> lh_locked (handles g' h) \<or> lh_notified (handles g' h))"
proof -
  have ok: "group_ok g"
    using group_run_ok [OF group_ok_new] assms(1,2) by auto
  then have pos: "0 < slow_pending g" and ds: "distinct (queue g)"
    using assms(5) by (auto simp: group_ok_def shape_def)
  let ?c = "collect_notify (queue g) (tokens g + 1) (handles g)"
  have g': "g' = (g\<lparr>running := running g - 1, tokens := tokens g + 1, handles := snd ?c,
      events := events g @ map EvNotify (fst ?c)\<rparr>)"
    using assms(4,6) pos
    by (simp add: destroy_running_lock_def release_token_def Let_def notify_slow_path_eq add_tokens_def)
  note spec = collect_notify_spec [OF ds, of "tokens g + 1" "handles g"]
  have fl: "fst ?c = filter (\<lambda>h. \<not> lh_locked (handles g h) \<and> \<not> lh_notified (handles g h)
      \<and> ahead (queue g) (handles g) h < tokens g + 1) (queue g)"
    using spec may_lock_iff [of "handles g" _ "queue g" "tokens g + 1"] by (auto intro!: filter_cong)
  have "lh_locked (handles g' h) \<or> lh_notified (handles g' h)"
    if h: "h \<in> set (queue g')" "fst (group_lock_lock h g')" for h
  proof (cases "lh_locked (handles g h)")
    case True
    then show ?thesis by (simp add: g' collect_notify_frame)
  next
    case False
    then have "may_lock (queue g) (tokens g + 1) (snd ?c) h"
      using h by (auto simp: group_lock_lock_def g' collect_notify_frame split: if_splits)
    then have "may_lock (queue g) (tokens g + 1) (handles g) h"
      using may_lock_cong [of "queue g" "snd ?c" "handles g"] by (simp add: collect_notify_frame)
    then show ?thesis
      using spec False h by (auto simp: g')
  qed
  then show ?thesis using fl by (auto simp: g')
qed

theorem group_notifies_exactly_witness:
  "events (destroy_running_lock (fold group_step [Submit (example_task 1 500) (Some ''p'') True, Lock 1 500, Lock 2 750]
     (new_group (example_group 1))))
   = [EvSubmit (example_task 1 500) (Some ''p'') True False, EvNotify 1]"
  using group_notifies_exactly [of "example_group 1", OF _ refl,
      of "[Submit (example_task 1 500) (Some ''p'') True, Lock 1 500, Lock 2 750]", OF _ _ _ _ refl]
  by (simp add: group_eval ahead_def less_task_key_iff)

section \<open>Group locks as a lock family\<close>

text \<open>
  The groups of a scheduler, by key, and the group locks on them: what \<open>CombinedLock\<close> sees.
\<close>

type_synonym 'p groups = "nat \<Rightarrow> 'p group"

definition acquire_in :: "nat \<times> nat \<Rightarrow> 'p groups \<Rightarrow> bool \<times> 'p groups" where
  "acquire_in k gs = (let (ok, g) = group_lock_lock (snd k) (gs (fst k)) in (ok, gs(fst k := g)))"

definition holds_in :: "nat \<times> nat \<Rightarrow> 'p groups \<Rightarrow> bool" where
  "holds_in k gs = lh_locked (handles (gs (fst k)) (snd k))"

definition groups_ok :: "'p groups \<Rightarrow> bool" where
  "groups_ok gs \<longleftrightarrow> (\<forall>i. group_ok (gs i))"

interpretation glocks: lock_family acquire_in holds_in groups_ok
proof
  fix j k :: "nat \<times> nat" and gs :: "'p groups"
  assume ok: "groups_ok gs"
  show "groups_ok (snd (acquire_in k gs))"
    using ok group_lock_lock_ok by (auto simp: groups_ok_def acquire_in_def Let_def split_beta)
  show "fst (acquire_in k gs) = holds_in k (snd (acquire_in k gs))"
    by (simp add: acquire_in_def holds_in_def group_lock_lock_def add_tokens_def)
  show "holds_in j gs \<Longrightarrow> holds_in j (snd (acquire_in k gs))"
    by (auto simp: acquire_in_def holds_in_def group_lock_lock_def add_tokens_def Let_def)
  show "holds_in k gs \<Longrightarrow> acquire_in k gs = (True, gs)"
    by (simp add: acquire_in_def holds_in_def group_lock_lock_def Let_def)
qed

text \<open>
  A task in several groups. The combined lock over its group locks answers true exactly when every
  one of them is held afterwards; once it has answered true it keeps answering true without touching any
  group; each attempt, also a failed one that keeps some of the locks, leaves every group within its
  concurrency.
\<close>

theorem combined_group_lock:
  assumes "\<forall>i. group_ok (gs i)" and "combined_lock (map acquire_in ks) gs = (r, gs')"
  shows "(r \<longleftrightarrow> (\<forall>(i, h) \<in> set ks. lh_locked (handles (gs' i) h)))
    \<and> (r \<longrightarrow> combined_lock (map acquire_in ks) gs' = (True, gs'))
    \<and> (\<forall>i. running (gs' i) + locked (gs' i) \<le> concurrency (gs' i))"
proof -
  have ok: "groups_ok gs"
    using assms(1) by (simp add: groups_ok_def)
  have "groups_ok gs'"
    using glocks.combined_inv [OF ok, of ks] assms(2) by simp
  then show ?thesis
    using glocks.combined_true_iff [OF ok, of ks] glocks.combined_sticky [OF ok, of ks] assms(2)
      group_ok_bound by (auto simp: holds_in_def groups_ok_def)
qed

theorem combined_group_lock_witness:
  "fst (combined_lock (map acquire_in [(0, 0), (1, 0)])
     (\<lambda>i. fold group_step [Lock 1 500] (new_group (example_group 1) :: string group)))"
proof -
  let ?g = "\<lambda>i :: nat. fold group_step [Lock 1 500] (new_group (example_group 1) :: string group)"
  have "\<forall>i. group_ok (?g i)"
    by (intro allI group_run_ok group_ok_new) (simp add: example_group_def)
  note c = combined_group_lock [OF this, of "[(0, 0), (1, 0)]", OF surjective_pairing]
  show ?thesis
    using c by (simp add: acquire_in_def group_eval)
qed

end
