(* ===== verification/Thread_Pool.thy ===== *)
theory Thread_Pool
  imports Group_Tokens
begin

text \<open>
  Thread pools (\<open>scheduler/Pool.cpp\<close>, \<open>Pool.hpp\<close>): the five priority buckets, the flags that decide
  when a worker runs, waits or leaves, the count of tasks pending, the waiters parked elsewhere, and the
  idle bookkeeping by counting locks. Workers and producers interleave at the granularity of the code:
  one iteration of \<open>get_task\<close> runs under the mutex from its test to its wait, and \<open>submit\<close> is three steps
  (count, enqueue, signal) because the first two are lock-free. The lock of a task is a parameter
  \<open>try_lock\<close> on a state \<open>'s\<close>; \<open>Task_Scheduler\<close> instantiates it with the group locks.
\<close>

section \<open>State\<close>

text \<open>
  What a pool executes: a reaction's task, or the floating task that submits a batch of idle reactions
  (address and id of each).
\<close>

type_synonym idle_reaction = "nat \<times> nid"

datatype pool_work = Work reaction_task | IdleDispatch "idle_reaction list"

record 'l ptask =
  pt_work :: pool_work
  pt_lock :: "'l option"

fun work_priority :: "pool_work \<Rightarrow> int" where
  "work_priority (Work t) = t_priority t"
| "work_priority (IdleDispatch rs) = 0"

datatype StopType = NORMAL_STOP | FINAL_STOP | FORCE_STOP

text \<open>The part of the scheduler its pools share.\<close>

record pool_shared =
  active_pools :: "32 word"
  global_idle_count :: "64 word"
  sched_idle_tasks :: "idle_reaction list"

text \<open>
  A pool. Threads are numbered; \<open>p_thread_idle\<close> is the map \<open>thread_idle\<close>, \<open>p_workers\<close> the number of
  threads started. \<open>p_signals\<close> logs the notifications of the condition variable (\<open>True\<close> for
  \<open>notify_all\<close>).
\<close>

record 'l pool =
  p_descriptor :: pool_descriptor
  p_running :: bool
  p_accept :: bool
  p_buckets :: "'l ptask list list"
  p_pending :: "64 word"
  p_external :: "64 word"
  p_pending_idle :: bool
  p_idle_count :: "64 word"
  p_live :: bool
  p_single_consumer :: bool
  p_consumer :: "nat option"
  p_discard :: bool
  p_active :: "32 word"
  p_idle_tasks :: "idle_reaction list"
  p_thread_idle :: "nat \<Rightarrow> counting_lock option"
  p_pool_idle :: "counting_lock option"
  p_workers :: nat
  p_signals :: "bool list"

definition signal :: "bool \<Rightarrow> 'l pool \<Rightarrow> 'l pool" where
  "signal all p = p\<lparr>p_signals := p_signals p @ [all]\<rparr>"

text \<open>\<open>pool_idle = nullptr\<close>: the counting lock gives its count back.\<close>

definition clear_pool_idle :: "'l pool \<times> pool_shared \<Rightarrow> 'l pool \<times> pool_shared" where
  "clear_pool_idle ps =
     (case p_pool_idle (fst ps) of
        None \<Rightarrow> ps
      | Some l \<Rightarrow> ((fst ps)\<lparr>p_pool_idle := None\<rparr>,
                   (snd ps)\<lparr>active_pools := counting_destroy l (active_pools (snd ps))\<rparr>))"

section \<open>Construction, start and destruction\<close>

definition new_pool :: "bool \<Rightarrow> pool_descriptor \<Rightarrow> pool_shared \<Rightarrow> 'l pool \<times> pool_shared" where
  "new_pool is_default d sh =
     (let p = \<lparr>p_descriptor = d, p_running = True, p_accept = True,
               p_buckets = replicate PRIORITY_BUCKETS [], p_pending = 0, p_external = 0, p_pending_idle = False,
               p_idle_count = 0, p_live = True, p_single_consumer = (pd_concurrency d = 1 \<and> \<not> is_default),
               p_consumer = None, p_discard = False, p_active = 0, p_idle_tasks = [],
               p_thread_idle = (\<lambda>_. None), p_pool_idle = None, p_workers = 0, p_signals = []\<rparr>
      in if pd_counts_for_idle d
         then (let (l, c) = counting_new (- 1) 0 (active_pools sh + 1)
               in (p\<lparr>p_pool_idle := Some l\<rparr>, sh\<lparr>active_pools := c\<rparr>))
         else (p, sh))"

text \<open>\<open>start\<close>: \<open>default_n\<close> is the scheduler's default pool concurrency, used by the default pool.\<close>

definition pool_start :: "bool \<Rightarrow> int \<Rightarrow> 'l pool \<Rightarrow> 'l pool" where
  "pool_start is_default default_n p =
     (let n = (if is_default then default_n else pd_concurrency (p_descriptor p))
      in p\<lparr>p_active := (if pd_counts_for_idle (p_descriptor p) then of_int n else 0), p_workers := nat n\<rparr>)"

text \<open>\<open>~Pool\<close>, after \<open>stop(FORCE)\<close> and \<open>join\<close>: one pool less, and the members go.\<close>

definition destroy_pool :: "'l pool \<times> pool_shared \<Rightarrow> 'l pool \<times> pool_shared" where
  "destroy_pool ps =
     clear_pool_idle (fst ps, (snd ps)\<lparr>active_pools := active_pools (snd ps)
       - (if pd_counts_for_idle (p_descriptor (fst ps)) then 1 else 0)\<rparr>)"

text \<open>\<open>run\<close> records the worker as the MPSC consumer, and forgets it when the worker leaves.\<close>

definition worker_enter :: "nat \<Rightarrow> 'l pool \<Rightarrow> 'l pool" where
  "worker_enter tid p = p\<lparr>p_consumer := Some tid\<rparr>"

definition worker_exit :: "'l pool \<Rightarrow> 'l pool" where
  "worker_exit p = p\<lparr>p_consumer := None\<rparr>"

definition drain_queues :: "'l pool \<Rightarrow> 'l ptask list \<times> 'l pool" where
  "drain_queues p = (concat (p_buckets p), p\<lparr>p_buckets := map (\<lambda>_. []) (p_buckets p)\<rparr>)"

text \<open>
  \<open>stop\<close> by thread \<open>tid\<close>. The result is the drained tasks (destroyed after the mutex is released) and
  whether the caller now blocks until the consumer has discarded the queues; \<open>stop_resume\<close> is the rest of
  the call in that case.
\<close>

definition pool_stop :: "nat \<Rightarrow> StopType \<Rightarrow> 'l pool \<Rightarrow> 'l ptask list \<times> bool \<times> 'l pool" where
  "pool_stop tid type p =
     (let persistent = pd_persistent (p_descriptor p);
          p1 = p\<lparr>p_live := True, p_accept := persistent\<rparr>
      in case type of
           NORMAL_STOP \<Rightarrow> ([], False, signal True (p1\<lparr>p_running := persistent\<rparr>))
         | FINAL_STOP \<Rightarrow> ([], False, signal True (p1\<lparr>p_running := False\<rparr>))
         | FORCE_STOP \<Rightarrow>
             (let p2 = p1\<lparr>p_accept := False, p_running := False\<rparr>
              in if p_single_consumer p2 \<and> p_consumer p2 \<noteq> None \<and> p_consumer p2 \<noteq> Some tid
                 then ([], True, signal True (p2\<lparr>p_discard := True\<rparr>))
                 else (let (drained, p3) = drain_queues p2
                       in (drained, False, signal True (p3\<lparr>p_pending := 0\<rparr>)))))"

definition stop_resume :: "'l pool \<Rightarrow> bool \<times> 'l pool" where
  "stop_resume p = (if p_discard p then (False, p) else (True, signal True (p\<lparr>p_pending := 0\<rparr>)))"

section \<open>Notification, submission and external waiters\<close>

definition pool_notify :: "bool \<Rightarrow> 'l pool \<times> pool_shared \<Rightarrow> 'l pool \<times> pool_shared" where
  "pool_notify clear_idle ps =
     (let ps1 = ((fst ps)\<lparr>p_live := True\<rparr>, snd ps);
          ps2 = (if clear_idle then clear_pool_idle ps1 else ps1)
      in (signal False (fst ps2), snd ps2))"

text \<open>
  The three steps of \<open>submit\<close>: the acceptance test, the count, the enqueue (each atomic on its own),
  then the part under the mutex.
\<close>

definition submit_accepts :: "bool \<Rightarrow> 'l pool \<Rightarrow> bool" where
  "submit_accepts force p = (force \<or> p_accept p)"

definition submit_count :: "'l pool \<Rightarrow> 'l pool" where
  "submit_count p = p\<lparr>p_pending := p_pending p + 1\<rparr>"

definition submit_enqueue :: "'l ptask \<Rightarrow> 'l pool \<Rightarrow> 'l pool" where
  "submit_enqueue t p =
     (let b = priority_index (work_priority (pt_work t))
      in p\<lparr>p_buckets := (p_buckets p)[b := p_buckets p ! b @ [t]]\<rparr>)"

definition submit_signal :: "bool \<Rightarrow> 'l pool \<times> pool_shared \<Rightarrow> 'l pool \<times> pool_shared" where
  "submit_signal clear_idle ps =
     (let ps1 = (if clear_idle then clear_pool_idle ps else ps)
      in (signal False ((fst ps1)\<lparr>p_live := True\<rparr>), snd ps1))"

definition pool_submit :: "'l ptask \<Rightarrow> bool \<Rightarrow> bool \<Rightarrow> 'l pool \<times> pool_shared \<Rightarrow> 'l pool \<times> pool_shared" where
  "pool_submit t clear_idle force ps =
     (if \<not> submit_accepts force (fst ps) then ps
      else submit_signal clear_idle (submit_enqueue t (submit_count (fst ps)), snd ps))"

definition idle_relevant :: "'l pool \<times> pool_shared \<Rightarrow> bool" where
  "idle_relevant ps = (p_idle_count (fst ps) > 0 \<or> global_idle_count (snd ps) > 0)"

definition register_external_waiter :: "'l pool \<times> pool_shared \<Rightarrow> 'l pool" where
  "register_external_waiter ps =
     (let p = (fst ps)\<lparr>p_external := p_external (fst ps) + 1\<rparr>
      in if \<not> idle_relevant (p, snd ps) then p
         else if p_pending_idle p then p
         else signal False (p\<lparr>p_pending_idle := True\<rparr>))"

definition unregister_external_waiter :: "'l pool \<Rightarrow> 'l pool" where
  "unregister_external_waiter p =
     (let before = p_external p;
          p1 = p\<lparr>p_external := before - 1\<rparr>
      in if before = 1 then signal True p1 else p1)"

definition pool_add_idle_task :: "idle_reaction \<Rightarrow> 'l pool \<Rightarrow> 'l pool" where
  "pool_add_idle_task r p =
     (let p1 = p\<lparr>p_idle_tasks := p_idle_tasks p @ [r], p_idle_count := p_idle_count p + 1\<rparr>
      in if length (p_idle_tasks p1) = 1 then signal False p1 else p1)"

definition pool_remove_idle_task :: "nid \<Rightarrow> 'l pool \<Rightarrow> 'l pool" where
  "pool_remove_idle_task i p =
     (let before = length (p_idle_tasks p);
          rest = filter (\<lambda>r. snd r \<noteq> i) (p_idle_tasks p)
      in p\<lparr>p_idle_tasks := rest, p_idle_count := p_idle_count p - of_nat (before - length rest)\<rparr>)"

definition is_idle :: "'l pool \<Rightarrow> bool" where
  "is_idle p = (p_pool_idle p \<noteq> None)"

section \<open>Idle bookkeeping\<close>

definition collect_local_idle :: "nat \<Rightarrow> 'l pool \<Rightarrow> idle_reaction list \<times> 'l pool" where
  "collect_local_idle tid p =
     (case p_thread_idle p tid of
        Some _ \<Rightarrow> ([], p)
      | None \<Rightarrow>
          (let (l, c) = counting_new (- 1) 0 (p_active p);
               p1 = p\<lparr>p_thread_idle := (p_thread_idle p)(tid := Some l), p_active := c\<rparr>
           in (if cl_locked l then p_idle_tasks p1 else [], p1)))"

definition get_local_idle_task :: "nat \<Rightarrow> 'l pool \<Rightarrow> idle_reaction list \<times> 'l pool" where
  "get_local_idle_task tid p =
     (if \<not> p_running p \<or> \<not> pd_counts_for_idle (p_descriptor p) then ([], p) else collect_local_idle tid p)"

definition get_idle_task ::
  "nat \<Rightarrow> 'l pool \<times> pool_shared \<Rightarrow> idle_reaction list \<times> 'l pool \<times> pool_shared"
where
  "get_idle_task tid ps =
     (if \<not> p_running (fst ps) \<or> \<not> pd_counts_for_idle (p_descriptor (fst ps)) then ([], ps)
      else
        let (tasks, p1) = collect_local_idle tid (fst ps)
        in if p_pool_idle p1 = None \<and> p_active p1 = 0
           then (let (l, c) = counting_new (- 1) 0 (active_pools (snd ps));
                     sh1 = (snd ps)\<lparr>active_pools := c\<rparr>
                 in (if cl_locked l then tasks @ sched_idle_tasks sh1 else tasks, p1\<lparr>p_pool_idle := Some l\<rparr>, sh1))
           else (tasks, p1, snd ps))"

text \<open>\<open>thread_idle[tid] = nullptr\<close>.\<close>

definition clear_thread_idle :: "nat \<Rightarrow> 'l pool \<Rightarrow> 'l pool" where
  "clear_thread_idle tid p =
     (case p_thread_idle p tid of
        None \<Rightarrow> p
      | Some l \<Rightarrow> p\<lparr>p_thread_idle := (p_thread_idle p)(tid := None),
                      p_active := counting_destroy l (p_active p)\<rparr>)"

section \<open>The worker loop\<close>

definition try_dequeue_task :: "'l pool \<Rightarrow> ('l ptask \<times> 'l pool) option" where
  "try_dequeue_task p =
     (case pop_buckets (p_buckets p) of
        None \<Rightarrow> None
      | Some (t, bs) \<Rightarrow> Some (t, p\<lparr>p_buckets := bs, p_pending := p_pending p - 1\<rparr>))"

definition loop_condition :: "'l pool \<Rightarrow> bool" where
  "loop_condition p = (p_running p \<or> p_pending p > 0 \<or> p_external p > 0 \<or> p_discard p)"

definition wait_predicate :: "'l pool \<Rightarrow> bool" where
  "wait_predicate p =
     (p_live p \<or> p_pending_idle p \<or> p_discard p \<or> (\<not> p_running p \<and> p_pending p = 0 \<and> p_external p = 0))"

text \<open>
  One iteration of the loop of \<open>get_task\<close>: the task to run, the tasks discarded (the loop then starts
  over), waiting on the condition variable, or leaving by \<open>ShutdownThreadException\<close>.
\<close>

datatype 'l outcome = Dispatch "'l ptask" | Discarded "'l ptask list" | Waiting | Shutdown

definition lock_task :: "('l \<Rightarrow> 's \<Rightarrow> bool \<times> 's) \<Rightarrow> 'l ptask \<Rightarrow> 's \<Rightarrow> bool \<times> 's" where
  "lock_task try_lock t s = (case pt_lock t of None \<Rightarrow> (True, s) | Some l \<Rightarrow> try_lock l s)"

definition idle_ptask :: "idle_reaction list \<Rightarrow> 'l ptask" where
  "idle_ptask rs = \<lparr>pt_work = IdleDispatch rs, pt_lock = None\<rparr>"

text \<open>From \<open>bool got = false\<close> to the wait.\<close>

definition dequeue_or_idle ::
  "('l \<Rightarrow> 's \<Rightarrow> bool \<times> 's) \<Rightarrow> nat \<Rightarrow> 'l pool \<times> pool_shared \<times> 's
    \<Rightarrow> 'l outcome \<times> 'l pool \<times> pool_shared \<times> 's"
where
  "dequeue_or_idle try_lock tid = (\<lambda>(p, sh, s).
     (case (if p_live p then try_dequeue_task p else None) of
        Some (t, p1) \<Rightarrow>
          (let (ok, s1) = lock_task try_lock t s in
           if ok
           then (let (p2, sh2) = clear_pool_idle (clear_thread_idle tid p1, sh) in (Dispatch t, p2, sh2, s1))
           else (Waiting, (submit_enqueue t (submit_count p1))\<lparr>p_live := False\<rparr>, sh, s1))
      | None \<Rightarrow>
          (let (rs, p1, sh1) = get_idle_task tid (p\<lparr>p_live := False\<rparr>, sh) in
           if rs \<noteq> [] then (Dispatch (idle_ptask rs), p1, sh1, s) else (Waiting, p1, sh1, s))))"

definition get_task_iter ::
  "('l \<Rightarrow> 's \<Rightarrow> bool \<times> 's) \<Rightarrow> nat \<Rightarrow> 'l pool \<times> pool_shared \<times> 's
    \<Rightarrow> 'l outcome \<times> 'l pool \<times> pool_shared \<times> 's"
where
  "get_task_iter try_lock tid = (\<lambda>(p, sh, s).
     (if \<not> loop_condition p then (Shutdown, signal True p, sh, s)
      else if p_discard p then
        (let (discarded, p1) = drain_queues p
         in (Discarded discarded, signal True (p1\<lparr>p_pending := 0, p_discard := False\<rparr>), sh, s))
      else if p_pending_idle p then
        (let (rs, p1) = get_local_idle_task tid (p\<lparr>p_pending_idle := False\<rparr>)
         in if rs \<noteq> [] then (Dispatch (idle_ptask rs), p1, sh, s)
            else dequeue_or_idle try_lock tid (p1, sh, s))
      else dequeue_or_idle try_lock tid (p, sh, s)))"

section \<open>Histories of a pool\<close>

text \<open>
  Any interleaving of the steps producers, workers, groups and stoppers take. The first component
  counts the submissions between their count and their enqueue.
\<close>

datatype 'l pool_op =
    StepCount bool
  | StepEnqueue "'l ptask"
  | StepSignal bool
  | StepIter nat
  | StepNotify bool
  | StepRegister
  | StepUnregister
  | StepAddIdle idle_reaction
  | StepRemoveIdle nid
  | StepStop nat StopType
  | StepResume

type_synonym ('l, 's) pool_state = "nat \<times> 'l pool \<times> pool_shared \<times> 's"

fun pool_step :: "('l \<Rightarrow> 's \<Rightarrow> bool \<times> 's) \<Rightarrow> 'l pool_op \<Rightarrow> ('l, 's) pool_state \<Rightarrow> ('l, 's) pool_state" where
  "pool_step lk (StepCount force) (k, p, sh, s) =
     (if submit_accepts force p then (Suc k, submit_count p, sh, s) else (k, p, sh, s))"
| "pool_step lk (StepEnqueue t) (k, p, sh, s) = (if k > 0 then (k - 1, submit_enqueue t p, sh, s) else (k, p, sh, s))"
| "pool_step lk (StepSignal ci) (k, p, sh, s) = (let (p', sh') = submit_signal ci (p, sh) in (k, p', sh', s))"
| "pool_step lk (StepIter tid) (k, p, sh, s) = (k, snd (get_task_iter lk tid (p, sh, s)))"
| "pool_step lk (StepNotify ci) (k, p, sh, s) = (let (p', sh') = pool_notify ci (p, sh) in (k, p', sh', s))"
| "pool_step lk StepRegister (k, p, sh, s) = (k, register_external_waiter (p, sh), sh, s)"
| "pool_step lk StepUnregister (k, p, sh, s) = (k, unregister_external_waiter p, sh, s)"
| "pool_step lk (StepAddIdle r) (k, p, sh, s) = (k, pool_add_idle_task r p, sh, s)"
| "pool_step lk (StepRemoveIdle i) (k, p, sh, s) = (k, pool_remove_idle_task i p, sh, s)"
| "pool_step lk (StepStop tid ty) (k, p, sh, s) = (k, snd (snd (pool_stop tid ty p)), sh, s)"
| "pool_step lk StepResume (k, p, sh, s) = (k, snd (stop_resume p), sh, s)"

text \<open>
  The code zeroes \<open>pending_tasks\<close> in three places; \<open>calm\<close> says that none of them happens while a
  submission is between its count and its enqueue (or, for the last, while something is queued).
\<close>

fun calm :: "'l pool_op \<Rightarrow> ('l, 's) pool_state \<Rightarrow> bool" where
  "calm (StepStop tid ty) (k, p, sh, s) = (ty \<noteq> FORCE_STOP \<or> k = 0)"
| "calm (StepIter tid) (k, p, sh, s) = (p_discard p \<longrightarrow> k = 0)"
| "calm StepResume (k, p, sh, s) = (k = 0 \<and> concat (p_buckets p) = [])"
| "calm _ st = True"

fun calm_history :: "('l \<Rightarrow> 's \<Rightarrow> bool \<times> 's) \<Rightarrow> 'l pool_op list \<Rightarrow> ('l, 's) pool_state \<Rightarrow> bool" where
  "calm_history lk [] st = True"
| "calm_history lk (ev # evs) st = (calm ev st \<and> calm_history lk evs (pool_step lk ev st))"

definition task_bucket :: "'l ptask \<Rightarrow> nat" where
  "task_bucket t = priority_index (work_priority (pt_work t))"

definition pool_ok :: "nat \<Rightarrow> 'l pool \<Rightarrow> bool" where
  "pool_ok k p \<longleftrightarrow> length (p_buckets p) = PRIORITY_BUCKETS
     \<and> (\<forall>i < PRIORITY_BUCKETS. \<forall>t \<in> set (p_buckets p ! i). task_bucket t = i)
     \<and> p_pending p = of_nat (length (concat (p_buckets p)) + k)"

text \<open>Only the buckets and the pending count matter for it.\<close>

lemma pool_ok_cong:
  "p_buckets p' = p_buckets p \<Longrightarrow> p_pending p' = p_pending p \<Longrightarrow> pool_ok k p' = pool_ok k p"
  by (simp add: pool_ok_def)

lemma clear_pool_idle_frame:
  "p_buckets (fst (clear_pool_idle ps)) = p_buckets (fst ps)"
  "p_pending (fst (clear_pool_idle ps)) = p_pending (fst ps)"
  by (simp_all add: clear_pool_idle_def split: option.splits)

lemma clear_thread_idle_frame:
  "p_buckets (clear_thread_idle tid p) = p_buckets p" "p_pending (clear_thread_idle tid p) = p_pending p"
  by (simp_all add: clear_thread_idle_def split: option.splits)

lemma idle_frame:
  "p_buckets (snd (collect_local_idle tid p)) = p_buckets p"
  "p_pending (snd (collect_local_idle tid p)) = p_pending p"
  "p_buckets (snd (get_local_idle_task tid p)) = p_buckets p"
  "p_pending (snd (get_local_idle_task tid p)) = p_pending p"
  by (simp_all add: get_local_idle_task_def collect_local_idle_def counting_new_def Let_def split: option.splits)

lemma get_idle_frame:
  "p_buckets (fst (snd (get_idle_task tid ps))) = p_buckets (fst ps)"
  "p_pending (fst (snd (get_idle_task tid ps))) = p_pending (fst ps)"
  by (simp_all add: get_idle_task_def Let_def split_beta idle_frame)

lemma concat_map_nil [simp]: "concat (map (\<lambda>_. []) bs) = []"
  by (induction bs) simp_all

lemma pool_ok_count: "pool_ok k p \<Longrightarrow> pool_ok (Suc k) (submit_count p)"
  by (simp add: pool_ok_def submit_count_def)

lemma length_concat_push:
  "i < length bs \<Longrightarrow> length (concat (bs[i := bs ! i @ [e]])) = Suc (length (concat bs))"
  using mset_concat_push [of i bs e] by (metis size_add_mset size_mset)

lemma pool_ok_enqueue:
  assumes "pool_ok (Suc k) p"
  shows "pool_ok k (submit_enqueue t p)"
proof -
  have b: "task_bucket t < length (p_buckets p)"
    using assms by (simp add: pool_ok_def task_bucket_def)
  define bs where "bs = (p_buckets p)[task_bucket t := p_buckets p ! task_bucket t @ [t]]"
  have eq: "submit_enqueue t p = p\<lparr>p_buckets := bs\<rparr>"
    by (simp add: submit_enqueue_def task_bucket_def Let_def bs_def)
  have tags: "\<forall>t' \<in> set (bs ! i). task_bucket t' = i" if "i < PRIORITY_BUCKETS" for i
    using assms b that unfolding pool_ok_def bs_def by (cases "i = task_bucket t") auto
  have len: "length (concat bs) = Suc (length (concat (p_buckets p)))"
    unfolding bs_def by (rule length_concat_push [OF b])
  have five: "length bs = PRIORITY_BUCKETS" and pend: "p_pending p = of_nat (length (concat (p_buckets p)) + Suc k)"
    using assms by (simp_all add: bs_def pool_ok_def)
  show ?thesis
    unfolding pool_ok_def eq using tags five len pend by (simp del: length_concat PRIORITY_BUCKETS_5)
qed

lemma pop_buckets_nth:
  "pop_buckets bs = Some (t, bs') \<Longrightarrow> \<exists>i < length bs. bs ! i = t # bs' ! i \<and> (\<forall>j < length bs. j \<noteq> i \<longrightarrow> bs' ! j = bs ! j)
     \<and> (\<forall>j < i. bs ! j = [])"
proof (induction bs arbitrary: bs')
  case (Cons b bs)
  show ?case
  proof (cases b)
    case Nil
    then obtain bs'' where p: "pop_buckets bs = Some (t, bs'')" and bs': "bs' = [] # bs''"
      using Cons.prems by (auto split: option.splits)
    then obtain i where "i < length bs" "bs ! i = t # bs'' ! i" "\<forall>j < length bs. j \<noteq> i \<longrightarrow> bs'' ! j = bs ! j"
        "\<forall>j < i. bs ! j = []"
      using Cons.IH by blast
    then show ?thesis
      using Nil bs' by (intro exI [of _ "Suc i"]) (auto simp: nth_Cons split: nat.splits)
  next
    case (Cons e b')
    then show ?thesis
      using Cons.prems by (intro exI [of _ 0]) (auto simp: nth_Cons split: nat.splits)
  qed
qed simp

lemma try_dequeue_ok:
  assumes ok: "pool_ok k p" and deq: "try_dequeue_task p = Some (t, p')"
  shows "pool_ok k p' \<and> concat (p_buckets p) = t # concat (p_buckets p')
    \<and> (\<forall>t' \<in> set (concat (p_buckets p')). task_bucket t \<le> task_bucket t')"
proof -
  obtain bs where pop: "pop_buckets (p_buckets p) = Some (t, bs)"
      and p': "p' = p\<lparr>p_buckets := bs, p_pending := p_pending p - 1\<rparr>"
    using deq by (auto simp: try_dequeue_task_def split: option.splits)
  have c: "concat (p_buckets p) = t # concat bs" and len: "length bs = length (p_buckets p)"
    using pop_buckets_concat [of "p_buckets p"] pop by simp_all
  obtain i where i: "i < length (p_buckets p)" "p_buckets p ! i = t # bs ! i"
      "\<forall>j < length (p_buckets p). j \<noteq> i \<longrightarrow> bs ! j = p_buckets p ! j" "\<forall>j < i. p_buckets p ! j = []"
    using pop_buckets_nth [OF pop] by blast
  have tags: "\<forall>j < PRIORITY_BUCKETS. \<forall>t' \<in> set (p_buckets p ! j). task_bucket t' = j"
      and five: "length (p_buckets p) = PRIORITY_BUCKETS"
    using ok by (simp_all add: pool_ok_def)
  have sub: "set (bs ! j) \<subseteq> set (p_buckets p ! j)" if "j < length (p_buckets p)" for j
    using i that by (cases "j = i") auto
  have "\<forall>j < PRIORITY_BUCKETS. \<forall>t' \<in> set (bs ! j). task_bucket t' = j"
    using tags sub five by fastforce
  then have ok': "pool_ok k p'"
    using ok c len arg_cong [OF c, of length] by (simp add: pool_ok_def p' del: length_concat concat.simps)
  have "task_bucket t = i"
    using tags i five by auto
  moreover have "i \<le> task_bucket t'" if t': "t' \<in> set (concat bs)" for t'
  proof -
    obtain b where "b \<in> set bs" "t' \<in> set b"
      using t' by auto
    then obtain j where j: "j < length bs" "t' \<in> set (bs ! j)"
      using in_set_conv_nth [of b bs] by blast
    then have "t' \<in> set (p_buckets p ! j)" "j < length (p_buckets p)"
      using sub len by auto
    then show ?thesis using tags i(4) five by (metis empty_iff empty_set not_le_imp_less)
  qed
  ultimately show ?thesis using c ok' p' by simp
qed

text \<open>What the worker finds when it looks.\<close>

definition scan :: "'l pool \<Rightarrow> ('l ptask \<times> 'l pool) option" where
  "scan p = (if p_live p then try_dequeue_task p else None)"

lemma dequeue_or_idle_none:
  "scan p = None \<Longrightarrow> dequeue_or_idle lk tid (p, sh, s) =
     (let (rs, p1, sh1) = get_idle_task tid (p\<lparr>p_live := False\<rparr>, sh) in
      if rs \<noteq> [] then (Dispatch (idle_ptask rs), p1, sh1, s) else (Waiting, p1, sh1, s))"
  by (simp only: scan_def dequeue_or_idle_def case_prod_conv option.case)

lemma dequeue_or_idle_some:
  "scan p = Some (t, p1) \<Longrightarrow> dequeue_or_idle lk tid (p, sh, s) =
     (let (ok, s1) = lock_task lk t s in
      if ok
      then (let (p2, sh2) = clear_pool_idle (clear_thread_idle tid p1, sh) in (Dispatch t, p2, sh2, s1))
      else (Waiting, (submit_enqueue t (submit_count p1))\<lparr>p_live := False\<rparr>, sh, s1))"
  by (simp only: scan_def dequeue_or_idle_def case_prod_conv option.case)

lemma dequeue_or_idle_ok:
  assumes "pool_ok k p"
  shows "pool_ok k (fst (snd (dequeue_or_idle lk tid (p, sh, s))))"
proof (cases "scan p")
  case None
  have "pool_ok k (fst (snd (get_idle_task tid (p\<lparr>p_live := False\<rparr>, sh))))"
    using assms by (simp add: pool_ok_def get_idle_frame)
  then show ?thesis using None by (simp add: dequeue_or_idle_none split_beta Let_def)
next
  case (Some r)
  obtain t p1 where r: "r = (t, p1)"
    by (cases r)
  then have ok1: "pool_ok k p1"
    using Some try_dequeue_ok [OF assms, of t p1] by (simp add: scan_def split: if_splits)
  have a: "pool_ok k (fst (clear_pool_idle (clear_thread_idle tid p1, sh)))"
    using ok1 by (simp add: pool_ok_def clear_pool_idle_frame clear_thread_idle_frame)
  have b: "pool_ok k ((submit_enqueue t (submit_count p1))\<lparr>p_live := False\<rparr>)"
    using pool_ok_enqueue [OF pool_ok_count [OF ok1], of t] by (simp add: pool_ok_def)
  show ?thesis
    using Some r a b by (simp add: dequeue_or_idle_some split_beta Let_def)
qed

lemma get_task_iter_ok:
  assumes "pool_ok k p" and "p_discard p \<longrightarrow> k = 0"
  shows "pool_ok k (fst (snd (get_task_iter lk tid (p, sh, s))))"
proof -
  have sig: "pool_ok k (signal b q) = pool_ok k q" for b q
    by (simp add: signal_def pool_ok_def)
  have loc: "pool_ok k (snd (get_local_idle_task tid (p\<lparr>p_pending_idle := False\<rparr>)))"
    using assms(1) by (simp add: pool_ok_def idle_frame)
  have disc: "pool_ok k (p\<lparr>p_buckets := map (\<lambda>_. []) (p_buckets p), p_pending := 0, p_discard := False\<rparr>)" if "p_discard p"
    using assms that by (simp add: pool_ok_def)
  show ?thesis
    using assms(1) loc disc
    by (simp add: get_task_iter_def drain_queues_def sig split_beta Let_def dequeue_or_idle_ok)
qed

lemma pool_step_ok:
  assumes "pool_ok (fst st) (fst (snd st))" and "calm ev st"
  shows "pool_ok (fst (pool_step lk ev st)) (fst (snd (pool_step lk ev st)))"
proof -
  obtain k p sh s where st: "st = (k, p, sh, s)"
    by (cases st)
  have ok: "pool_ok k p"
    using assms st by simp
  have cl: "pool_ok k (fst (clear_pool_idle (p', sh')))" if "pool_ok k p'" for p' sh'
    using that by (simp add: pool_ok_def clear_pool_idle_frame)
  show ?thesis
  proof (cases ev)
    case (StepCount force)
    then show ?thesis using ok st by (simp add: pool_ok_count)
  next
    case (StepEnqueue t)
    then show ?thesis using ok st pool_ok_enqueue [of "k - 1" p t] by (cases k) simp_all
  next
    case (StepSignal ci)
    then show ?thesis
      using ok st cl [OF ok] by (simp add: submit_signal_def signal_def split_beta Let_def) (simp add: pool_ok_def)
  next
    case (StepIter tid)
    then show ?thesis using ok st assms(2) by (simp add: get_task_iter_ok)
  next
    case (StepNotify ci)
    then show ?thesis
      using ok st cl [of "p\<lparr>p_live := True\<rparr>"]
      by (simp add: pool_notify_def signal_def split_beta Let_def) (simp add: pool_ok_def)
  next
    case (StepStop tid ty)
    then show ?thesis
      using ok st assms(2) by (cases ty) (simp_all add: pool_stop_def signal_def drain_queues_def pool_ok_def Let_def)
  next
    case StepResume
    then show ?thesis
      using ok st assms(2) by (simp add: stop_resume_def signal_def pool_ok_def del: concat_eq_Nil_conv)
  qed (use ok st in \<open>simp_all add: register_external_waiter_def unregister_external_waiter_def
      pool_add_idle_task_def pool_remove_idle_task_def signal_def pool_ok_def Let_def\<close>)
qed

lemma pool_run_ok:
  "pool_ok (fst st) (fst (snd st)) \<Longrightarrow> calm_history lk evs st \<Longrightarrow>
   pool_ok (fst (fold (pool_step lk) evs st)) (fst (snd (fold (pool_step lk) evs st)))"
  by (induction evs arbitrary: st) (auto simp: pool_step_ok)

lemma new_pool_ok: "pool_ok 0 (fst (new_pool def d sh))"
  by (simp add: new_pool_def pool_ok_def counting_new_def Let_def)

text \<open>A pool just constructed.\<close>

definition pool_init :: "bool \<Rightarrow> pool_descriptor \<Rightarrow> pool_shared \<Rightarrow> 's \<Rightarrow> ('l, 's) pool_state" where
  "pool_init is_default d sh s = (let (p, sh') = new_pool is_default d sh in (0, p, sh', s))"

lemma pool_init_ok: "pool_ok (fst (pool_init def d sh s)) (fst (snd (pool_init def d sh s)))"
  using new_pool_ok by (simp add: pool_init_def split_beta Let_def)

lemma pool_reachable_ok:
  assumes "calm_history lk evs (pool_init def d sh s)"
    and "fold (pool_step lk) evs (pool_init def d sh s) = (k, p, sh', s')"
  shows "pool_ok k p"
  using pool_run_ok [OF pool_init_ok assms(1)] by (simp add: assms(2))

section \<open>What a worker may leave behind, and in which order it works\<close>

definition example_pool_desc :: "bool \<Rightarrow> int \<Rightarrow> pool_descriptor" where
  "example_pool_desc persistent n = \<lparr>pd_ref = 1, pd_name = ''P'', pd_concurrency = n, pd_counts_for_idle = True,
     pd_persistent = persistent\<rparr>"

definition example_ptask :: "nid \<Rightarrow> int \<Rightarrow> 'l option \<Rightarrow> 'l ptask" where
  "example_ptask i p l = \<lparr>pt_work = Work (example_task i p), pt_lock = l\<rparr>"

definition example_shared :: pool_shared where
  "example_shared = \<lparr>active_pools = 0, global_idle_count = 0, sched_idle_tasks = []\<rparr>"

text \<open>A lock that is the truth of a flag in the state.\<close>

definition flag_lock :: "unit \<Rightarrow> bool \<Rightarrow> bool \<times> bool" where
  "flag_lock l s = (s, s)"

lemma five_buckets:
  "replicate 5 b = [b, b, b, b, b]" "[a, b, c, d, e][2 := x] = [a, b, x, d, e]"
  "[a, b, c, d, e][3 := x] = [a, b, c, x, e]" "[a, b, c, d, e][4 := x] = [a, b, c, d, x]"
  "[a, b, c, d, e] ! 2 = c" "[a, b, c, d, e] ! 3 = d" "[a, b, c, d, e] ! 4 = e"
  by (simp_all add: numeral_eq_Suc)

lemmas pool_eval = five_buckets word_gt_0 example_pool_desc_def example_ptask_def example_shared_def example_task_def blank_task_def
  new_pool_def counting_new_def pool_start_def submit_count_def submit_enqueue_def submit_signal_def
  clear_pool_idle_def signal_def counting_destroy_def get_task_iter_def loop_condition_def dequeue_or_idle_def
  try_dequeue_task_def lock_task_def flag_lock_def clear_thread_idle_def pool_stop_def drain_queues_def
  get_idle_task_def get_local_idle_task_def collect_local_idle_def submit_accepts_def priority_index_simp
  unregister_external_waiter_def register_external_waiter_def idle_relevant_def wait_predicate_def Let_def





section \<open>Draining a stopped pool\<close>

text \<open>\<open>Pool::run\<close> with a bound on the number of iterations: the outcomes until the worker leaves.\<close>

fun worker_run ::
  "nat \<Rightarrow> ('l \<Rightarrow> 's \<Rightarrow> bool \<times> 's) \<Rightarrow> nat \<Rightarrow> 'l pool \<times> pool_shared \<times> 's
    \<Rightarrow> 'l outcome list \<times> 'l pool \<times> pool_shared \<times> 's"
where
  "worker_run 0 lk tid st = ([], st)"
| "worker_run (Suc n) lk tid st =
     (case get_task_iter lk tid st of
        (Shutdown, st') \<Rightarrow> ([Shutdown], worker_exit (fst st'), snd st')
      | (out, st') \<Rightarrow> (let (outs, st'') = worker_run n lk tid st' in (out # outs, st'')))"

definition winding_down :: "'l pool \<Rightarrow> bool" where
  "winding_down p \<longleftrightarrow> \<not> p_running p \<and> p_live p \<and> \<not> p_discard p \<and> \<not> p_pending_idle p \<and> p_external p = 0"

lemma winding_down_iter:
  assumes "winding_down p" and "pool_ok 0 p" and "length (concat (p_buckets p)) < 2 ^ 64"
    and "\<forall>t \<in> set (concat (p_buckets p)). \<forall>s. fst (lock_task lk t s)"
  shows "case concat (p_buckets p) of
      [] \<Rightarrow> fst (get_task_iter lk tid (p, sh, s)) = Shutdown
    | t # ts \<Rightarrow> \<exists>p' sh' s'. get_task_iter lk tid (p, sh, s) = (Dispatch t, p', sh', s') \<and> winding_down p'
        \<and> pool_ok 0 p' \<and> concat (p_buckets p') = ts"
proof (cases "try_dequeue_task p")
  case None
  then have e: "concat (p_buckets p) = []"
    using pop_buckets_concat [of "p_buckets p"] by (simp add: try_dequeue_task_def split: option.splits prod.splits)
  then have "p_pending p = 0"
    using assms(2) by (simp add: pool_ok_def del: concat_eq_Nil_conv length_concat)
  then have "\<not> loop_condition p"
    using assms(1) by (simp add: loop_condition_def winding_down_def)
  then show ?thesis unfolding e by (simp add: get_task_iter_def)
next
  case (Some r)
  obtain t p1 where r: "r = (t, p1)"
    by (cases r)
  have deq: "scan p = Some (t, p1)"
    using Some r assms(1) by (simp add: scan_def winding_down_def)
  have p1: "pool_ok 0 p1" "concat (p_buckets p) = t # concat (p_buckets p1)"
    using try_dequeue_ok [OF assms(2)] Some r by auto
  have wd1: "winding_down p1"
    using assms(1) Some r by (auto simp: try_dequeue_task_def winding_down_def split: option.splits)
  have "(of_nat (length (concat (p_buckets p))) :: 64 word) \<noteq> 0"
    using small_word64_eq_0 [OF assms(3)] p1(2) by (simp del: length_concat)
  then have "p_pending p > 0"
    using assms(2) by (simp add: pool_ok_def word_neq_0_conv del: length_concat)
  then have iter: "get_task_iter lk tid (p, sh, s) = dequeue_or_idle lk tid (p, sh, s)"
    using assms(1) by (simp add: get_task_iter_def loop_condition_def winding_down_def)
  have ok: "fst (lock_task lk t s)"
    using assms(4) p1(2) by (simp del: set_concat)
  obtain p2 sh2 where p2: "clear_pool_idle (clear_thread_idle tid p1, sh) = (p2, sh2)"
    by (cases "clear_pool_idle (clear_thread_idle tid p1, sh)")
  have fr: "p_buckets p2 = p_buckets p1" "p_pending p2 = p_pending p1"
    using clear_pool_idle_frame [of "(clear_thread_idle tid p1, sh)"] by (simp_all add: p2 clear_thread_idle_frame)
  have wd2: "winding_down p2"
    using wd1 arg_cong [OF p2, of fst]
    by (auto simp: winding_down_def clear_pool_idle_def clear_thread_idle_def split: option.splits)
  have "dequeue_or_idle lk tid (p, sh, s) = (Dispatch t, p2, sh2, snd (lock_task lk t s))"
    using ok p2 by (simp add: dequeue_or_idle_some [OF deq] split_beta Let_def)
  moreover have "pool_ok 0 p2" "concat (p_buckets p2) = concat (p_buckets p1)"
    using pool_ok_cong [OF fr] p1(1) by (simp_all only: fr)
  ultimately show ?thesis
    unfolding p1(2) list.case iter using wd2 by blast
qed

lemma worker_run_drains:
  assumes "winding_down p" and "pool_ok 0 p" and "concat (p_buckets p) = ts" and "length ts < 2 ^ 64"
    and "\<forall>t \<in> set ts. \<forall>s. fst (lock_task lk t s)"
  shows "fst (worker_run (Suc (length ts)) lk tid (p, sh, s)) = map Dispatch ts @ [Shutdown]"
  using assms
proof (induction ts arbitrary: p sh s)
  case Nil
  then have "fst (get_task_iter lk tid (p, sh, s)) = Shutdown"
    using winding_down_iter [of p lk tid sh s] unfolding Nil.prems(3) by simp
  then show ?case
    by (cases "get_task_iter lk tid (p, sh, s)") simp
next
  case (Cons t ts)
  obtain p' sh' s' where i: "get_task_iter lk tid (p, sh, s) = (Dispatch t, p', sh', s')" "winding_down p'"
      "pool_ok 0 p'" "concat (p_buckets p') = ts"
    using winding_down_iter [of p lk tid sh s] Cons.prems unfolding Cons.prems(3) list.case by auto
  have "fst (worker_run (Suc (length ts)) lk tid (p', sh', s')) = map Dispatch ts @ [Shutdown]"
    by (rule Cons.IH [OF i(2-4)]) (use Cons.prems(4,5) in auto)
  then show ?case
    by (simp add: i(1) split_beta Let_def del: worker_run.simps(2) add: worker_run.simps(2) [of "Suc (length ts)"])
qed


text \<open>A waiting pool with two queued tasks, the more urgent one behind a lock that refuses.\<close>

definition blocked_pool :: "unit pool" where
  "blocked_pool =
     submit_enqueue (example_ptask 2 500 None) (submit_count
       (submit_enqueue (example_ptask 1 750 (Some ())) (submit_count
         (fst (new_pool False (example_pool_desc False 1) example_shared)))))"


section \<open>Two behaviours worth knowing\<close>

text \<open>
  A worker looks at one task only. With an urgent task whose lock refuses queued before a task that needs
  no lock, the iteration puts the urgent one back and waits, and the wait condition does not hold: the
  runnable task stays queued until some other event notifies the pool.
\<close>

theorem pool_head_of_line_blocking:
  "case get_task_iter flag_lock 0 (blocked_pool, example_shared, False) of
     (out, p, sh, s) \<Rightarrow> out = Waiting \<and> \<not> wait_predicate p \<and> p_running p
       \<and> concat (p_buckets p) = [example_ptask 1 750 (Some ()), example_ptask 2 500 None]"
  by (simp add: blocked_pool_def pool_eval)

text \<open>
  A submission that straddles a forced stop. The producer has counted its task when \<open>stop(FORCE)\<close> drains
  the buckets and stores 0 in the count; it then enqueues. If a waiter is still parked for the pool, a worker
  dequeues that task, the unsigned count wraps to \<open>2^64 - 1\<close>, and when the waiter has gone the worker
  still does not leave: it waits on a condition that no longer becomes true by itself.
\<close>

theorem pool_force_stop_race:
  "case fold (pool_step flag_lock)
      [StepCount False, StepRegister, StepStop 9 FORCE_STOP, StepEnqueue (example_ptask 1 500 None), StepSignal True,
       StepIter 0, StepUnregister, StepIter 0]
      (pool_init False (example_pool_desc False 2) example_shared True) of
     (k, p, sh, s) \<Rightarrow> p_pending p = 2 ^ 64 - 1 \<and> concat (p_buckets p) = [] \<and> \<not> p_running p \<and> p_external p = 0
       \<and> \<not> wait_predicate p \<and> loop_condition p"
  by (simp add: pool_init_def pool_eval)

section \<open>Local idle\<close>

text \<open>The workers of a pool that hold an idle lock.\<close>

definition idles :: "nat \<Rightarrow> 'l pool \<Rightarrow> int" where
  "idles n p = sum_list (map (\<lambda>t. if p_thread_idle p t = None then 0 else 1) [0 ..< n])"

definition idle_ok :: "nat \<Rightarrow> 'l pool \<Rightarrow> bool" where
  "idle_ok n p \<longleftrightarrow> p_active p = of_int (int n - idles n p)
     \<and> (\<forall>t. p_thread_idle p t \<noteq> None \<longrightarrow> t < n \<and> cl_step (the (p_thread_idle p t)) = - 1)"

lemma idles_update:
  "t < n \<Longrightarrow> idles n (p\<lparr>p_thread_idle := (p_thread_idle p)(t := v)\<rparr>)
     = idles n p - (if p_thread_idle p t = None then 0 else 1) + (if v = None then 0 else 1)"
  using sum_list_store_update [of "[0 ..< n]" t "\<lambda>v. if v = None then 0 else 1" "p_thread_idle p" v]
  by (simp add: idles_def)

lemma idle_ok_cong:
  "p_thread_idle p' = p_thread_idle p \<Longrightarrow> p_active p' = p_active p \<Longrightarrow> idle_ok n p' = idle_ok n p"
  by (simp add: idle_ok_def idles_def)

lemma idles_le: "idles n p \<le> int n"
  unfolding idles_def by (induction n) auto

lemma idles_all: "idles n p = int n \<longleftrightarrow> (\<forall>t < n. p_thread_idle p t \<noteq> None)"
proof (induction n)
  case (Suc n)
  have "idles (Suc n) p = idles n p + (if p_thread_idle p n = None then 0 else 1)"
    by (simp add: idles_def)
  then show ?case using Suc idles_le [of n p] by (auto simp: less_Suc_eq)
qed (simp add: idles_def)

lemma small_int_word_0:
  assumes "0 \<le> i" and "i < 2 ^ 32"
  shows "(of_int i :: 32 word) = 0 \<longleftrightarrow> i = 0"
  using small_word_eq_0 [of "nat i"] assms by (simp add: nat_less_iff)

lemma idle_ok_active_0:
  assumes "idle_ok n p" and "n < 2 ^ 32"
  shows "p_active p = 0 \<longleftrightarrow> (\<forall>t < n. p_thread_idle p t \<noteq> None)"
proof -
  have "0 \<le> idles n p"
    unfolding idles_def by (rule sum_list_nonneg_int) simp
  then have "p_active p = 0 \<longleftrightarrow> int n - idles n p = 0"
    using assms idles_le [of n p] small_int_word_0 [of "int n - idles n p"] by (simp add: idle_ok_def)
  then show ?thesis using idles_all [of n p] by auto
qed

lemma collect_local_idle_ok:
  assumes "idle_ok n p" and "tid < n"
  shows "idle_ok n (snd (collect_local_idle tid p))"
proof (cases "p_thread_idle p tid")
  case None
  have "snd (collect_local_idle tid p) = p\<lparr>p_thread_idle := (p_thread_idle p)(tid \<mapsto> \<lparr>cl_step = - 1,
      cl_locked = (p_active p + - 1 = 0)\<rparr>), p_active := p_active p + - 1\<rparr>"
    using None by (simp add: collect_local_idle_def counting_new_def Let_def)
  moreover have "idles n (p\<lparr>p_thread_idle := (p_thread_idle p)(tid \<mapsto> l), p_active := x\<rparr>) = idles n p + 1" for l x
    using idles_update [OF assms(2), of p "Some l"] None by (simp add: idles_def)
  ultimately show ?thesis
    using assms by (simp add: idle_ok_def)
qed (use assms in \<open>simp add: collect_local_idle_def\<close>)

lemma clear_thread_idle_ok:
  assumes "idle_ok n p"
  shows "idle_ok n (clear_thread_idle tid p)"
proof (cases "p_thread_idle p tid")
  case (Some l)
  have t: "tid < n" and st: "cl_step l = - 1"
    using assms Some unfolding idle_ok_def by force+
  have "idles n (p\<lparr>p_thread_idle := (p_thread_idle p)(tid := None), p_active := x\<rparr>) = idles n p - 1" for x
    using idles_update [OF t, of p None] Some by (simp add: idles_def)
  then show ?thesis
    using assms Some st by (simp add: clear_thread_idle_def counting_destroy_def idle_ok_def)
qed (use assms in \<open>simp add: clear_thread_idle_def\<close>)

text \<open>Everything but the two functions above leaves the idle locks alone.\<close>

definition idle_part :: "'l pool \<Rightarrow> 32 word \<times> (nat \<Rightarrow> counting_lock option) \<times> pool_descriptor" where
  "idle_part p = (p_active p, p_thread_idle p, p_descriptor p)"

lemma idle_ok_part: "idle_part p' = idle_part p \<Longrightarrow> idle_ok n p' = idle_ok n p"
  by (rule idle_ok_cong) (simp_all add: idle_part_def)

lemma idle_part_frame:
  "idle_part (signal b p) = idle_part p"
  "idle_part (fst (clear_pool_idle ps)) = idle_part (fst ps)"
  "idle_part (submit_enqueue t p) = idle_part p" "idle_part (submit_count p) = idle_part p"
  "idle_part (p\<lparr>p_live := b\<rparr>) = idle_part p" "idle_part (p\<lparr>p_pending_idle := b\<rparr>) = idle_part p"
  "idle_part (p\<lparr>p_pool_idle := li\<rparr>) = idle_part p"
  "idle_part (p\<lparr>p_buckets := bs, p_pending := w\<rparr>) = idle_part p"
  "idle_part (p\<lparr>p_buckets := bs, p_pending := w, p_discard := b\<rparr>) = idle_part p"
  by (simp_all add: idle_part_def signal_def clear_pool_idle_def submit_enqueue_def submit_count_def Let_def
      split: option.splits)

lemma get_idle_task_ok:
  assumes "idle_ok n (fst ps)" and "tid < n"
  shows "idle_ok n (fst (snd (get_idle_task tid ps)))"
  using assms collect_local_idle_ok [OF assms]
  by (simp add: get_idle_task_def Let_def split_beta idle_ok_part [OF idle_part_frame(7)])

lemma dequeue_or_idle_idle_ok:
  assumes "idle_ok n p" and "tid < n"
  shows "idle_ok n (fst (snd (dequeue_or_idle lk tid (p, sh, s))))"
proof (cases "scan p")
  case None
  have "idle_ok n (p\<lparr>p_live := False\<rparr>)"
    using assms(1) by (simp add: idle_ok_part [OF idle_part_frame(5)])
  then have "idle_ok n (fst (snd (get_idle_task tid (p\<lparr>p_live := False\<rparr>, sh))))"
    using get_idle_task_ok [of n "(p\<lparr>p_live := False\<rparr>, sh)"] assms(2) by simp
  then show ?thesis using None by (simp add: dequeue_or_idle_none split_beta Let_def)
next
  case (Some r)
  obtain t p1 where r: "r = (t, p1)"
    by (cases r)
  have "idle_part p1 = idle_part p"
    using Some r by (auto simp: scan_def try_dequeue_task_def idle_part_def split: if_splits option.splits)
  then have p1: "idle_ok n p1"
    using assms(1) idle_ok_part by blast
  have a: "idle_ok n (fst (clear_pool_idle (clear_thread_idle tid p1, sh)))"
    using clear_thread_idle_ok [OF p1] by (simp add: idle_ok_part [OF idle_part_frame(2)])
  have b: "idle_ok n ((submit_enqueue t (submit_count p1))\<lparr>p_live := False\<rparr>)"
    using p1 by (simp add: idle_ok_part [OF idle_part_frame(5)] idle_ok_part [OF idle_part_frame(3)]
        idle_ok_part [OF idle_part_frame(4)])
  show ?thesis
    using Some r a b by (simp add: dequeue_or_idle_some split_beta Let_def)
qed

lemma get_task_iter_idle_ok:
  assumes "idle_ok n p" and "tid < n"
  shows "idle_ok n (fst (snd (get_task_iter lk tid (p, sh, s))))"
proof -
  have pi: "idle_ok n (p\<lparr>p_pending_idle := False\<rparr>)"
    using assms(1) by (simp add: idle_ok_part [OF idle_part_frame(6)])
  have loc: "idle_ok n (snd (get_local_idle_task tid (p\<lparr>p_pending_idle := False\<rparr>)))"
    using pi collect_local_idle_ok [OF pi assms(2)] by (simp add: get_local_idle_task_def)
  show ?thesis
    using assms loc
    by (simp add: get_task_iter_def drain_queues_def split_beta Let_def dequeue_or_idle_idle_ok
        idle_ok_part [OF idle_part_frame(1)] idle_ok_part [OF idle_part_frame(9)])
qed

fun worker_in :: "nat \<Rightarrow> 'l pool_op \<Rightarrow> bool" where
  "worker_in n (StepIter tid) = (tid < n)"
| "worker_in n _ = True"

lemma pool_step_idle_ok:
  assumes "idle_ok n (fst (snd st))" and "worker_in n ev"
  shows "idle_ok n (fst (snd (pool_step lk ev st)))"
proof -
  obtain k p sh s where st: "st = (k, p, sh, s)"
    by (cases st)
  show ?thesis
  proof (cases "\<exists>tid. ev = StepIter tid")
    case True
    then show ?thesis using assms st get_task_iter_idle_ok by auto
  next
    case False
    then have "idle_part (fst (snd (pool_step lk ev st))) = idle_part p"
      by (cases ev) (auto simp: st idle_part_def signal_def clear_pool_idle_def submit_enqueue_def submit_count_def
          submit_signal_def pool_notify_def register_external_waiter_def unregister_external_waiter_def
          pool_add_idle_task_def pool_remove_idle_task_def pool_stop_def stop_resume_def drain_queues_def
          split_beta Let_def split: StopType.splits option.splits)
    then show ?thesis using assms(1) st idle_ok_part by auto
  qed
qed

lemma pool_run_idle_ok:
  "idle_ok n (fst (snd st)) \<Longrightarrow> list_all (worker_in n) evs \<Longrightarrow>
   idle_ok n (fst (snd (fold (pool_step lk) evs st)))"
  by (induction evs arbitrary: st) (simp_all add: pool_step_idle_ok)

text \<open>
  Local idle fires for the last worker, and only for it. In a pool of \<open>n\<close> workers that counts for
  idle, after any interleaving of steps, \<open>active\<close> is the number of workers that are not idle; and when a
  worker that is not idle finds nothing to do while the pool runs, it becomes idle and is handed the pool's idle
  reactions exactly if every other worker is idle already.
\<close>

theorem pool_idle_last_worker:
  assumes "fold (pool_step lk) evs (k0, pool_start def default_n (fst (new_pool def d sh0)), sh, s) = (k, p, sh', s')"
    and "list_all (worker_in n) evs" and "pd_counts_for_idle d" and "0 \<le> (if def then default_n else pd_concurrency d)"
    and "n = p_workers (pool_start def default_n (fst (new_pool def d sh0)))" and "n < 2 ^ 32" and "tid < n"
    and "p_thread_idle p tid = None"
  shows "p_active p = of_int (int n - idles n p)
    \<and> fst (collect_local_idle tid p) = (if \<forall>t < n. t \<noteq> tid \<longrightarrow> p_thread_idle p t \<noteq> None then p_idle_tasks p else [])
    \<and> p_thread_idle (snd (collect_local_idle tid p)) tid \<noteq> None"
proof -
  have n: "int n = (if def then default_n else pd_concurrency d)"
    using assms(4,5) by (simp add: pool_start_def new_pool_def counting_new_def Let_def split: if_splits)
  have "idle_ok n (pool_start def default_n (fst (new_pool def d sh0)))"
    using assms(3) n by (simp add: idle_ok_def idles_def pool_start_def new_pool_def counting_new_def Let_def)
  then have ok: "idle_ok n p"
    using pool_run_idle_ok [of n "(k0, pool_start def default_n (fst (new_pool def d sh0)), sh, s)" evs lk]
      assms(1,2) by simp
  let ?p = "snd (collect_local_idle tid p)"
  have ok': "idle_ok n ?p"
    by (rule collect_local_idle_ok [OF ok assms(7)])
  have c: "fst (collect_local_idle tid p) = (if p_active ?p = 0 then p_idle_tasks p else [])"
      "p_thread_idle ?p = (p_thread_idle p)(tid \<mapsto> the (p_thread_idle ?p tid))"
    using assms(8) by (simp_all add: collect_local_idle_def counting_new_def Let_def)
  have "(\<forall>t < n. p_thread_idle ?p t \<noteq> None) \<longleftrightarrow> (\<forall>t < n. t \<noteq> tid \<longrightarrow> p_thread_idle p t \<noteq> None)"
    by (subst c(2)) auto
  moreover have "p_thread_idle ?p tid \<noteq> None"
    by (subst c(2)) simp
  ultimately show ?thesis
    using c(1) idle_ok_active_0 [OF ok' assms(6)] ok by (simp add: idle_ok_def)
qed

theorem pool_idle_last_worker_witness:
  "fst (collect_local_idle 1 (fst (snd (fold (pool_step flag_lock) [StepAddIdle (7, 7), StepIter 0]
     (0, pool_start False 4 (fst (new_pool False (example_pool_desc False 2) example_shared)), example_shared, True)))))
   = [(7, 7)]"
proof -
  let ?d = "example_pool_desc False 2"
  let ?p0 = "pool_start False 4 (fst (new_pool False ?d example_shared)) :: unit pool"
  let ?st = "fold (pool_step flag_lock) [StepAddIdle (7, 7), StepIter 0] (0, ?p0, example_shared, True)"
  obtain k p sh' s' where f: "?st = (k, p, sh', s')"
    by (cases ?st)
  have e: "p_thread_idle (fst (snd ?st)) = [0 \<mapsto> \<lparr>cl_step = - 1, cl_locked = False\<rparr>]"
      "p_idle_tasks (fst (snd ?st)) = [(7, 7)]"
    by (simp_all add: pool_eval pool_add_idle_task_def)
  note e' = e [unfolded f fst_conv snd_conv]
  have n: "2 = p_workers ?p0"
    by (simp add: pool_eval)
  have "\<forall>t < 2. t \<noteq> 1 \<longrightarrow> p_thread_idle p t \<noteq> None"
    by (auto simp: e' less_2_cases_iff)
  moreover have "fst (collect_local_idle 1 p) = (if \<forall>t < 2. t \<noteq> 1 \<longrightarrow> p_thread_idle p t \<noteq> None then p_idle_tasks p else [])"
    using pool_idle_last_worker [OF f _ _ _ n, of 1] e'(1) by (simp add: example_pool_desc_def)
  ultimately show ?thesis
    unfolding f fst_conv snd_conv using e'(2) by argo
qed

end
