(* ===== verification/Task_Scheduler.thy ===== *)
theory Task_Scheduler
  imports Thread_Pool
begin

text \<open>
  The scheduler (\<open>scheduler/Scheduler.cpp\<close>, \<open>Scheduler.hpp\<close>): the maps of pools and groups, the routing
  of a submitted task (inline, one group's fast path, several groups' combined lock, plain), the stop
  protocol and the idle tasks. Here the effects the groups log are carried out on the pools, the locks of
  queued tasks are destroyed with them, and workers take and finish tasks, so that the whole of
  \<open>threading/scheduler\<close> runs together. A task's own code is a parameter \<open>exec\<close>.
\<close>

section \<open>State\<close>

text \<open>
  The locks a \<open>Pool::Task\<close> can carry: the running lock of a group, or the combined lock over group locks
  (group and handle of each).
\<close>

datatype slock = RunningL nat | CombinedL "(nat \<times> nat) list"

type_synonym spool = "slock pool"
type_synonym sgroup = "nat group"

text \<open>
  \<open>s_notify\<close> is the pool each handle's notify function captured; \<open>s_current\<close> the thread's
  \<open>Pool::current_pool\<close>; \<open>s_cache\<close> the reactions' \<open>scheduler_data\<close>. Tasks between \<open>get_task\<close> and the end
  of their run are in \<open>s_executing\<close> with the worker (pool and thread); \<open>s_done\<close> lists the tasks run to their
  end, \<open>s_dropped\<close> those destroyed without running.
\<close>

record sched =
  s_default_concurrency :: int
  s_running :: bool
  s_started :: bool
  s_pools :: "(nat \<times> spool) list"
  s_groups :: "(nat \<times> sgroup) list"
  s_shared :: pool_shared
  s_cache :: "nat \<Rightarrow> nat option"
  s_current :: "nat option"
  s_notify :: "nat \<times> nat \<Rightarrow> nat"
  s_main :: pool_descriptor
  s_default :: pool_descriptor
  s_executing :: "((nat \<times> nat) \<times> slock ptask) list"
  s_done :: "reaction_task list"
  s_dropped :: "reaction_task list"

datatype sched_error = CannotCreatePool

definition pool_at :: "nat \<Rightarrow> sched \<Rightarrow> spool option" where
  "pool_at r s = map_of (s_pools s) r"

definition group_at :: "nat \<Rightarrow> sched \<Rightarrow> sgroup option" where
  "group_at r s = map_of (s_groups s) r"

text \<open>A pool operation also reaches the scheduler's shared counters.\<close>

definition on_pool :: "nat \<Rightarrow> (spool \<times> pool_shared \<Rightarrow> spool \<times> pool_shared) \<Rightarrow> sched \<Rightarrow> sched" where
  "on_pool r f s =
     (case pool_at r s of
        None \<Rightarrow> s
      | Some p \<Rightarrow> (let (p', sh') = f (p, s_shared s)
                  in s\<lparr>s_pools := key_update r (\<lambda>_. p') (s_pools s), s_shared := sh'\<rparr>))"

definition set_group :: "nat \<Rightarrow> sgroup \<Rightarrow> sched \<Rightarrow> sched" where
  "set_group r g s = s\<lparr>s_groups := key_update r (\<lambda>_. g) (s_groups s)\<rparr>"

section \<open>Pools and groups on demand\<close>

definition get_pool :: "pool_descriptor \<Rightarrow> sched \<Rightarrow> sched_error + nat \<times> sched" where
  "get_pool d s =
     (if pool_at (pd_ref d) s = None then
        (if \<not> s_running s then Inl CannotCreatePool
         else
           let is_default = (pd_ref d = pd_ref (s_default s));
               (p, sh) = new_pool is_default d (s_shared s);
               p' = (if pd_ref d \<noteq> pd_ref (s_main s) \<and> s_started s
                     then pool_start is_default (s_default_concurrency s) p else p)
           in Inr (pd_ref d, s\<lparr>s_pools := key_insert (pd_ref d) p' (s_pools s), s_shared := sh\<rparr>))
      else Inr (pd_ref d, s))"

definition get_group :: "group_descriptor \<Rightarrow> sched \<Rightarrow> nat \<times> sched" where
  "get_group d s =
     (if group_at (gd_ref d) s = None
      then (gd_ref d, s\<lparr>s_groups := key_insert (gd_ref d) (new_group d) (s_groups s)\<rparr>)
      else (gd_ref d, s))"

text \<open>The constructor makes the main pool and installs it as the thread's current pool.\<close>

definition new_sched :: "int \<Rightarrow> pool_descriptor \<Rightarrow> pool_descriptor \<Rightarrow> sched" where
  "new_sched n main_d default_d =
     (let s0 = \<lparr>s_default_concurrency = n, s_running = True, s_started = False, s_pools = [], s_groups = [],
                s_shared = \<lparr>active_pools = 0, global_idle_count = 0, sched_idle_tasks = []\<rparr>,
                s_cache = (\<lambda>_. None), s_current = None, s_notify = (\<lambda>_. 0), s_main = main_d, s_default = default_d,
                s_executing = [], s_done = [], s_dropped = []\<rparr>
      in case get_pool main_d s0 of
           Inl _ \<Rightarrow> s0
         | Inr (r, s1) \<Rightarrow> s1\<lparr>s_current := Some r\<rparr>)"

text \<open>The destructor clears the thread's current pool if it is one of this scheduler's.\<close>

definition destroy_sched :: "sched \<Rightarrow> sched" where
  "destroy_sched s =
     (case s_current s of
        None \<Rightarrow> s
      | Some c \<Rightarrow> (if pool_at c s \<noteq> None then s\<lparr>s_current := None\<rparr> else s))"

section \<open>Carrying out what a group asks for\<close>

definition current_pool_idle :: "sched \<Rightarrow> bool" where
  "current_pool_idle s =
     (case s_current s of
        None \<Rightarrow> False
      | Some c \<Rightarrow> (case pool_at c s of None \<Rightarrow> False | Some p \<Rightarrow> is_idle p))"

text \<open>
  One event of group \<open>r\<close>. A submission the pool refuses destroys the task and its running lock; the
  result says so, and \<open>group_call\<close> then releases the token.
\<close>

fun apply_event :: "nat \<Rightarrow> nat group_event \<Rightarrow> nat \<times> sched \<Rightarrow> nat \<times> sched" where
  "apply_event r (EvRegister p) (n, s) = (n, on_pool p (\<lambda>ps. (register_external_waiter ps, snd ps)) s)"
| "apply_event r (EvUnregister p) (n, s) = (n, on_pool p (\<lambda>(q, sh). (unregister_external_waiter q, sh)) s)"
| "apply_event r (EvNotify h) (n, s) = (n, on_pool (s_notify s (r, h)) (pool_notify (\<not> current_pool_idle s)) s)"
| "apply_event r (EvSubmit t pool ci force) (n, s) =
     (case pool of
        None \<Rightarrow> (n, s)
      | Some p \<Rightarrow>
          (case pool_at p s of
             None \<Rightarrow> (n, s)
           | Some q \<Rightarrow>
               (if submit_accepts force q
                then (n, on_pool p (pool_submit \<lparr>pt_work = Work t, pt_lock = Some (RunningL r)\<rparr> ci force) s)
                else (Suc n, s\<lparr>s_dropped := s_dropped s @ [t]\<rparr>))))"

definition new_events :: "'p group \<Rightarrow> 'p group \<Rightarrow> 'p group_event list" where
  "new_events g g' = drop (length (events g)) (events g')"

text \<open>
  Run an operation of group \<open>r\<close>, then its events. At most one of them is a submission a pool may refuse
  (the only unforced one is \<open>try_submit\<close>'s own), and a released token only causes forced ones, so one
  round of releases settles it.
\<close>

definition group_op_events :: "nat \<Rightarrow> (sgroup \<Rightarrow> sgroup) \<Rightarrow> sched \<Rightarrow> nat \<times> sched" where
  "group_op_events r f s =
     (case group_at r s of
        None \<Rightarrow> (0, s)
      | Some g \<Rightarrow> (let g' = f g in fold (apply_event r) (new_events g g') (0, set_group r g' s)))"

definition group_call :: "nat \<Rightarrow> (sgroup \<Rightarrow> sgroup) \<Rightarrow> sched \<Rightarrow> sched" where
  "group_call r f s =
     (let (refused, s1) = group_op_events r f s
      in ((\<lambda>x. snd (group_op_events r destroy_running_lock x)) ^^ refused) s1)"

text \<open>The destructor of a task's lock.\<close>

fun destroy_slock :: "slock option \<Rightarrow> sched \<Rightarrow> sched" where
  "destroy_slock None s = s"
| "destroy_slock (Some (RunningL r)) s = group_call r destroy_running_lock s"
| "destroy_slock (Some (CombinedL ks)) s = fold (\<lambda>(r, h). group_call r (destroy_group_lock h)) ks s"

text \<open>The lock of a task, as \<open>get_task\<close> and \<open>submit\<close> try it, on the map of groups.\<close>

definition acquire_group :: "nat \<times> nat \<Rightarrow> (nat \<times> sgroup) list \<Rightarrow> bool \<times> (nat \<times> sgroup) list" where
  "acquire_group k gs =
     (case map_of gs (fst k) of
        None \<Rightarrow> (False, gs)
      | Some g \<Rightarrow> (let (ok, g') = group_lock_lock (snd k) g in (ok, key_update (fst k) (\<lambda>_. g') gs)))"

fun try_slock :: "slock \<Rightarrow> (nat \<times> sgroup) list \<Rightarrow> bool \<times> (nat \<times> sgroup) list" where
  "try_slock (RunningL r) gs = (True, gs)"
| "try_slock (CombinedL ks) gs = combined_lock (map acquire_group ks) gs"

section \<open>Submitting a task\<close>

text \<open>The combined lock: one group lock per descriptor, in the order of the set.\<close>

fun add_group_locks :: "nid \<Rightarrow> int \<Rightarrow> nat \<Rightarrow> group_descriptor list \<Rightarrow> (nat \<times> nat) list \<times> sched \<Rightarrow> (nat \<times> nat) list \<times> sched"
where
  "add_group_locks i p pool [] (ks, s) = (ks, s)"
| "add_group_locks i p pool (d # ds) (ks, s) =
     (let (r, s1) = get_group d s
      in case group_at r s1 of
           None \<Rightarrow> (ks, s1)
         | Some g \<Rightarrow>
             (let (h, g') = group_lock i p g;
                  s2 = (set_group r g' s1)\<lparr>s_notify := (s_notify s1)((r, h) := pool)\<rparr>
              in add_group_locks i p pool ds (ks @ [(r, h)], s2)))"

definition get_groups_lock :: "nid \<Rightarrow> int \<Rightarrow> nat \<Rightarrow> group_descriptor list \<Rightarrow> sched \<Rightarrow> slock option \<times> sched" where
  "get_groups_lock i p pool ds s =
     (if ds = [] then (None, s)
      else (let (ks, s1) = add_group_locks i p pool ds ([], s) in (Some (CombinedL ks), s1)))"

definition resolve_pool :: "reaction_task \<Rightarrow> sched \<Rightarrow> sched_error + nat \<times> sched" where
  "resolve_pool t s =
     (case t_parent t of
        Some r \<Rightarrow>
          (case s_cache s r of
             Some p \<Rightarrow> Inr (p, s)
           | None \<Rightarrow>
               (case get_pool (t_pool t) s of
                  Inl e \<Rightarrow> Inl e
                | Inr (p, s1) \<Rightarrow> Inr (p, s1\<lparr>s_cache := (s_cache s1)(r \<mapsto> p)\<rparr>)))
      | None \<Rightarrow> get_pool (t_pool t) s)"

definition run_inline_now :: "(reaction_task \<Rightarrow> sched \<Rightarrow> sched) \<Rightarrow> reaction_task \<Rightarrow> sched \<Rightarrow> sched" where
  "run_inline_now exec t s = (let s1 = exec t s in s1\<lparr>s_done := s_done s1 @ [t]\<rparr>)"

text \<open>\<open>pool->submit\<close> of a task with its lock; a refused one is destroyed, lock included.\<close>

definition submit_to_pool :: "nat \<Rightarrow> reaction_task \<Rightarrow> slock option \<Rightarrow> bool \<Rightarrow> sched \<Rightarrow> sched" where
  "submit_to_pool p t l ci s =
     (case pool_at p s of
        None \<Rightarrow> s
      | Some q \<Rightarrow>
          (if submit_accepts False q
           then on_pool p (pool_submit \<lparr>pt_work = Work t, pt_lock = l\<rparr> ci False) s
           else destroy_slock l (s\<lparr>s_dropped := s_dropped s @ [t]\<rparr>)))"

text \<open>
  \<open>Scheduler::submit\<close>. It is \<open>noexcept\<close>: \<open>Inl\<close> is the exception of \<open>get_pool\<close> reaching that
  boundary, which terminates the program.
\<close>

definition sched_submit ::
  "(reaction_task \<Rightarrow> sched \<Rightarrow> sched) \<Rightarrow> reaction_task option \<Rightarrow> sched \<Rightarrow> sched_error + sched"
where
  "sched_submit exec task s =
     (case task of
        None \<Rightarrow> Inr s
      | Some t \<Rightarrow>
          (case resolve_pool t s of
             Inl e \<Rightarrow> Inl e
           | Inr (pool, s1) \<Rightarrow>
               (let idle = current_pool_idle s1 in
                case t_groups t of
                  [d] \<Rightarrow>
                    (let (r, s2) = get_group d s1;
                         acquired = (t_run_inline t \<and> (case group_at r s2 of
                             None \<Rightarrow> False | Some g \<Rightarrow> fst (try_acquire_running_lock g)));
                         s3 = (if t_run_inline t
                               then group_call r (\<lambda>g. snd (try_acquire_running_lock g)) s2 else s2)
                     in if acquired
                        then Inr (group_call r destroy_running_lock (run_inline_now exec t s3))
                        else Inr (group_call r (\<lambda>g. snd (try_submit t (Some pool) (\<not> idle) g)) s3))
                | ds \<Rightarrow>
                    (let (l, s2) = get_groups_lock (t_id t) (t_priority t) pool ds s1;
                         (ok, gs) = (if t_run_inline t
                                     then (case l of None \<Rightarrow> (True, s_groups s2) | Some k \<Rightarrow> try_slock k (s_groups s2))
                                     else (False, s_groups s2));
                         s3 = s2\<lparr>s_groups := gs\<rparr>
                     in if ok then Inr (destroy_slock l (run_inline_now exec t s3))
                        else Inr (submit_to_pool pool t l (\<not> idle) s3)))))"

section \<open>Workers\<close>

text \<open>
  Thread \<open>tid\<close> of pool \<open>r\<close>: one iteration of \<open>get_task\<close>. Discarded tasks are destroyed; a task handed out
  is executing until \<open>worker_finish\<close>, which destroys it and its lock.
\<close>

definition work_tasks :: "slock ptask list \<Rightarrow> reaction_task list" where
  "work_tasks ts = concat (map (\<lambda>t. case pt_work t of Work w \<Rightarrow> [w] | IdleDispatch _ \<Rightarrow> []) ts)"

definition discard_tasks :: "slock ptask list \<Rightarrow> sched \<Rightarrow> sched" where
  "discard_tasks ts s =
     fold (\<lambda>t. destroy_slock (pt_lock t)) ts (s\<lparr>s_dropped := s_dropped s @ work_tasks ts\<rparr>)"

definition worker_take :: "nat \<Rightarrow> nat \<Rightarrow> sched \<Rightarrow> sched" where
  "worker_take r tid s =
     (case pool_at r s of
        None \<Rightarrow> s
      | Some p \<Rightarrow>
          (let (out, p', sh', gs') = get_task_iter try_slock tid (p, s_shared s, s_groups s);
               s1 = s\<lparr>s_pools := key_update r (\<lambda>_. p') (s_pools s), s_shared := sh', s_groups := gs'\<rparr>
           in case out of
                Dispatch t \<Rightarrow> s1\<lparr>s_executing := s_executing s1 @ [((r, tid), t)]\<rparr>
              | Discarded ts \<Rightarrow> discard_tasks ts s1
              | Waiting \<Rightarrow> s1
              | Shutdown \<Rightarrow> s1\<lparr>s_pools := key_update r worker_exit (s_pools s1)\<rparr>))"

definition worker_finish :: "(reaction_task \<Rightarrow> sched \<Rightarrow> sched) \<Rightarrow> nat \<Rightarrow> nat \<Rightarrow> sched \<Rightarrow> sched" where
  "worker_finish exec r tid s =
     (case map_of (s_executing s) (r, tid) of
        None \<Rightarrow> s
      | Some t \<Rightarrow>
          (let s1 = (case pt_work t of Work w \<Rightarrow> run_inline_now exec w s | IdleDispatch _ \<Rightarrow> s);
               s2 = s1\<lparr>s_executing := erase_first (\<lambda>e. fst e = (r, tid)) (s_executing s1)\<rparr>
           in destroy_slock (pt_lock t) s2))"

section \<open>Starting and stopping\<close>

text \<open>\<open>start\<close> up to the point where the main thread enters its pool.\<close>

definition sched_start :: "sched \<Rightarrow> sched" where
  "sched_start s =
     (let s1 = s\<lparr>s_started := True\<rparr>;
          go = (\<lambda>(k, p). (k, if k \<noteq> pd_ref (s_main s)
                 then pool_start (k = pd_ref (s_default s)) (s_default_concurrency s) p else p))
      in s1\<lparr>s_pools := map go (s_pools s1)\<rparr>)"

text \<open>
  The order of the final stops: \<open>std::sort\<close> by "not persistent before persistent". Pools that compare
  equal are in the order of the map here; the comparison leaves it open.
\<close>

definition stop_order :: "(nat \<times> spool) list \<Rightarrow> (nat \<times> spool) list" where
  "stop_order ps = sort_key (\<lambda>(k, p). pd_persistent (p_descriptor p)) ps"

definition stop_pool :: "nat \<Rightarrow> StopType \<Rightarrow> nat \<Rightarrow> sched \<Rightarrow> sched" where
  "stop_pool caller ty r s =
     (case pool_at r s of
        None \<Rightarrow> s
      | Some p \<Rightarrow> (let (drained, blocked, p') = pool_stop caller ty p
                  in discard_tasks drained (s\<lparr>s_pools := key_update r (\<lambda>_. p') (s_pools s)\<rparr>)))"

definition sched_stop :: "nat \<Rightarrow> bool \<Rightarrow> sched \<Rightarrow> sched" where
  "sched_stop caller force s =
     (let s1 = s\<lparr>s_running := False\<rparr>
      in fold (stop_pool caller (if force then FORCE_STOP else NORMAL_STOP)) (map fst (s_pools s1)) s1)"

text \<open>The rest of \<open>start\<close>: each pool in turn gets its final stop and is joined.\<close>

definition sched_final_stop :: "nat \<Rightarrow> sched \<Rightarrow> sched" where
  "sched_final_stop caller s = fold (stop_pool caller FINAL_STOP) (map fst (stop_order (s_pools s))) s"

section \<open>Idle tasks\<close>

definition sched_add_idle_task :: "idle_reaction \<Rightarrow> pool_descriptor option \<Rightarrow> sched \<Rightarrow> sched_error + sched" where
  "sched_add_idle_task r desc s =
     (case desc of
        None \<Rightarrow>
          (let sh = (s_shared s)\<lparr>sched_idle_tasks := sched_idle_tasks (s_shared s) @ [r],
                     global_idle_count := global_idle_count (s_shared s) + 1\<rparr>
           in case get_pool (s_main s) (s\<lparr>s_shared := sh\<rparr>) of
                Inl e \<Rightarrow> Inl e
              | Inr (p, s1) \<Rightarrow> Inr (on_pool p (pool_notify True) s1))
      | Some d \<Rightarrow>
          (case get_pool d s of
             Inl e \<Rightarrow> Inl e
           | Inr (p, s1) \<Rightarrow> Inr (on_pool p (\<lambda>(q, sh). (pool_add_idle_task r q, sh)) s1)))"

definition sched_remove_idle_task :: "nid \<Rightarrow> pool_descriptor option \<Rightarrow> sched \<Rightarrow> sched_error + sched" where
  "sched_remove_idle_task i desc s =
     (case desc of
        None \<Rightarrow>
          (let before = length (sched_idle_tasks (s_shared s));
               rest = filter (\<lambda>r. snd r \<noteq> i) (sched_idle_tasks (s_shared s))
           in Inr (s\<lparr>s_shared := (s_shared s)\<lparr>sched_idle_tasks := rest,
                     global_idle_count := global_idle_count (s_shared s) - of_nat (before - length rest)\<rparr>\<rparr>))
      | Some d \<Rightarrow>
          (case get_pool d s of
             Inl e \<Rightarrow> Inl e
           | Inr (p, s1) \<Rightarrow> Inr (on_pool p (\<lambda>(q, sh). (pool_remove_idle_task i q, sh)) s1)))"

section \<open>Looking up pools\<close>

definition sched_keys_ok :: "sched \<Rightarrow> bool" where
  "sched_keys_ok s \<longleftrightarrow> distinct (map fst (s_pools s)) \<and> distinct (map fst (s_groups s))"

lemma pool_at_insert:
  "pool_at k s = None \<Longrightarrow> pool_at r (s\<lparr>s_pools := key_insert k p (s_pools s), s_shared := sh\<rparr>)
     = (if r = k then Some p else pool_at r s)"
  by (simp add: pool_at_def map_of_key_insert map_of_eq_None_iff)

text \<open>
  Pools are made once and never after the stop. Asking for a pool that exists returns it and changes
  nothing, also after \<open>stop\<close>; asking for a new one while the scheduler runs creates it, leaves the other
  pools alone, and a second request finds it; after \<open>stop\<close> it is an error, and the submission of a task for
  such a pool lets that error reach the \<open>noexcept\<close> boundary of \<open>submit\<close>.
\<close>

theorem get_pool_once:
  "(pool_at (pd_ref d) s \<noteq> None \<longrightarrow> get_pool d s = Inr (pd_ref d, s))
   \<and> (pool_at (pd_ref d) s = None \<and> s_running s \<longrightarrow>
       (\<exists>s'. get_pool d s = Inr (pd_ref d, s') \<and> pool_at (pd_ref d) s' \<noteq> None
          \<and> (\<forall>r. r \<noteq> pd_ref d \<longrightarrow> pool_at r s' = pool_at r s) \<and> get_pool d s' = Inr (pd_ref d, s')))
   \<and> (pool_at (pd_ref d) s = None \<and> \<not> s_running s \<longrightarrow>
       get_pool d s = Inl CannotCreatePool
       \<and> (\<forall>exec t. t_parent t = None \<and> t_pool t = d \<longrightarrow> sched_submit exec (Some t) s = Inl CannotCreatePool))"
  by (auto simp: get_pool_def pool_at_insert split_beta Let_def sched_submit_def resolve_pool_def)

definition example_sched :: sched where
  "example_sched = new_sched 4 (example_pool_desc False 1) ((example_pool_desc False 4)\<lparr>pd_ref := 2\<rparr>)"

theorem get_pool_once_witness:
  "get_pool ((example_pool_desc False 4)\<lparr>pd_ref := 2\<rparr>) (sched_stop 0 False example_sched) = Inl CannotCreatePool"
proof -
  let ?d = "(example_pool_desc False 4)\<lparr>pd_ref := 2\<rparr>" and ?s = "sched_stop 0 False example_sched"
  have "pool_at (pd_ref ?d) ?s = None \<and> \<not> s_running ?s"
    by (simp add: example_sched_def new_sched_def get_pool_def new_pool_def counting_new_def example_pool_desc_def
        pool_at_def key_insert_def insert_lower_def sched_stop_def stop_pool_def pool_stop_def key_update_def
        discard_tasks_def Let_def)
  then show ?thesis using get_pool_once [of ?d ?s] by blast
qed

text \<open>
  The final stops come in the right order: every pool that is not persistent is stopped and joined
  before any persistent one, and every pool is stopped exactly once.
\<close>

theorem final_stop_order:
  "mset (stop_order ps) = mset ps
   \<and> (i < j \<longrightarrow> j < length (stop_order ps) \<longrightarrow> \<not> pd_persistent (p_descriptor (snd (stop_order ps ! j)))
        \<longrightarrow> \<not> pd_persistent (p_descriptor (snd (stop_order ps ! i))))"
proof -
  have "sorted (map (\<lambda>(k, p). pd_persistent (p_descriptor p)) (stop_order ps))"
    by (simp add: stop_order_def)
  then have "i < j \<Longrightarrow> j < length (stop_order ps) \<Longrightarrow>
      pd_persistent (p_descriptor (snd (stop_order ps ! i))) \<le> pd_persistent (p_descriptor (snd (stop_order ps ! j)))"
    by (auto simp: sorted_iff_nth_mono_less split_beta)
  then show ?thesis by (auto simp: stop_order_def)
qed

theorem final_stop_order_witness:
  "map fst (stop_order [(1, fst (new_pool False (example_pool_desc True 1) example_shared)),
                        (2, fst (new_pool False (example_pool_desc False 1) example_shared))]) = [2, 1]"
proof -
  let ?ps = "[(1, fst (new_pool False (example_pool_desc True 1) example_shared)),
              (2, fst (new_pool False (example_pool_desc False 1) example_shared))] :: (nat \<times> spool) list"
  have "mset (stop_order ?ps) = mset ?ps"
    using final_stop_order [of ?ps 0 1] by blast
  moreover have "pd_persistent (p_descriptor (fst (new_pool b d sh :: slock pool \<times> pool_shared))) = pd_persistent d" for b d sh
    by (simp add: new_pool_def counting_new_def Let_def)
  ultimately show ?thesis
    by (simp add: stop_order_def example_pool_desc_def)
qed

end
