(* ===== verification/Xx_Hash.thy ===== *)
theory Xx_Hash
  imports Nuc_Prelude
begin

text \<open>
  \<open>util/serialise/xxhash.cpp\<close>, the hash that names message types on the wire: the pointer loops as the
  code has them, over an index into the input, and a reference definition on lists (whole stripes, then
  words, then single bytes). The machine's byte order is the parameter \<open>le\<close>.
\<close>

section \<open>Reading and rotating\<close>

definition read32 :: "bool \<Rightarrow> u8 list \<Rightarrow> nat \<Rightarrow> u32" where
  "read32 le v p =
     (if le
      then ucast (v ! p) OR push_bit 8 (ucast (v ! (p + 1))) OR push_bit 16 (ucast (v ! (p + 2)))
             OR push_bit 24 (ucast (v ! (p + 3)))
      else ucast (v ! (p + 3)) OR push_bit 8 (ucast (v ! (p + 2))) OR push_bit 16 (ucast (v ! (p + 1)))
             OR push_bit 24 (ucast (v ! p)))"

definition read64 :: "bool \<Rightarrow> u8 list \<Rightarrow> nat \<Rightarrow> u64" where
  "read64 le v p =
     (if le
      then ucast (v ! p) OR push_bit 8 (ucast (v ! (p + 1))) OR push_bit 16 (ucast (v ! (p + 2)))
             OR push_bit 24 (ucast (v ! (p + 3))) OR push_bit 32 (ucast (v ! (p + 4)))
             OR push_bit 40 (ucast (v ! (p + 5))) OR push_bit 48 (ucast (v ! (p + 6)))
             OR push_bit 56 (ucast (v ! (p + 7)))
      else ucast (v ! (p + 7)) OR push_bit 8 (ucast (v ! (p + 6))) OR push_bit 16 (ucast (v ! (p + 5)))
             OR push_bit 24 (ucast (v ! (p + 4))) OR push_bit 32 (ucast (v ! (p + 3)))
             OR push_bit 40 (ucast (v ! (p + 2))) OR push_bit 48 (ucast (v ! (p + 1)))
             OR push_bit 56 (ucast (v ! p)))"

definition rotl32 :: "u32 \<Rightarrow> nat \<Rightarrow> u32" where
  "rotl32 x r = (push_bit r x OR drop_bit (32 - r) x)"

definition rotl64 :: "u64 \<Rightarrow> nat \<Rightarrow> u64" where
  "rotl64 x r = (push_bit r x OR drop_bit (64 - r) x)"

text \<open>\<open>length & ~mask\<close> for a mask of low bits rounds down to a multiple.\<close>

definition round_down :: "nat \<Rightarrow> nat \<Rightarrow> nat" where
  "round_down n k = n - n mod k"

section \<open>xxhash32\<close>

abbreviation P32_1 :: u32 where "P32_1 \<equiv> 0x9E3779B1"
abbreviation P32_2 :: u32 where "P32_2 \<equiv> 0x85EBCA77"
abbreviation P32_3 :: u32 where "P32_3 \<equiv> 0xC2B2AE3D"
abbreviation P32_4 :: u32 where "P32_4 \<equiv> 0x27D4EB2F"
abbreviation P32_5 :: u32 where "P32_5 \<equiv> 0x165667B1"

type_synonym acc32 = "u32 \<times> u32 \<times> u32 \<times> u32"

definition round32 :: "u32 \<Rightarrow> u32 \<Rightarrow> u32" where
  "round32 v w = rotl32 (v + w * P32_2) 13 * P32_1"

function stripes32 :: "bool \<Rightarrow> u8 list \<Rightarrow> nat \<Rightarrow> nat \<Rightarrow> acc32 \<Rightarrow> nat \<times> acc32" where
  "stripes32 le inp lim p (v1, v2, v3, v4) =
     (if p < lim
      then stripes32 le inp lim (p + 16)
             (round32 v1 (read32 le inp p), round32 v2 (read32 le inp (p + 4)),
              round32 v3 (read32 le inp (p + 8)), round32 v4 (read32 le inp (p + 12)))
      else (p, v1, v2, v3, v4))"
  by pat_completeness auto
termination by (relation "measure (\<lambda>(le, inp, lim, p, v). lim - p)") auto

function words32 :: "bool \<Rightarrow> u8 list \<Rightarrow> nat \<Rightarrow> nat \<Rightarrow> u32 \<Rightarrow> nat \<times> u32" where
  "words32 le inp lim p h =
     (if p < lim then words32 le inp lim (p + 4) (rotl32 (h + read32 le inp p * P32_3) 17 * P32_4) else (p, h))"
  by pat_completeness auto
termination by (relation "measure (\<lambda>(le, inp, lim, p, h). lim - p)") auto

function bytes32 :: "u8 list \<Rightarrow> nat \<Rightarrow> nat \<Rightarrow> u32 \<Rightarrow> u32" where
  "bytes32 inp lim p h =
     (if p < lim then bytes32 inp lim (p + 1) (rotl32 (h + ucast (inp ! p) * P32_5) 11 * P32_1) else h)"
  by pat_completeness auto
termination by (relation "measure (\<lambda>(inp, lim, p, h). lim - p)") auto

definition avalanche32 :: "u32 \<Rightarrow> u32" where
  "avalanche32 h =
     (let h1 = (h XOR drop_bit 15 h) * P32_2;
          h2 = (h1 XOR drop_bit 13 h1) * P32_3
      in h2 XOR drop_bit 16 h2)"

definition mix32 :: "acc32 \<Rightarrow> u32" where
  "mix32 v = (case v of (v1, v2, v3, v4) \<Rightarrow> rotl32 v1 1 + rotl32 v2 7 + rotl32 v3 12 + rotl32 v4 18)"

definition init32 :: "u32 \<Rightarrow> acc32" where
  "init32 seed = (seed + P32_1 + P32_2, seed + P32_2, seed, seed - P32_1)"

definition xxhash32 :: "bool \<Rightarrow> u8 list \<Rightarrow> u32 \<Rightarrow> u32" where
  "xxhash32 le inp seed =
     (let len = length inp;
          (p, h) = (if len \<ge> 16
                    then (let (p, v) = stripes32 le inp (round_down len 16) 0 (init32 seed) in (p, mix32 v))
                    else (0, seed + P32_5));
          h1 = h + of_nat len;
          (p1, h2) = words32 le inp (round_down len 4) p h1;
          h3 = bytes32 inp len p1 h2
      in avalanche32 h3)"

section \<open>xxhash64\<close>

abbreviation P64_1 :: u64 where "P64_1 \<equiv> 11400714785074694791"
abbreviation P64_2 :: u64 where "P64_2 \<equiv> 14029467366897019727"
abbreviation P64_3 :: u64 where "P64_3 \<equiv> 1609587929392839161"
abbreviation P64_4 :: u64 where "P64_4 \<equiv> 9650029242287828579"
abbreviation P64_5 :: u64 where "P64_5 \<equiv> 2870177450012600261"

type_synonym acc64 = "u64 \<times> u64 \<times> u64 \<times> u64"

definition round64 :: "u64 \<Rightarrow> u64 \<Rightarrow> u64" where
  "round64 v w = rotl64 (v + w * P64_2) 31 * P64_1"

function stripes64 :: "bool \<Rightarrow> u8 list \<Rightarrow> nat \<Rightarrow> nat \<Rightarrow> acc64 \<Rightarrow> nat \<times> acc64" where
  "stripes64 le inp lim p (v1, v2, v3, v4) =
     (if p < lim
      then stripes64 le inp lim (p + 32)
             (round64 v1 (read64 le inp p), round64 v2 (read64 le inp (p + 8)),
              round64 v3 (read64 le inp (p + 16)), round64 v4 (read64 le inp (p + 24)))
      else (p, v1, v2, v3, v4))"
  by pat_completeness auto
termination by (relation "measure (\<lambda>(le, inp, lim, p, v). lim - p)") auto

function longs64 :: "bool \<Rightarrow> u8 list \<Rightarrow> nat \<Rightarrow> nat \<Rightarrow> u64 \<Rightarrow> nat \<times> u64" where
  "longs64 le inp lim p h =
     (if p < lim
      then longs64 le inp lim (p + 8)
             (rotl64 (h XOR (rotl64 (read64 le inp p * P64_2) 31 * P64_1)) 27 * P64_1 + P64_4)
      else (p, h))"
  by pat_completeness auto
termination by (relation "measure (\<lambda>(le, inp, lim, p, h). lim - p)") auto

function words64 :: "bool \<Rightarrow> u8 list \<Rightarrow> nat \<Rightarrow> nat \<Rightarrow> u64 \<Rightarrow> nat \<times> u64" where
  "words64 le inp lim p h =
     (if p < lim
      then words64 le inp lim (p + 4) (rotl64 (h XOR (ucast (read32 le inp p) * P64_1)) 23 * P64_2 + P64_3)
      else (p, h))"
  by pat_completeness auto
termination by (relation "measure (\<lambda>(le, inp, lim, p, h). lim - p)") auto

function bytes64 :: "u8 list \<Rightarrow> nat \<Rightarrow> nat \<Rightarrow> u64 \<Rightarrow> u64" where
  "bytes64 inp lim p h =
     (if p < lim then bytes64 inp lim (p + 1) (rotl64 (h XOR (ucast (inp ! p) * P64_5)) 11 * P64_1) else h)"
  by pat_completeness auto
termination by (relation "measure (\<lambda>(inp, lim, p, h). lim - p)") auto

definition avalanche64 :: "u64 \<Rightarrow> u64" where
  "avalanche64 h =
     (let h1 = (h XOR drop_bit 33 h) * P64_2;
          h2 = (h1 XOR drop_bit 29 h1) * P64_3
      in h2 XOR drop_bit 32 h2)"

definition merge64 :: "u64 \<Rightarrow> u64 \<Rightarrow> u64" where
  "merge64 h v = (h XOR rotl64 (v * P64_2) 31 * P64_1) * P64_1 + P64_4"

definition mix64 :: "acc64 \<Rightarrow> u64" where
  "mix64 v = (case v of (v1, v2, v3, v4) \<Rightarrow>
     merge64 (merge64 (merge64 (merge64 (rotl64 v1 1 + rotl64 v2 7 + rotl64 v3 12 + rotl64 v4 18) v1) v2) v3) v4)"

definition init64 :: "u64 \<Rightarrow> acc64" where
  "init64 seed = (seed + P64_1 + P64_2, seed + P64_2, seed, seed - P64_1)"

definition xxhash64 :: "bool \<Rightarrow> u8 list \<Rightarrow> u64 \<Rightarrow> u64" where
  "xxhash64 le inp seed =
     (let len = length inp;
          (p, h) = (if len \<ge> 32
                    then (let (p, v) = stripes64 le inp (round_down len 32) 0 (init64 seed) in (p, mix64 v))
                    else (0, seed + P64_5));
          h1 = h + of_nat len;
          (p1, h2) = longs64 le inp (round_down len 8) p h1;
          (p2, h3) = words64 le inp (round_down len 4) p1 h2;
          h4 = bytes64 inp len p2 h3
      in avalanche64 h4)"

declare stripes32.simps [simp del] words32.simps [simp del] bytes32.simps [simp del]
declare stripes64.simps [simp del] longs64.simps [simp del] words64.simps [simp del] bytes64.simps [simp del]

section \<open>Reference definition\<close>

text \<open>
  The algorithm on lists: consume the input from the front in blocks of a given size, then hand the rest
  to the next size.
\<close>

function blocks :: "nat \<Rightarrow> (u8 list \<Rightarrow> 'a \<Rightarrow> 'a) \<Rightarrow> u8 list \<Rightarrow> 'a \<Rightarrow> u8 list \<times> 'a" where
  "blocks k f xs a = (if 0 < k \<and> k \<le> length xs then blocks k f (drop k xs) (f (take k xs) a) else (xs, a))"
  by pat_completeness auto
termination by (relation "measure (\<lambda>(k, f, xs, a). length xs)") auto

declare blocks.simps [simp del]

definition spec32 :: "bool \<Rightarrow> u8 list \<Rightarrow> u32 \<Rightarrow> u32" where
  "spec32 le inp seed =
     (let (r1, h) = (if length inp \<ge> 16
            then (let (r, v) = blocks 16 (\<lambda>b (v1, v2, v3, v4).
                         (round32 v1 (read32 le b 0), round32 v2 (read32 le b 4),
                          round32 v3 (read32 le b 8), round32 v4 (read32 le b 12))) inp (init32 seed)
                  in (r, mix32 v))
            else (inp, seed + P32_5));
          (r2, h2) = blocks 4 (\<lambda>b h. rotl32 (h + read32 le b 0 * P32_3) 17 * P32_4) r1 (h + of_nat (length inp));
          h3 = fold (\<lambda>b h. rotl32 (h + ucast b * P32_5) 11 * P32_1) r2 h2
      in avalanche32 h3)"

definition spec64 :: "bool \<Rightarrow> u8 list \<Rightarrow> u64 \<Rightarrow> u64" where
  "spec64 le inp seed =
     (let (r1, h) = (if length inp \<ge> 32
            then (let (r, v) = blocks 32 (\<lambda>b (v1, v2, v3, v4).
                         (round64 v1 (read64 le b 0), round64 v2 (read64 le b 8),
                          round64 v3 (read64 le b 16), round64 v4 (read64 le b 24))) inp (init64 seed)
                  in (r, mix64 v))
            else (inp, seed + P64_5));
          (r2, h2) = blocks 8 (\<lambda>b h. rotl64 (h XOR round64 0 (read64 le b 0)) 27 * P64_1 + P64_4) r1
                       (h + of_nat (length inp));
          (r3, h3) = blocks 4 (\<lambda>b h. rotl64 (h XOR (ucast (read32 le b 0) * P64_1)) 23 * P64_2 + P64_3) r2 h2;
          h4 = fold (\<lambda>b h. rotl64 (h XOR (ucast b * P64_5)) 11 * P64_1) r3 h3
      in avalanche64 h4)"

section \<open>The pointer loops compute the reference definition\<close>

text \<open>All seven loops have one shape: advance by \<open>k\<close> until the limit, one step per block.\<close>

function pointer_loop :: "nat \<Rightarrow> (nat \<Rightarrow> 'a \<Rightarrow> 'a) \<Rightarrow> nat \<Rightarrow> nat \<Rightarrow> 'a \<Rightarrow> nat \<times> 'a" where
  "pointer_loop k g lim p a = (if 0 < k \<and> p < lim then pointer_loop k g lim (p + k) (g p a) else (p, a))"
  by pat_completeness auto
termination by (relation "measure (\<lambda>(k, g, lim, p, a). lim - p)") auto

declare pointer_loop.simps [simp del]

lemma round_down_le: "round_down n k \<le> n"
  by (simp add: round_down_def)

lemma round_down_dvd: "k dvd round_down n k"
  by (simp add: round_down_def dvd_minus_mod)

lemma round_down_gap: "0 < k \<Longrightarrow> n - round_down n k < k"
  by (simp add: round_down_def)

lemma round_down_mono_dvd:
  assumes "j dvd k" "0 < j"
  shows "round_down n k \<le> round_down n j"
proof -
  have "n mod j \<le> n mod k"
    using assms by (metis mod_less_eq_dividend mod_mod_cancel)
  then show ?thesis by (simp add: round_down_def)
qed

lemma round_down_diff_dvd:
  assumes "j dvd k"
  shows "j dvd (round_down n j - round_down n k)"
  using assms round_down_dvd[of j n] round_down_dvd[of k n] by (meson dvd_diff_nat dvd_trans)

lemma pointer_loop_blocks:
  assumes k: "0 < k" and pl: "p \<le> lim" and dv: "k dvd (lim - p)" and ll: "lim \<le> length inp"
    and gap: "length inp - lim < k"
    and step: "\<And>q a. q + k \<le> length inp \<Longrightarrow> g q a = f (take k (drop q inp)) a"
  shows "blocks k f (drop p inp) a = (drop lim inp, snd (pointer_loop k g lim p a)) \<and>
         fst (pointer_loop k g lim p a) = lim"
  using pl dv
proof (induction "lim - p" arbitrary: p a rule: less_induct)
  case less
  show ?case
  proof (cases "p < lim")
    case False
    then have "p = lim" using less.prems by simp
    then show ?thesis using k gap ll by (simp add: blocks.simps pointer_loop.simps)
  next
    case True
    have kd: "k \<le> lim - p" using True less.prems k by (meson dvd_imp_le zero_less_diff)
    then have fit: "p + k \<le> length inp" "p + k \<le> lim" "k \<le> length inp - p" using ll True by auto
    have dv': "k dvd (lim - (p + k))" using less.prems kd by (metis diff_diff_left dvd_diff_nat dvd_refl)
    have ih: "blocks k f (drop (p + k) inp) b =
               (drop lim inp, snd (pointer_loop k g lim (p + k) b)) \<and>
             fst (pointer_loop k g lim (p + k) b) = lim" for b
      using less.hyps[of "p + k"] True k fit dv' by simp
    show ?thesis
      using True k fit ih step[OF fit(1)]
      by (simp add: blocks.simps[of k f "drop p inp"] pointer_loop.simps[of k g lim p] add.commute)
  qed
qed

lemma pointer_loop_fold:
  "p \<le> length inp \<Longrightarrow>
   fold f (drop p inp) a = snd (pointer_loop 1 (\<lambda>q. f (inp ! q)) (length inp) p a)"
proof (induction "length inp - p" arbitrary: p a)
  case 0
  then show ?case by (simp add: pointer_loop.simps)
next
  case (Suc n)
  then have lt: "p < length inp" by simp
  have "n = length inp - Suc p" "Suc p \<le> length inp" using Suc.hyps(2) lt by auto
  from Suc.hyps(1)[OF this] show ?case
    using lt by (simp add: pointer_loop.simps[of "Suc 0" _ _ p] Cons_nth_drop_Suc[symmetric])
qed

lemma read32_block: "q + j + 4 \<le> length inp \<Longrightarrow> j + 4 \<le> k \<Longrightarrow> read32 le (take k (drop q inp)) j = read32 le inp (q + j)"
  by (simp add: read32_def add.assoc)

lemma read64_block: "q + j + 8 \<le> length inp \<Longrightarrow> j + 8 \<le> k \<Longrightarrow> read64 le (take k (drop q inp)) j = read64 le inp (q + j)"
  by (simp add: read64_def add.assoc)

lemma stripes32_loop:
  "stripes32 le inp lim p v =
   pointer_loop 16 (\<lambda>p (v1, v2, v3, v4).
      (round32 v1 (read32 le inp p), round32 v2 (read32 le inp (p + 4)),
       round32 v3 (read32 le inp (p + 8)), round32 v4 (read32 le inp (p + 12)))) lim p v"
proof (induction le inp lim p v rule: stripes32.induct)
  case (1 le inp lim p v1 v2 v3 v4)
  then show ?case by (subst stripes32.simps, subst pointer_loop.simps) simp
qed

lemma words32_loop:
  "words32 le inp lim p h =
   pointer_loop 4 (\<lambda>p h. rotl32 (h + read32 le inp p * P32_3) 17 * P32_4) lim p h"
  by (induction le inp lim p h rule: words32.induct) (subst words32.simps, subst pointer_loop.simps, simp)

lemma bytes32_loop:
  "bytes32 inp lim p h =
   snd (pointer_loop 1 (\<lambda>p h. rotl32 (h + ucast (inp ! p) * P32_5) 11 * P32_1) lim p h)"
  by (induction inp lim p h rule: bytes32.induct) (subst bytes32.simps, subst pointer_loop.simps, simp)

lemma stripes64_loop:
  "stripes64 le inp lim p v =
   pointer_loop 32 (\<lambda>p (v1, v2, v3, v4).
      (round64 v1 (read64 le inp p), round64 v2 (read64 le inp (p + 8)),
       round64 v3 (read64 le inp (p + 16)), round64 v4 (read64 le inp (p + 24)))) lim p v"
proof (induction le inp lim p v rule: stripes64.induct)
  case (1 le inp lim p v1 v2 v3 v4)
  then show ?case by (subst stripes64.simps, subst pointer_loop.simps) simp
qed

lemma longs64_loop:
  "longs64 le inp lim p h =
   pointer_loop 8 (\<lambda>p h. rotl64 (h XOR (rotl64 (read64 le inp p * P64_2) 31 * P64_1)) 27 * P64_1 + P64_4) lim p h"
  by (induction le inp lim p h rule: longs64.induct) (subst longs64.simps, subst pointer_loop.simps, simp)

lemma words64_loop:
  "words64 le inp lim p h =
   pointer_loop 4 (\<lambda>p h. rotl64 (h XOR (ucast (read32 le inp p) * P64_1)) 23 * P64_2 + P64_3) lim p h"
  by (induction le inp lim p h rule: words64.induct) (subst words64.simps, subst pointer_loop.simps, simp)

lemma bytes64_loop:
  "bytes64 inp lim p h =
   snd (pointer_loop 1 (\<lambda>p h. rotl64 (h XOR (ucast (inp ! p) * P64_5)) 11 * P64_1) lim p h)"
  by (induction inp lim p h rule: bytes64.induct) (subst bytes64.simps, subst pointer_loop.simps, simp)

text \<open>
  Both branches on the stripe length, the loops of each started where the one before stopped.
\<close>

lemma stage_blocks:
  assumes k: "0 < k" and pj: "k dvd j" "j \<le> length inp" "j \<le> round_down (length inp) k"
    and step: "\<And>q a. q + k \<le> length inp \<Longrightarrow> g q a = f (take k (drop q inp)) a"
  shows "blocks k f (drop j inp) a =
           (drop (round_down (length inp) k) inp, snd (pointer_loop k g (round_down (length inp) k) j a))"
    and "fst (pointer_loop k g (round_down (length inp) k) j a) = round_down (length inp) k"
proof -
  have "k dvd (round_down (length inp) k - j)" using pj round_down_dvd[of k] by (meson dvd_diff_nat)
  from pointer_loop_blocks[where g = g and f = f and a = a, OF k pj(3) this round_down_le round_down_gap[OF k] step]
  show "blocks k f (drop j inp) a =
          (drop (round_down (length inp) k) inp, snd (pointer_loop k g (round_down (length inp) k) j a))"
    and "fst (pointer_loop k g (round_down (length inp) k) j a) = round_down (length inp) k"
    by auto
qed

definition tail32 :: "bool \<Rightarrow> u8 list \<Rightarrow> nat \<Rightarrow> u32 \<Rightarrow> u32" where
  "tail32 le inp p h =
     (let (p1, h2) = words32 le inp (round_down (length inp) 4) p h
      in avalanche32 (bytes32 inp (length inp) p1 h2))"

definition tail64 :: "bool \<Rightarrow> u8 list \<Rightarrow> nat \<Rightarrow> u64 \<Rightarrow> u64" where
  "tail64 le inp p h =
     (let (p1, h2) = longs64 le inp (round_down (length inp) 8) p h;
          (p2, h3) = words64 le inp (round_down (length inp) 4) p1 h2
      in avalanche64 (bytes64 inp (length inp) p2 h3))"

lemma tail32_blocks:
  assumes "4 dvd p" "p \<le> round_down (length inp) 4"
  shows "tail32 le inp p h =
     (let (r2, h2) = blocks 4 (\<lambda>b h. rotl32 (h + read32 le b 0 * P32_3) 17 * P32_4) (drop p inp) h
      in avalanche32 (fold (\<lambda>b h. rotl32 (h + ucast b * P32_5) 11 * P32_1) r2 h2))"
proof -
  have pl: "p \<le> length inp" using assms(2) round_down_le[of "length inp" 4] by linarith
  let ?g = "\<lambda>q h. rotl32 (h + read32 le inp q * P32_3) 17 * P32_4"
  have step: "?g q a = rotl32 (a + read32 le (take 4 (drop q inp)) 0 * P32_3) 17 * P32_4"
    if "q + 4 \<le> length inp" for q a
    using read32_block[of q 0 inp 4 le] that by simp
  note st = stage_blocks[of 4 p inp ?g "\<lambda>b h. rotl32 (h + read32 le b 0 * P32_3) 17 * P32_4", OF _ assms(1) pl assms(2) step]
  show ?thesis
    by (simp add: tail32_def words32_loop bytes32_loop st split_beta
        pointer_loop_fold[OF round_down_le, of "\<lambda>b h. rotl32 (h + ucast b * P32_5) 11 * P32_1"])
qed

lemma tail64_blocks:
  assumes "8 dvd p" "p \<le> round_down (length inp) 8"
  shows "tail64 le inp p h =
     (let (r2, h2) = blocks 8 (\<lambda>b h. rotl64 (h XOR round64 0 (read64 le b 0)) 27 * P64_1 + P64_4) (drop p inp) h;
          (r3, h3) = blocks 4 (\<lambda>b h. rotl64 (h XOR (ucast (read32 le b 0) * P64_1)) 23 * P64_2 + P64_3) r2 h2
      in avalanche64 (fold (\<lambda>b h. rotl64 (h XOR (ucast b * P64_5)) 11 * P64_1) r3 h3))"
proof -
  have pl: "p \<le> length inp" using assms(2) round_down_le[of "length inp" 8] by linarith
  have d4: "4 dvd round_down (length inp) 8" by (rule dvd_trans[OF _ round_down_dvd]) simp
  have le4: "round_down (length inp) 8 \<le> round_down (length inp) 4" by (rule round_down_mono_dvd) simp_all
  let ?g = "\<lambda>q h. rotl64 (h XOR (rotl64 (read64 le inp q * P64_2) 31 * P64_1)) 27 * P64_1 + P64_4"
  let ?f = "\<lambda>b h. rotl64 (h XOR round64 0 (read64 le b 0)) 27 * P64_1 + P64_4"
  let ?g4 = "\<lambda>q h. rotl64 (h XOR (ucast (read32 le inp q) * P64_1)) 23 * P64_2 + P64_3"
  let ?f4 = "\<lambda>b h. rotl64 (h XOR (ucast (read32 le b 0) * P64_1)) 23 * P64_2 + P64_3"
  have s8: "?g q a = ?f (take 8 (drop q inp)) a" if "q + 8 \<le> length inp" for q a
    using read64_block[of q 0 inp 8 le] that by (simp add: round64_def)
  have s4: "?g4 q a = ?f4 (take 4 (drop q inp)) a" if "q + 4 \<le> length inp" for q a
    using read32_block[of q 0 inp 4 le] that by simp
  note st8 = stage_blocks[of 8 p inp ?g ?f, OF _ assms(1) pl assms(2) s8]
  note st4 = stage_blocks[of 4 "round_down (length inp) 8" inp ?g4 ?f4, OF _ d4 round_down_le le4 s4]
  show ?thesis
    by (simp add: tail64_def longs64_loop words64_loop bytes64_loop st8 st4 split_beta
        pointer_loop_fold[OF round_down_le, of "\<lambda>b h. rotl64 (h XOR (ucast b * P64_5)) 11 * P64_1"])
qed

lemma xxhash32_spec: "xxhash32 le inp seed = spec32 le inp seed"
proof -
  let ?n = "length inp"
  let ?g = "\<lambda>p (v1, v2, v3, v4). (round32 v1 (read32 le inp p), round32 v2 (read32 le inp (p + 4)),
              round32 v3 (read32 le inp (p + 8)), round32 v4 (read32 le inp (p + 12)))"
  let ?f = "\<lambda>b (v1, v2, v3, v4). (round32 v1 (read32 le b 0), round32 v2 (read32 le b 4),
              round32 v3 (read32 le b 8), round32 v4 (read32 le b 12))"
  have step: "?g q a = ?f (take 16 (drop q inp)) a" if "q + 16 \<le> ?n" for q a
    using that read32_block[of q 0 inp 16 le] read32_block[of q 4 inp 16 le]
      read32_block[of q 8 inp 16 le] read32_block[of q 12 inp 16 le] by (simp split: prod.split)
  note st = stage_blocks[of 16 0 inp ?g ?f, OF _ _ _ _ step, simplified]
  have d4: "4 dvd round_down ?n 16" by (rule dvd_trans[OF _ round_down_dvd]) simp
  have le4: "round_down ?n 16 \<le> round_down ?n 4" by (rule round_down_mono_dvd) simp_all
  note t = tail32_blocks[OF d4 le4, of le] tail32_blocks[of 0 inp le, simplified]
  have "xxhash32 le inp seed =
     (let (p, h) = (if ?n \<ge> 16
                    then (let (p, v) = stripes32 le inp (round_down ?n 16) 0 (init32 seed) in (p, mix32 v))
                    else (0, seed + P32_5))
      in tail32 le inp p (h + of_nat ?n))"
    by (simp add: xxhash32_def tail32_def Let_def split_beta)
  then show ?thesis
    by (simp add: spec32_def st t stripes32_loop split_beta Let_def)
qed

lemma xxhash64_spec: "xxhash64 le inp seed = spec64 le inp seed"
proof -
  let ?n = "length inp"
  let ?g = "\<lambda>p (v1, v2, v3, v4). (round64 v1 (read64 le inp p), round64 v2 (read64 le inp (p + 8)),
              round64 v3 (read64 le inp (p + 16)), round64 v4 (read64 le inp (p + 24)))"
  let ?f = "\<lambda>b (v1, v2, v3, v4). (round64 v1 (read64 le b 0), round64 v2 (read64 le b 8),
              round64 v3 (read64 le b 16), round64 v4 (read64 le b 24))"
  have step: "?g q a = ?f (take 32 (drop q inp)) a" if "q + 32 \<le> ?n" for q a
    using that read64_block[of q 0 inp 32 le] read64_block[of q 8 inp 32 le]
      read64_block[of q 16 inp 32 le] read64_block[of q 24 inp 32 le] by (simp split: prod.split)
  note st = stage_blocks[of 32 0 inp ?g ?f, OF _ _ _ _ step, simplified]
  have d8: "8 dvd round_down ?n 32" by (rule dvd_trans[OF _ round_down_dvd]) simp
  have le8: "round_down ?n 32 \<le> round_down ?n 8" by (rule round_down_mono_dvd) simp_all
  note t = tail64_blocks[OF d8 le8, of le] tail64_blocks[of 0 inp le, simplified]
  have "xxhash64 le inp seed =
     (let (p, h) = (if ?n \<ge> 32
                    then (let (p, v) = stripes64 le inp (round_down ?n 32) 0 (init64 seed) in (p, mix64 v))
                    else (0, seed + P64_5))
      in tail64 le inp p (h + of_nat ?n))"
    by (simp add: xxhash64_def tail64_def Let_def split_beta)
  then show ?thesis
    by (simp add: spec64_def st t stripes64_loop split_beta Let_def)
qed


text \<open>Published test vectors, on a little-endian host.\<close>

lemma xxhash_vectors:
  "xxhash32 True [] 0 = 0x02CC5D05"
  "xxhash32 True [97, 98, 99] 0 = 0x32D153FF"
  "xxhash64 True [] 0 = 0xEF46DB3751D8E999"
  "xxhash64 True [97, 98, 99] 0 = 0x44BC2CF5AD770999"
  by code_simp+

lemma read64_byte_order:
  "p + 8 \<le> length v \<Longrightarrow> read64 False v p = read64 True (rev (take 8 (drop p v))) 0"
  by (simp add: read64_def rev_nth)

text \<open>
  The hash of a message name depends on the byte order of the host: \<open>read32\<close> and \<open>read64\<close> already
  compose the value from single bytes, so the big-endian branch reverses them again, and two hosts of
  different byte order name the type \<open>double\<close> by different hashes with the seed the network uses.
\<close>
theorem xxhash_depends_on_byte_order:
  "xxhash64 True [100, 111, 117, 98, 108, 101] 0x4e55436c \<noteq>
   xxhash64 False [100, 111, 117, 98, 108, 101] 0x4e55436c"
  by code_simp

end
