(* ===== verification/Net_Wire.thy ===== *)
theory Net_Wire
  imports Nuc_Prelude "HOL-Library.List_Lexorder"
begin

text \<open>
  The wire format of the NUClear network (\<open>extension/network/wire_protocol.hpp\<close>): the packed structs as
  byte lists, field by field in the byte order of the host (the code stores its integers without
  conversion; \<open>le\<close> is the host's order), and reads that fail when the datagram is too short, where the
  code reads past the end of its buffer.
\<close>

section \<open>Integers in memory\<close>

fun word_bytes :: "nat \<Rightarrow> 'a::len word \<Rightarrow> u8 list" where
  "word_bytes 0 w = []"
| "word_bytes (Suc n) w = ucast w # word_bytes n (drop_bit 8 w)"

fun bytes_word :: "u8 list \<Rightarrow> 'a::len word" where
  "bytes_word [] = 0"
| "bytes_word (b # bs) = ucast b OR push_bit 8 (bytes_word bs)"

lemma length_word_bytes [simp]: "length (word_bytes n w) = n"
  by (induction n arbitrary: w) auto

lemma bytes_word_bytes: "bytes_word (word_bytes n w) = take_bit (8 * n) (w :: 'a::len word)"
proof (induction n arbitrary: w)
  case (Suc n)
  show ?case
  proof (rule bit_word_eqI)
    fix k assume "k < LENGTH('a)"
    then show "bit (bytes_word (word_bytes (Suc n) w) :: 'a word) k = bit (take_bit (8 * Suc n) w) k"
      by (cases "k < 8") (auto simp: Suc bit_simps)
  qed
qed simp

definition mem_order :: "bool \<Rightarrow> u8 list \<Rightarrow> u8 list" where
  "mem_order le bs = (if le then bs else rev bs)"

lemma mem_order_invol [simp]: "mem_order le (mem_order le bs) = bs"
  by (simp add: mem_order_def)

lemma length_mem_order [simp]: "length (mem_order le bs) = length bs"
  by (simp add: mem_order_def)

definition store16 :: "bool \<Rightarrow> u16 \<Rightarrow> u8 list" where
  "store16 le w = mem_order le (word_bytes 2 w)"

definition store64 :: "bool \<Rightarrow> u64 \<Rightarrow> u8 list" where
  "store64 le w = mem_order le (word_bytes 8 w)"

lemma length_store [simp]: "length (store16 le v) = 2" "length (store64 le w) = 8"
  by (simp_all add: store16_def store64_def)

text \<open>Reads of a field at an offset; \<open>None\<close> is a read past the end of the datagram.\<close>

definition get8 :: "u8 list \<Rightarrow> nat \<Rightarrow> u8 option" where
  "get8 bs i = (if i < length bs then Some (bs ! i) else None)"

definition get16 :: "bool \<Rightarrow> u8 list \<Rightarrow> nat \<Rightarrow> u16 option" where
  "get16 le bs i =
     (if i + 2 \<le> length bs then Some (bytes_word (mem_order le (take 2 (drop i bs)))) else None)"

definition get64 :: "bool \<Rightarrow> u8 list \<Rightarrow> nat \<Rightarrow> u64 option" where
  "get64 le bs i =
     (if i + 8 \<le> length bs then Some (bytes_word (mem_order le (take 8 (drop i bs)))) else None)"

lemma take_bit_full16: "take_bit 16 (w :: u16) = w"
  by (rule bit_word_eqI) (simp add: bit_simps)

lemma take_bit_full64: "take_bit 64 (w :: u64) = w"
  by (rule bit_word_eqI) (simp add: bit_simps)

lemma get16_store16:
  "length a = i \<Longrightarrow> get16 le (a @ store16 le w @ b) i = Some w"
  by (simp add: get16_def store16_def bytes_word_bytes take_bit_full16 del: word_bytes.simps)

lemma get64_store64:
  "length a = i \<Longrightarrow> get64 le (a @ store64 le w @ b) i = Some w"
  by (simp add: get64_def store64_def bytes_word_bytes take_bit_full64 del: word_bytes.simps)

section \<open>Packet headers\<close>

text \<open>The values of \<open>enum Type : uint8_t\<close>.\<close>

abbreviation (input) ANNOUNCE :: u8 where "ANNOUNCE \<equiv> 1"
abbreviation (input) LEAVE :: u8 where "LEAVE \<equiv> 2"
abbreviation (input) DATA :: u8 where "DATA \<equiv> 3"
abbreviation (input) DATA_RETRANSMISSION :: u8 where "DATA_RETRANSMISSION \<equiv> 4"
abbreviation (input) ACK :: u8 where "ACK \<equiv> 5"
abbreviation (input) NACK :: u8 where "NACK \<equiv> 6"

definition packet_header :: "u8 \<Rightarrow> u8 list" where
  "packet_header t = [0xE2, 0x98, 0xA2, 0x02, t]"

record data_packet =
  dp_type :: u8
  dp_id :: u16
  dp_no :: u16
  dp_count :: u16
  dp_reliable :: bool
  dp_hash :: u64

text \<open>The 20 bytes before \<open>data\<close>, \<open>sizeof(DataPacket) - 1\<close>.\<close>

definition data_header :: "bool \<Rightarrow> data_packet \<Rightarrow> u8 list" where
  "data_header le p =
     packet_header (dp_type p) @ store16 le (dp_id p) @ store16 le (dp_no p) @ store16 le (dp_count p)
     @ [if dp_reliable p then 1 else 0] @ store64 le (dp_hash p)"

definition announce_bytes :: "u8 list \<Rightarrow> u8 list" where
  "announce_bytes name = packet_header ANNOUNCE @ name @ [0]"

definition leave_bytes :: "u8 list" where
  "leave_bytes = packet_header LEAVE"

definition ack_bytes :: "bool \<Rightarrow> u16 \<Rightarrow> u16 \<Rightarrow> u16 \<Rightarrow> u8 list \<Rightarrow> u8 list" where
  "ack_bytes le i n c bits = packet_header ACK @ store16 le i @ store16 le n @ store16 le c @ bits"

definition nack_bytes :: "bool \<Rightarrow> u16 \<Rightarrow> u16 \<Rightarrow> u8 list \<Rightarrow> u8 list" where
  "nack_bytes le i c bits = packet_header NACK @ store16 le i @ store16 le c @ bits"

text \<open>The test at the head of \<open>process_packet\<close>, and the fields of a data packet. The hash is only used when a
  message is delivered, which needs all 20 bytes; a shorter datagram reads as hash 0 here.\<close>

definition valid_header :: "u8 list \<Rightarrow> bool" where
  "valid_header bs \<longleftrightarrow> 5 \<le> length bs \<and> bs ! 0 = 0xE2 \<and> bs ! 1 = 0x98 \<and> bs ! 2 = 0xA2 \<and> bs ! 3 = 0x02"

definition parse_data :: "bool \<Rightarrow> u8 list \<Rightarrow> data_packet option" where
  "parse_data le bs =
     (case (get16 le bs 5, get16 le bs 7, get16 le bs 9, get8 bs 11) of
        (Some i, Some n, Some c, Some r) \<Rightarrow>
          Some \<lparr>dp_type = bs ! 4, dp_id = i, dp_no = n, dp_count = c, dp_reliable = (r \<noteq> 0),
                dp_hash = (case get64 le bs 12 of None \<Rightarrow> 0 | Some h \<Rightarrow> h)\<rparr>
      | _ \<Rightarrow> None)"

lemma length_data_header [simp]: "length (data_header le p) = 20"
  by (simp add: data_header_def packet_header_def)

lemma valid_data_header: "valid_header (data_header le p @ x)"
  by (simp add: valid_header_def data_header_def packet_header_def nth_append)

lemma data_header_fields:
  "get16 le (data_header le p @ x) 5 = Some (dp_id p)"
  "get16 le (data_header le p @ x) 7 = Some (dp_no p)"
  "get16 le (data_header le p @ x) 9 = Some (dp_count p)"
  "get8 (data_header le p @ x) 11 = Some (if dp_reliable p then 1 else 0)"
  "get64 le (data_header le p @ x) 12 = Some (dp_hash p)"
proof -
  let ?h = "packet_header (dp_type p)" and ?r = "[if dp_reliable p then 1 else 0 :: u8]"
  have l: "length ?h = 5" by (simp add: packet_header_def)
  show "get16 le (data_header le p @ x) 5 = Some (dp_id p)"
    using get16_store16 [of ?h 5 le "dp_id p"] l by (simp add: data_header_def)
  show "get16 le (data_header le p @ x) 7 = Some (dp_no p)"
    using get16_store16 [of "?h @ store16 le (dp_id p)" 7 le "dp_no p"] l by (simp add: data_header_def)
  show "get16 le (data_header le p @ x) 9 = Some (dp_count p)"
    using get16_store16 [of "?h @ store16 le (dp_id p) @ store16 le (dp_no p)" 9 le "dp_count p"] l
    by (simp add: data_header_def)
  show "get8 (data_header le p @ x) 11 = Some (if dp_reliable p then 1 else 0)"
    using l by (simp add: data_header_def get8_def nth_append)
  show "get64 le (data_header le p @ x) 12 = Some (dp_hash p)"
    using get64_store64 [of "?h @ store16 le (dp_id p) @ store16 le (dp_no p) @ store16 le (dp_count p) @ ?r" 12 le "dp_hash p"] l
    by (simp add: data_header_def)
qed

lemma data_header_type: "(data_header le p @ x) ! 4 = dp_type p"
  by (simp add: data_header_def packet_header_def nth_append)

lemma parse_data_header: "parse_data le (data_header le p @ x) = Some p"
  by (simp add: parse_data_def data_header_fields data_header_type)

lemma parse_data_length: "parse_data le bs = Some p \<Longrightarrow> 12 \<le> length bs"
  by (auto simp: parse_data_def get8_def split: option.splits if_splits)

section \<open>Bitsets of packets\<close>

text \<open>
  The variable part of ACK and NACK packets: \<open>count / 8 + 1\<close> bytes, bit \<open>i\<close> in byte \<open>i / 8\<close>.
  A write outside the vector is \<open>None\<close>.
\<close>

definition ack_size :: "u16 \<Rightarrow> nat" where
  "ack_size c = unat c div 8 + 1"

definition bit_mask :: "nat \<Rightarrow> u8" where
  "bit_mask i = push_bit (i mod 8) 1"

definition set_bit_at :: "nat \<Rightarrow> u8 list \<Rightarrow> u8 list option" where
  "set_bit_at i bits =
     (if i div 8 < length bits then Some (bits[i div 8 := bits ! (i div 8) OR bit_mask i]) else None)"

definition clear_bit_at :: "nat \<Rightarrow> u8 list \<Rightarrow> u8 list option" where
  "clear_bit_at i bits =
     (if i div 8 < length bits then Some (bits[i div 8 := bits ! (i div 8) AND NOT (bit_mask i)]) else None)"

fun set_bits :: "nat list \<Rightarrow> u8 list \<Rightarrow> u8 list option" where
  "set_bits [] bits = Some bits"
| "set_bits (i # is) bits = (case set_bit_at i bits of None \<Rightarrow> None | Some b \<Rightarrow> set_bits is b)"

text \<open>What such a bitset says of packet \<open>i\<close>.\<close>

definition has_bit :: "u8 list \<Rightarrow> nat \<Rightarrow> bool" where
  "has_bit bits i \<longleftrightarrow> i div 8 < length bits \<and> bit (bits ! (i div 8)) (i mod 8)"

lemma bit_bit_mask: "bit (bit_mask i) k \<longleftrightarrow> k = i mod 8"
  by (auto simp: bit_mask_def bit_simps)

lemma set_bit_at_has:
  "set_bit_at i bits = Some b \<Longrightarrow> length b = length bits \<and> (\<forall>k. has_bit b k \<longleftrightarrow> has_bit bits k \<or> k = i)"
  apply (clarsimp simp: set_bit_at_def has_bit_def nth_list_update bit_or_iff bit_bit_mask split: if_splits)
  apply (metis div_mult_mod_eq)
  done

lemma set_bits_some: "(\<And>i. i \<in> set is \<Longrightarrow> i div 8 < length bits) \<Longrightarrow> \<exists>b. set_bits is bits = Some b"
  by (induction "is" arbitrary: bits) (auto simp: set_bit_at_def)

lemma set_bits_has:
  "set_bits is bits = Some b \<Longrightarrow> length b = length bits \<and> (\<forall>k. has_bit b k \<longleftrightarrow> has_bit bits k \<or> k \<in> set is)"
proof (induction "is" arbitrary: bits)
  case (Cons i "is")
  then obtain b1 where b1: "set_bit_at i bits = Some b1" and b: "set_bits is b1 = Some b"
    by (auto split: option.splits)
  show ?case using set_bit_at_has [OF b1] Cons.IH [OF b] by auto
qed simp

lemma has_bit_zeros [simp]: "\<not> has_bit (replicate n 0) i"
  by (simp add: has_bit_def)

section \<open>Cutting a payload into packets\<close>

text \<open>
  The bytes of packet \<open>no\<close> of \<open>count\<close>: full packets of \<open>mtu\<close> bytes, the last one the remainder.
  \<open>None\<close> is a read past the end of the payload, or a division by an \<open>mtu\<close> of 0.
\<close>

definition chunk :: "u16 \<Rightarrow> u16 \<Rightarrow> nat \<Rightarrow> u8 list \<Rightarrow> u8 list option" where
  "chunk mtu cnt no payload =
     (let off = no * unat mtu;
          n = (if no + 1 < unat cnt then unat mtu else length payload mod unat mtu)
      in if mtu \<noteq> 0 \<and> off + n \<le> length payload then Some (take n (drop off payload)) else None)"

definition packet_count :: "u16 \<Rightarrow> u8 list \<Rightarrow> u16" where
  "packet_count mtu payload = of_nat (length payload div unat mtu + 1)"

lemma packet_count_small:
  "length payload div unat mtu + 1 < 2 ^ 16 \<Longrightarrow> unat (packet_count mtu payload) = length payload div unat mtu + 1"
  by (simp add: packet_count_def unat_of_nat del: of_nat_add of_nat_Suc)

lemma chunk_in_range:
  assumes "length payload div unat mtu + 1 < 2 ^ 16" and mtu: "mtu \<noteq> 0" and "no < unat (packet_count mtu payload)"
  shows "chunk mtu (packet_count mtu payload) no payload = Some (take (unat mtu) (drop (no * unat mtu) payload))"
proof (cases "no + 1 < unat (packet_count mtu payload)")
  case True
  then have "no + 1 \<le> length payload div unat mtu"
    using packet_count_small [OF assms(1)] by simp
  then have "(no + 1) * unat mtu \<le> length payload"
    by (metis div_times_less_eq_dividend le_trans mult_le_mono1)
  then show ?thesis using True mtu by (simp add: chunk_def Let_def algebra_simps)
next
  case False
  then have no: "no = length payload div unat mtu"
    using assms(3) packet_count_small [OF assms(1)] by simp
  have "no * unat mtu + length payload mod unat mtu = length payload"
    by (simp add: no)
  moreover have "length payload mod unat mtu < unat mtu"
    using mtu by (simp add: unat_gt_0)
  ultimately have "no * unat mtu + length payload mod unat mtu = length payload \<and> take (unat mtu) (drop (no * unat mtu) payload)
      = take (length payload mod unat mtu) (drop (no * unat mtu) payload)"
    by simp
  then show ?thesis
    using False mtu by (simp add: chunk_def Let_def)
qed

lemma concat_slices:
  "concat (map (\<lambda>i. take m (drop (i * m) xs)) [0..<n]) = take (n * m) xs"
proof (induction n)
  case (Suc n)
  then show ?case by (simp add: take_add [symmetric] algebra_simps)
qed simp

end
