(* ===== verification/Net_State.thy ===== *)
theory Net_State
  imports Net_Wire Complex_Main
begin

text \<open>
  The state of \<open>NUClearNetwork\<close> and the part of it that tracks peers: socket addresses and their map key,
  the three target containers, joining, leaving and timing out, \<open>reset\<close>, \<open>shutdown\<close> and \<open>announce\<close>.
  Shared pointers are identifiers into a heap of targets. Calls of the operating system and of the
  callbacks are logged as effects, in order; times are nanoseconds, and each call of an operation gets the
  current time as an argument.
\<close>

section \<open>Results\<close>

text \<open>
  The ways a call does not return: a read or write outside a buffer (undefined in C++), a division by
  zero (undefined), the exceptions, and a loop that does not end.
\<close>

datatype net_error = OutOfBounds | DivideByZero | LengthError | UnknownFamily | NotConnected | SendFailed
  | SocketFailed | Diverges

definition bind_res :: "'e + 'a \<Rightarrow> ('a \<Rightarrow> 'e + 'b) \<Rightarrow> 'e + 'b" where
  "bind_res m f = (case m of Inl e \<Rightarrow> Inl e | Inr x \<Rightarrow> f x)"

definition or_error :: "'a option \<Rightarrow> 'e \<Rightarrow> 'e + 'a" where
  "or_error x e = (case x of None \<Rightarrow> Inl e | Some v \<Rightarrow> Inr v)"

definition res_ok :: "('a \<Rightarrow> bool) \<Rightarrow> 'e + 'a \<Rightarrow> bool" where
  "res_ok P r = (case r of Inl e \<Rightarrow> False | Inr x \<Rightarrow> P x)"

named_theorems res_iff \<open>when a composed call returns\<close>

lemma bind_res_simps [simp]: "bind_res (Inl e) f = Inl e" "bind_res (Inr x) f = f x"
  by (simp_all add: bind_res_def)

lemma or_error_simps [simp]: "or_error None e = Inl e" "or_error (Some v) e = Inr v"
  by (simp_all add: or_error_def)

lemma bind_res_Inr [res_iff]: "bind_res m f = Inr y \<longleftrightarrow> (\<exists>x. m = Inr x \<and> f x = Inr y)"
  by (cases m) auto

lemma or_error_Inr [res_iff]: "or_error x e = Inr y \<longleftrightarrow> x = Some y"
  by (cases x) auto

section \<open>Addresses\<close>

text \<open>\<open>sock_t\<close>: the address bytes, the port, and for IPv6 the scope.\<close>

datatype sock = V4 "u8 list" u16 | V6 "u8 list" u16 u32 | OtherFamily nat

fun mem_words :: "bool \<Rightarrow> u8 list \<Rightarrow> u16 list" where
  "mem_words le (a # b # bs) = bytes_word (mem_order le [a, b]) # mem_words le bs"
| "mem_words le _ = []"

fun udp_key :: "bool \<Rightarrow> sock \<Rightarrow> net_error + u16 list" where
  "udp_key le (V4 a p) = Inr (replicate 6 0 @ mem_words le (take 4 a) @ [p])"
| "udp_key le (V6 a p scope) = Inr (mem_words le (take 16 a) @ [p])"
| "udp_key le (OtherFamily n) = Inl UnknownFamily"

fun sock_ok :: "sock \<Rightarrow> bool" where
  "sock_ok (V4 a p) \<longleftrightarrow> length a = 4"
| "sock_ok (V6 a p scope) \<longleftrightarrow> length a = 16"
| "sock_ok (OtherFamily n) \<longleftrightarrow> True"

section \<open>State\<close>

text \<open>The filter for the round trip time. The code computes in \<open>float\<close>; here without rounding.\<close>

record round_trip_kf =
  kf_process :: rat
  kf_measurement :: rat
  kf_variance :: rat
  kf_mean :: rat

type_synonym assembler = "int \<times> (u16 \<times> u8 list) list"

record target =
  tg_name :: "u8 list"
  tg_addr :: sock
  tg_last_update :: int
  tg_recent :: "int list"
  tg_recent_index :: u8
  tg_assemblers :: "(u16 \<times> assembler) list"
  tg_kf :: round_trip_kf
  tg_round_trip :: int

record packet_target =
  pk_target :: nat
  pk_acked :: "u8 list"
  pk_last_send :: int

record packet_queue =
  pq_targets :: "packet_target list"
  pq_header :: data_packet
  pq_payload :: "u8 list"

datatype effect = Sendto sock "u8 list" | Joined nat | Left nat | Packet nat u64 bool "u8 list" | NextEvent int

record net =
  nt_heap :: "nat \<Rightarrow> target"
  nt_next :: nat
  nt_targets :: "nat list"
  nt_names :: "(u8 list \<times> nat) list"
  nt_udp :: "(u16 list \<times> nat) list"
  nt_send :: "(u16 \<times> packet_queue) list"
  nt_mtu :: u16
  nt_announce :: "u8 list"
  nt_source :: u16
  nt_last_announce :: int
  nt_next_event :: int
  nt_open :: bool
  nt_log :: "effect list"

definition seconds :: "int \<Rightarrow> int" where "seconds n = n * 1000000000"
definition milliseconds :: "int \<Rightarrow> int" where "milliseconds n = n * 1000000"

text \<open>The array of recent packets has \<open>numeric_limits<uint8_t>::max()\<close> elements, all \<open>-1\<close> at first.\<close>

definition new_target :: "u8 list \<Rightarrow> sock \<Rightarrow> int \<Rightarrow> target" where
  "new_target name addr now =
     \<lparr>tg_name = name, tg_addr = addr, tg_last_update = now, tg_recent = replicate 255 (-1), tg_recent_index = 0,
      tg_assemblers = [],
      tg_kf = \<lparr>kf_process = 1 / 1000000, kf_measurement = 1 / 10, kf_variance = 1, kf_mean = 1\<rparr>,
      tg_round_trip = seconds 1\<rparr>"

definition new_net :: net where
  "new_net =
     \<lparr>nt_heap = (\<lambda>_. new_target [] (OtherFamily 0) 0), nt_next = 0, nt_targets = [], nt_names = [], nt_udp = [],
      nt_send = [], nt_mtu = 1000, nt_announce = [], nt_source = 0, nt_last_announce = 0, nt_next_event = 0,
      nt_open = False, nt_log = []\<rparr>"

definition log_effect :: "effect \<Rightarrow> net \<Rightarrow> net" where
  "log_effect e s = s\<lparr>nt_log := nt_log s @ [e]\<rparr>"

definition update_target :: "nat \<Rightarrow> (target \<Rightarrow> target) \<Rightarrow> net \<Rightarrow> net" where
  "update_target i f s = s\<lparr>nt_heap := (nt_heap s)(i := f (nt_heap s i))\<rparr>"

text \<open>\<open>std::make_shared<NetworkTarget>\<close>.\<close>

definition make_target :: "target \<Rightarrow> net \<Rightarrow> nat \<times> net" where
  "make_target t s = (nt_next s, s\<lparr>nt_heap := (nt_heap s)(nt_next s := t), nt_next := Suc (nt_next s)\<rparr>)"

text \<open>A \<open>std::multimap\<close> inserts behind the entries with the same key; \<open>equal_range\<close> is their run.\<close>

definition multi_insert :: "('k :: linorder) \<Rightarrow> 'v \<Rightarrow> ('k \<times> 'v) list \<Rightarrow> ('k \<times> 'v) list" where
  "multi_insert k v m = takeWhile (\<lambda>e. fst e \<le> k) m @ (k, v) # dropWhile (\<lambda>e. fst e \<le> k) m"

definition equal_range :: "'k \<Rightarrow> ('k \<times> 'v) list \<Rightarrow> 'v list" where
  "equal_range k m = map snd (filter (\<lambda>e. fst e = k) m)"

text \<open>\<open>std::map::insert\<close> keeps an entry that is there.\<close>

definition map_insert :: "('k :: linorder) \<Rightarrow> 'v \<Rightarrow> ('k \<times> 'v) list \<Rightarrow> ('k \<times> 'v) list" where
  "map_insert k v m = (if map_of m k = None then key_insert k v m else m)"

section \<open>Leaving\<close>

definition remove_target :: "bool \<Rightarrow> nat \<Rightarrow> net \<Rightarrow> net_error + net" where
  "remove_target le i s =
     bind_res (udp_key le (tg_addr (nt_heap s i))) (\<lambda>key.
       Inr (s\<lparr>nt_udp := key_erase key (nt_udp s),
              nt_names := erase_first (\<lambda>e. e = (tg_name (nt_heap s i), i)) (nt_names s),
              nt_targets := erase_first (\<lambda>j. j = i) (nt_targets s)\<rparr>))"

definition send_to_all :: "u8 list \<Rightarrow> net \<Rightarrow> net" where
  "send_to_all bytes s = fold (\<lambda>i. log_effect (Sendto (tg_addr (nt_heap s i)) bytes)) (equal_range [] (nt_names s)) s"

definition net_shutdown :: "net \<Rightarrow> net" where
  "net_shutdown s = (if nt_open s then (send_to_all leave_bytes s)\<lparr>nt_open := False\<rparr> else s)"

definition net_destroy :: "net \<Rightarrow> net" where
  "net_destroy s = net_shutdown s"

section \<open>Joining a network\<close>

text \<open>
  \<open>reset\<close>. The name resolution and the opening of the two sockets are the parameters \<open>resolve\<close> and
  \<open>open_sockets\<close> (data socket, announce socket); everything up to them has happened when they fail.
\<close>

definition same_family :: "sock \<Rightarrow> sock \<Rightarrow> bool" where
  "same_family a b =
     (case (a, b) of
        (V4 _ _, V4 _ _) \<Rightarrow> True
      | (V6 _ _ _, V6 _ _ _) \<Rightarrow> True
      | (OtherFamily m, OtherFamily n) \<Rightarrow> m = n
      | _ \<Rightarrow> False)"

fun any_address :: "sock \<Rightarrow> net_error + sock" where
  "any_address (V4 a p) = Inr (V4 [0, 0, 0, 0] p)"
| "any_address (V6 a p scope) = Inr (V6 (replicate 16 0) p scope)"
| "any_address (OtherFamily n) = Inl UnknownFamily"

definition bind_address ::
  "(u8 list \<Rightarrow> u16 \<Rightarrow> net_error + sock) \<Rightarrow> sock \<Rightarrow> u8 list \<Rightarrow> u16 \<Rightarrow> net_error + sock"
where
  "bind_address resolve announce_to bind port =
     (if bind = [] then any_address announce_to
      else bind_res (resolve bind port) (\<lambda>b. if same_family b announce_to then Inr b else Inl UnknownFamily))"

definition clear_net :: "net \<Rightarrow> net" where
  "clear_net s = s\<lparr>nt_send := [], nt_names := [], nt_targets := [], nt_udp := []\<rparr>"

text \<open>\<open>announce_packet.resize\<close> and the \<open>memcpy\<close> of the name into the old contents.\<close>

definition rebuild_announce :: "u8 list \<Rightarrow> u8 list \<Rightarrow> u8 list" where
  "rebuild_announce name old =
     (let n = 6 + length name;
          resized = take n old @ replicate (n - length old) 0;
          fresh = packet_header ANNOUNCE @ [0] @ drop 6 resized
      in take 5 fresh @ name @ drop (5 + length name) fresh)"

definition net_reset ::
  "bool \<Rightarrow> (u8 list \<Rightarrow> u16 \<Rightarrow> net_error + sock) \<Rightarrow> (sock \<Rightarrow> sock \<Rightarrow> bool) \<Rightarrow> int \<Rightarrow> u8 list \<Rightarrow> u8 list \<Rightarrow> u16 \<Rightarrow> u8 list
   \<Rightarrow> u16 \<Rightarrow> net \<Rightarrow> net_error + net"
where
  "net_reset le resolve open_sockets now name address port bind mtu s =
     (let s1 = clear_net (net_shutdown s) in
      bind_res (resolve address port) (\<lambda>announce_to.
      bind_res (bind_address resolve announce_to bind port) (\<lambda>bind_to.
      (let (i, s2) = make_target (new_target [] announce_to now) s1 in
       bind_res (udp_key le announce_to) (\<lambda>key.
         (let s3 = s2\<lparr>nt_targets := i # nt_targets s2, nt_names := multi_insert [] i (nt_names s2),
                      nt_udp := map_insert key i (nt_udp s2),
                      nt_mtu := mtu - 20 - 40 - 8, nt_announce := rebuild_announce name (nt_announce s2)\<rparr>
          in if open_sockets announce_to bind_to then Inr (s3\<lparr>nt_open := True\<rparr>) else Inl SocketFailed))))))"

text \<open>\<open>announce\<close>; \<open>send_ok\<close> says which \<open>sendto\<close> the operating system accepts.\<close>

fun announce_each :: "(sock \<Rightarrow> bool) \<Rightarrow> nat list \<Rightarrow> net \<Rightarrow> net_error + net" where
  "announce_each send_ok [] s = Inr s"
| "announce_each send_ok (i # is) s =
     (if send_ok (tg_addr (nt_heap s i))
      then announce_each send_ok is (log_effect (Sendto (tg_addr (nt_heap s i)) (nt_announce s)) s)
      else Inl SendFailed)"

definition announce :: "(sock \<Rightarrow> bool) \<Rightarrow> net \<Rightarrow> net_error + net" where
  "announce send_ok s = announce_each send_ok (equal_range [] (nt_names s)) s"

section \<open>Announcements of others\<close>

text \<open>
  The first \<open>shared_ptr\<close> lookup of \<open>process_packet\<close>, and its ANNOUNCE and LEAVE cases. The name runs from
  byte 5 for \<open>size - 6\<close> bytes; a datagram of 5 bytes makes that length wrap, and the string constructor throws.
\<close>

definition find_remote :: "u16 list \<Rightarrow> net \<Rightarrow> nat option" where
  "find_remote key s = map_of (nt_udp s) key"

definition announced_name :: "u8 list \<Rightarrow> net_error + u8 list" where
  "announced_name bs = (if length bs < 6 then Inl LengthError else Inr (take (length bs - 6) (drop 5 bs)))"

definition touch :: "int \<Rightarrow> nat \<Rightarrow> net \<Rightarrow> net" where
  "touch now i s = update_target i (\<lambda>t. t\<lparr>tg_last_update := now\<rparr>) s"

definition handle_announce :: "int \<Rightarrow> sock \<Rightarrow> u16 list \<Rightarrow> u8 list \<Rightarrow> net \<Rightarrow> net_error + net" where
  "handle_announce now addr key bs s =
     (case find_remote key s of
        Some i \<Rightarrow> Inr (touch now i s)
      | None \<Rightarrow>
          bind_res (announced_name bs) (\<lambda>name.
            if name = [] then Inr s
            else
              (let (i, s1) = make_target (new_target name addr now) s
               in if map_of (nt_udp s1) key = None
                  then Inr (log_effect (Joined i)
                         (log_effect (Sendto addr (nt_announce s1))
                           (s1\<lparr>nt_targets := nt_targets s1 @ [i], nt_udp := map_insert key i (nt_udp s1),
                               nt_names := multi_insert name i (nt_names s1)\<rparr>)))
                  else Inr s1)))"

definition handle_leave :: "bool \<Rightarrow> u16 list \<Rightarrow> net \<Rightarrow> net_error + net" where
  "handle_leave le key s =
     (case find_remote key s of
        None \<Rightarrow> Inr s
      | Some i \<Rightarrow> bind_res (remove_target le i s) (\<lambda>s1. Inr (log_effect (Left i) s1)))"

section \<open>Timing out\<close>

text \<open>
  The loop of \<open>process\<close> over the targets behind the first one; \<open>std::next\<close> of the begin of an empty list
  is undefined. The leavers are returned: their shared pointers stay alive until \<open>process\<close> returns.
\<close>

fun expire_each :: "bool \<Rightarrow> int \<Rightarrow> nat list \<Rightarrow> net \<Rightarrow> net_error + nat list \<times> net" where
  "expire_each le now [] s = Inr ([], s)"
| "expire_each le now (i # is) s =
     (if now - tg_last_update (nt_heap s i) > seconds 2
      then bind_res (remove_target le i s) (\<lambda>s1.
             bind_res (expire_each le now is s1) (\<lambda>(ls, s2). Inr (i # ls, s2)))
      else expire_each le now is s)"

definition expire_targets :: "bool \<Rightarrow> int \<Rightarrow> net \<Rightarrow> net_error + nat list \<times> net" where
  "expire_targets le now s =
     (if nt_targets s = [] then Inl OutOfBounds
      else bind_res (expire_each le now (drop 1 (nt_targets s)) s) (\<lambda>(ls, s1).
             Inr (ls, fold (\<lambda>i. log_effect (Left i)) ls s1)))"

end
