(* ===== verification/Net_Send.thy ===== *)
theory Net_Send
  imports Net_State
begin

text \<open>
  Sending (\<open>send\<close>, \<open>send_packet\<close>), the queue of reliable messages, their retransmission, and the handling of
  ACK and NACK packets.
\<close>

section \<open>One packet\<close>

text \<open>\<open>send_packet\<close>: the header with the packet's number, and its chunk of the payload.\<close>

definition send_packet :: "bool \<Rightarrow> sock \<Rightarrow> data_packet \<Rightarrow> nat \<Rightarrow> u8 list \<Rightarrow> net \<Rightarrow> net_error + net" where
  "send_packet le to hdr no payload s =
     bind_res (or_error (chunk (nt_mtu s) (dp_count hdr) no payload)
                        (if nt_mtu s = 0 then DivideByZero else OutOfBounds)) (\<lambda>bytes.
       Inr (log_effect (Sendto to (data_header le (hdr\<lparr>dp_no := of_nat no\<rparr>) @ bytes)) s))"

fun send_each :: "bool \<Rightarrow> (sock \<times> data_packet \<times> nat \<times> u8 list) list \<Rightarrow> net \<Rightarrow> net_error + net" where
  "send_each le [] s = Inr s"
| "send_each le ((to, hdr, no, payload) # ps) s =
     bind_res (send_packet le to hdr no payload s) (send_each le ps)"

text \<open>\<open>if (t < next_event) next_event_callback(next_event = t)\<close>.\<close>

definition want_event :: "int \<Rightarrow> net \<Rightarrow> net" where
  "want_event t s = (if t < nt_next_event s then log_effect (NextEvent t) (s\<lparr>nt_next_event := t\<rparr>) else s)"

section \<open>Sending\<close>

text \<open>
  \<open>while (send_queue.count(++packet_id_source) > 0)\<close>, with fuel. The search visits all \<open>2\<^sup>16\<close> ids before it
  comes back to its start, so \<open>2 ^ 16\<close> steps are enough whenever an id is free; with none free it never ends.
\<close>

fun pick_id :: "nat \<Rightarrow> (u16 \<Rightarrow> bool) \<Rightarrow> u16 \<Rightarrow> u16 option" where
  "pick_id 0 used src = None"
| "pick_id (Suc n) used src = (if used (src + 1) then pick_id n used (src + 1) else Some (src + 1))"

definition id_used :: "net \<Rightarrow> u16 \<Rightarrow> bool" where
  "id_used s i \<longleftrightarrow> map_of (nt_send s) i \<noteq> None"

definition new_packet_target :: "int \<Rightarrow> u16 \<Rightarrow> nat \<Rightarrow> packet_target" where
  "new_packet_target now c i =
     \<lparr>pk_target = i, pk_acked = replicate (ack_size c) 0, pk_last_send = now\<rparr>"

text \<open>The receivers a reliable message waits for: everyone for the empty name, the announce target never.\<close>

definition interested :: "u8 list \<Rightarrow> net \<Rightarrow> nat list" where
  "interested target s =
     map snd (filter (\<lambda>e. fst e \<noteq> []) (if target = [] then nt_names s else filter (\<lambda>e. fst e = target) (nt_names s)))"

definition enqueue_reliable :: "int \<Rightarrow> u8 list \<Rightarrow> data_packet \<Rightarrow> u8 list \<Rightarrow> net \<Rightarrow> net" where
  "enqueue_reliable now target hdr payload s =
     (let q = \<lparr>pq_targets = map (new_packet_target now (dp_count hdr)) (interested target s),
               pq_header = hdr\<lparr>dp_type := DATA_RETRANSMISSION\<rparr>, pq_payload = payload\<rparr>
      in fold (\<lambda>i. want_event (now + tg_round_trip (nt_heap s i))) (interested target s)
           (s\<lparr>nt_send := key_insert (dp_id hdr) q (nt_send s)\<rparr>))"

definition net_send :: "bool \<Rightarrow> int \<Rightarrow> u64 \<Rightarrow> u8 list \<Rightarrow> u8 list \<Rightarrow> bool \<Rightarrow> net \<Rightarrow> net_error + net" where
  "net_send le now hash payload target reliable s =
     (if nt_targets s = [] then Inl NotConnected
      else
        bind_res (or_error (pick_id (2 ^ 16) (id_used s) (nt_source s)) Diverges) (\<lambda>pid.
          if nt_mtu s = 0 then Inl DivideByZero
          else
            (let hdr = \<lparr>dp_type = DATA, dp_id = pid, dp_no = 0, dp_count = packet_count (nt_mtu s) payload,
                        dp_reliable = reliable, dp_hash = hash\<rparr>;
                 s1 = s\<lparr>nt_source := pid\<rparr>;
                 s2 = (if reliable then enqueue_reliable now target hdr payload s1 else s1)
             in send_each le
                  (concat (map (\<lambda>no. map (\<lambda>i. (tg_addr (nt_heap s2 i), hdr, no, payload)) (equal_range target (nt_names s2)))
                     [0..<unat (dp_count hdr)])) s2)))"

section \<open>Retransmission\<close>

text \<open>
  A weak pointer locks while any list still holds the target, or the caller does (\<open>held\<close>, the targets that
  timed out in this very \<open>process\<close>).
\<close>

definition alive :: "nat list \<Rightarrow> net \<Rightarrow> nat \<Rightarrow> bool" where
  "alive held s i \<longleftrightarrow> i \<in> set held \<or> i \<in> set (nt_targets s) \<or> i \<in> snd ` set (nt_names s) \<or> i \<in> snd ` set (nt_udp s)"

definition unacked :: "data_packet \<Rightarrow> u8 list \<Rightarrow> nat list" where
  "unacked hdr acked = filter (\<lambda>i. \<not> has_bit acked i) [0..<unat (dp_count hdr)]"

fun retransmit_targets ::
  "bool \<Rightarrow> int \<Rightarrow> nat list \<Rightarrow> data_packet \<Rightarrow> u8 list \<Rightarrow> packet_target list \<Rightarrow> net \<Rightarrow> net_error + packet_target list \<times> net"
where
  "retransmit_targets le now held hdr payload [] s = Inr ([], s)"
| "retransmit_targets le now held hdr payload (k # ks) s =
     (if \<not> alive held s (pk_target k) then retransmit_targets le now held hdr payload ks s
      else
        (let t = nt_heap s (pk_target k) in
         if pk_last_send k + tg_round_trip t < now
         then bind_res (send_each le (map (\<lambda>no. (tg_addr t, hdr, no, payload)) (unacked hdr (pk_acked k)))
                          (want_event (now + tg_round_trip t) s)) (\<lambda>s1.
                bind_res (retransmit_targets le now held hdr payload ks s1) (\<lambda>(ks', s2).
                  Inr (k\<lparr>pk_last_send := now\<rparr> # ks', s2)))
         else bind_res (retransmit_targets le now held hdr payload ks s) (\<lambda>(ks', s2). Inr (k # ks', s2))))"

text \<open>The outer loop: a message nobody waits for any more is erased.\<close>

fun retransmit_queues ::
  "bool \<Rightarrow> int \<Rightarrow> nat list \<Rightarrow> (u16 \<times> packet_queue) list \<Rightarrow> net \<Rightarrow> net_error + (u16 \<times> packet_queue) list \<times> net"
where
  "retransmit_queues le now held [] s = Inr ([], s)"
| "retransmit_queues le now held ((i, q) # qs) s =
     bind_res (retransmit_targets le now held (pq_header q) (pq_payload q) (pq_targets q) s) (\<lambda>(ks, s1).
     bind_res (retransmit_queues le now held qs s1) (\<lambda>(qs', s2).
       Inr (if ks = [] then qs' else (i, q\<lparr>pq_targets := ks\<rparr>) # qs', s2)))"

definition retransmit :: "bool \<Rightarrow> int \<Rightarrow> nat list \<Rightarrow> net \<Rightarrow> net_error + net" where
  "retransmit le now held s =
     bind_res (retransmit_queues le now held (nt_send s) s) (\<lambda>(qs, s1). Inr (s1\<lparr>nt_send := qs\<rparr>))"

section \<open>Acknowledgements\<close>

text \<open>The Kalman filter of \<open>measure_round_trip\<close> and the cast back to nanoseconds, which truncates.\<close>

definition truncate :: "rat \<Rightarrow> int" where
  "truncate x = (if 0 \<le> x then \<lfloor>x\<rfloor> else \<lceil>x\<rceil>)"

definition measure_round_trip :: "int \<Rightarrow> target \<Rightarrow> target" where
  "measure_round_trip time t =
     (let kf = tg_kf t;
          m = of_int time / 1000000000;
          Q = kf_process kf; R = kf_measurement kf; P = kf_variance kf; X = kf_mean kf;
          K = (P + Q) / (P + Q + R);
          P' = R * (P + Q) / (R + P + Q);
          X' = X + (m - X) * K
      in t\<lparr>tg_kf := kf\<lparr>kf_variance := P', kf_mean := X'\<rparr>, tg_round_trip := truncate (X' * 1000000000)\<rparr>)"

definition find_packet_target :: "nat \<Rightarrow> packet_target list \<Rightarrow> packet_target option" where
  "find_packet_target i ks = find (\<lambda>k. pk_target k = i) ks"

definition update_packet_target :: "nat \<Rightarrow> (packet_target \<Rightarrow> packet_target) \<Rightarrow> packet_target list \<Rightarrow> packet_target list" where
  "update_packet_target i f ks = map (\<lambda>k. if pk_target k = i then f k else k) ks"

text \<open>What the handler takes a fully acknowledged byte \<open>i\<close> of \<open>n\<close> to be.\<close>

definition expected_byte :: "u16 \<Rightarrow> nat \<Rightarrow> nat \<Rightarrow> u8" where
  "expected_byte c n i = (if i + 1 < n \<or> unat c mod 8 = 0 then 0xFF else drop_bit (8 - unat c mod 8) 0xFF)"

definition all_acked :: "u16 \<Rightarrow> u8 list \<Rightarrow> bool" where
  "all_acked c acked \<longleftrightarrow>
     list_all (\<lambda>i. acked ! i AND expected_byte c (length acked) i = expected_byte c (length acked) i) [0..<length acked]"

definition or_bytes :: "u8 list \<Rightarrow> u8 list \<Rightarrow> u8 list" where
  "or_bytes a b = map (\<lambda>(x, y). x OR y) (zip a b)"

definition and_not_bytes :: "u8 list \<Rightarrow> u8 list \<Rightarrow> u8 list" where
  "and_not_bytes a b = map (\<lambda>(x, y). x AND NOT y) (zip a b)"

text \<open>
  The queue entry a valid packet of peer \<open>i\<close> is about: known id, a waiting target, the right count (read at
  offset \<open>off\<close>), and a datagram of exactly \<open>fixed\<close> plus \<open>count / 8\<close> bytes.
\<close>

definition ack_queue ::
  "bool \<Rightarrow> nat \<Rightarrow> nat \<Rightarrow> nat \<Rightarrow> u16 \<Rightarrow> u8 list \<Rightarrow> net \<Rightarrow> net_error + (packet_queue \<times> packet_target) option"
where
  "ack_queue le fixed off i pid bs s =
     (case map_of (nt_send s) pid of
        None \<Rightarrow> Inr None
      | Some q \<Rightarrow>
          (case find_packet_target i (pq_targets q) of
             None \<Rightarrow> Inr None
           | Some k \<Rightarrow>
               bind_res (or_error (get16 le bs off) OutOfBounds) (\<lambda>c.
                 Inr (if c = dp_count (pq_header q) \<and> length bs = fixed + unat (dp_count (pq_header q)) div 8
                      then Some (q, k) else None))))"

definition handle_ack :: "bool \<Rightarrow> int \<Rightarrow> u16 list \<Rightarrow> u8 list \<Rightarrow> net \<Rightarrow> net_error + net" where
  "handle_ack le now key bs s =
     (case find_remote key s of
        None \<Rightarrow> Inr s
      | Some i \<Rightarrow>
          bind_res (or_error (get16 le bs 5) OutOfBounds) (\<lambda>pid.
            let s1 = touch now i s in
            bind_res (ack_queue le 12 9 i pid bs s1) (\<lambda>found.
                case found of
                  None \<Rightarrow> Inr s1
                | Some (q, k) \<Rightarrow>
                    (let c = dp_count (pq_header q);
                         s2 = update_target i (measure_round_trip (now - pk_last_send k)) s1;
                         acked = or_bytes (pk_acked k) (drop 11 bs);
                         ks = update_packet_target i (\<lambda>k. k\<lparr>pk_acked := acked\<rparr>) (pq_targets q);
                         ks' = (if all_acked c acked then erase_first (\<lambda>k. pk_target k = i) ks else ks)
                     in Inr (s2\<lparr>nt_send := (if ks' = [] then key_erase pid (nt_send s2)
                               else key_update pid (\<lambda>_. q\<lparr>pq_targets := ks'\<rparr>) (nt_send s2))\<rparr>)))))"

text \<open>
  The loop over a NACK's bits: \<open>i\<close> is a \<open>uint16_t\<close> compared with \<open>packet_count * 8\<close>, and the byte read is
  \<open>packets[i]\<close>. With fuel; \<open>Diverges\<close> is running out of it.
\<close>

fun nack_loop :: "bool \<Rightarrow> nat \<Rightarrow> u16 \<Rightarrow> u16 \<Rightarrow> u8 list \<Rightarrow> sock \<Rightarrow> data_packet \<Rightarrow> u8 list \<Rightarrow> net \<Rightarrow> net_error + net" where
  "nack_loop le 0 i c bits to hdr payload s = Inl Diverges"
| "nack_loop le (Suc n) i c bits to hdr payload s =
     (if unat i < unat c * 8
      then bind_res (or_error (get8 bits (unat i)) OutOfBounds) (\<lambda>b.
             bind_res (if b AND bit_mask (unat i) = bit_mask (unat i)
                       then send_packet le to hdr (unat i) payload s else Inr s) (\<lambda>s1.
               nack_loop le n (i + 1) c bits to hdr payload s1))
      else Inr s)"

definition handle_nack :: "bool \<Rightarrow> int \<Rightarrow> u16 list \<Rightarrow> u8 list \<Rightarrow> net \<Rightarrow> net_error + net" where
  "handle_nack le now key bs s =
     (case find_remote key s of
        None \<Rightarrow> Inr s
      | Some i \<Rightarrow>
          bind_res (or_error (get16 le bs 5) OutOfBounds) (\<lambda>pid.
            let s1 = touch now i s in
            bind_res (ack_queue le 10 7 i pid bs s1) (\<lambda>found.
                case found of
                  None \<Rightarrow> Inr s1
                | Some (q, k) \<Rightarrow>
                    (let c = dp_count (pq_header q);
                         t = nt_heap s1 i;
                         bits = drop 9 bs;
                         s2 = want_event (now + tg_round_trip t) s1;
                         ks = update_packet_target i (\<lambda>k. k\<lparr>pk_last_send := now,
                                pk_acked := and_not_bytes (pk_acked k) bits\<rparr>) (pq_targets q);
                         s3 = s2\<lparr>nt_send := key_update pid (\<lambda>_. q\<lparr>pq_targets := ks\<rparr>) (nt_send s2)\<rparr>
                     in nack_loop le (2 ^ 16) 0 c bits (tg_addr t) (pq_header q) (pq_payload q) s3))))"

section \<open>Facts on sending\<close>

lemma nt_log_log_effect [simp]: "nt_log (log_effect e s) = nt_log s @ [e]"
  by (simp add: log_effect_def)

lemma log_effect_sel [simp]:
  "nt_heap (log_effect e s) = nt_heap s" "nt_udp (log_effect e s) = nt_udp s" "nt_send (log_effect e s) = nt_send s"
  "nt_names (log_effect e s) = nt_names s" "nt_targets (log_effect e s) = nt_targets s" "nt_mtu (log_effect e s) = nt_mtu s"
  "nt_next (log_effect e s) = nt_next s"
  by (simp_all add: log_effect_def)

lemma want_event_sel [simp]:
  "nt_heap (want_event t s) = nt_heap s" "nt_udp (want_event t s) = nt_udp s" "nt_send (want_event t s) = nt_send s"
  "nt_names (want_event t s) = nt_names s" "nt_targets (want_event t s) = nt_targets s" "nt_mtu (want_event t s) = nt_mtu s"
  by (simp_all add: want_event_def)

lemma touch_sel [simp]:
  "nt_udp (touch now i s) = nt_udp s" "nt_send (touch now i s) = nt_send s" "nt_log (touch now i s) = nt_log s"
  "nt_mtu (touch now i s) = nt_mtu s" "nt_names (touch now i s) = nt_names s" "nt_targets (touch now i s) = nt_targets s"
  "nt_heap (touch now i s) = (nt_heap s)(i := (nt_heap s i)\<lparr>tg_last_update := now\<rparr>)"
  "nt_next (touch now i s) = nt_next s"
  by (simp_all add: touch_def update_target_def)

lemma update_target_sel [simp]:
  "nt_udp (update_target i f s) = nt_udp s" "nt_send (update_target i f s) = nt_send s" "nt_log (update_target i f s) = nt_log s"
  "nt_mtu (update_target i f s) = nt_mtu s" "nt_names (update_target i f s) = nt_names s"
  "nt_targets (update_target i f s) = nt_targets s"
  "nt_heap (update_target i f s) = (nt_heap s)(i := f (nt_heap s i))"
  "nt_next (update_target i f s) = nt_next s"
  by (simp_all add: update_target_def)

lemma pick_id_free: "pick_id n used src = Some i \<Longrightarrow> \<not> used i"
  by (induction n arbitrary: src) (auto split: if_splits)

lemma pick_id_reaches:
  "\<not> used (src + of_nat (Suc k)) \<Longrightarrow> k < n \<Longrightarrow> \<exists>i. pick_id n used src = Some i"
proof (induction n arbitrary: src k)
  case (Suc n)
  show ?case
  proof (cases "used (src + 1)")
    case True
    then obtain j where "k = Suc j"
      using Suc.prems(1) by (cases k) auto
    then show ?thesis
      using True Suc.prems Suc.IH [of "src + 1" j] by (simp add: algebra_simps)
  qed simp
qed simp

lemma pick_id_none: "(\<forall>i. used i) \<Longrightarrow> pick_id n used src = None"
  by (induction n arbitrary: src) auto

text \<open>
  The search for a packet id. If some id is free the loop finds one within \<open>2\<^sup>16\<close> steps and the id is not
  in the send queue, so a new reliable message never replaces one that still waits for acknowledgements; if
  all 65536 ids are waiting, no number of steps finds one and \<open>send\<close> never returns.
\<close>

theorem packet_id_search:
  "(\<not> used j \<longrightarrow> (\<exists>i. pick_id (2 ^ 16) used src = Some i \<and> \<not> used i))
   \<and> ((\<forall>i. used i) \<longrightarrow> pick_id n used src = None)"
proof -
  have "\<exists>i. pick_id (2 ^ 16) used src = Some i" if free: "\<not> used j"
  proof (rule pick_id_reaches)
    let ?k = "unat (j - src - 1)"
    show "\<not> used (src + of_nat (Suc ?k))" using free by simp
    show "?k < 2 ^ 16" using unsigned_less [of "j - src - 1"] by simp
  qed
  then show ?thesis using pick_id_free pick_id_none by blast
qed

theorem packet_id_search_witness:
  "\<exists>i. pick_id (2 ^ 16) (\<lambda>i. i \<noteq> 3) 3 = Some (i :: u16) \<and> \<not> i \<noteq> 3"
  using packet_id_search [of "\<lambda>i. i \<noteq> (3 :: u16)" 3 3 0] by simp

text \<open>The datagram of one packet.\<close>

definition datagram :: "bool \<Rightarrow> u16 \<Rightarrow> data_packet \<Rightarrow> u8 list \<Rightarrow> nat \<Rightarrow> u8 list" where
  "datagram le mtu hdr payload no =
     data_header le (hdr\<lparr>dp_no := of_nat no\<rparr>) @ take (unat mtu) (drop (no * unat mtu) payload)"

lemma send_packet_datagram:
  assumes "length payload div unat (nt_mtu s) + 1 < 2 ^ 16" "nt_mtu s \<noteq> 0"
    and "dp_count hdr = packet_count (nt_mtu s) payload" "no < unat (dp_count hdr)"
  shows "send_packet le to hdr no payload s = Inr (log_effect (Sendto to (datagram le (nt_mtu s) hdr payload no)) s)"
  using assms chunk_in_range [OF assms(1,2), of no] by (simp add: send_packet_def datagram_def)

lemma send_each_datagrams:
  assumes "length payload div unat (nt_mtu s) + 1 < 2 ^ 16" "nt_mtu s \<noteq> 0"
    and "dp_count hdr = packet_count (nt_mtu s) payload" "\<forall>(to, no) \<in> set ps. no < unat (dp_count hdr)"
  shows "send_each le (map (\<lambda>(to, no). (to, hdr, no, payload)) ps) s =
    Inr (fold (\<lambda>(to, no). log_effect (Sendto to (datagram le (nt_mtu s) hdr payload no))) ps s)"
  using assms
proof (induction ps arbitrary: s)
  case (Cons p ps)
  obtain to no where p: "p = (to, no)" by (cases p)
  have "no < unat (dp_count hdr)" using Cons.prems(4) p by simp
  then show ?case
    using Cons.IH [of "log_effect (Sendto to (datagram le (nt_mtu s) hdr payload no)) s"] Cons.prems p
      send_packet_datagram [of payload s hdr no le to]
    by simp
qed simp

lemma datagram_slice: "drop 20 (datagram le mtu hdr payload no) = take (unat mtu) (drop (no * unat mtu) payload)"
  by (simp add: datagram_def)

lemma slices_cover:
  assumes "length payload div unat mtu + 1 < 2 ^ 16" "mtu \<noteq> 0"
  shows "concat (map (\<lambda>no. drop 20 (datagram le mtu hdr payload no)) [0..<unat (packet_count mtu payload)]) = payload"
proof -
  have "0 < unat mtu" using assms(2) by (simp add: unat_gt_0)
  then have "length payload < (length payload div unat mtu + 1) * unat mtu"
    by (metis Suc_eq_plus1 dividend_less_times_div mult.commute mult_Suc_right)
  then show ?thesis
    by (simp add: datagram_slice concat_slices packet_count_small [OF assms(1)] del: upt_Suc)
qed



lemma oversized_payload_sends_nothing:
  "length payload div unat mtu + 1 = 2 ^ 16 \<Longrightarrow> packet_count mtu payload = 0"
  by (simp add: packet_count_def del: of_nat_add of_nat_Suc)

end
