(* ===== verification/Net_Receive.thy ===== *)
theory Net_Receive
  imports Net_Send
begin

text \<open>
  Receiving (\<open>process_packet\<close>): the DATA and DATA_RETRANSMISSION cases with the duplicate filter, the
  reassembly of fragmented messages and the acknowledgements they send, the dispatch on the packet type,
  and \<open>process\<close>.
\<close>

section \<open>Duplicates\<close>

text \<open>
  \<open>recent_packets[index.fetch_add(1)] = id\<close>: the index is a \<open>uint8_t\<close>, the array has 255 elements, so the
  write at index 255 is out of bounds.
\<close>

definition remember_packet :: "nat \<Rightarrow> u16 \<Rightarrow> net \<Rightarrow> net_error + net" where
  "remember_packet i pid s =
     (let t = nt_heap s i; ix = tg_recent_index t
      in if unat ix < length (tg_recent t)
         then Inr (update_target i (\<lambda>t. t\<lparr>tg_recent := (tg_recent t)[unat ix := uint pid],
                     tg_recent_index := ix + 1\<rparr>) s)
         else Inl OutOfBounds)"

definition recently_received :: "nat \<Rightarrow> u16 \<Rightarrow> net \<Rightarrow> bool" where
  "recently_received i pid s \<longleftrightarrow> uint pid \<in> set (tg_recent (nt_heap s i))"

section \<open>Answers\<close>

definition send_ack :: "bool \<Rightarrow> nat \<Rightarrow> data_packet \<Rightarrow> nat list \<Rightarrow> net \<Rightarrow> net_error + net" where
  "send_ack le i p received s =
     bind_res (or_error (set_bits received (replicate (ack_size (dp_count p)) 0)) OutOfBounds) (\<lambda>bits.
       Inr (log_effect (Sendto (tg_addr (nt_heap s i)) (ack_bytes le (dp_id p) (dp_no p) (dp_count p) bits)) s))"

text \<open>The NACK for a message whose cached fragments do not fit its packet count.\<close>

definition send_nack :: "bool \<Rightarrow> nat \<Rightarrow> data_packet \<Rightarrow> nat list \<Rightarrow> net \<Rightarrow> net_error + net" where
  "send_nack le i p cached s =
     bind_res (or_error (set_bits cached (replicate (ack_size (dp_count p)) 0)) OutOfBounds) (\<lambda>bits.
     bind_res (or_error (clear_bit_at (unat (dp_no p)) bits) OutOfBounds) (\<lambda>bits'.
       Inr (log_effect (Sendto (tg_addr (nt_heap s i)) (nack_bytes le (dp_id p) (dp_count p) bits')) s)))"

section \<open>Reassembly\<close>

type_synonym fragments = "(u16 \<times> u8 list) list"

definition fragment_set :: "u16 \<Rightarrow> u8 list \<Rightarrow> fragments \<Rightarrow> fragments" where
  "fragment_set no bs fs = (if map_of fs no = None then key_insert no bs fs else key_update no (\<lambda>_. bs) fs)"

definition fragment_nos :: "fragments \<Rightarrow> nat list" where
  "fragment_nos fs = map (\<lambda>(no, bs). unat no) fs"

definition fragment_payload :: "fragments \<Rightarrow> u8 list" where
  "fragment_payload fs = concat (map (\<lambda>(no, bs). drop 20 bs) fs)"

text \<open>The cached fragments are purged when the last of them does not fit the count.\<close>

definition cache_corrupt :: "u16 \<Rightarrow> fragments \<Rightarrow> bool" where
  "cache_corrupt c fs \<longleftrightarrow> fs \<noteq> [] \<and> c \<le> fst (last fs)"

definition assembler_of :: "u16 \<Rightarrow> target \<Rightarrow> assembler" where
  "assembler_of pid t = (case map_of (tg_assemblers t) pid of None \<Rightarrow> (0, []) | Some a \<Rightarrow> a)"

definition set_assembler :: "nat \<Rightarrow> u16 \<Rightarrow> assembler \<Rightarrow> net \<Rightarrow> net" where
  "set_assembler i pid a s =
     update_target i (\<lambda>t. t\<lparr>tg_assemblers :=
        (if map_of (tg_assemblers t) pid = None then key_insert pid a (tg_assemblers t)
         else key_update pid (\<lambda>_. a) (tg_assemblers t))\<rparr>) s"

definition drop_assembler :: "nat \<Rightarrow> u16 \<Rightarrow> net \<Rightarrow> net" where
  "drop_assembler i pid s = update_target i (\<lambda>t. t\<lparr>tg_assemblers := key_erase pid (tg_assemblers t)\<rparr>) s"

definition expire_assemblers :: "int \<Rightarrow> nat \<Rightarrow> net \<Rightarrow> net" where
  "expire_assemblers now i s =
     update_target i (\<lambda>t. t\<lparr>tg_assemblers :=
        filter (\<lambda>(pid, a). \<not> now > fst a + tg_round_trip t * 10) (tg_assemblers t)\<rparr>) s"

definition deliver :: "nat \<Rightarrow> data_packet \<Rightarrow> u8 list \<Rightarrow> net \<Rightarrow> net" where
  "deliver i p payload s = log_effect (Packet i (dp_hash p) (dp_reliable p) payload) s"

text \<open>The case of a message in several packets.\<close>

definition purge_cache :: "bool \<Rightarrow> nat \<Rightarrow> data_packet \<Rightarrow> fragments \<Rightarrow> net \<Rightarrow> net_error + fragments \<times> net" where
  "purge_cache le i p fs s =
     (if cache_corrupt (dp_count p) fs
      then bind_res (if dp_reliable p then send_nack le i p (fragment_nos fs) s else Inr s) (\<lambda>s1. Inr ([], s1))
      else Inr (fs, s))"

definition complete_message :: "nat \<Rightarrow> data_packet \<Rightarrow> fragments \<Rightarrow> net \<Rightarrow> net_error + net" where
  "complete_message i p fs s =
     (if length fs = unat (dp_count p)
      then if \<exists>f \<in> set fs. length (snd f) < 20 then Inl OutOfBounds
      else bind_res (if dp_reliable p then remember_packet i (dp_id p) (deliver i p (fragment_payload fs) s)
                     else Inr (deliver i p (fragment_payload fs) s)) (\<lambda>s1.
             Inr (drop_assembler i (dp_id p) s1))
      else Inr s)"

definition handle_fragment :: "bool \<Rightarrow> int \<Rightarrow> nat \<Rightarrow> data_packet \<Rightarrow> u8 list \<Rightarrow> net \<Rightarrow> net_error + net" where
  "handle_fragment le now i p bs s =
     bind_res (purge_cache le i p (snd (assembler_of (dp_id p) (nt_heap s i))) s) (\<lambda>(fs, s1).
       (let fs' = fragment_set (dp_no p) bs fs;
            s2 = set_assembler i (dp_id p) (now, fs') s1
        in bind_res (if dp_reliable p then send_ack le i p (fragment_nos fs') s2 else Inr s2) (\<lambda>s3.
           bind_res (complete_message i p fs' s3) (\<lambda>s4.
             Inr (expire_assemblers now i s4)))))"

text \<open>The case of a message in one packet; with fewer than 20 bytes the range of its data is negative.\<close>

definition handle_solo :: "bool \<Rightarrow> nat \<Rightarrow> data_packet \<Rightarrow> u8 list \<Rightarrow> net \<Rightarrow> net_error + net" where
  "handle_solo le i p bs s =
     (if length bs < 20 then Inl LengthError else
      bind_res (if dp_reliable p
               then remember_packet i (dp_id p)
                      (log_effect (Sendto (tg_addr (nt_heap s i)) (ack_bytes le (dp_id p) (dp_no p) (dp_count p) [1])) s)
               else Inr s) (\<lambda>s1.
       Inr (deliver i p (drop 20 bs) s1)))"

text \<open>
  The DATA and DATA_RETRANSMISSION case. The number and the count are read before the sender is known,
  the other fields only for a known sender; \<open>parse_data\<close> fails where one of those reads leaves the datagram.
\<close>

definition handle_data :: "bool \<Rightarrow> int \<Rightarrow> u16 list \<Rightarrow> u8 list \<Rightarrow> net \<Rightarrow> net_error + net" where
  "handle_data le now key bs s =
     bind_res (or_error (get16 le bs 7) OutOfBounds) (\<lambda>no.
     bind_res (or_error (get16 le bs 9) OutOfBounds) (\<lambda>c.
       if no > c then Inr s
       else
         (case find_remote key s of
            None \<Rightarrow> Inr s
          | Some i \<Rightarrow>
              (let s1 = touch now i s in
               bind_res (or_error (parse_data le bs) OutOfBounds) (\<lambda>p.
                 if dp_type p = DATA_RETRANSMISSION \<and> recently_received i (dp_id p) s1 \<and> dp_reliable p
                 then send_ack le i p [0..<unat (dp_count p)] s1
                 else if dp_count p = 1 then handle_solo le i p bs s1
                 else handle_fragment le now i p bs s1)))))"

section \<open>Dispatch\<close>

definition process_packet :: "bool \<Rightarrow> int \<Rightarrow> sock \<Rightarrow> u8 list \<Rightarrow> net \<Rightarrow> net_error + net" where
  "process_packet le now addr bs s =
     (if \<not> valid_header bs then Inr s
      else
        bind_res (udp_key le addr) (\<lambda>key.
          (let t = bs ! 4 in
           if t = ANNOUNCE then handle_announce now addr key bs s
           else if t = LEAVE then handle_leave le key s
           else if t = DATA \<or> t = DATA_RETRANSMISSION then handle_data le now key bs s
           else if t = ACK then handle_ack le now key bs s
           else if t = NACK then handle_nack le now key bs s
           else Inr s)))"

fun process_packets :: "bool \<Rightarrow> int \<Rightarrow> (sock \<times> u8 list) list \<Rightarrow> net \<Rightarrow> net_error + net" where
  "process_packets le now [] s = Inr s"
| "process_packets le now ((addr, bs) # ps) s = bind_res (process_packet le now addr bs s) (process_packets le now ps)"

text \<open>
  \<open>process\<close>: \<open>arrivals\<close> are the datagrams it reads, from the announce socket and then from the data socket.
\<close>

definition process_announce :: "(sock \<Rightarrow> bool) \<Rightarrow> int \<Rightarrow> net \<Rightarrow> net_error + net" where
  "process_announce send_ok now s =
     (if now - nt_last_announce s > milliseconds 500
      then bind_res (announce send_ok (s\<lparr>nt_last_announce := now\<rparr>)) (\<lambda>s1.
             (let t = now + milliseconds 500
              in Inr (if t > nt_next_event s1 then log_effect (NextEvent t) (s1\<lparr>nt_next_event := t\<rparr>) else s1)))
      else Inr s)"

definition net_process :: "bool \<Rightarrow> (sock \<Rightarrow> bool) \<Rightarrow> int \<Rightarrow> (sock \<times> u8 list) list \<Rightarrow> net \<Rightarrow> net_error + net" where
  "net_process le send_ok now arrivals s =
     bind_res (process_announce send_ok now s) (\<lambda>s1.
     bind_res (expire_targets le now s1) (\<lambda>(leavers, s2).
     bind_res (if nt_send s2 = [] then Inr s2 else retransmit le now leavers s2) (\<lambda>s3.
       process_packets le now arrivals s3)))"

end
