(* ===== verification/Net_Peers.thy ===== *)
theory Net_Peers
  imports Net_Receive
begin

text \<open>
  The invariant of the three target containers, and the exactness of the join and leave callbacks, over any
  sequence of calls of \<open>process\<close> and \<open>send\<close>, with any datagrams arriving.
\<close>

section \<open>What a returning call satisfies\<close>

definition res_all :: "('a \<Rightarrow> bool) \<Rightarrow> 'e + 'a \<Rightarrow> bool" where
  "res_all P r = (case r of Inl e \<Rightarrow> True | Inr x \<Rightarrow> P x)"

lemma res_all_simps [simp]: "res_all P (Inl e)" "res_all P (Inr x) = P x"
  by (simp_all add: res_all_def)

lemma res_all_bind:
  "res_all P m \<Longrightarrow> (\<And>x. P x \<Longrightarrow> res_all Q (f x)) \<Longrightarrow> res_all Q (bind_res m f)"
  by (cases m) auto

lemma res_all_bind_any: "(\<And>x. res_all Q (f x)) \<Longrightarrow> res_all Q (bind_res m f)"
  by (cases m) auto

lemma res_all_bind_eq: "(\<And>x. m = Inr x \<Longrightarrow> res_all Q (f x)) \<Longrightarrow> res_all Q (bind_res m f)"
  by (cases m) auto

lemma res_all_mono: "res_all P m \<Longrightarrow> (\<And>x. P x \<Longrightarrow> Q x) \<Longrightarrow> res_all Q m"
  by (cases m) auto

lemma res_all_or_error: "(\<And>v. x = Some v \<Longrightarrow> P v) \<Longrightarrow> res_all P (or_error x e)"
  by (cases x) auto

section \<open>Calls that leave the peers alone\<close>

fun is_membership :: "effect \<Rightarrow> bool" where
  "is_membership (Joined i) \<longleftrightarrow> True"
| "is_membership (Left i) \<longleftrightarrow> True"
| "is_membership _ \<longleftrightarrow> False"

definition membership :: "net \<Rightarrow> effect list" where
  "membership s = filter is_membership (nt_log s)"

definition same_peers :: "net \<Rightarrow> net \<Rightarrow> bool" where
  "same_peers s s' \<longleftrightarrow> nt_targets s' = nt_targets s \<and> nt_names s' = nt_names s \<and> nt_udp s' = nt_udp s \<and> nt_next s' = nt_next s
     \<and> (\<forall>i. tg_name (nt_heap s' i) = tg_name (nt_heap s i) \<and> tg_addr (nt_heap s' i) = tg_addr (nt_heap s i))
     \<and> membership s' = membership s"

named_theorems peers_kept \<open>operations that leave the peers alone\<close>

lemma same_peers_refl [peers_kept]: "same_peers s s"
  by (simp add: same_peers_def)

lemma same_peers_trans: "same_peers s s' \<Longrightarrow> same_peers s' s'' \<Longrightarrow> same_peers s s''"
  by (simp add: same_peers_def)

lemma same_peers_log: "\<not> is_membership e \<Longrightarrow> same_peers s (log_effect e s)"
  by (simp add: same_peers_def log_effect_def membership_def)

lemma same_peers_update:
  "(\<And>t. tg_name (f t) = tg_name t \<and> tg_addr (f t) = tg_addr t) \<Longrightarrow> same_peers s (update_target i f s)"
  by (simp add: same_peers_def membership_def)

lemma same_peers_send: "same_peers s (s\<lparr>nt_send := q\<rparr>)"
  by (simp add: same_peers_def membership_def)

lemma same_peers_want: "same_peers s (want_event t s)"
  by (simp add: same_peers_def want_event_def log_effect_def membership_def)

lemma same_peers_touch: "same_peers s (touch now i s)"
  unfolding touch_def by (rule same_peers_update) simp

lemma kept_trans: "same_peers s s' \<Longrightarrow> res_all (same_peers s') r \<Longrightarrow> res_all (same_peers s) r"
  by (cases r) (auto intro: same_peers_trans)

lemma kept_bind:
  "res_all (same_peers s) m \<Longrightarrow> (\<And>x. res_all (same_peers x) (f x)) \<Longrightarrow> res_all (same_peers s) (bind_res m f)"
  by (erule res_all_bind) (blast intro: kept_trans)

lemma send_packet_kept: "res_all (same_peers s) (send_packet le to hdr no payload s)"
  unfolding send_packet_def by (rule res_all_bind_any) (simp add: same_peers_log)

lemma send_each_kept: "res_all (same_peers s) (send_each le ps s)"
proof (induction ps arbitrary: s)
  case (Cons p ps)
  obtain to hdr no payload where "p = (to, hdr, no, payload)" by (cases p)
  then show ?case using Cons by (simp add: kept_bind send_packet_kept)
qed (simp add: same_peers_refl)

lemma remember_kept: "res_all (same_peers s) (remember_packet i pid s)"
  unfolding remember_packet_def by (simp add: Let_def same_peers_update)

lemma send_ack_kept: "res_all (same_peers s) (send_ack le i p nos s)"
  unfolding send_ack_def by (rule res_all_bind_any) (simp add: same_peers_log)

lemma send_nack_kept: "res_all (same_peers s) (send_nack le i p nos s)"
  unfolding send_nack_def by (intro res_all_bind_any) (simp add: same_peers_log)

lemma deliver_same: "same_peers s (deliver i p payload s)"
  unfolding deliver_def by (rule same_peers_log) simp

lemma set_assembler_kept: "same_peers s (set_assembler i pid a s)"
  unfolding set_assembler_def by (rule same_peers_update) simp

lemma drop_assembler_same: "same_peers s (drop_assembler i pid s)"
  unfolding drop_assembler_def by (rule same_peers_update) simp

lemma expire_assemblers_same: "same_peers s (expire_assemblers now i s)"
  unfolding expire_assemblers_def by (rule same_peers_update) simp

lemma purge_kept: "res_all (\<lambda>r. same_peers s (snd r)) (purge_cache le i p fs s)"
  by (auto simp: purge_cache_def same_peers_refl intro!: res_all_bind [OF send_nack_kept])

lemma complete_kept: "res_all (same_peers s) (complete_message i p fs s)"
proof -
  have "res_all (same_peers s) (remember_packet i (dp_id p) (deliver i p payload s))" for payload
    by (rule kept_trans [OF deliver_same remember_kept])
  moreover have "same_peers s (drop_assembler i (dp_id p) (deliver i p payload s))" for payload
    by (rule same_peers_trans [OF deliver_same drop_assembler_same])
  ultimately show ?thesis
    by (auto simp: complete_message_def same_peers_refl drop_assembler_same intro!: kept_bind)
qed

lemma fragment_kept: "res_all (same_peers s) (handle_fragment le now i p bs s)"
  unfolding handle_fragment_def
proof (rule res_all_bind [OF purge_kept], clarify)
  fix fs :: fragments and s1 assume s1: "same_peers s (snd (fs, s1))"
  let ?a = "(now, fragment_set (dp_no p) bs fs)"
  have s2: "same_peers s (set_assembler i (dp_id p) ?a s1)"
    using s1 set_assembler_kept by (auto intro: same_peers_trans)
  show "res_all (same_peers s) (let fs' = fragment_set (dp_no p) bs fs; s2 = set_assembler i (dp_id p) (now, fs') s1
        in bind_res (if dp_reliable p then send_ack le i p (fragment_nos fs') s2 else Inr s2) (\<lambda>s3.
           bind_res (complete_message i p fs' s3) (\<lambda>s4. Inr (expire_assemblers now i s4))))"
    unfolding Let_def
    by (rule kept_trans [OF s2], intro kept_bind)
       (auto simp: send_ack_kept same_peers_refl complete_kept expire_assemblers_same)
qed

lemma solo_kept: "res_all (same_peers s) (handle_solo le i p bs s)"
proof -
  have "res_all (same_peers s) (remember_packet i (dp_id p) (log_effect (Sendto a b) s))" for a b
    by (rule kept_trans [OF same_peers_log remember_kept]) simp
  then show ?thesis
    by (auto simp: handle_solo_def same_peers_refl deliver_same intro!: kept_bind)
qed

lemma data_kept: "res_all (same_peers s) (handle_data le now key bs s)"
proof -
  have "res_all (same_peers s) (send_ack le i p nos (touch now i s))"
    "res_all (same_peers s) (handle_solo le i p bs (touch now i s))"
    "res_all (same_peers s) (handle_fragment le now i p bs (touch now i s))" for i p nos
    by (rule kept_trans [OF same_peers_touch], rule send_ack_kept solo_kept fragment_kept)+
  then show ?thesis
    by (auto simp: handle_data_def Let_def same_peers_refl split: option.split intro!: res_all_bind_any)
qed

lemma same_peers_send_trans: "same_peers s s' \<Longrightarrow> same_peers s (s'\<lparr>nt_send := q\<rparr>)"
  using same_peers_send same_peers_trans by blast

lemma ack_kept: "res_all (same_peers s) (handle_ack le now key bs s)"
proof -
  have "same_peers s (update_target i (measure_round_trip d) (touch now i s))" for i d
    by (rule same_peers_trans [OF same_peers_touch same_peers_update])
       (simp add: measure_round_trip_def Let_def)
  then show ?thesis
    by (auto simp: handle_ack_def Let_def same_peers_refl same_peers_touch split: option.split
        intro!: res_all_bind_any same_peers_send_trans)
qed

lemma nack_loop_kept: "res_all (same_peers s) (nack_loop le n i c bits to hdr payload s)"
proof (induction n arbitrary: i s)
  case (Suc n)
  have "res_all (same_peers s) (bind_res (if P then send_packet le to hdr no payload s else Inr s)
      (\<lambda>s1. nack_loop le n (i + 1) c bits to hdr payload s1))" for P no
    by (rule kept_bind) (auto simp: send_packet_kept same_peers_refl Suc.IH)
  then have "res_all (same_peers s) (bind_res (or_error (get8 bits (unat i)) OutOfBounds) (\<lambda>b.
      bind_res (if b AND bit_mask (unat i) = bit_mask (unat i) then send_packet le to hdr (unat i) payload s else Inr s)
        (\<lambda>s1. nack_loop le n (i + 1) c bits to hdr payload s1)))"
    by (rule res_all_bind_any)
  then show ?case by (simp add: same_peers_refl)
qed simp

lemma nack_kept: "res_all (same_peers s) (handle_nack le now key bs s)"
proof -
  have "same_peers s ((want_event t (touch now i s))\<lparr>nt_send := q\<rparr>)" for t i q
    by (rule same_peers_send_trans, rule same_peers_trans [OF same_peers_touch same_peers_want])
  then have "res_all (same_peers s) (nack_loop le n m c bits to hdr payload ((want_event t (touch now i s))\<lparr>nt_send := q\<rparr>))"
    for t i q n m c bits to hdr payload
    by (rule kept_trans [OF _ nack_loop_kept])
  then show ?thesis
    by (auto simp: handle_nack_def Let_def same_peers_refl same_peers_touch split: option.split
        intro!: res_all_bind_any simp del: power_numeral)
qed

lemma retransmit_targets_kept:
  "res_all (\<lambda>r. same_peers s (snd r)) (retransmit_targets le now held hdr payload ks s)"
proof (induction ks arbitrary: s)
  case (Cons k ks)
  have wrap: "res_all (\<lambda>r. same_peers s (snd r))
      (bind_res (retransmit_targets le now held hdr payload ks s1) (\<lambda>(ks', s2). Inr (g ks', s2)))"
    if "same_peers s s1" for g s1
    by (rule res_all_bind [OF Cons.IH]) (use that in \<open>auto intro: same_peers_trans\<close>)
  have sent: "res_all (same_peers s) (send_each le ps (want_event t s))" for ps t
    by (rule kept_trans [OF same_peers_want send_each_kept])
  show ?case
    using Cons.IH by (auto simp: Let_def wrap same_peers_refl intro!: res_all_bind [OF sent])
qed (simp add: same_peers_refl)

lemma retransmit_queues_kept:
  "res_all (\<lambda>r. same_peers s (snd r)) (retransmit_queues le now held qs s)"
proof (induction qs arbitrary: s)
  case (Cons q qs)
  obtain i e where q: "q = (i, e)" by (cases q)
  show ?case
    unfolding q retransmit_queues.simps
  proof (rule res_all_bind [OF retransmit_targets_kept], clarify)
    fix ks :: "packet_target list" and s1 assume s1: "same_peers s (snd (ks, s1))"
    show "res_all (\<lambda>r. same_peers s (snd r)) (bind_res (retransmit_queues le now held qs s1)
        (\<lambda>(qs', s2). Inr (if ks = [] then qs' else (i, e\<lparr>pq_targets := ks\<rparr>) # qs', s2)))"
      by (rule res_all_bind [OF Cons.IH]) (use s1 in \<open>auto intro: same_peers_trans\<close>)
  qed
qed (simp add: same_peers_refl)

lemma retransmit_kept: "res_all (same_peers s) (retransmit le now held s)"
  unfolding retransmit_def
  by (rule res_all_bind [OF retransmit_queues_kept]) (auto intro: same_peers_send_trans)

lemma fold_same_peers: "(\<And>x s. same_peers s (f x s)) \<Longrightarrow> same_peers s (fold f xs s)"
  by (induction xs arbitrary: s) (auto intro: same_peers_refl same_peers_trans)

lemma send_kept: "res_all (same_peers s) (net_send le now hash payload target reliable s)"
proof -
  have src: "same_peers s (s\<lparr>nt_source := pid\<rparr>)" for pid
    by (simp add: same_peers_def membership_def)
  have enq: "same_peers s (enqueue_reliable now target hdr payload (s\<lparr>nt_source := pid\<rparr>))" for hdr pid
    unfolding enqueue_reliable_def Let_def
    by (rule same_peers_trans [OF same_peers_send_trans [OF src]], rule fold_same_peers) (rule same_peers_want)
  have "res_all (same_peers s) (send_each le ps (enqueue_reliable now target hdr payload (s\<lparr>nt_source := pid\<rparr>)))"
    "res_all (same_peers s) (send_each le ps (s\<lparr>nt_source := pid\<rparr>))" for ps hdr pid
    by (rule kept_trans [OF enq send_each_kept], rule kept_trans [OF src send_each_kept])
  then show ?thesis
    by (auto simp: net_send_def Let_def simp del: power_numeral intro!: res_all_bind_any)
qed

lemma announce_each_kept: "res_all (same_peers s) (announce_each send_ok is s)"
proof (induction "is" arbitrary: s)
  case (Cons i "is")
  show ?case using kept_trans [OF same_peers_log Cons.IH] by simp
qed (simp add: same_peers_refl)

lemma process_announce_kept: "res_all (same_peers s) (process_announce send_ok now s)"
proof -
  have "same_peers s (s\<lparr>nt_last_announce := now\<rparr>)" by (simp add: same_peers_def membership_def)
  then have a: "res_all (same_peers s) (announce send_ok (s\<lparr>nt_last_announce := now\<rparr>))"
    unfolding announce_def by (rule kept_trans [OF _ announce_each_kept])
  have "same_peers x (log_effect (NextEvent t) (x\<lparr>nt_next_event := t\<rparr>))" for t x
    by (simp add: same_peers_def membership_def)
  then show ?thesis
    by (auto simp: process_announce_def same_peers_refl Let_def intro!: kept_bind [OF a])
qed

section \<open>The invariant\<close>

text \<open>
  The three containers hold the same targets: each target once, under its own name and under the key of
  its address; and the callbacks that ran for a target are exactly its join, and its leave if it is gone.
\<close>

definition member_calls :: "net \<Rightarrow> nat \<Rightarrow> effect list" where
  "member_calls s i = filter (\<lambda>e. e = Joined i \<or> e = Left i) (membership s)"

definition peers_ok :: "bool \<Rightarrow> net \<Rightarrow> bool" where
  "peers_ok le s \<longleftrightarrow>
     distinct (nt_targets s)
     \<and> (\<forall>i \<in> set (nt_targets s). i < nt_next s \<and> (\<exists>k. udp_key le (tg_addr (nt_heap s i)) = Inr k))
     \<and> distinct (nt_names s) \<and> set (nt_names s) = (\<lambda>i. (tg_name (nt_heap s i), i)) ` set (nt_targets s)
     \<and> distinct (map fst (nt_udp s))
     \<and> (\<forall>k i. map_of (nt_udp s) k = Some i \<longleftrightarrow> i \<in> set (nt_targets s) \<and> udp_key le (tg_addr (nt_heap s i)) = Inr k)"

definition calls_ok :: "net \<Rightarrow> bool" where
  "calls_ok s \<longleftrightarrow>
     (\<forall>i. (i < nt_next s \<and> tg_name (nt_heap s i) \<noteq> [] \<longrightarrow>
             member_calls s i = Joined i # (if i \<in> set (nt_targets s) then [] else [Left i]))
        \<and> (i \<ge> nt_next s \<longrightarrow> member_calls s i = []))"

lemma peers_ok_cong: "same_peers s s' \<Longrightarrow> peers_ok le s \<Longrightarrow> peers_ok le s'"
  by (simp add: same_peers_def peers_ok_def)

lemma calls_ok_cong: "same_peers s s' \<Longrightarrow> calls_ok s \<Longrightarrow> calls_ok s'"
  by (simp add: same_peers_def calls_ok_def member_calls_def)

definition peer_inv :: "bool \<Rightarrow> net \<Rightarrow> bool" where
  "peer_inv le s \<longleftrightarrow> peers_ok le s \<and> calls_ok s"

lemma peer_inv_cong: "same_peers s s' \<Longrightarrow> peer_inv le s \<Longrightarrow> peer_inv le s'"
  unfolding peer_inv_def using peers_ok_cong calls_ok_cong by blast

lemma inv_of_kept: "res_all (same_peers s) r \<Longrightarrow> peer_inv le s \<Longrightarrow> res_all (peer_inv le) r"
  by (cases r) (auto intro: peer_inv_cong)

lemma member_calls_log:
  "member_calls (log_effect e s) i = member_calls s i @ (if e = Joined i \<or> e = Left i then [e] else [])"
  by (auto simp: member_calls_def membership_def)

lemma member_calls_update [simp]:
  "member_calls (s\<lparr>nt_targets := a, nt_udp := b, nt_names := c\<rparr>) i = member_calls s i"
  "member_calls (s\<lparr>nt_udp := b, nt_names := c, nt_targets := a\<rparr>) i = member_calls s i"
  "member_calls (s\<lparr>nt_heap := h, nt_next := n\<rparr>) i = member_calls s i"
  by (simp_all add: member_calls_def membership_def)

lemma set_multi_insert [simp]: "set (multi_insert k v m) = insert (k, v) (set m)"
proof -
  have "set (takeWhile (\<lambda>e. fst e \<le> k) m) \<union> set (dropWhile (\<lambda>e. fst e \<le> k) m) = set m"
    by (metis set_append takeWhile_dropWhile_id)
  then show ?thesis by (auto simp: multi_insert_def)
qed

lemma distinct_multi_insert:
  assumes "distinct m" "(k, v) \<notin> set m"
  shows "distinct (multi_insert k v m)"
proof -
  have "mset (takeWhile (\<lambda>e. fst e \<le> k) m) + mset (dropWhile (\<lambda>e. fst e \<le> k) m) = mset m"
    by (metis mset_append takeWhile_dropWhile_id)
  then have "mset (multi_insert k v m) = mset ((k, v) # m)" by (simp add: multi_insert_def)
  then show ?thesis using assms distinct_mset_cong by (metis distinct.simps(2))
qed

lemma join_inv:
  assumes inv: "peer_inv le s" and key: "udp_key le addr = Inr key" "map_of (nt_udp s) key = None" and name: "name \<noteq> []"
  shows "peer_inv le (log_effect (Joined (nt_next s)) (log_effect (Sendto addr b)
     (s\<lparr>nt_heap := (nt_heap s)(nt_next s := new_target name addr now), nt_next := Suc (nt_next s),
        nt_targets := nt_targets s @ [nt_next s], nt_udp := map_insert key (nt_next s) (nt_udp s),
        nt_names := multi_insert name (nt_next s) (nt_names s)\<rparr>)))"
    (is "peer_inv le ?s'")
proof -
  let ?n = "nt_next s"
  have fresh: "?n \<notin> set (nt_targets s)" using inv by (auto simp: peer_inv_def peers_ok_def)
  have names: "(m, ?n) \<notin> set (nt_names s)" for m
    using inv fresh by (auto simp: peer_inv_def peers_ok_def)
  have key': "key \<notin> fst ` set (nt_udp s)" using key(2) by (simp add: map_of_eq_None_iff)
  have "peers_ok le ?s'"
    using inv fresh names key key' distinct_multi_insert [OF _ names]
    by (auto simp: peer_inv_def peers_ok_def map_insert_def distinct_key_insert map_of_key_insert new_target_def
        less_Suc_eq image_iff)
  moreover have "calls_ok ?s'"
    unfolding calls_ok_def
  proof (intro allI conjI impI)
    fix i assume i: "i < nt_next ?s' \<and> tg_name (nt_heap ?s' i) \<noteq> []"
    show "member_calls ?s' i = Joined i # (if i \<in> set (nt_targets ?s') then [] else [Left i])"
    proof (cases "i = ?n")
      case True
      have "member_calls s ?n = []" using inv by (simp add: peer_inv_def calls_ok_def)
      then show ?thesis using True by (simp add: member_calls_def membership_def)
    next
      case False
      then have "member_calls s i = Joined i # (if i \<in> set (nt_targets s) then [] else [Left i])"
        using inv i by (auto simp: peer_inv_def calls_ok_def)
      then show ?thesis using False by (simp add: member_calls_def membership_def)
    qed
  next
    fix i assume i: "nt_next ?s' \<le> i"
    then have "member_calls s i = []" using inv by (simp add: peer_inv_def calls_ok_def)
    then show "member_calls ?s' i = []" using i by (simp add: member_calls_def membership_def)
  qed
  ultimately show ?thesis by (simp add: peer_inv_def)
qed

lemma leave_inv:
  assumes inv: "peer_inv le s" and i: "i \<in> set (nt_targets s)"
  shows "\<exists>s1. remove_target le i s = Inr s1 \<and> peer_inv le (log_effect (Left i) s1)
           \<and> nt_targets s1 = erase_first (\<lambda>j. j = i) (nt_targets s) \<and> nt_heap s1 = nt_heap s"
proof -
  obtain key where key: "udp_key le (tg_addr (nt_heap s i)) = Inr key"
    using inv i by (auto simp: peer_inv_def peers_ok_def)
  let ?e = "(tg_name (nt_heap s i), i)"
  let ?s1 = "s\<lparr>nt_udp := key_erase key (nt_udp s), nt_names := erase_first (\<lambda>e. e = ?e) (nt_names s),
               nt_targets := erase_first (\<lambda>j. j = i) (nt_targets s)\<rparr>"
  have dist: "distinct (nt_targets s)" "distinct (nt_names s)" "distinct (map fst (nt_udp s))"
    using inv by (auto simp: peer_inv_def peers_ok_def)
  have targets: "nt_targets ?s1 = filter (\<lambda>j. j \<noteq> i) (nt_targets s)"
    using erase_first_distinct_filter [of id "nt_targets s" i] dist(1) by simp
  have names: "nt_names ?s1 = filter (\<lambda>e. e \<noteq> ?e) (nt_names s)"
    using erase_first_distinct_filter [of id "nt_names s" ?e] dist(2) by simp
  have udp: "map_of (nt_udp ?s1) k = Some j \<longleftrightarrow> k \<noteq> key \<and> j \<in> set (nt_targets s) \<and> udp_key le (tg_addr (nt_heap s j)) = Inr k"
    for k j
    using inv by (auto simp: map_of_key_erase peer_inv_def peers_ok_def)
  have own: "j = i" if "j \<in> set (nt_targets s)" "udp_key le (tg_addr (nt_heap s j)) = Inr key" for j
  proof -
    have "map_of (nt_udp s) key = Some j" "map_of (nt_udp s) key = Some i"
      using inv i key that unfolding peer_inv_def peers_ok_def by blast+
    then show ?thesis by simp
  qed
  have all: "\<forall>j \<in> set (nt_targets s). j < nt_next s \<and> (\<exists>k. udp_key le (tg_addr (nt_heap s j)) = Inr k)"
    and names_set: "set (nt_names s) = (\<lambda>i. (tg_name (nt_heap s i), i)) ` set (nt_targets s)"
    using inv by (auto simp: peer_inv_def peers_ok_def)
  have "peers_ok le ?s1"
    unfolding peers_ok_def
  proof (intro conjI allI)
    show "distinct (nt_targets ?s1)" unfolding targets using dist(1) by simp
    show "distinct (nt_names ?s1)" unfolding names using dist(2) by simp
    show "distinct (map fst (nt_udp ?s1))" using dist(3) by (simp add: key_erase_def distinct_map_filter)
    show "\<forall>j \<in> set (nt_targets ?s1). j < nt_next ?s1 \<and> (\<exists>k. udp_key le (tg_addr (nt_heap ?s1 j)) = Inr k)"
      unfolding targets using all by simp
    show "set (nt_names ?s1) = (\<lambda>i. (tg_name (nt_heap ?s1 i), i)) ` set (nt_targets ?s1)"
      unfolding targets names set_filter names_set by auto
    show "map_of (nt_udp ?s1) k = Some j \<longleftrightarrow> j \<in> set (nt_targets ?s1) \<and> udp_key le (tg_addr (nt_heap ?s1 j)) = Inr k" for k j
      unfolding udp targets using own [of j] key by auto
  qed
  then have "peers_ok le (log_effect (Left i) ?s1)"
    by (simp add: peers_ok_def)
  moreover have "calls_ok (log_effect (Left i) ?s1)"
    unfolding calls_ok_def
  proof (intro allI conjI impI)
    fix j assume j: "j < nt_next (log_effect (Left i) ?s1) \<and> tg_name (nt_heap (log_effect (Left i) ?s1) j) \<noteq> []"
    then have "member_calls s j = Joined j # (if j \<in> set (nt_targets s) then [] else [Left j])"
      using inv by (simp add: peer_inv_def calls_ok_def)
    then show "member_calls (log_effect (Left i) ?s1) j
        = Joined j # (if j \<in> set (nt_targets (log_effect (Left i) ?s1)) then [] else [Left j])"
      using i targets by (auto simp: member_calls_log)
  next
    fix j assume j: "nt_next (log_effect (Left i) ?s1) \<le> j"
    have "i < nt_next s" using inv i by (simp add: peer_inv_def peers_ok_def)
    then show "member_calls (log_effect (Left i) ?s1) j = []"
      using j inv by (auto simp: member_calls_log peer_inv_def calls_ok_def)
  qed
  ultimately show ?thesis
    using key by (simp add: remove_target_def peer_inv_def)
qed

section \<open>Every call keeps it\<close>

lemma handle_announce_inv:
  assumes inv: "peer_inv le s" and key: "udp_key le addr = Inr key"
  shows "res_all (peer_inv le) (handle_announce now addr key bs s)"
proof (cases "find_remote key s")
  case (Some i)
  then show ?thesis using inv peer_inv_cong [OF same_peers_touch] by (simp add: handle_announce_def)
next
  case None
  then have udp: "map_of (nt_udp s) key = None" by (simp add: find_remote_def)
  have "res_all (peer_inv le) (if name = [] then Inr s
      else let (i, s1) = make_target (new_target name addr now) s
           in if map_of (nt_udp s1) key = None
              then Inr (log_effect (Joined i) (log_effect (Sendto addr (nt_announce s1))
                   (s1\<lparr>nt_targets := nt_targets s1 @ [i], nt_udp := map_insert key i (nt_udp s1),
                       nt_names := multi_insert name i (nt_names s1)\<rparr>)))
              else Inr s1)" for name
    using join_inv [OF inv key udp, of name "nt_announce s" now] inv udp by (simp add: make_target_def)
  then show ?thesis
    unfolding handle_announce_def None option.case by (rule res_all_bind_any)
qed

lemma handle_leave_inv:
  assumes "peer_inv le s"
  shows "res_all (peer_inv le) (handle_leave le key s)"
proof (cases "find_remote key s")
  case (Some i)
  then have "i \<in> set (nt_targets s)"
    using assms by (auto simp: find_remote_def peer_inv_def peers_ok_def)
  from leave_inv [OF assms this] show ?thesis
    using Some by (auto simp: handle_leave_def)
qed (simp add: handle_leave_def assms)

lemma process_packet_inv:
  assumes "peer_inv le s"
  shows "res_all (peer_inv le) (process_packet le now addr bs s)"
proof (cases "udp_key le addr")
  case (Inr key)
  note kept = data_kept ack_kept nack_kept
  show ?thesis
    using assms handle_announce_inv [OF assms Inr] handle_leave_inv [OF assms] kept [THEN inv_of_kept, OF assms]
    by (simp add: process_packet_def Inr Let_def)
qed (simp add: process_packet_def assms)

lemma process_packets_inv: "peer_inv le s \<Longrightarrow> res_all (peer_inv le) (process_packets le now ps s)"
proof (induction ps arbitrary: s)
  case (Cons p ps)
  obtain addr bs where p: "p = (addr, bs)" by (cases p)
  show ?case unfolding p process_packets.simps
    by (rule res_all_bind [OF process_packet_inv [OF Cons.prems] Cons.IH])
qed simp

lemma remove_target_log:
  "remove_target le i (log_effect e s) =
     (case remove_target le i s of Inl x \<Rightarrow> Inl x | Inr s' \<Rightarrow> Inr (log_effect e s'))"
  by (cases "udp_key le (tg_addr (nt_heap s i))") (simp_all add: remove_target_def log_effect_def)

lemma expire_each_log:
  "expire_each le now is (log_effect e s) =
     (case expire_each le now is s of Inl x \<Rightarrow> Inl x | Inr (ls, s') \<Rightarrow> Inr (ls, log_effect e s'))"
proof (induction "is" arbitrary: s)
  case (Cons i "is")
  then show ?case
    by (auto simp: remove_target_log bind_res_def split: sum.splits)
qed simp

lemma expire_each_inv:
  assumes "peer_inv le s" "set is \<subseteq> set (nt_targets s)" "distinct is"
  shows "res_all (\<lambda>(ls, s1). peer_inv le (fold (\<lambda>i. log_effect (Left i)) ls s1)) (expire_each le now is s)"
  using assms
proof (induction "is" arbitrary: s)
  case (Cons i "is")
  show ?case
  proof (cases "now - tg_last_update (nt_heap s i) > seconds 2")
    case False
    then show ?thesis using Cons by simp
  next
    case True
    obtain s1 where s1: "remove_target le i s = Inr s1" "peer_inv le (log_effect (Left i) s1)"
      "nt_targets s1 = erase_first (\<lambda>j. j = i) (nt_targets s)"
      using leave_inv [OF Cons.prems(1), of i] Cons.prems(2) unfolding list.set insert_subset by blast
    have "set is \<subseteq> set (nt_targets (log_effect (Left i) s1))"
    proof
      fix j assume j: "j \<in> set is"
      then have "j \<in> set (nt_targets s)" "j \<noteq> i" using Cons.prems(2,3) by auto
      then show "j \<in> set (nt_targets (log_effect (Left i) s1))" unfolding log_effect_sel s1(3) by (rule erase_first_keeps)
    qed
    from Cons.IH [OF s1(2) this] Cons.prems(3)
    have ih: "res_all (\<lambda>(ls, s2). peer_inv le (fold (\<lambda>i. log_effect (Left i)) ls s2)) (expire_each le now is (log_effect (Left i) s1))"
      by simp
    have step: "expire_each le now (i # is) s = bind_res (expire_each le now is s1) (\<lambda>(ls, s2). Inr (i # ls, s2))"
      using True s1(1) by simp
    show ?thesis
    proof (cases "expire_each le now is s1")
      case (Inr r)
      then show ?thesis using ih by (cases r) (simp add: step expire_each_log del: expire_each.simps)
    qed (simp add: step del: expire_each.simps)
  qed
qed simp

lemma expire_targets_inv:
  assumes "peer_inv le s"
  shows "res_all (\<lambda>(ls, s1). peer_inv le s1) (expire_targets le now s)"
proof (cases "nt_targets s = []")
  case False
  have "distinct (nt_targets s)" using assms by (simp add: peer_inv_def peers_ok_def)
  then have "res_all (\<lambda>(ls, s1). peer_inv le (fold (\<lambda>i. log_effect (Left i)) ls s1))
      (expire_each le now (drop 1 (nt_targets s)) s)"
    by (intro expire_each_inv assms set_drop_subset distinct_drop)
  then show ?thesis
    unfolding expire_targets_def using False by (auto elim!: res_all_bind)
qed (simp add: expire_targets_def)

lemma net_process_inv:
  assumes "peer_inv le s"
  shows "res_all (peer_inv le) (net_process le send_ok now arrivals s)"
  unfolding net_process_def
proof (rule res_all_bind [OF inv_of_kept [OF process_announce_kept assms]],
       rule res_all_bind [OF expire_targets_inv], assumption, clarify)
  fix leavers :: "nat list" and s2 assume s2: "peer_inv le s2"
  have "res_all (peer_inv le) (if nt_send s2 = [] then Inr s2 else retransmit le now leavers s2)"
    using s2 inv_of_kept [OF retransmit_kept s2] by simp
  then show "res_all (peer_inv le) (bind_res (if nt_send s2 = [] then Inr s2 else retransmit le now leavers s2)
      (process_packets le now arrivals))"
    by (rule res_all_bind) (rule process_packets_inv)
qed

section \<open>Runs\<close>

datatype net_call =
    Process int "(sock \<times> u8 list) list"
  | Send int u64 "u8 list" "u8 list" bool

fun net_call_step :: "bool \<Rightarrow> (sock \<Rightarrow> bool) \<Rightarrow> net_call \<Rightarrow> net \<Rightarrow> net_error + net" where
  "net_call_step le send_ok (Process now arrivals) s = net_process le send_ok now arrivals s"
| "net_call_step le send_ok (Send now hash payload target reliable) s = net_send le now hash payload target reliable s"

fun net_run :: "bool \<Rightarrow> (sock \<Rightarrow> bool) \<Rightarrow> net_call list \<Rightarrow> net \<Rightarrow> net_error + net" where
  "net_run le send_ok [] s = Inr s"
| "net_run le send_ok (c # cs) s = bind_res (net_call_step le send_ok c s) (net_run le send_ok cs)"

lemma net_run_inv: "peer_inv le s \<Longrightarrow> res_all (peer_inv le) (net_run le send_ok cs s)"
proof (induction cs arbitrary: s)
  case (Cons c cs)
  have "res_all (peer_inv le) (net_call_step le send_ok c s)"
    by (cases c) (simp_all add: net_process_inv [OF Cons.prems] inv_of_kept [OF send_kept Cons.prems])
  then show ?case unfolding net_run.simps by (rule res_all_bind) (rule Cons.IH)
qed simp

lemma reset_inv:
  "res_all (peer_inv le) (net_reset le resolve open_sockets now name address port bind mtu new_net)"
proof -
  have "peer_inv le (s\<lparr>nt_targets := [0], nt_names := multi_insert [] 0 [], nt_udp := map_insert key 0 [],
          nt_mtu := m, nt_announce := a, nt_open := True\<rparr>)"
    if "udp_key le addr = Inr key" "s = (clear_net (net_shutdown new_net))
        \<lparr>nt_heap := (nt_heap (clear_net (net_shutdown new_net)))(0 := new_target [] addr now), nt_next := Suc 0\<rparr>"
    for key addr m a s
    using that
    by (auto simp: peer_inv_def peers_ok_def calls_ok_def clear_net_def net_shutdown_def new_net_def multi_insert_def
        map_insert_def key_insert_def insert_lower_def new_target_def member_calls_def membership_def)
  then show ?thesis
    unfolding net_reset_def Let_def
    by (auto simp: make_target_def clear_net_def net_shutdown_def new_net_def intro!: res_all_bind_eq)
qed


definition example_calls :: "net_call list" where
  "example_calls = [Process (seconds 1) [(V4 [10, 0, 0, 2] 7447, announce_bytes [112])],
                    Process (seconds 2) [], Process (seconds 4) []]"

definition example_joined :: "net_error + net" where
  "example_joined = net_reset True (\<lambda>_ _. Inr (V4 [239, 226, 152, 162] 7447)) (\<lambda>_ _. True) 0 [113] [] 7447 [] 1500 new_net"

lemma example_run:
  "res_ok (\<lambda>s0. res_ok (\<lambda>s. nt_targets s = [0] \<and> membership s = [Joined 1, Left 1])
     (net_run True (\<lambda>_. True) example_calls s0)) example_joined"
  by code_simp


end
