(* ===== verification/Net_Reassembly.thy ===== *)
theory Net_Reassembly
  imports Net_Receive
begin

text \<open>
  Reassembly of fragmented messages: the cache of a message is the sorted map of the packets received so
  far, and when the last one arrives the payload is delivered, whatever the order and the duplicates.
\<close>

section \<open>The cache of a message\<close>

text \<open>The cache when exactly the packets of \<open>D\<close>, among \<open>n\<close>, have arrived; \<open>f\<close> gives their datagrams.\<close>

definition cached :: "(nat \<Rightarrow> u8 list) \<Rightarrow> nat \<Rightarrow> nat set \<Rightarrow> fragments" where
  "cached f n D = map (\<lambda>k. (of_nat k, f k)) (filter (\<lambda>k. k \<in> D) [0..<n])"

lemma cached_sorted:
  assumes "n \<le> 2 ^ 16"
  shows "sorted (map fst (cached f n D))" "distinct (map fst (cached f n D))"
proof -
  have lt: "(of_nat j :: u16) \<le> of_nat k \<longleftrightarrow> j \<le> k" if "j < 2 ^ 16" "k < 2 ^ 16" for j k
    using that by (simp add: word_le_nat_alt unat_of_nat)
  let ?ks = "filter (\<lambda>k. k \<in> D) [0..<n]"
  have srt: "sorted ?ks" by (simp add: sorted_wrt_filter)
  have "sorted_wrt (\<lambda>j k. (of_nat j :: u16) \<le> of_nat k) ?ks"
    by (rule sorted_wrt_mono_rel [OF _ srt]) (use assms lt in auto)
  then show "sorted (map fst (cached f n D))"
    by (simp add: cached_def sorted_map comp_def sorted_wrt_map)
  have "inj_on (\<lambda>k. of_nat k :: u16) (set ?ks)"
    by (rule inj_onI) (use assms in \<open>auto simp: of_nat16_inj\<close>)
  then show "distinct (map fst (cached f n D))"
    by (simp add: cached_def comp_def distinct_map)
qed

lemma set_cached: "set (cached f n D) = {(of_nat k, f k) | k. k < n \<and> k \<in> D}"
  by (auto simp: cached_def)

lemma cached_full: "{0..<n} \<subseteq> D \<Longrightarrow> cached f n D = map (\<lambda>k. (of_nat k, f k)) [0..<n]"
  by (auto simp: cached_def intro!: filter_True arg_cong [where f = "map _"])

lemma length_cached:
  assumes "D \<subseteq> {0..<n}"
  shows "length (cached f n D) = card D"
proof -
  have D: "set (filter (\<lambda>k. k \<in> D) [0..<n]) = D" using assms by auto
  have "length (filter (\<lambda>k. k \<in> D) [0..<n]) = card (set (filter (\<lambda>k. k \<in> D) [0..<n]))"
    by (simp only: distinct_card distinct_filter distinct_upt)
  then show ?thesis unfolding D by (simp add: cached_def)
qed

lemma length_cached_full:
  assumes "D \<subseteq> {0..<n}"
  shows "length (cached f n D) = n \<longleftrightarrow> D = {0..<n}"
proof -
  have "card D = card {0..<n} \<Longrightarrow> D = {0..<n}"
    by (rule card_subset_eq) (use assms in auto)
  then show ?thesis using length_cached [OF assms, of f] by auto
qed

lemma fragment_set_cached:
  assumes n: "n \<le> 2 ^ 16" and no: "no < n"
  shows "fragment_set (of_nat no) (f no) (cached f n D) = cached f n (insert no D)"
proof (cases "map_of (cached f n D) (of_nat no)")
  case None
  then have new: "of_nat no \<notin> fst ` set (cached f n D)" by (simp add: map_of_eq_None_iff)
  have "key_insert (of_nat no) (f no) (cached f n D) = cached f n (insert no D)"
  proof (rule sorted_map_unique)
    show "set (key_insert (of_nat no) (f no) (cached f n D)) = set (cached f n (insert no D))"
      using no by (auto simp: set_cached)
  qed (use sorted_key_insert [OF cached_sorted(1) [OF n]] distinct_key_insert [OF cached_sorted(2) [OF n] new]
        cached_sorted [OF n] in auto)
  then show ?thesis using None by (simp add: fragment_set_def)
next
  case (Some bs)
  then obtain k where k: "of_nat no = (of_nat k :: u16)" "bs = f k" "k < n" "k \<in> D"
    using map_of_SomeD [OF Some] by (auto simp: set_cached)
  then have "no = k"
    using n no of_nat16_inj [of no k] by auto
  then have "cached f n (insert no D) = cached f n D" "bs = f no"
    using k by (auto simp: insert_absorb)
  then show ?thesis
    using Some key_update_id [OF Some cached_sorted(2) [OF n]] by (simp add: fragment_set_def)
qed

lemma fragment_nos_cached:
  "n \<le> 2 ^ 16 \<Longrightarrow> set (fragment_nos (cached f n D)) = {k. k < n \<and> k \<in> D}"
proof -
  assume n: "n \<le> 2 ^ 16"
  have "unat (of_nat k :: u16) = k" if "k < n" for k using n that by simp
  then show ?thesis by (auto simp: fragment_nos_def cached_def image_iff)
qed

lemma cached_not_corrupt:
  assumes "unat c = n"
  shows "\<not> cache_corrupt c (cached f n D)"
proof (cases "cached f n D = []")
  case False
  then have "last (cached f n D) \<in> set (cached f n D)" by (rule last_in_set)
  then obtain k where k: "fst (last (cached f n D)) = of_nat k" "k < n" by (auto simp: set_cached)
  have "n < 65536" using u16_bound [of c] assms by simp
  then have "unat (of_nat k :: u16) = k" using k(2) by (simp add: unat_of_nat)
  then show ?thesis using k assms by (simp add: cache_corrupt_def word_le_nat_alt)
qed (simp add: cache_corrupt_def)

lemma fragment_payload_full: "fragment_payload (map (\<lambda>k. (of_nat k, f k)) [0..<n]) = concat (map (\<lambda>k. drop 20 (f k)) [0..<n])"
  by (simp add: fragment_payload_def comp_def)

section \<open>One arrival\<close>

fun is_delivery :: "effect \<Rightarrow> bool" where
  "is_delivery (Packet i h r bs) \<longleftrightarrow> True"
| "is_delivery _ \<longleftrightarrow> False"

definition delivered :: "net \<Rightarrow> effect list" where
  "delivered s = filter is_delivery (nt_log s)"

definition fragments_of :: "nat \<Rightarrow> u16 \<Rightarrow> net \<Rightarrow> fragments" where
  "fragments_of i pid s = snd (assembler_of pid (nt_heap s i))"

text \<open>What the arrival of a fragment keeps of the state.\<close>

definition same_peer :: "nat \<Rightarrow> net \<Rightarrow> net \<Rightarrow> bool" where
  "same_peer i s s' \<longleftrightarrow> nt_udp s' = nt_udp s
     \<and> tg_round_trip (nt_heap s' i) = tg_round_trip (nt_heap s i)
     \<and> tg_recent (nt_heap s' i) = tg_recent (nt_heap s i)
     \<and> tg_recent_index (nt_heap s' i) = tg_recent_index (nt_heap s i)"

lemma same_peer_refl: "same_peer i s s"
  by (simp add: same_peer_def)

lemma same_peer_trans: "same_peer i s s' \<Longrightarrow> same_peer i s' s'' \<Longrightarrow> same_peer i s s''"
  by (simp add: same_peer_def)

lemma map_of_set_assembler:
  "map_of (tg_assemblers (nt_heap (set_assembler i pid a s) i)) pid = Some a"
proof (cases "map_of (tg_assemblers (nt_heap s i)) pid")
  case None
  then have "pid \<notin> fst ` set (tg_assemblers (nt_heap s i))" by (simp add: map_of_eq_None_iff)
  then show ?thesis using None by (simp add: set_assembler_def map_of_key_insert)
qed (simp add: set_assembler_def map_of_key_update)

lemma set_assembler_same: "same_peer i s (set_assembler i pid a s)"
  by (simp add: same_peer_def set_assembler_def)

lemma delivered_set_assembler [simp]: "delivered (set_assembler i pid a s) = delivered s"
  by (simp add: delivered_def set_assembler_def)

lemma map_of_filter_keep:
  "map_of m k = Some v \<Longrightarrow> P (k, v) \<Longrightarrow> map_of (filter P m) k = Some v"
  by (induction m) (auto split: if_splits)

lemma map_of_filter_None: "map_of m k = None \<Longrightarrow> map_of (filter P m) k = None"
  by (induction m) (auto split: if_splits)

lemma expire_keeps:
  assumes "map_of (tg_assemblers (nt_heap s i)) pid = Some (now, fs)" "0 \<le> tg_round_trip (nt_heap s i)"
  shows "fragments_of i pid (expire_assemblers now i s) = fs"
  using map_of_filter_keep [OF assms(1), where P = "\<lambda>(pid, a). \<not> now > fst a + tg_round_trip (nt_heap s i) * 10"] assms(2)
  by (simp add: fragments_of_def assembler_of_def expire_assemblers_def)

lemma expire_same: "same_peer i s (expire_assemblers now i s)" "delivered (expire_assemblers now i s) = delivered s"
  by (simp_all add: same_peer_def delivered_def expire_assemblers_def)

lemma send_ack_returns:
  assumes "\<And>k. k \<in> set nos \<Longrightarrow> k < unat (dp_count p)"
  shows "\<exists>bits. send_ack le i p nos s =
    Inr (log_effect (Sendto (tg_addr (nt_heap s i)) (ack_bytes le (dp_id p) (dp_no p) (dp_count p) bits)) s)"
proof -
  have "\<exists>b. set_bits nos (replicate (ack_size (dp_count p)) 0) = Some b"
    by (rule set_bits_some) (use assms in \<open>auto simp: ack_size_def less_Suc_eq_le intro: div_le_mono less_imp_le\<close>)
  then show ?thesis by (auto simp: send_ack_def)
qed

lemma delivered_sendto [simp]: "delivered (log_effect (Sendto a b) s) = delivered s"
  by (simp add: delivered_def)

lemma same_peer_log [simp]: "same_peer i s (log_effect e s') \<longleftrightarrow> same_peer i s s'"
  by (simp add: same_peer_def)

text \<open>
  A fragment is stored and, for a reliable message, acknowledged; the state \<open>s2\<close> before the completeness
  test is the one with the new cache.
\<close>

lemma fragment_stored:
  assumes fs: "fragments_of i (dp_id p) s = cached f n D" and n: "unat (dp_count p) = n"
    and no: "dp_no p = of_nat no" "no < n"
  shows "\<exists>s2. handle_fragment le now i p (f no) s =
      bind_res (complete_message i p (cached f n (insert no D)) s2) (\<lambda>s4. Inr (expire_assemblers now i s4))
    \<and> map_of (tg_assemblers (nt_heap s2 i)) (dp_id p) = Some (now, cached f n (insert no D))
    \<and> same_peer i s s2 \<and> delivered s2 = delivered s"
proof -
  have n16: "n \<le> 2 ^ 16" using n u16_bound [of "dp_count p"] by simp
  let ?fs = "cached f n (insert no D)"
  let ?s1 = "set_assembler i (dp_id p) (now, ?fs) s"
  have start: "handle_fragment le now i p (f no) s =
     bind_res (if dp_reliable p then send_ack le i p (fragment_nos ?fs) ?s1 else Inr ?s1) (\<lambda>s3.
       bind_res (complete_message i p ?fs s3) (\<lambda>s4. Inr (expire_assemblers now i s4)))"
    using fs no fragment_set_cached [OF n16 no(2), of f D] cached_not_corrupt [OF n, of f D]
    by (simp add: handle_fragment_def purge_cache_def fragments_of_def Let_def)
  show ?thesis
  proof (cases "dp_reliable p")
    case False
    then show ?thesis
      using start by (intro exI [of _ ?s1]) (simp add: map_of_set_assembler set_assembler_same)
  next
    case True
    have "k < unat (dp_count p)" if "k \<in> set (fragment_nos ?fs)" for k
      using that n by (simp add: fragment_nos_cached [OF n16])
    from send_ack_returns [of "fragment_nos ?fs" p le i ?s1, OF this]
    obtain bits where "send_ack le i p (fragment_nos ?fs) ?s1 = Inr (log_effect
        (Sendto (tg_addr (nt_heap ?s1 i)) (ack_bytes le (dp_id p) (dp_no p) (dp_count p) bits)) ?s1)"
      by blast
    then show ?thesis
      using start True
      by (intro exI [of _ "log_effect (Sendto (tg_addr (nt_heap ?s1 i)) (ack_bytes le (dp_id p) (dp_no p) (dp_count p) bits)) ?s1"])
         (simp add: map_of_set_assembler set_assembler_same)
  qed
qed

lemma fragment_not_last:
  assumes "fragments_of i (dp_id p) s = cached f n D" "unat (dp_count p) = n" "dp_no p = of_nat no" "no < n"
    and D: "D \<subseteq> {0..<n}" "insert no D \<noteq> {0..<n}" and rtt: "0 \<le> tg_round_trip (nt_heap s i)"
  shows "\<exists>s'. handle_fragment le now i p (f no) s = Inr s' \<and> fragments_of i (dp_id p) s' = cached f n (insert no D)
           \<and> same_peer i s s' \<and> delivered s' = delivered s"
proof -
  obtain s2 where s2: "handle_fragment le now i p (f no) s =
      bind_res (complete_message i p (cached f n (insert no D)) s2) (\<lambda>s4. Inr (expire_assemblers now i s4))"
    "map_of (tg_assemblers (nt_heap s2 i)) (dp_id p) = Some (now, cached f n (insert no D))"
    "same_peer i s s2" "delivered s2 = delivered s"
    using fragment_stored [OF assms(1-4)] by blast
  have "length (cached f n (insert no D)) \<noteq> n"
    using length_cached_full [of "insert no D" n f] D assms(4) by auto
  then have "handle_fragment le now i p (f no) s = Inr (expire_assemblers now i s2)"
    using s2(1) assms(2) by (simp add: complete_message_def)
  moreover have "0 \<le> tg_round_trip (nt_heap s2 i)" using s2(3) rtt by (simp add: same_peer_def)
  ultimately show ?thesis
    using expire_keeps [OF s2(2)] expire_same [where i = i and s = s2 and now = now] s2(3,4) same_peer_trans by metis
qed

lemma fragment_last:
  assumes "fragments_of i (dp_id p) s = cached f n D" "unat (dp_count p) = n" "dp_no p = of_nat no" "no < n"
    and D: "D \<subseteq> {0..<n}" "insert no D = {0..<n}"
    and long: "\<And>k. k < n \<Longrightarrow> 20 \<le> length (f k)"
    and recent: "dp_reliable p \<longrightarrow> unat (tg_recent_index (nt_heap s i)) < length (tg_recent (nt_heap s i))"
  shows "\<exists>s'. handle_fragment le now i p (f no) s = Inr s'
           \<and> delivered s' = delivered s @ [Packet i (dp_hash p) (dp_reliable p) (concat (map (\<lambda>k. drop 20 (f k)) [0..<n]))]
           \<and> fragments_of i (dp_id p) s' = []"
proof -
  let ?fs = "cached f n (insert no D)"
  obtain s2 where s2: "handle_fragment le now i p (f no) s =
      bind_res (complete_message i p ?fs s2) (\<lambda>s4. Inr (expire_assemblers now i s4))"
    "same_peer i s s2" "delivered s2 = delivered s"
    using fragment_stored [OF assms(1-4)] by blast
  have full: "length ?fs = n" using length_cached_full [of "insert no D" n f] D by simp
  have ok: "\<not> (\<exists>x \<in> set ?fs. length (snd x) < 20)"
    using long by (fastforce simp: set_cached)
  have payload: "fragment_payload ?fs = concat (map (\<lambda>k. drop 20 (f k)) [0..<n])"
    using cached_full [of n "insert no D" f] D fragment_payload_full [of f n] by simp
  let ?s3 = "deliver i p (fragment_payload ?fs) s2"
  have "\<exists>s4. (if dp_reliable p then remember_packet i (dp_id p) ?s3 else Inr ?s3) = Inr s4 \<and> nt_log s4 = nt_log ?s3"
    using recent s2(2) by (auto simp: remember_packet_def deliver_def same_peer_def Let_def)
  then obtain s4 where s4: "(if dp_reliable p then remember_packet i (dp_id p) ?s3 else Inr ?s3) = Inr s4" "nt_log s4 = nt_log ?s3"
    by blast
  have "handle_fragment le now i p (f no) s = Inr (expire_assemblers now i (drop_assembler i (dp_id p) s4))"
    using s2(1) full ok s4(1) assms(2) by (simp add: complete_message_def)
  moreover have "delivered (expire_assemblers now i (drop_assembler i (dp_id p) s4)) =
      delivered s @ [Packet i (dp_hash p) (dp_reliable p) (concat (map (\<lambda>k. drop 20 (f k)) [0..<n]))]"
    using s4(2) s2(3) payload
    by (simp add: delivered_def expire_assemblers_def drop_assembler_def deliver_def)
  moreover have "map_of (tg_assemblers (nt_heap (drop_assembler i (dp_id p) s4) i)) (dp_id p) = None"
    by (simp add: drop_assembler_def map_of_key_erase)
  then have "fragments_of i (dp_id p) (expire_assemblers now i (drop_assembler i (dp_id p) s4)) = []"
    by (simp add: fragments_of_def assembler_of_def expire_assemblers_def map_of_filter_None)
  ultimately show ?thesis by blast
qed

section \<open>A whole message\<close>

lemma process_fragment:
  assumes "udp_key le addr = Inr key" "find_remote key s = Some i" "dp_type hdr = DATA" "dp_count hdr \<noteq> 1"
    and "no < unat (dp_count hdr)"
  shows "process_packet le now addr (datagram le mtu hdr payload no) s =
           handle_fragment le now i (hdr\<lparr>dp_no := of_nat no\<rparr>) (datagram le mtu hdr payload no) (touch now i s)"
proof -
  let ?p = "hdr\<lparr>dp_no := of_nat no\<rparr>" and ?d = "datagram le mtu hdr payload no"
  have d: "?d = data_header le ?p @ take (unat mtu) (drop (no * unat mtu) payload)"
    by (simp add: datagram_def)
  have no: "unat (of_nat no :: u16) = no" using assms(5) u16_bound [of "dp_count hdr"] by simp
  then have "\<not> of_nat no > dp_count hdr" using assms(5) by (simp add: word_less_nat_alt)
  then show ?thesis
    using assms
    by (simp add: process_packet_def d valid_data_header data_header_type handle_data_def data_header_fields
        parse_data_header)
qed

lemma touch_same: "same_peer i s (touch now i s)" "fragments_of i pid (touch now i s) = fragments_of i pid s"
  "delivered (touch now i s) = delivered s"
  by (simp_all add: same_peer_def fragments_of_def assembler_of_def delivered_def)

lemma process_packets_append:
  "process_packets le now (ps @ qs) s = bind_res (process_packets le now ps s) (process_packets le now qs)"
  by (induction ps arbitrary: s) (auto simp: bind_res_def split: sum.splits)

lemma fragments_arrive:
  assumes known: "udp_key le addr = Inr key" "find_remote key s = Some i"
    and hdr: "dp_type hdr = DATA" "dp_count hdr \<noteq> 1" "unat (dp_count hdr) = n"
    and fs: "fragments_of i (dp_id hdr) s = cached (datagram le mtu hdr payload) n D"
    and sub: "D \<union> set nos \<subset> {0..<n}" and rtt: "0 \<le> tg_round_trip (nt_heap s i)"
  shows "\<exists>s'. process_packets le now (map (\<lambda>no. (addr, datagram le mtu hdr payload no)) nos) s = Inr s'
           \<and> fragments_of i (dp_id hdr) s' = cached (datagram le mtu hdr payload) n (D \<union> set nos)
           \<and> same_peer i s s' \<and> delivered s' = delivered s"
  using known(2) fs sub rtt
proof (induction nos arbitrary: s D)
  case Nil
  then show ?case by (simp add: same_peer_refl)
next
  case (Cons no nos)
  let ?f = "datagram le mtu hdr payload" and ?p = "hdr\<lparr>dp_no := of_nat no\<rparr>" and ?s = "touch now i s"
  have no: "no < n" and D: "D \<subseteq> {0..<n}" "insert no D \<noteq> {0..<n}" using Cons.prems(3) by auto
  have "fragments_of i (dp_id ?p) ?s = cached ?f n D" using Cons.prems(2) by (simp add: touch_same)
  moreover have "0 \<le> tg_round_trip (nt_heap ?s i)" using Cons.prems(4) by simp
  ultimately obtain s1 where s1: "handle_fragment le now i ?p (?f no) ?s = Inr s1"
    "fragments_of i (dp_id hdr) s1 = cached ?f n (insert no D)" "same_peer i ?s s1" "delivered s1 = delivered ?s"
    using fragment_not_last [of i ?p ?s ?f n D no le now] no D hdr(3) by auto
  have peer: "same_peer i s s1" using touch_same(1) s1(3) by (rule same_peer_trans)
  have "find_remote key s1 = Some i" using Cons.prems(1) peer by (simp add: find_remote_def same_peer_def)
  moreover have "0 \<le> tg_round_trip (nt_heap s1 i)" using Cons.prems(4) peer by (simp add: same_peer_def)
  moreover have "insert no D \<union> set nos \<subset> {0..<n}" using Cons.prems(3) by auto
  ultimately obtain s' where s': "process_packets le now (map (\<lambda>no. (addr, ?f no)) nos) s1 = Inr s'"
    "fragments_of i (dp_id hdr) s' = cached ?f n (insert no D \<union> set nos)" "same_peer i s1 s'" "delivered s' = delivered s1"
    using Cons.IH [of s1 "insert no D"] s1(2) by blast
  have "process_packet le now addr (?f no) s = Inr s1"
    using process_fragment [OF known(1) Cons.prems(1) hdr(1,2), of no now mtu payload] no hdr(3) s1(1) by simp
  moreover have "same_peer i s s'" using peer s'(3) by (rule same_peer_trans)
  ultimately show ?case
    using s' s1(4) touch_same(3) by simp
qed

lemma fragments_delivered:
  assumes known: "udp_key le addr = Inr key" "find_remote key s = Some i"
    and hdr: "dp_type hdr = DATA" "dp_count hdr \<noteq> 1" "dp_count hdr = packet_count mtu payload"
    and size: "length payload div unat mtu + 1 < 2 ^ 16" "mtu \<noteq> 0"
    and fresh: "map_of (tg_assemblers (nt_heap s i)) (dp_id hdr) = None"
    and order: "set nos = {0..<unat (dp_count hdr)} - {no}" "no < unat (dp_count hdr)"
    and rtt: "0 \<le> tg_round_trip (nt_heap s i)"
    and recent: "dp_reliable hdr \<longrightarrow> unat (tg_recent_index (nt_heap s i)) < length (tg_recent (nt_heap s i))"
  shows "\<exists>s'. process_packets le now (map (\<lambda>no. (addr, datagram le mtu hdr payload no)) (nos @ [no])) s = Inr s'
           \<and> delivered s' = delivered s @ [Packet i (dp_hash hdr) (dp_reliable hdr) payload]
           \<and> fragments_of i (dp_id hdr) s' = []"
proof -
  let ?f = "datagram le mtu hdr payload" and ?n = "unat (dp_count hdr)" and ?p = "hdr\<lparr>dp_no := of_nat no\<rparr>"
  have fs0: "fragments_of i (dp_id hdr) s = cached ?f ?n {}"
    using fresh by (simp add: fragments_of_def assembler_of_def cached_def)
  have sub: "{} \<union> set nos \<subset> {0..<?n}" unfolding order(1) using order(2) by force
  obtain s1 where s1: "process_packets le now (map (\<lambda>no. (addr, ?f no)) nos) s = Inr s1"
    "fragments_of i (dp_id hdr) s1 = cached ?f ?n (set nos)" "same_peer i s s1" "delivered s1 = delivered s"
    using fragments_arrive [OF known hdr(1,2) refl fs0 sub rtt, of now] by auto
  let ?s = "touch now i s1"
  have peer: "same_peer i s ?s" using s1(3) touch_same(1) by (rule same_peer_trans)
  have ins: "insert no (set nos) = {0..<?n}" unfolding order(1) using order(2) by force
  have "\<exists>s'. handle_fragment le now i ?p (?f no) ?s = Inr s'
      \<and> delivered s' = delivered ?s @ [Packet i (dp_hash ?p) (dp_reliable ?p) (concat (map (\<lambda>k. drop 20 (?f k)) [0..<?n]))]
      \<and> fragments_of i (dp_id ?p) s' = []"
  proof (rule fragment_last [where D = "set nos"])
    show "fragments_of i (dp_id ?p) ?s = cached ?f ?n (set nos)" using s1(2) by (simp add: touch_same)
    show "20 \<le> length (?f k)" if "k < ?n" for k by (simp add: datagram_def)
    show "dp_reliable ?p \<longrightarrow> unat (tg_recent_index (nt_heap ?s i)) < length (tg_recent (nt_heap ?s i))"
      using recent peer unfolding same_peer_def by simp
  qed (use order(2) ins in auto)
  moreover have "concat (map (\<lambda>k. drop 20 (?f k)) [0..<?n]) = payload"
    using slices_cover [OF size, of le hdr] hdr(3) by simp
  moreover have "find_remote key s1 = Some i" using known(2) s1(3) by (simp add: find_remote_def same_peer_def)
  note process_fragment [OF known(1) this hdr(1,2) order(2), of now mtu payload]
  ultimately show ?thesis
    using s1(1,4) by (auto simp: process_packets_append touch_same(3))
qed


definition example_receiver :: net where
  "example_receiver = new_net\<lparr>nt_heap := (\<lambda>_. new_target [112] (V4 [10, 0, 0, 2] 7447) 0), nt_next := 1, nt_targets := [0],
     nt_names := [([112], 0)], nt_udp := [([0, 0, 0, 0, 0, 0, 10, 512, 7447], 0)]\<rparr>"

definition example_message :: data_packet where
  "example_message = \<lparr>dp_type = DATA, dp_id = 7, dp_no = 0, dp_count = 3, dp_reliable = True, dp_hash = 9\<rparr>"


end
