(* ===== verification/Net_Acks.thy ===== *)
theory Net_Acks
  imports Net_Send
begin

text \<open>
  What acknowledgements do to the queue of reliable messages: when a message counts as fully acknowledged,
  the messages that never do, and what a NACK reads.
\<close>

section \<open>Bitsets read byte by byte\<close>

lemma bit_expected_byte:
  "bit (expected_byte c n i) k \<longleftrightarrow> k < 8 \<and> (i + 1 < n \<or> unat c mod 8 = 0 \<or> k < unat c mod 8)"
proof -
  have ff: "bit (0xFF :: u8) j \<longleftrightarrow> j < 8" for j
  proof -
    have "(0xFF :: u8) = - 1" by simp
    then show ?thesis by (simp only: bit_minus_1_iff possible_bit_word) simp
  qed
  have "bit (expected_byte c n i) k \<longleftrightarrow> (if i + 1 < n \<or> unat c mod 8 = 0 then k < 8 else 8 - unat c mod 8 + k < 8)"
    unfolding expected_byte_def by (simp only: if_distrib [where f = "\<lambda>w. bit w k"] bit_drop_bit_eq ff o_apply)
  then show ?thesis by auto
qed

lemma and_eq_iff_bits: "(x AND e = (e :: u8)) \<longleftrightarrow> (\<forall>k < 8. bit e k \<longrightarrow> bit x k)"
proof
  assume "x AND e = e"
  then show "\<forall>k < 8. bit e k \<longrightarrow> bit x k" by (metis bit_and_iff)
next
  assume "\<forall>k < 8. bit e k \<longrightarrow> bit x k"
  then show "x AND e = e" by (intro bit_word_eqI) (auto simp: bit_and_iff)
qed

text \<open>The code's test, bit by bit: bit \<open>j\<close> of the vector is demanded when \<open>j\<close> is one of the demanded positions.\<close>

definition demanded :: "u16 \<Rightarrow> nat \<Rightarrow> bool" where
  "demanded c j \<longleftrightarrow> j div 8 < unat c div 8 \<or> j div 8 = unat c div 8 \<and> (unat c mod 8 = 0 \<or> j mod 8 < unat c mod 8)"

lemma all_acked_bits:
  assumes "length acked = ack_size c"
  shows "all_acked c acked \<longleftrightarrow> (\<forall>j. demanded c j \<longrightarrow> has_bit acked j)"
proof -
  let ?n = "unat c div 8"
  have len: "length acked = Suc ?n" using assms by (simp add: ack_size_def)
  have "all_acked c acked \<longleftrightarrow>
      (\<forall>i \<le> ?n. \<forall>k < 8. i < ?n \<or> unat c mod 8 = 0 \<or> k < unat c mod 8 \<longrightarrow> bit (acked ! i) k)"
    by (auto simp: all_acked_def list_all_iff len and_eq_iff_bits bit_expected_byte atLeast0LessThan less_Suc_eq_le
        simp del: upt_Suc)
  also have "\<dots> \<longleftrightarrow> (\<forall>j. demanded c j \<longrightarrow> has_bit acked j)"
  proof (intro iffI allI impI)
    fix j assume h: "\<forall>i \<le> ?n. \<forall>k < 8. i < ?n \<or> unat c mod 8 = 0 \<or> k < unat c mod 8 \<longrightarrow> bit (acked ! i) k"
      and "demanded c j"
    then show "has_bit acked j" by (auto simp: demanded_def has_bit_def len)
  next
    fix i k assume h: "\<forall>j. demanded c j \<longrightarrow> has_bit acked j" and i: "i \<le> ?n" and k: "k < 8"
      and c: "i < ?n \<or> unat c mod 8 = 0 \<or> k < unat c mod 8"
    have jk: "(8 * i + k) div 8 = i" "(8 * i + k) mod 8 = k" using k by simp_all
    have "demanded c (8 * i + k)" unfolding demanded_def jk using i c by auto
    then have "has_bit acked (8 * i + k)" using h by simp
    then show "bit (acked ! i) k" unfolding has_bit_def jk by simp
  qed
  finally show ?thesis .
qed

lemma demanded_in_range: "unat c mod 8 \<noteq> 0 \<Longrightarrow> demanded c j \<longleftrightarrow> j < unat c"
proof -
  assume c: "unat c mod 8 \<noteq> 0"
  have j: "j = 8 * (j div 8) + j mod 8" and d: "unat c = 8 * (unat c div 8) + unat c mod 8" by simp_all
  have m: "j mod 8 < 8" "unat c mod 8 < 8" by simp_all
  show ?thesis unfolding demanded_def using c j d m by linarith
qed

lemma demanded_past_end: "unat c mod 8 = 0 \<Longrightarrow> demanded c (unat c)"
  by (simp add: demanded_def)

section \<open>Honest acknowledgements\<close>

text \<open>A bitset that speaks only of packets below the count, as every receiver of the message sends it.\<close>

definition honest_bits :: "u16 \<Rightarrow> u8 list \<Rightarrow> bool" where
  "honest_bits c bits \<longleftrightarrow> length bits = ack_size c \<and> (\<forall>j. has_bit bits j \<longrightarrow> j < unat c)"

lemma has_bit_or_bytes:
  "length a = length b \<Longrightarrow> has_bit (or_bytes a b) j \<longleftrightarrow> has_bit a j \<or> has_bit b j"
  by (auto simp: has_bit_def or_bytes_def bit_or_iff)

lemma honest_or: "honest_bits c a \<Longrightarrow> honest_bits c b \<Longrightarrow> honest_bits c (or_bytes a b)"
  by (auto simp: honest_bits_def has_bit_or_bytes) (simp add: or_bytes_def)

lemma ack_bits_exact:
  assumes "honest_bits c acked"
  shows "all_acked c acked \<longleftrightarrow> unat c mod 8 \<noteq> 0 \<and> (\<forall>j < unat c. has_bit acked j)"
proof (cases "unat c mod 8 = 0")
  case True
  then have "\<not> has_bit acked (unat c)" "demanded c (unat c)"
    using assms by (auto simp: honest_bits_def demanded_past_end)
  then show ?thesis using True assms by (auto simp: all_acked_bits honest_bits_def)
next
  case False
  then show ?thesis using assms by (auto simp: all_acked_bits honest_bits_def demanded_in_range)
qed



section \<open>The queue entry under acknowledgements\<close>

definition awaiting :: "nat \<Rightarrow> u16 \<Rightarrow> u16 \<Rightarrow> net \<Rightarrow> bool" where
  "awaiting i pid c s \<longleftrightarrow>
     (\<exists>q k. map_of (nt_send s) pid = Some q \<and> find_packet_target i (pq_targets q) = Some k
          \<and> dp_count (pq_header q) = c \<and> honest_bits c (pk_acked k))"

text \<open>Field reads of an ACK datagram.\<close>

lemma length_ack_bytes: "length (ack_bytes le pid no c bits) = 11 + length bits"
  by (simp add: ack_bytes_def packet_header_def)

lemma ack_bytes_fields:
  "get16 le (ack_bytes le pid no c bits) 5 = Some pid"
  "get16 le (ack_bytes le pid no c bits) 9 = Some c"
  "drop 11 (ack_bytes le pid no c bits) = bits"
proof -
  show "get16 le (ack_bytes le pid no c bits) 5 = Some pid"
    using get16_store16 [of "packet_header ACK" 5 le pid] by (simp add: ack_bytes_def packet_header_def)
  show "get16 le (ack_bytes le pid no c bits) 9 = Some c"
    using get16_store16 [of "packet_header ACK @ store16 le pid @ store16 le no" 9 le c "bits"]
    by (simp add: ack_bytes_def packet_header_def)
  show "drop 11 (ack_bytes le pid no c bits) = bits"
    by (simp add: ack_bytes_def packet_header_def)
qed

lemma find_packet_target_update:
  "find_packet_target i (update_packet_target j f ks) =
     map_option (\<lambda>k. if i = j then f k else k) (find_packet_target i ks)"
  if "\<And>k. pk_target (f k) = pk_target k"
  by (induction ks) (auto simp: find_packet_target_def update_packet_target_def that)

lemma find_packet_target_erase:
  "i \<noteq> j \<Longrightarrow> find_packet_target i (erase_first (\<lambda>k. pk_target k = j) ks) = find_packet_target i ks"
  by (induction ks) (auto simp: find_packet_target_def)

lemma find_packet_target_nonempty: "find_packet_target i ks = Some k \<Longrightarrow> ks \<noteq> []"
  by (auto simp: find_packet_target_def)

text \<open>The effect of one ACK of peer \<open>j\<close> on the entry of the message.\<close>

definition ack_entry :: "nat \<Rightarrow> u8 list \<Rightarrow> packet_queue \<Rightarrow> packet_target list" where
  "ack_entry j bits q =
     (case find_packet_target j (pq_targets q) of
        None \<Rightarrow> pq_targets q
      | Some k \<Rightarrow>
          (let acked = or_bytes (pk_acked k) bits;
               ks = update_packet_target j (\<lambda>k. k\<lparr>pk_acked := acked\<rparr>) (pq_targets q)
           in if all_acked (dp_count (pq_header q)) acked then erase_first (\<lambda>k. pk_target k = j) ks else ks))"

lemma handle_ack_entry:
  assumes "find_remote key s = Some j" and "map_of (nt_send s) pid = Some q"
    and "c = dp_count (pq_header q)" and "length bits = ack_size c" and "ack_entry j bits q \<noteq> []"
  shows "\<exists>s'. handle_ack le now key (ack_bytes le pid no c bits) s = Inr s' \<and> nt_udp s' = nt_udp s
           \<and> (\<exists>q'. map_of (nt_send s') pid = Some q' \<and> pq_header q' = pq_header q \<and> pq_targets q' = ack_entry j bits q)"
proof (cases "find_packet_target j (pq_targets q)")
  case None
  then show ?thesis
    using assms by (simp add: handle_ack_def ack_queue_def ack_bytes_fields ack_entry_def)
next
  case (Some k)
  define t where "t = ack_entry j bits q"
  have len: "length (ack_bytes le pid no c bits) = 12 + unat c div 8"
    using assms(4) by (simp add: length_ack_bytes ack_size_def)
  have "ack_queue le 12 9 j pid (ack_bytes le pid no c bits) (touch now j s) = Inr (Some (q, k))"
    using assms Some len by (simp add: ack_queue_def ack_bytes_fields)
  then have "handle_ack le now key (ack_bytes le pid no c bits) s =
    Inr ((update_target j (measure_round_trip (now - pk_last_send k)) (touch now j s))
      \<lparr>nt_send := key_update pid (\<lambda>_. q\<lparr>pq_targets := t\<rparr>) (nt_send s)\<rparr>)"
    using assms Some by (simp add: handle_ack_def ack_bytes_fields t_def ack_entry_def Let_def)
  then show ?thesis
    using assms by (simp add: map_of_key_update t_def)
qed

text \<open>
  A reliable message of a multiple of 8 packets is never done: while peer \<open>i\<close> still waits in its queue
  entry, any acknowledgement of any known peer, for any packets of the message, is processed without error
  and leaves peer \<open>i\<close> waiting, so neither the entry nor its copy of the payload is ever freed.
\<close>

theorem multiple_of_eight_never_done:
  assumes "awaiting i pid c s" and "unat c mod 8 = 0"
    and "find_remote key s = Some j" and "honest_bits c bits"
  shows "\<exists>s'. handle_ack le now key (ack_bytes le pid no c bits) s = Inr s' \<and> awaiting i pid c s'
           \<and> nt_udp s' = nt_udp s"
proof -
  obtain q k where q: "map_of (nt_send s) pid = Some q" and k: "find_packet_target i (pq_targets q) = Some k"
    and c: "dp_count (pq_header q) = c" and h: "honest_bits c (pk_acked k)"
    using assms(1) by (auto simp: awaiting_def)
  have stays: "\<exists>k'. find_packet_target i (ack_entry j bits q) = Some k' \<and> honest_bits c (pk_acked k')"
  proof (cases "i = j")
    case True
    have ho: "honest_bits c (or_bytes (pk_acked k) bits)" using h assms(4) by (rule honest_or)
    have "\<not> all_acked c (or_bytes (pk_acked k) bits)" using ack_bits_exact [OF ho] assms(2) by simp
    then show ?thesis
      using k c ho True by (simp add: ack_entry_def Let_def find_packet_target_update)
  next
    case False
    then show ?thesis
      using k h by (auto simp: ack_entry_def Let_def find_packet_target_update find_packet_target_erase split: option.split)
  qed
  then have "ack_entry j bits q \<noteq> []" using find_packet_target_nonempty by blast
  moreover have "length bits = ack_size c" using assms(4) by (simp add: honest_bits_def)
  ultimately show ?thesis
    using handle_ack_entry [of key s j pid q c bits le now no] assms(3) q c stays
    unfolding awaiting_def by metis
qed

text \<open>A network with one peer that still owes acknowledgements of message 7.\<close>

definition example_peer :: sock where
  "example_peer = V4 [10, 0, 0, 2] 7447"

definition example_key :: "u16 list" where
  "example_key = [0, 0, 0, 0, 0, 0, 10, 512, 7447]"

definition example_entry :: "u16 \<Rightarrow> packet_queue" where
  "example_entry c =
     \<lparr>pq_targets = [new_packet_target 0 c 0],
      pq_header = \<lparr>dp_type = DATA_RETRANSMISSION, dp_id = 7, dp_no = 0, dp_count = c, dp_reliable = True, dp_hash = 1\<rparr>,
      pq_payload = []\<rparr>"

definition example_net :: "u16 \<Rightarrow> net" where
  "example_net c = new_net\<lparr>nt_heap := (\<lambda>_. new_target [112] example_peer 0), nt_next := 1, nt_targets := [0],
     nt_names := [([112], 0)], nt_udp := [(example_key, 0)], nt_send := [(7, example_entry c)]\<rparr>"

lemmas example_net_eval = example_net_def example_entry_def example_key_def new_packet_target_def new_net_def
  find_packet_target_def find_remote_def

lemma example_awaiting: "awaiting 0 7 c (example_net c)"
  by (simp add: awaiting_def example_net_eval honest_bits_def)

theorem multiple_of_eight_never_done_witness:
  "\<exists>s'. handle_ack True 5 example_key (ack_bytes True 7 0 8 [0xFF, 0]) (example_net 8) = Inr s' \<and> awaiting 0 7 8 s'"
proof -
  have "honest_bits 8 [0xFF, 0]"
    by (auto simp: honest_bits_def ack_size_def has_bit_def nth_Cons' split: if_splits)
  moreover have "find_remote example_key (example_net 8) = Some 0"
    by (simp add: example_net_eval)
  ultimately show ?thesis
    using multiple_of_eight_never_done [of 0 7 8 "example_net 8" example_key 0 "[0xFF, 0]"] example_awaiting by force
qed

section \<open>Negative acknowledgements\<close>

lemma nack_bytes_fields:
  "get16 le (nack_bytes le pid c bits) 5 = Some pid"
  "get16 le (nack_bytes le pid c bits) 7 = Some c"
  "drop 9 (nack_bytes le pid c bits) = bits"
  "length (nack_bytes le pid c bits) = 9 + length bits"
proof -
  show "get16 le (nack_bytes le pid c bits) 5 = Some pid"
    using get16_store16 [of "packet_header NACK" 5 le pid] by (simp add: nack_bytes_def packet_header_def)
  show "get16 le (nack_bytes le pid c bits) 7 = Some c"
    using get16_store16 [of "packet_header NACK @ store16 le pid" 7 le c "bits"]
    by (simp add: nack_bytes_def packet_header_def)
  show "drop 9 (nack_bytes le pid c bits) = bits" "length (nack_bytes le pid c bits) = 9 + length bits"
    by (simp_all add: nack_bytes_def packet_header_def)
qed

lemma send_packet_result:
  "nt_mtu s \<noteq> 0 \<Longrightarrow> (\<exists>e. send_packet le to hdr no payload s = Inr (log_effect e s))
     \<or> send_packet le to hdr no payload s = Inl OutOfBounds"
  by (cases "chunk (nt_mtu s) (dp_count hdr) no payload") (auto simp: send_packet_def)

lemma nack_loop_out_of_bounds:
  assumes "m \<le> length bits" "length bits < unat c * 8" "length bits < 2 ^ 16" "length bits - m < n" "nt_mtu s \<noteq> 0"
  shows "nack_loop le n (of_nat m) c bits to hdr payload s = Inl OutOfBounds"
  using assms
proof (induction n arbitrary: m s)
  case (Suc n)
  have m: "unat (of_nat m :: u16) = m" using Suc.prems by (simp add: unat_of_nat)
  show ?case
  proof (cases "m < length bits")
    case False
    then show ?thesis using Suc.prems m by (simp add: get8_def)
  next
    case True
    have ih: "nack_loop le n (of_nat (Suc m)) c bits to hdr payload s' = Inl OutOfBounds" if "nt_mtu s' \<noteq> 0" for s'
      by (rule Suc.IH) (use Suc.prems True that in auto)
    then have ih': "nack_loop le n (of_nat m + 1) c bits to hdr payload s' = Inl OutOfBounds" if "nt_mtu s' \<noteq> 0" for s'
      using that by (simp add: add.commute)
    show ?thesis
      using True Suc.prems m send_packet_result [of s le to hdr m payload]
      by (auto simp: get8_def ih')
  qed
qed simp

text \<open>
  C39. A NACK always makes its receiver read past the datagram. Whenever a NACK passes all the checks of the
  handler (known sender, waiting for this message, right packet count, right length), the resend loop, which
  runs to \<open>packet_count * 8\<close> and reads byte \<open>i\<close> instead of byte \<open>i / 8\<close>, leaves the buffer.
\<close>

theorem nack_reads_out_of_bounds:
  assumes "find_remote key s = Some i" and "map_of (nt_send s) pid = Some q"
    and "find_packet_target i (pq_targets q) = Some k" and "c = dp_count (pq_header q)" and "c \<noteq> 0"
    and "length bits = ack_size c" and "nt_mtu s \<noteq> 0"
  shows "handle_nack le now key (nack_bytes le pid c bits) s = Inl OutOfBounds"
proof -
  let ?s = "touch now i s"
  have c: "0 < unat c" using assms(5) by (simp add: unat_gt_0)
  have c16: "unat c < 65536" using unsigned_less [of c] by simp
  have size: "length bits < unat c * 8" "length bits < 2 ^ 16"
    using c c16 by (simp_all add: assms(6) ack_size_def)
  have found: "ack_queue le 10 7 i pid (nack_bytes le pid c bits) ?s = Inr (Some (q, k))"
    using assms by (simp add: ack_queue_def nack_bytes_fields ack_size_def)
  have loop: "nack_loop le 65536 0 (dp_count (pq_header q)) bits to hdr payload s' = Inl OutOfBounds"
    if "nt_mtu s' = nt_mtu s" for to hdr payload s'
    using nack_loop_out_of_bounds [of 0 bits c 65536 s' le to hdr payload] size that assms(4,7) by simp
  show ?thesis
    using assms(1,4) found
    by (simp add: handle_nack_def nack_bytes_fields Let_def loop)
qed

theorem nack_reads_out_of_bounds_witness:
  "handle_nack True 5 example_key (nack_bytes True 7 1 [1]) (example_net 1) = Inl OutOfBounds"
  by (rule nack_reads_out_of_bounds [of _ _ 0 _ "example_entry 1" "new_packet_target 0 1 0"])
     (simp_all add: example_net_eval ack_size_def)

end
