(* ===== verification/Net_Duplicates.thy ===== *)
theory Net_Duplicates
  imports Net_Reassembly Net_Acks
begin

text \<open>
  Reliable delivery seen from the receiver: the memory of recent messages and its capacity, the answer to a
  retransmission, and the cached fragments that do not fit the packet count they are answered with.
\<close>

section \<open>Messages in one packet\<close>

definition solo_packet :: "u16 \<times> u64 \<times> u8 list \<Rightarrow> data_packet" where
  "solo_packet m = (case m of (pid, hash, payload) \<Rightarrow>
     \<lparr>dp_type = DATA, dp_id = pid, dp_no = 0, dp_count = 1, dp_reliable = True, dp_hash = hash\<rparr>)"

definition solo_bytes :: "bool \<Rightarrow> u16 \<times> u64 \<times> u8 list \<Rightarrow> u8 list" where
  "solo_bytes le m = data_header le (solo_packet m) @ snd (snd m)"

definition solo_delivery :: "nat \<Rightarrow> u16 \<times> u64 \<times> u8 list \<Rightarrow> effect" where
  "solo_delivery i m = Packet i (fst (snd m)) True (snd (snd m))"

lemma process_solo:
  assumes "udp_key le addr = Inr key" "find_remote key s = Some i"
    and "unat (tg_recent_index (nt_heap s i)) < length (tg_recent (nt_heap s i))"
  shows "\<exists>s'. process_packet le now addr (solo_bytes le m) s = Inr s'
     \<and> delivered s' = delivered s @ [solo_delivery i m] \<and> nt_udp s' = nt_udp s
     \<and> tg_recent_index (nt_heap s' i) = tg_recent_index (nt_heap s i) + 1
     \<and> length (tg_recent (nt_heap s' i)) = length (tg_recent (nt_heap s i))
     \<and> recently_received i (fst m) s'"
proof -
  obtain pid hash payload where m: "m = (pid, hash, payload)" by (cases m)
  have "uint pid \<in> set ((tg_recent (nt_heap s i))[unat (tg_recent_index (nt_heap s i)) := uint pid])"
    using assms(3) by (rule set_update_memI)
  then show ?thesis
    using assms
    by (simp add: process_packet_def solo_bytes_def valid_data_header data_header_type handle_data_def data_header_fields
        parse_data_header handle_solo_def remember_packet_def solo_packet_def m deliver_def delivered_def Let_def
        solo_delivery_def recently_received_def)
qed

lemma process_solo_overrun:
  assumes "udp_key le addr = Inr key" "find_remote key s = Some i"
    and "length (tg_recent (nt_heap s i)) \<le> unat (tg_recent_index (nt_heap s i))"
  shows "process_packet le now addr (solo_bytes le m) s = Inl OutOfBounds"
  using assms
  by (cases m)
     (simp add: process_packet_def solo_bytes_def valid_data_header data_header_type handle_data_def data_header_fields
        parse_data_header handle_solo_def remember_packet_def solo_packet_def Let_def)

lemma solo_run:
  assumes "udp_key le addr = Inr key" "find_remote key s = Some i"
    and "length (tg_recent (nt_heap s i)) = 255" "unat (tg_recent_index (nt_heap s i)) + length ms \<le> 255"
  shows "\<exists>s'. process_packets le now (map (\<lambda>m. (addr, solo_bytes le m)) ms) s = Inr s'
     \<and> delivered s' = delivered s @ map (solo_delivery i) ms \<and> nt_udp s' = nt_udp s
     \<and> length (tg_recent (nt_heap s' i)) = 255
     \<and> unat (tg_recent_index (nt_heap s' i)) = unat (tg_recent_index (nt_heap s i)) + length ms"
  using assms(2-)
proof (induction ms arbitrary: s)
  case (Cons m ms)
  have room: "unat (tg_recent_index (nt_heap s i)) < length (tg_recent (nt_heap s i))"
    using Cons.prems(2,3) by simp
  obtain s1 where s1: "process_packet le now addr (solo_bytes le m) s = Inr s1"
    "delivered s1 = delivered s @ [solo_delivery i m]" "nt_udp s1 = nt_udp s"
    "tg_recent_index (nt_heap s1 i) = tg_recent_index (nt_heap s i) + 1"
    "length (tg_recent (nt_heap s1 i)) = length (tg_recent (nt_heap s i))"
    using process_solo [OF assms(1) Cons.prems(1) room, of now m] by blast
  have "unat (tg_recent_index (nt_heap s i) + 1) = unat (tg_recent_index (nt_heap s i)) + 1"
    using room Cons.prems(2) by (simp add: unat_word_ariths)
  moreover have "find_remote key s1 = Some i" using Cons.prems(1) s1(3) by (simp add: find_remote_def)
  ultimately show ?case
    using Cons.IH [of s1] Cons.prems(2,3) s1 by auto
qed simp

text \<open>
  The memory of received messages and its end. Of the reliable one-packet messages of a known peer
  that has sent none before, the first 255 are all delivered, in order, each once; the 256th makes the
  receiver write behind the end of the array of recent packets, because that array has 255 elements and its
  index runs over all 256 values of a \<open>uint8_t\<close>.
\<close>

theorem recent_packets_overrun:
  assumes "udp_key le addr = Inr key" and "find_remote key s = Some i"
    and "tg_recent_index (nt_heap s i) = 0" and "length (tg_recent (nt_heap s i)) = 255"
  shows "(length ms \<le> 255 \<longrightarrow>
            (\<exists>s'. process_packets le now (map (\<lambda>m. (addr, solo_bytes le m)) ms) s = Inr s'
               \<and> delivered s' = delivered s @ map (solo_delivery i) ms))
       \<and> (length ms = 256 \<longrightarrow>
            process_packets le now (map (\<lambda>m. (addr, solo_bytes le m)) ms) s = Inl OutOfBounds)"
proof (intro conjI impI)
  assume "length ms \<le> 255"
  then show "\<exists>s'. process_packets le now (map (\<lambda>m. (addr, solo_bytes le m)) ms) s = Inr s'
      \<and> delivered s' = delivered s @ map (solo_delivery i) ms"
    using solo_run [OF assms(1,2,4), of ms now] assms(3) by auto
next
  assume len: "length ms = 256"
  then obtain front m where ms: "ms = front @ [m]" "length front = 255" by (cases ms rule: rev_cases) auto
  obtain s1 where s1: "process_packets le now (map (\<lambda>m. (addr, solo_bytes le m)) front) s = Inr s1"
    "nt_udp s1 = nt_udp s" "length (tg_recent (nt_heap s1 i)) = 255" "unat (tg_recent_index (nt_heap s1 i)) = 255"
    using solo_run [OF assms(1,2,4), of front now] assms(3) ms(2) by auto
  have "find_remote key s1 = Some i" using assms(2) s1(2) by (simp add: find_remote_def)
  then have "process_packet le now addr (solo_bytes le m) s1 = Inl OutOfBounds"
    by (rule process_solo_overrun [OF assms(1)]) (simp add: s1)
  then show "process_packets le now (map (\<lambda>m. (addr, solo_bytes le m)) ms) s = Inl OutOfBounds"
    by (simp add: ms(1) process_packets_append s1(1))
qed

lemma example_udp_key: "udp_key True example_peer = Inr example_key"
  by (simp add: example_peer_def example_key_def) code_simp

lemma example_receiver_known: "find_remote example_key example_receiver = Some 0"
  by (simp add: example_receiver_def find_remote_def example_key_def new_net_def)

theorem recent_packets_overrun_witness:
  "process_packets True 5 (map (\<lambda>m. (example_peer, solo_bytes True m)) (replicate 256 (1, 2, [3]))) example_receiver
     = Inl OutOfBounds"
  using recent_packets_overrun [OF example_udp_key example_receiver_known, of "replicate 256 (1, 2, [3])" 5]
  by (simp add: example_receiver_def new_target_def)

section \<open>Retransmissions\<close>

lemma honest_full:
  assumes "set_bits [0..<unat c] (replicate (ack_size c) 0) = Some bits"
  shows "honest_bits c bits" "\<forall>j < unat c. has_bit bits j"
  using set_bits_has [OF assms] by (auto simp: honest_bits_def)

text \<open>
  A message is not delivered twice. A retransmission of a reliable message that the receiver remembers is
  answered with one ACK to its sender and nothing else: no callback runs. The ACK covers every packet of the
  message and no other, so a sender still waiting for it is done, unless the packet count is a multiple
  of 8.
\<close>

theorem retransmission_answered_not_delivered:
  assumes "udp_key le addr = Inr key" and "find_remote key s = Some i"
    and "dp_type p = DATA_RETRANSMISSION" and "dp_reliable p" and "dp_no p \<le> dp_count p"
    and "recently_received i (dp_id p) s"
  shows "\<exists>s' bits. process_packet le now addr (data_header le p @ body) s = Inr s'
     \<and> nt_log s' = nt_log s @ [Sendto (tg_addr (nt_heap s i)) (ack_bytes le (dp_id p) (dp_no p) (dp_count p) bits)]
     \<and> delivered s' = delivered s
     \<and> honest_bits (dp_count p) bits \<and> (all_acked (dp_count p) bits \<longleftrightarrow> unat (dp_count p) mod 8 \<noteq> 0)"
proof -
  let ?s = "touch now i s" and ?c = "dp_count p"
  obtain bits where bits: "set_bits [0..<unat ?c] (replicate (ack_size ?c) 0) = Some bits"
    using set_bits_some [of "[0..<unat ?c]" "replicate (ack_size ?c) 0"]
    by (auto simp: ack_size_def less_Suc_eq_le intro: div_le_mono less_imp_le)
  have recent: "recently_received i (dp_id p) ?s" using assms(6) by (simp add: recently_received_def)
  have "process_packet le now addr (data_header le p @ body) s =
      Inr (log_effect (Sendto (tg_addr (nt_heap s i)) (ack_bytes le (dp_id p) (dp_no p) ?c bits)) ?s)"
    using assms recent bits
    by (simp add: process_packet_def valid_data_header data_header_type handle_data_def data_header_fields
        parse_data_header Let_def send_ack_def not_less)
  moreover have "all_acked ?c bits \<longleftrightarrow> unat ?c mod 8 \<noteq> 0"
    using ack_bits_exact [OF honest_full(1) [OF bits]] honest_full(2) [OF bits] by simp
  ultimately show ?thesis
    using honest_full(1) [OF bits]
    by (intro exI [of _ "log_effect (Sendto (tg_addr (nt_heap s i)) (ack_bytes le (dp_id p) (dp_no p) ?c bits)) ?s"]
          exI [of _ bits]) (simp add: touch_same(3))
qed

definition example_remembering :: net where
  "example_remembering = update_target 0 (\<lambda>t. t\<lparr>tg_recent := [7]\<rparr>) example_receiver"

theorem retransmission_answered_not_delivered_witness:
  "\<exists>s'. process_packet True 5 example_peer (data_header True (example_message\<lparr>dp_type := DATA_RETRANSMISSION\<rparr>) @ [1, 2])
          example_remembering = Inr s' \<and> delivered s' = []"
proof -
  have "find_remote example_key example_remembering = Some 0" "recently_received 0 7 example_remembering"
    "delivered example_remembering = []"
    using example_receiver_known
    by (simp_all add: example_remembering_def find_remote_def recently_received_def delivered_def example_receiver_def new_net_def)
  then show ?thesis
    using retransmission_answered_not_delivered [OF example_udp_key, of example_remembering 0
        "example_message\<lparr>dp_type := DATA_RETRANSMISSION\<rparr>" 5 "[1, 2]"]
    by (auto simp: example_message_def)
qed

section \<open>Fragments that do not fit\<close>

lemma set_bits_outside: "k \<in> set is \<Longrightarrow> length bits \<le> k div 8 \<Longrightarrow> set_bits is bits = None"
proof (induction "is" arbitrary: bits)
  case (Cons i "is")
  show ?case
  proof (cases "set_bit_at i bits")
    case (Some b)
    have "length b = length bits" using set_bit_at_has [OF Some] by simp
    moreover have "k \<noteq> i" using Some Cons.prems(2) by (auto simp: set_bit_at_def)
    ultimately show ?thesis using Cons.IH [of b] Cons.prems Some by simp
  qed simp
qed simp

text \<open>
  C40. A stale fragment lets a peer write outside the receiver's memory. If a fragment with number \<open>k\<close> is
  cached for a packet id and a reliable packet with that id arrives whose count says there are so few packets
  that \<open>k\<close>'s bit lies behind the bitset of the answer, building the NACK sets that bit all the same.
\<close>

theorem stale_fragment_writes_out_of_bounds:
  assumes "map_of (tg_assemblers (nt_heap s i)) (dp_id p) = Some (t, fs)" and "dp_reliable p"
    and "sorted (map fst fs)" and "(k, old) \<in> set fs" and "ack_size (dp_count p) \<le> unat k div 8"
  shows "handle_fragment le now i p bs s = Inl OutOfBounds"
proof -
  have "unat (dp_count p) < unat k"
  proof (rule ccontr)
    assume "\<not> unat (dp_count p) < unat k"
    then have "unat k div 8 \<le> unat (dp_count p) div 8" by (intro div_le_mono) simp
    then show False using assms(5) by (simp add: ack_size_def)
  qed
  moreover have "k \<le> fst (last fs)"
    using assms(3,4) by (cases fs rule: rev_cases) (auto simp: sorted_append)
  ultimately have corrupt: "cache_corrupt (dp_count p) fs"
    using assms(4) by (auto simp: cache_corrupt_def word_le_nat_alt)
  have "unat k \<in> set (fragment_nos fs)" using assms(4) by (force simp: fragment_nos_def)
  then have "send_nack le i p (fragment_nos fs) s = Inl OutOfBounds"
    using set_bits_outside [of "unat k" "fragment_nos fs" "replicate (ack_size (dp_count p)) 0"] assms(5)
    by (simp add: send_nack_def)
  then show ?thesis
    using assms(1,2) corrupt by (simp add: handle_fragment_def assembler_of_def purge_cache_def)
qed

definition example_stale :: net where
  "example_stale = update_target 0 (\<lambda>t. t\<lparr>tg_assemblers := [(7, (0, [(799, [])]))]\<rparr>) example_receiver"

theorem stale_fragment_writes_out_of_bounds_witness:
  "handle_fragment True 5 0 example_message [] example_stale = Inl OutOfBounds"
  by (rule stale_fragment_writes_out_of_bounds [of _ _ _ 0 "[(799, [])]" 799 "[]"])
     (simp_all add: example_stale_def example_message_def ack_size_def)

text \<open>
  The first test of the DATA case is \<open>packet_no > packet_count\<close>: a packet numbered like the count passes, and
  counts as a fragment, so packets 1 and 2 of a message of 2 are delivered as the message.
\<close>

lemma packet_number_equal_to_count_accepted:
  "res_ok (\<lambda>s. delivered s = [Packet 0 9 False [11, 12]])
     (process_packets True 5
        (map (\<lambda>no. (example_peer, data_header True (example_message\<lparr>dp_count := 2, dp_no := of_nat no, dp_reliable := False\<rparr>) @ [10 + of_nat no]))
           [1, 2]) example_receiver)"
  by code_simp

end
