(* ===== verification/Trace_Proto.thy ===== *)
theory Trace_Proto
  imports Nuc_Prelude
begin

text \<open>
  The protobuf encoder of the tracer (\<open>extension/trace/protobuf.cpp\<close>): varints, fixed-size values,
  length-delimited fields and sub-messages whose size is written back, each appending to a vector of bytes;
  and a decoder written from the protobuf wire format, against which the encoder is proved.
\<close>

section \<open>Encoding\<close>

text \<open>\<open>varint\<close> on the value as an unsigned 64 bit number; 32 bit values are zero-extended.\<close>

function varint :: "u64 \<Rightarrow> u8 list" where
  "varint v = (if 0x80 \<le> v then (ucast (v AND 0x7F) OR 0x80) # varint (drop_bit 7 v) else [ucast (v AND 0x7F)])"
  by pat_completeness auto

lemma unat_drop7: "unat (drop_bit 7 (v :: u64)) = unat v div 128"
  by (simp add: drop_bit_eq_div unat_div)

termination varint
  by (relation "measure unat") (auto simp: unat_drop7 word_le_nat_alt)

declare varint.simps [simp del]

text \<open>
  The varint of fixed width: \<open>n - 1\<close> bytes with the continuation bit and a last one (\<open>n\<close> is at least 1; the
  code subtracts 1 from it unsigned).
\<close>

fun redundant_varint :: "u32 \<Rightarrow> nat \<Rightarrow> u8 list" where
  "redundant_varint v (Suc (Suc n)) = (ucast (v AND 0x7F) OR 0x80) # redundant_varint (drop_bit 7 v) (Suc n)"
| "redundant_varint v n = [ucast (v AND 0x7F)]"

definition fixed_bytes :: "u64 \<Rightarrow> u8 list" where
  "fixed_bytes v = map (\<lambda>i. ucast (drop_bit (i * 8) v AND 0xFF)) [0..<8]"

definition field_key :: "u32 \<Rightarrow> u32 \<Rightarrow> u8 list" where
  "field_key i wire = varint (ucast (push_bit 3 i OR wire))"

type_synonym encoder = "u8 list \<Rightarrow> u8 list"

definition pb_uint64 :: "u32 \<Rightarrow> u64 \<Rightarrow> encoder" where
  "pb_uint64 i v bs = bs @ field_key i 0 @ varint v"

definition pb_int64 :: "u32 \<Rightarrow> u64 \<Rightarrow> encoder" where
  "pb_int64 i v bs = bs @ field_key i 0 @ varint v"

definition pb_fixed64 :: "u32 \<Rightarrow> u64 \<Rightarrow> encoder" where
  "pb_fixed64 i v bs = bs @ field_key i 1 @ fixed_bytes v"

definition pb_uint32 :: "u32 \<Rightarrow> u32 \<Rightarrow> encoder" where
  "pb_uint32 i v bs = bs @ field_key i 0 @ varint (ucast v)"

definition pb_int32 :: "u32 \<Rightarrow> u32 \<Rightarrow> encoder" where
  "pb_int32 i v bs = bs @ field_key i 0 @ varint (ucast v)"

definition pb_string :: "u32 \<Rightarrow> u8 list \<Rightarrow> encoder" where
  "pb_string i s bs = bs @ field_key i 2 @ varint (ucast (of_nat (length s) :: u32)) @ s"

text \<open>
  \<open>SubMessage\<close>: the constructor writes the key and reserves \<open>n\<close> bytes; the destructor writes the size of what
  follows them over the reserved bytes, in place.
\<close>

definition sub_begin :: "u32 \<Rightarrow> nat \<Rightarrow> u8 list \<Rightarrow> nat \<times> u8 list" where
  "sub_begin i n bs = (let bs' = bs @ field_key i 2 in (length bs', bs' @ replicate n 0))"

definition overwrite :: "nat \<Rightarrow> u8 list \<Rightarrow> u8 list \<Rightarrow> u8 list" where
  "overwrite start new bs = take start bs @ new @ drop (start + length new) bs"

definition sub_end :: "nat \<Rightarrow> nat \<Rightarrow> u8 list \<Rightarrow> u8 list" where
  "sub_end start n bs = overwrite start (redundant_varint (of_nat (length bs - start - n)) n) bs"

definition sub_message :: "u32 \<Rightarrow> encoder \<Rightarrow> encoder" where
  "sub_message i body bs = (let (start, bs1) = sub_begin i 2 bs in sub_end start 2 (body bs1))"

section \<open>Decoding\<close>

fun read_varint :: "u8 list \<Rightarrow> (u64 \<times> u8 list) option" where
  "read_varint [] = None"
| "read_varint (b # bs) =
     (if b AND 0x80 = 0 then Some (ucast b, bs)
      else (case read_varint bs of
              None \<Rightarrow> None
            | Some (v, rest) \<Rightarrow> Some (ucast (b AND 0x7F) OR push_bit 7 v, rest)))"

lemma low_bits: "((x :: u8) AND 0x7F OR 0x80) AND 0x7F = x AND 0x7F" "(x AND 0x7F OR 0x80) AND 0x80 = 0x80"
  by (simp_all add: bit.conj_disj_distrib2 and.assoc)

lemma bit_7F: "bit (0x7F :: 'a::len word) n \<longleftrightarrow> n < 7 \<and> n < LENGTH('a)"
proof -
  have "(0x7F :: 'a word) = mask 7" by (simp add: mask_eq_exp_minus_1)
  then show ?thesis by (simp only: bit_mask_iff possible_bit_word) auto
qed

lemma ucast_and7: "(ucast ((v :: 'a::len word) AND 0x7F) :: u8) = ucast v AND 0x7F"
  by (rule bit_word_eqI)
     (auto simp only: bit_unsigned_iff bit_and_iff bit_7F possible_bit_word dest: bit_imp_le_length)

lemma split7: "(ucast (ucast (v :: u64) AND 0x7F :: u8) :: u64) OR push_bit 7 (drop_bit 7 v) = v"
proof (rule bit_word_eqI)
  fix n assume "n < LENGTH(64)"
  then show "bit ((ucast (ucast v AND 0x7F :: u8) :: u64) OR push_bit 7 (drop_bit 7 v)) n = bit v n"
    by (cases "n < 7") (auto simp only: bit_or_iff bit_unsigned_iff bit_and_iff bit_7F possible_bit_word bit_push_bit_iff
        bit_drop_bit_eq comp_apply le_add_diff_inverse not_less len_of_numeral_defs numeral_less_iff)
qed

lemma take_bit_small:
  assumes "unat (v :: 'a::len word) < 2 ^ k"
  shows "take_bit k v = v"
proof -
  have "unat (take_bit k v) = unat v"
    using assms by (simp only: unsigned_take_bit_eq) (simp add: take_bit_nat_eq_self)
  then show ?thesis by (metis unsigned_word_eqI)
qed

lemma and_7F_small:
  assumes "unat (v :: u64) < 128"
  shows "v AND 0x7F = v"
proof -
  have "(0x7F :: u64) = mask 7" by (simp add: mask_eq_exp_minus_1)
  then have "v AND 0x7F = take_bit 7 v" by (simp only: take_bit_eq_mask)
  then show ?thesis using take_bit_small [of v 7] assms by simp
qed

lemma top_bit_clear: "((x :: u8) AND 0x7F) AND 0x80 = 0"
  by (simp add: and.assoc)

lemma read_varint: "read_varint (varint v @ rest) = Some (v, rest)"
proof (induction v rule: varint.induct)
  case (1 v)
  show ?case
  proof (cases "0x80 \<le> v")
    case True
    then show ?thesis
      using 1 [OF True] by (simp add: varint.simps [of v] ucast_and7 low_bits split7)
  next
    case False
    then have u: "unat v < 128" by (simp add: word_le_nat_alt)
    have "ucast (ucast v :: u8) = take_bit 8 v"
      by (rule bit_word_eqI) (auto simp: bit_unsigned_iff bit_take_bit_iff)
    then have "ucast (ucast v :: u8) = v" using take_bit_small [of v 8] u by simp
    then show ?thesis
      using False and_7F_small [OF u] top_bit_clear [of "ucast v"]
      by (simp add: varint.simps [of v] ucast_and7 [symmetric])
  qed
qed

lemma length_redundant [simp]: "0 < n \<Longrightarrow> length (redundant_varint v n) = n"
  by (induction v n rule: redundant_varint.induct) auto

lemma redundant_two: "redundant_varint v 2 = [ucast (v AND 0x7F) OR 0x80, ucast (drop_bit 7 v AND 0x7F)]"
  unfolding numeral_2_eq_2 by (simp only: redundant_varint.simps)

text \<open>The size of a sub-message in its two reserved bytes: 14 bits of it.\<close>

lemma read_redundant:
  "read_varint (redundant_varint v 2 @ rest) = Some (take_bit 14 (ucast v), rest)"
proof -
  have "(ucast (ucast v AND 0x7F :: u8) :: u64) OR push_bit 7 (ucast (ucast (drop_bit 7 v) AND 0x7F :: u8)) = take_bit 14 (ucast v)"
  proof (rule bit_word_eqI)
    fix n assume n: "n < LENGTH(64)"
    show "bit ((ucast (ucast v AND 0x7F :: u8) :: u64) OR push_bit 7 (ucast (ucast (drop_bit 7 v) AND 0x7F :: u8))) n
        = bit (take_bit 14 (ucast v) :: u64) n"
      using n by (cases "n < 7")
        (auto simp only: bit_or_iff bit_unsigned_iff bit_and_iff bit_7F bit_push_bit_iff bit_drop_bit_eq bit_take_bit_iff
          possible_bit_word comp_apply le_add_diff_inverse not_less len_of_numeral_defs numeral_less_iff
          dest: bit_imp_le_length)
  qed
  then show ?thesis
    by (simp add: redundant_two ucast_and7 low_bits top_bit_clear)
qed

section \<open>Messages\<close>

text \<open>A message as the calls that build it: fields in order, sub-messages as the scopes of \<open>SubMessage\<close> objects.\<close>

datatype pfield = PUint64 u32 u64 | PInt64 u32 u64 | PUint32 u32 u32 | PInt32 u32 u32 | PString u32 "u8 list"
  | PSub u32 "pfield list"

fun encode_field :: "pfield \<Rightarrow> encoder" and encode_fields :: "pfield list \<Rightarrow> encoder" where
  "encode_field (PUint64 i v) bs = pb_uint64 i v bs"
| "encode_field (PInt64 i v) bs = pb_int64 i v bs"
| "encode_field (PUint32 i v) bs = pb_uint32 i v bs"
| "encode_field (PInt32 i v) bs = pb_int32 i v bs"
| "encode_field (PString i s) bs = pb_string i s bs"
| "encode_field (PSub i fs) bs = sub_message i (encode_fields fs) bs"
| "encode_fields [] bs = bs"
| "encode_fields (f # fs) bs = encode_fields fs (encode_field f bs)"

text \<open>What the SubMessage destructor leaves in the vector.\<close>

lemma sub_message_appends:
  assumes "\<And>d. body d = d @ b"
  shows "sub_message i body bs = bs @ field_key i 2 @ redundant_varint (of_nat (length b)) 2 @ b"
  by (simp add: sub_message_def sub_begin_def sub_end_def overwrite_def assms Let_def)

fun field_bytes :: "pfield \<Rightarrow> u8 list" and fields_bytes :: "pfield list \<Rightarrow> u8 list" where
  "field_bytes (PUint64 i v) = field_key i 0 @ varint v"
| "field_bytes (PInt64 i v) = field_key i 0 @ varint v"
| "field_bytes (PUint32 i v) = field_key i 0 @ varint (ucast v)"
| "field_bytes (PInt32 i v) = field_key i 0 @ varint (ucast v)"
| "field_bytes (PString i s) = field_key i 2 @ varint (ucast (of_nat (length s) :: u32)) @ s"
| "field_bytes (PSub i fs) = field_key i 2 @ redundant_varint (of_nat (length (fields_bytes fs))) 2 @ fields_bytes fs"
| "fields_bytes [] = []"
| "fields_bytes (f # fs) = field_bytes f @ fields_bytes fs"

lemma encode_appends:
  "encode_field f bs = bs @ field_bytes f"
  "encode_fields fs bs = bs @ fields_bytes fs"
  by (induction f bs and fs bs rule: encode_field_encode_fields.induct)
     (auto simp: pb_uint64_def pb_int64_def pb_uint32_def pb_int32_def pb_string_def sub_message_appends)

text \<open>The decoder of one level: keys and values, sub-messages and strings both length-delimited.\<close>

datatype wire = WVarint u64 | WLen "u8 list"

definition read_field :: "u8 list \<Rightarrow> ((u64 \<times> wire) \<times> u8 list) option" where
  "read_field bs =
     (case read_varint bs of
        None \<Rightarrow> None
      | Some (k, r) \<Rightarrow>
          (case read_varint r of
             None \<Rightarrow> None
           | Some (v, r') \<Rightarrow>
               (if k AND 7 = 0 then Some ((drop_bit 3 k, WVarint v), r')
                else if k AND 7 = 2 \<and> unat v \<le> length r'
                then Some ((drop_bit 3 k, WLen (take (unat v) r')), drop (unat v) r')
                else None)))"

lemma read_varint_shorter: "read_varint bs = Some (v, r) \<Longrightarrow> length r < length bs"
  by (induction bs arbitrary: v r) (auto split: if_splits option.splits)

lemma read_field_shorter: "read_field bs = Some (f, r) \<Longrightarrow> length r < length bs"
  by (fastforce simp: read_field_def dest!: read_varint_shorter split: option.splits if_splits)

function read_fields :: "u8 list \<Rightarrow> (u64 \<times> wire) list option" where
  "read_fields bs =
     (if bs = [] then Some []
      else (case read_field bs of None \<Rightarrow> None | Some (f, r) \<Rightarrow> map_option (Cons f) (read_fields r)))"
  by pat_completeness auto
termination by (relation "measure length") (auto dest: read_field_shorter)

declare read_fields.simps [simp del]

fun wire_of :: "pfield \<Rightarrow> u64 \<times> wire" where
  "wire_of (PUint64 i v) = (ucast i, WVarint v)"
| "wire_of (PInt64 i v) = (ucast i, WVarint v)"
| "wire_of (PUint32 i v) = (ucast i, WVarint (ucast v))"
| "wire_of (PInt32 i v) = (ucast i, WVarint (ucast v))"
| "wire_of (PString i s) = (ucast i, WLen s)"
| "wire_of (PSub i fs) = (ucast i, WLen (encode_fields fs []))"

fun field_id :: "pfield \<Rightarrow> u32" where
  "field_id (PUint64 i v) = i" | "field_id (PInt64 i v) = i" | "field_id (PUint32 i v) = i"
| "field_id (PInt32 i v) = i" | "field_id (PString i s) = i" | "field_id (PSub i fs) = i"

fun field_fits :: "pfield \<Rightarrow> bool" where
  "field_fits (PString i s) \<longleftrightarrow> length s < 2 ^ 32"
| "field_fits (PSub i fs) \<longleftrightarrow> length (encode_fields fs []) < 2 ^ 14"
| "field_fits f \<longleftrightarrow> True"

lemma key_parts:
  assumes "unat i < 2 ^ 29" "w < 8"
  shows "drop_bit 3 (ucast (push_bit 3 (i :: u32) OR w) :: u64) = ucast i"
    "(ucast (push_bit 3 i OR w) :: u64) AND 7 = ucast w"
proof -
  have seven: "(7 :: u64) = mask 3" by (simp add: mask_eq_exp_minus_1)
  have "take_bit 3 w = w" using assms(2) by (intro take_bit_small) (simp add: word_less_nat_alt)
  then have w: "n < 3" if "bit w n" for n using that by (metis bit_take_bit_iff)
  have "take_bit 29 i = i"
    using assms(1) by (rule take_bit_small)
  then have i: "n < 29" if "bit i n" for n using that by (metis bit_take_bit_iff)
  show "drop_bit 3 (ucast (push_bit 3 i OR w) :: u64) = ucast i"
    by (rule bit_word_eqI) (auto simp: bit_simps dest: i w)
  show "(ucast (push_bit 3 i OR w) :: u64) AND 7 = ucast w"
    unfolding seven by (rule bit_word_eqI) (auto simp: bit_simps dest: w)
qed

lemma read_key:
  assumes "unat i < 2 ^ 29" "w = 0 \<or> w = 2"
  shows "read_varint (field_key i w @ rest) = Some (ucast (push_bit 3 i OR w), rest)"
    "drop_bit 3 (ucast (push_bit 3 i OR w) :: u64) = ucast i"
    "(ucast (push_bit 3 i OR w) :: u64) AND 7 = ucast w"
  using key_parts [OF assms(1), of w] assms(2) by (auto simp: field_key_def read_varint)

lemma read_varint_field:
  assumes "unat i < 2 ^ 29"
  shows "read_field (field_key i 0 @ varint v @ rest) = Some ((ucast i, WVarint v), rest)"
  using read_key [OF assms, of 0] by (simp add: read_field_def read_varint)

lemma read_length_field:
  assumes "unat i < 2 ^ 29" and "read_varint (l @ body @ rest) = Some (n, body @ rest)" and "unat n \<le> length body"
  shows "read_field (field_key i 2 @ l @ body @ rest) =
     Some ((ucast i, WLen (take (unat n) body)), drop (unat n) body @ rest)"
  using read_key [OF assms(1), of 2] assms(2,3) by (simp add: read_field_def)

lemma unat_size32: "n < 2 ^ 32 \<Longrightarrow> unat (ucast (of_nat n :: u32) :: u64) = n"
  by (simp add: unsigned_ucast_eq unsigned_of_nat take_bit_nat_eq_self)

lemma unat_sub_size: "unat (take_bit 14 (ucast (of_nat n :: u32) :: u64)) = n mod 2 ^ 14"
proof -
  have "unat (take_bit 14 (ucast (of_nat n :: u32) :: u64)) = take_bit 14 (take_bit 64 (take_bit 32 n))"
    by (simp only: unsigned_take_bit_eq unsigned_ucast_eq unsigned_of_nat len_of_numeral_defs) simp
  also have "\<dots> = take_bit 14 n" by simp
  finally show ?thesis by (simp add: take_bit_eq_mod)
qed

lemma read_one_field:
  assumes "unat (field_id f) < 2 ^ 29" "field_fits f"
  shows "read_field (field_bytes f @ rest) = Some (wire_of f, rest)"
proof (cases f)
  case (PString i s)
  then have "length s < 2 ^ 32" using assms(2) by simp
  then show ?thesis
    using read_length_field [of i "varint (ucast (of_nat (length s) :: u32))" s rest "ucast (of_nat (length s) :: u32)"]
      assms(1) PString unat_size32 [of "length s"] by (simp add: read_varint)
next
  case (PSub i fs)
  then have size: "length (fields_bytes fs) < 2 ^ 14" using assms(2) by (simp add: encode_appends)
  then show ?thesis
    using read_length_field [of i "redundant_varint (of_nat (length (fields_bytes fs))) 2" "fields_bytes fs" rest
        "take_bit 14 (ucast (of_nat (length (fields_bytes fs)) :: u32))"]
      assms(1) PSub unat_sub_size [of "length (fields_bytes fs)"] by (simp add: read_redundant encode_appends)
qed (use assms read_varint_field in auto)

lemma field_bytes_nonempty: "field_bytes f \<noteq> []"
  by (cases f) (auto simp: field_key_def varint.simps)

lemma read_all_fields:
  "\<forall>f \<in> set fs. unat (field_id f) < 2 ^ 29 \<and> field_fits f \<Longrightarrow> read_fields (fields_bytes fs) = Some (map wire_of fs)"
proof (induction fs)
  case (Cons f fs)
  then show ?case
    using field_bytes_nonempty [of f] by (simp add: read_fields.simps [of "field_bytes f @ fields_bytes fs"] read_one_field)
qed (simp add: read_fields.simps)

text \<open>
  C37. Trace messages are valid protobuf as long as they are small. Any sequence of fields written with the
  encoder's functions, sub-messages opened and closed around their contents included, is read back by a
  protobuf decoder as exactly these fields with these values, if every sub-message is shorter than 16384
  bytes; the two bytes reserved for the size of a longer one hold its size modulo 16384, so a reader takes
  that prefix for the sub-message and the rest of its contents for further fields.
\<close>

theorem trace_messages_decode:
  "((\<forall>f \<in> set fs. unat (field_id f) < 2 ^ 29 \<and> field_fits f) \<longrightarrow>
      read_fields (encode_fields fs []) = Some (map wire_of fs))
   \<and> (unat i < 2 ^ 29 \<longrightarrow>
      read_field (encode_field (PSub i fs) []) =
        (let body = encode_fields fs []; n = length body mod 2 ^ 14
         in Some ((ucast i, WLen (take n body)), drop n body)))"
proof -
  have "read_field (field_bytes (PSub i fs)) =
      Some ((ucast i, WLen (take (length (fields_bytes fs) mod 2 ^ 14) (fields_bytes fs))),
            drop (length (fields_bytes fs) mod 2 ^ 14) (fields_bytes fs))" if "unat i < 2 ^ 29"
    using read_length_field [OF that, of "redundant_varint (of_nat (length (fields_bytes fs))) 2" "fields_bytes fs" "[]"
        "take_bit 14 (ucast (of_nat (length (fields_bytes fs)) :: u32))"]
    unfolding unat_sub_size by (simp add: read_redundant)
  then show ?thesis
    using read_all_fields [of fs] by (simp add: encode_appends Let_def)
qed

theorem trace_messages_decode_witness:
  "read_fields (encode_fields [PUint64 8 300, PSub 11 [PInt32 9 1, PString 2 [104, 105]]] []) =
     Some [(8, WVarint 300), (11, WLen (encode_fields [PInt32 9 1, PString 2 [104, 105]] []))]"
proof -
  have "length (encode_fields [PInt32 9 1, PString 2 [104, 105]] []) < 2 ^ 14"
    by (simp add: encode_appends field_key_def varint.simps)
  then show ?thesis
    using trace_messages_decode [of "[PUint64 8 300, PSub 11 [PInt32 9 1, PString 2 [104, 105]]]" 0]
    by simp
qed

end
