(* ===== verification/Log_Level.thy ===== *)
theory Log_Level
  imports Nuc_Prelude "HOL-Library.List_Lexorder" "HOL-Library.Char_ord"
begin

text \<open>
  Log levels (\<open>LogLevel.hpp\<close>) and the logger (\<open>util/Logger\<close>, \<open>util/string_join.hpp\<close>): the order of the levels,
  their names, and which log calls become messages.
\<close>

section \<open>Levels\<close>

datatype log_level = L_UNKNOWN | L_TRACE | L_DEBUG | L_INFO | L_WARN | L_ERROR | L_FATAL

fun level_value :: "log_level \<Rightarrow> u8" where
  "level_value L_UNKNOWN = 0"
| "level_value L_TRACE = 1"
| "level_value L_DEBUG = 2"
| "level_value L_INFO = 3"
| "level_value L_WARN = 4"
| "level_value L_ERROR = 5"
| "level_value L_FATAL = 6"

text \<open>The constructor from a string and the conversion to one.\<close>

definition level_of_string :: "string \<Rightarrow> log_level" where
  "level_of_string s =
     (if s = ''TRACE'' then L_TRACE else if s = ''DEBUG'' then L_DEBUG else if s = ''INFO'' then L_INFO
      else if s = ''WARN'' then L_WARN else if s = ''ERROR'' then L_ERROR else if s = ''FATAL'' then L_FATAL
      else L_UNKNOWN)"

definition level_string :: "log_level \<Rightarrow> string" where
  "level_string l =
     (if l = L_TRACE then ''TRACE'' else if l = L_DEBUG then ''DEBUG'' else if l = L_INFO then ''INFO''
      else if l = L_WARN then ''WARN'' else if l = L_ERROR then ''ERROR'' else if l = L_FATAL then ''FATAL''
      else ''UNKNOWN'')"

text \<open>
  Comparisons between levels are those of their values, and make the levels a linear order; comparisons with a string
  are those of strings.
\<close>

definition level_less :: "log_level \<Rightarrow> log_level \<Rightarrow> bool" where
  "level_less a b \<longleftrightarrow> level_value a < level_value b"

definition level_less_eq :: "log_level \<Rightarrow> log_level \<Rightarrow> bool" where
  "level_less_eq a b \<longleftrightarrow> level_value a \<le> level_value b"

instantiation log_level :: linorder
begin

definition less_eq_log_level :: "log_level \<Rightarrow> log_level \<Rightarrow> bool" where
  "less_eq_log_level = level_less_eq"

definition less_log_level :: "log_level \<Rightarrow> log_level \<Rightarrow> bool" where
  "less_log_level = level_less"

instance
proof
  fix a b :: log_level
  show "a \<le> b \<Longrightarrow> b \<le> a \<Longrightarrow> a = b"
    by (cases a; cases b) (simp_all add: less_eq_log_level_def level_less_eq_def word_le_nat_alt)
qed (auto simp: less_eq_log_level_def less_log_level_def level_less_def level_less_eq_def)

end

lemmas level_order_defs = less_eq_log_level_def less_log_level_def level_less_def level_less_eq_def

definition less_level_string :: "log_level \<Rightarrow> string \<Rightarrow> bool" where
  "less_level_string l s \<longleftrightarrow> level_string l < s"

definition eq_level_string :: "log_level \<Rightarrow> string \<Rightarrow> bool" where
  "eq_level_string l s \<longleftrightarrow> level_string l = s"

section \<open>Logging\<close>

record 's log_message =
  lm_level :: log_level
  lm_display :: log_level
  lm_text :: string
  lm_reactor :: string
  lm_statistics :: "'s option"

text \<open>What the logger reads of a reactor, and of the current task: the reactor of its reaction, and its statistics.\<close>

record log_reactor =
  lr_name :: string
  lr_log_level :: log_level
  lr_min_level :: log_level

record 's log_task =
  lt_parent :: "log_reactor option"
  lt_statistics :: "'s option"

definition get_current_reactor :: "log_reactor option \<Rightarrow> 's log_task option \<Rightarrow> log_reactor option" where
  "get_current_reactor calling current =
     (case calling of
        Some r \<Rightarrow> Some r
      | None \<Rightarrow> (case current of None \<Rightarrow> None | Some t \<Rightarrow> lt_parent t))"

definition get_current_log_levels :: "log_reactor option \<Rightarrow> 's log_task option \<Rightarrow> log_level \<times> log_level" where
  "get_current_log_levels calling current =
     (case get_current_reactor calling current of
        Some r \<Rightarrow> (lr_log_level r, lr_min_level r)
      | None \<Rightarrow> (L_UNKNOWN, L_UNKNOWN))"

text \<open>The arguments as they are streamed, joined.\<close>

fun string_join :: "string \<Rightarrow> string list \<Rightarrow> string" where
  "string_join d [] = []"
| "string_join d [x] = x"
| "string_join d (x # y # rest) = x @ d @ string_join d (y # rest)"

definition do_log :: "log_reactor option \<Rightarrow> 's log_task option \<Rightarrow> log_level \<Rightarrow> string \<Rightarrow> 's log_message" where
  "do_log calling current level message =
     (let reactor = get_current_reactor calling current;
          levels = get_current_log_levels reactor current
      in \<lparr>lm_level = level, lm_display = fst levels, lm_text = message,
          lm_reactor = (case reactor of None \<Rightarrow> [] | Some r \<Rightarrow> lr_name r),
          lm_statistics = (case current of None \<Rightarrow> None | Some t \<Rightarrow> lt_statistics t)\<rparr>)"

text \<open>The message that a log call emits, if it emits one.\<close>

definition log_call :: "log_reactor option \<Rightarrow> 's log_task option \<Rightarrow> log_level \<Rightarrow> string list \<Rightarrow> 's log_message option" where
  "log_call calling current level args =
     (let levels = get_current_log_levels calling current
      in if fst levels \<le> level \<or> snd levels \<le> level then Some (do_log calling current level (string_join '' '' args))
         else None)"

section \<open>Properties\<close>

lemma string_join_append:
  "xs \<noteq> [] \<Longrightarrow> ys \<noteq> [] \<Longrightarrow> string_join d (xs @ ys) = string_join d xs @ d @ string_join d ys"
  by (induction d xs rule: string_join.induct) (auto simp: neq_Nil_conv)

lemma current_reactor_again: "get_current_reactor (get_current_reactor c t) t = get_current_reactor c t"
  by (auto simp: get_current_reactor_def split: option.splits)

lemma UNKNOWN_least: "L_UNKNOWN \<le> l"
  by (cases l) (simp_all add: level_order_defs)

text \<open>
  A log call is dropped exactly when its level is below both levels of the reactor it runs in. The reactor is
  the one that logs or else the one whose reaction runs; without any, nothing is dropped. A message that is
  emitted carries the level of the call, the display level and the name of that same reactor, the statistics of
  the running task, and its arguments separated by spaces.
\<close>

theorem log_filter_exact:
  "(let r = get_current_reactor calling current in
    case log_call calling current level args of
      None \<Rightarrow> (\<exists>q. r = Some q \<and> level < min (lr_log_level q) (lr_min_level q))
    | Some m \<Rightarrow>
        (case r of
           None \<Rightarrow> lm_display m = L_UNKNOWN \<and> lm_reactor m = []
         | Some q \<Rightarrow> min (lr_log_level q) (lr_min_level q) \<le> level \<and> lm_display m = lr_log_level q \<and> lm_reactor m = lr_name q)
        \<and> lm_level m = level \<and> lm_text m = string_join '' '' args
        \<and> lm_statistics m = (case current of None \<Rightarrow> None | Some t \<Rightarrow> lt_statistics t))"
  unfolding log_call_def do_log_def get_current_log_levels_def Let_def current_reactor_again
  by (cases "get_current_reactor calling current") (auto simp: UNKNOWN_least not_le min_le_iff_disj)

text \<open>
  Names of levels. Every level is read back from its name and is equal to it as a string, any other string is
  read as UNKNOWN; but the comparisons of a level with a string are alphabetical, so that they contradict the
  order of the levels: WARN is not less than the string ERROR, and DEBUG is less than every other name.
\<close>

theorem level_names_roundtrip:
  "level_of_string (level_string l) = l \<and> (eq_level_string l (level_string k) = (l = k))
   \<and> (level_of_string s = L_UNKNOWN \<or> s = level_string (level_of_string s))
   \<and> L_WARN < L_ERROR \<and> \<not> less_level_string L_WARN (level_string L_ERROR)
   \<and> (less_level_string L_DEBUG (level_string l) = (l \<noteq> L_DEBUG))"
proof -
  have "less_level_string L_DEBUG (level_string l) = (l \<noteq> L_DEBUG)"
    by (cases l) (simp_all add: less_level_string_def level_string_def)
  moreover have "\<not> less_level_string L_WARN (level_string L_ERROR)"
    by (simp add: less_level_string_def level_string_def)
  ultimately show ?thesis
    by (cases l; cases k) (auto simp: level_of_string_def level_string_def eq_level_string_def level_order_defs)
qed

end
