(* ===== verification/Trace_Control.thy ===== *)
theory Trace_Control
  imports Trace_Proto Reaction_Core Log_Level
begin

text \<open>
  The trace controller (\<open>extension/TraceController.cpp\<close>) and its string interner
  (\<open>extension/trace/StringInterner.hpp\<close>): which packets each event and log message writes to the trace file,
  and in which order. A packet is kept as the fields it was built from; \<open>file_bytes\<close> is what the file holds.
\<close>

section \<open>What is traced\<close>

text \<open>
  An instant with its thread: the thread's id, the name of its pool if it has one, and the real and CPU
  times in nanoseconds. The identifiers of a reaction are the pointer and the object.
\<close>

record trace_stamp =
  st_thread :: nat
  st_pool :: "string option"
  st_real :: u64
  st_cpu :: u64

record trace_stats =
  tr_identifiers :: "(nat \<times> reaction_identifiers) option"
  tr_task :: u64
  tr_created :: trace_stamp
  tr_started :: trace_stamp
  tr_finished :: trace_stamp

definition bytes_of :: "string \<Rightarrow> u8 list" where
  "bytes_of s = map of_char s"

text \<open>The regular expression \<open>[A-Za-z_][A-Za-z0-9_]+::\<close>, replaced by nothing wherever it matches.\<close>

definition ident_start :: "char \<Rightarrow> bool" where
  "ident_start c \<longleftrightarrow> (CHR ''A'' \<le> c \<and> c \<le> CHR ''Z'') \<or> (CHR ''a'' \<le> c \<and> c \<le> CHR ''z'') \<or> c = CHR ''_''"

definition ident_char :: "char \<Rightarrow> bool" where
  "ident_char c \<longleftrightarrow> ident_start c \<or> (CHR ''0'' \<le> c \<and> c \<le> CHR ''9'')"

definition namespace_prefix :: "string \<Rightarrow> string option" where
  "namespace_prefix s =
     (case s of
        [] \<Rightarrow> None
      | c # cs \<Rightarrow>
          (let run = takeWhile ident_char cs; rest = dropWhile ident_char cs
           in if ident_start c \<and> run \<noteq> [] \<and> take 2 rest = ''::'' then Some (drop 2 rest) else None))"

lemma namespace_prefix_shorter: "namespace_prefix s = Some r \<Longrightarrow> length r < length s"
proof (cases s)
  case (Cons c cs)
  assume "namespace_prefix s = Some r"
  then show ?thesis
    using Cons length_dropWhile_le [of ident_char cs] by (auto simp: namespace_prefix_def Let_def split: if_splits)
qed (simp add: namespace_prefix_def)

function strip_namespaces :: "string \<Rightarrow> string" where
  "strip_namespaces s =
     (case namespace_prefix s of
        Some r \<Rightarrow> strip_namespaces r
      | None \<Rightarrow> (case s of [] \<Rightarrow> [] | c # cs \<Rightarrow> c # strip_namespaces cs))"
  by pat_completeness auto
termination by (relation "measure length") (auto dest: namespace_prefix_shorter)

declare strip_namespaces.simps [simp del]

definition name_for_id :: "(nat \<times> reaction_identifiers) option \<Rightarrow> string" where
  "name_for_id ids =
     (case ids of
        None \<Rightarrow> []
      | Some (p, r) \<Rightarrow> (if ri_name r = [] then strip_namespaces (ri_dsl r) else ri_name r))"

text \<open>The stamp an event refers to.\<close>

fun relevant_event :: "event_kind \<Rightarrow> trace_stats \<Rightarrow> trace_stamp" where
  "relevant_event BLOCKED s = tr_created s"
| "relevant_event MISSING_DATA s = tr_created s"
| "relevant_event CREATED s = tr_created s"
| "relevant_event STARTED s = tr_started s"
| "relevant_event FINISHED s = tr_finished s"

section \<open>State\<close>

text \<open>
  The packets of the open trace file, whether one is open, the handles bound by \<open>BeginTrace\<close>, and the tables of
  uuids and interned ids. A \<open>std::map\<close> from keys to the number of their insertion is the list of its entries
  in that order.
\<close>

record tracer =
  tc_packets :: "pfield list list"
  tc_open :: bool
  tc_event_bound :: bool
  tc_log_bound :: bool
  tc_next_uuid :: u64
  tc_process :: u64
  tc_threads :: "(nat \<times> u64) list"
  tc_categories :: "(string \<times> u64) list"
  tc_event_names :: "((nat \<times> reaction_identifiers) option \<times> u64) list"
  tc_log_bodies :: "(string \<times> u64) list"

definition new_tracer :: tracer where
  "new_tracer = \<lparr>tc_packets = [], tc_open = False, tc_event_bound = False, tc_log_bound = False, tc_next_uuid = 2,
     tc_process = 0, tc_threads = [], tc_categories = [], tc_event_names = [], tc_log_bodies = []\<rparr>"

definition file_bytes :: "tracer \<Rightarrow> u8 list" where
  "file_bytes t = concat (map (\<lambda>p. encode_fields p []) (tc_packets t))"

abbreviation (input) SEQUENCE_ID :: u32 where "SEQUENCE_ID \<equiv> 1"

definition write_trace_packet :: "pfield list \<Rightarrow> tracer \<Rightarrow> tracer" where
  "write_trace_packet p t = (if tc_open t then t\<lparr>tc_packets := tc_packets t @ [p]\<rparr> else t)"

section \<open>Interned strings\<close>

definition interned_packet :: "u32 \<Rightarrow> u64 \<Rightarrow> string \<Rightarrow> pfield list" where
  "interned_packet ID iid name =
     [PSub 1 [PUint32 10 SEQUENCE_ID, PSub 12 [PSub ID [PUint64 1 iid, PString 2 (bytes_of name)]]]]"

text \<open>\<open>operator[]\<close>: the id, the table, and the packet to write if the key is new.\<close>

definition intern_key :: "u32 \<Rightarrow> ('k \<Rightarrow> string) \<Rightarrow> 'k \<Rightarrow> ('k \<times> u64) list \<Rightarrow> u64 \<times> ('k \<times> u64) list \<times> pfield list option" where
  "intern_key ID mk k m =
     (case map_of m k of
        Some iid \<Rightarrow> (iid, m, None)
      | None \<Rightarrow> (let iid = of_nat (length m + 1) in (iid, m @ [(k, iid)], Some (interned_packet ID iid (mk k)))))"

definition write_new :: "pfield list option \<Rightarrow> tracer \<Rightarrow> tracer" where
  "write_new p t = (case p of None \<Rightarrow> t | Some q \<Rightarrow> write_trace_packet q t)"

definition category :: "string \<Rightarrow> tracer \<Rightarrow> u64 \<times> tracer" where
  "category k t = (let (iid, m, p) = intern_key 1 id k (tc_categories t) in (iid, write_new p (t\<lparr>tc_categories := m\<rparr>)))"

definition event_name :: "(nat \<times> reaction_identifiers) option \<Rightarrow> tracer \<Rightarrow> u64 \<times> tracer" where
  "event_name k t =
     (let (iid, m, p) = intern_key 2 name_for_id k (tc_event_names t) in (iid, write_new p (t\<lparr>tc_event_names := m\<rparr>)))"

definition log_body :: "string \<Rightarrow> tracer \<Rightarrow> u64 \<times> tracer" where
  "log_body k t = (let (iid, m, p) = intern_key 20 id k (tc_log_bodies t) in (iid, write_new p (t\<lparr>tc_log_bodies := m\<rparr>)))"

section \<open>Tracks\<close>

definition process_track :: "tracer \<Rightarrow> u64 \<times> tracer" where
  "process_track t =
     (if tc_process t = 0
      then (1, write_trace_packet [PSub 1 [PSub 60 [PUint64 1 1, PSub 3 [PInt32 1 1, PString 6 (bytes_of ''NUClear'')]]]]
                 (t\<lparr>tc_process := 1\<rparr>))
      else (tc_process t, t))"

definition thread_packet :: "u64 \<Rightarrow> u64 \<Rightarrow> string \<Rightarrow> pfield list" where
  "thread_packet parent uuid name =
     [PSub 1 [PSub 60 [PUint64 1 uuid, PUint64 5 parent,
                PSub 4 [PInt32 1 (ucast parent), PInt32 2 (ucast uuid), PString 5 (bytes_of name)]]],
      PSub 1 [PSub 60 [PUint64 1 (uuid + 1), PUint64 5 uuid, PSub 8 [PInt32 1 1]]]]"

definition thread_track :: "trace_stamp \<Rightarrow> tracer \<Rightarrow> u64 \<times> tracer" where
  "thread_track st t =
     (case map_of (tc_threads t) (st_thread st) of
        Some uuid \<Rightarrow> (uuid, t)
      | None \<Rightarrow>
          (let (parent, t1) = process_track t;
               uuid = tc_next_uuid t1;
               t2 = t1\<lparr>tc_threads := tc_threads t1 @ [(st_thread st, uuid)], tc_next_uuid := uuid + 2\<rparr>;
               name = (case st_pool st of None \<Rightarrow> ''Non NUClear'' | Some n \<Rightarrow> n)
           in (uuid, write_trace_packet (thread_packet parent uuid name) t2)))"

section \<open>Events and log messages\<close>

definition reactor_name :: "(nat \<times> reaction_identifiers) option \<Rightarrow> string" where
  "reactor_name ids = (case ids of None \<Rightarrow> ''PowerPlant'' | Some (p, r) \<Rightarrow> ri_reactor r)"

definition slice_type :: "event_kind \<Rightarrow> u32" where
  "slice_type k = (case k of STARTED \<Rightarrow> 1 | FINISHED \<Rightarrow> 2 | _ \<Rightarrow> 3)"

definition event_packet :: "event_kind \<Rightarrow> trace_stats \<Rightarrow> u64 \<Rightarrow> u64 \<Rightarrow> u64 \<Rightarrow> u64 \<Rightarrow> pfield list" where
  "event_packet k s thread name cat1 cat2 =
     [PSub 1 [PUint64 8 (st_real (relevant_event k s)), PUint32 10 SEQUENCE_ID, PInt32 13 2,
        PSub 11 ([PInt32 9 (slice_type k), PUint64 11 thread, PUint64 10 name, PUint64 3 cat1, PUint64 3 cat2,
                  PUint64 31 (thread + 1), PInt64 12 (st_cpu (relevant_event k s))]
                 @ (if k = CREATED \<or> k = STARTED then [PUint64 47 (tr_task s)] else []))]]"

definition encode_event :: "event_kind \<Rightarrow> trace_stats \<Rightarrow> tracer \<Rightarrow> tracer" where
  "encode_event k s t =
     (let (thread, t1) = thread_track (relevant_event k s) t;
          (name, t2) = event_name (tr_identifiers s) t1;
          (cat1, t3) = category (reactor_name (tr_identifiers s)) t2;
          (cat2, t4) = category ''reaction'' t3
      in write_trace_packet (event_packet k s thread name cat1 cat2) t4)"

fun log_priority :: "log_level \<Rightarrow> u32" where
  "log_priority L_TRACE = 2"
| "log_priority L_DEBUG = 3"
| "log_priority L_INFO = 4"
| "log_priority L_WARN = 5"
| "log_priority L_ERROR = 6"
| "log_priority L_FATAL = 7"
| "log_priority L_UNKNOWN = 0"

definition log_packet :: "trace_stats log_message \<Rightarrow> trace_stamp \<Rightarrow> u64 \<Rightarrow> u64 \<Rightarrow> u64 \<Rightarrow> u64 \<Rightarrow> u64 \<Rightarrow> pfield list" where
  "log_packet m st thread name cat1 cat2 body =
     [PSub 1 [PUint64 8 (st_real st), PUint32 10 SEQUENCE_ID, PInt32 13 2,
        PSub 11 [PUint64 11 thread, PUint64 10 name, PUint64 3 cat1, PUint64 3 cat2, PInt32 9 3,
                 PUint64 31 (thread + 1), PInt64 12 (st_cpu st),
                 PSub 21 [PUint64 2 body, PInt32 3 (log_priority (lm_level m))]]]]"

definition encode_log :: "trace_stats \<Rightarrow> trace_stats log_message \<Rightarrow> tracer \<Rightarrow> tracer" where
  "encode_log log_stats m t =
     (let ids = (case lm_statistics m of None \<Rightarrow> None | Some s \<Rightarrow> tr_identifiers s);
          (thread, t1) = thread_track (tr_created log_stats) t;
          (name, t2) = event_name ids t1;
          (cat1, t3) = category (reactor_name ids) t2;
          (cat2, t4) = category ''log'' t3;
          (body, t5) = log_body (lm_text m) t4
      in write_trace_packet (log_packet m (tr_created log_stats) thread name cat1 cat2 body) t5)"

section \<open>The reactions of the controller\<close>

definition reset_packet :: "pfield list" where
  "reset_packet = [PSub 1 [PUint32 10 SEQUENCE_ID, PInt32 87 1, PInt32 42 1, PInt32 13 1]]"

text \<open>
  \<open>BeginTrace\<close>: close the old file, open the new one (\<open>ok\<close>: it opened), write the reset packet and the start of
  this very reaction (\<open>current\<close> are its statistics), bind the handles.
\<close>

definition begin_trace :: "bool \<Rightarrow> bool \<Rightarrow> trace_stats \<Rightarrow> tracer \<Rightarrow> tracer" where
  "begin_trace ok logs current t =
     (let t1 = t\<lparr>tc_event_bound := False, tc_log_bound := False, tc_packets := [], tc_open := ok\<rparr>;
          t2 = write_trace_packet reset_packet t1;
          t3 = encode_event STARTED current (encode_event CREATED current t2)
      in t3\<lparr>tc_event_bound := True, tc_log_bound := logs\<rparr>)"

definition end_trace :: "tracer \<Rightarrow> tracer" where
  "end_trace t = t\<lparr>tc_event_bound := False, tc_log_bound := False, tc_open := False\<rparr>"

text \<open>Events reach the controller while their handle is bound.\<close>

datatype trace_input = TraceEvent event_kind trace_stats | TraceLog trace_stats "trace_stats log_message"

fun trace_step :: "trace_input \<Rightarrow> tracer \<Rightarrow> tracer" where
  "trace_step (TraceEvent k s) t = (if tc_event_bound t then encode_event k s t else t)"
| "trace_step (TraceLog s m) t = (if tc_log_bound t then encode_log s m t else t)"

section \<open>References inside a trace file\<close>

text \<open>
  A reader of the file resolves interned ids (by the kind of string) and track uuids by the definitions it
  has seen. \<open>field_defs\<close> and \<open>field_uses\<close> are those of one top-level packet.
\<close>

datatype reference = Interned u32 u64 | Track u64

fun interned_defs :: "pfield \<Rightarrow> reference list" where
  "interned_defs (PSub i fs) =
     (if i = 12 then concat (map (\<lambda>f. case f of PSub ID (PUint64 j iid # _) \<Rightarrow> [Interned ID iid] | _ \<Rightarrow> []) fs)
      else if i = 60 then (case fs of PUint64 j uuid # _ \<Rightarrow> [Track uuid] | _ \<Rightarrow> [])
      else [])"
| "interned_defs _ = []"

fun event_uses :: "pfield \<Rightarrow> reference list" where
  "event_uses (PUint64 i v) =
     (if i = 10 then [Interned 2 v] else if i = 3 then [Interned 1 v]
      else if i = 11 \<or> i = 31 then [Track v] else [])"
| "event_uses (PSub i fs) =
     (if i = 21 then concat (map (\<lambda>f. case f of PUint64 j v \<Rightarrow> if j = 2 then [Interned 20 v] else [] | _ \<Rightarrow> []) fs) else [])"
| "event_uses _ = []"

fun packet_uses :: "pfield \<Rightarrow> reference list" where
  "packet_uses (PSub i fs) =
     (if i = 11 then concat (map event_uses fs)
      else if i = 60 then concat (map (\<lambda>f. case f of PUint64 j v \<Rightarrow> if j = 5 then [Track v] else [] | _ \<Rightarrow> []) fs)
      else [])"
| "packet_uses _ = []"

fun field_defs :: "pfield \<Rightarrow> reference list" where
  "field_defs (PSub i fs) = concat (map interned_defs fs)"
| "field_defs _ = []"

fun field_uses :: "pfield \<Rightarrow> reference list" where
  "field_uses (PSub i fs) = concat (map packet_uses fs)"
| "field_uses _ = []"

fun resolved :: "reference set \<Rightarrow> pfield list \<Rightarrow> bool" where
  "resolved D [] \<longleftrightarrow> True"
| "resolved D (p # ps) \<longleftrightarrow> set (field_uses p) \<subseteq> D \<and> resolved (D \<union> set (field_defs p)) ps"

definition all_defs :: "pfield list \<Rightarrow> reference set" where
  "all_defs ps = (\<Union>p \<in> set ps. set (field_defs p))"

definition trace_packets :: "tracer \<Rightarrow> pfield list" where
  "trace_packets t = concat (tc_packets t)"

lemma resolved_append: "resolved D (ps @ qs) \<longleftrightarrow> resolved D ps \<and> resolved (D \<union> all_defs ps) qs"
  by (induction ps arbitrary: D) (auto simp: all_defs_def Un_assoc)

lemma all_defs_append: "all_defs (ps @ qs) = all_defs ps \<union> all_defs qs"
  by (auto simp: all_defs_def)

text \<open>The references a tracer's tables hand out.\<close>

definition table_refs :: "tracer \<Rightarrow> reference set" where
  "table_refs t =
     Interned 1 ` snd ` set (tc_categories t) \<union> Interned 2 ` snd ` set (tc_event_names t)
     \<union> Interned 20 ` snd ` set (tc_log_bodies t)
     \<union> Track ` snd ` set (tc_threads t) \<union> (\<lambda>u. Track (u + 1)) ` snd ` set (tc_threads t)
     \<union> (if tc_process t = 0 then {} else {Track (tc_process t)})"

definition trace_ok :: "tracer \<Rightarrow> bool" where
  "trace_ok t \<longleftrightarrow> tc_open t \<and> resolved {} (trace_packets t) \<and> table_refs t \<subseteq> all_defs (trace_packets t)"

lemma table_refs_simps [simp]:
  "table_refs (write_trace_packet p t) = table_refs t" "tc_open (write_trace_packet p t) = tc_open t"
  by (simp_all add: write_trace_packet_def table_refs_def)

lemma write_ok:
  assumes "trace_ok t" "table_refs t' \<subseteq> table_refs t \<union> all_defs p" "resolved (all_defs (trace_packets t)) p"
    and "tc_packets t' = tc_packets t" "tc_open t'"
  shows "trace_ok (write_trace_packet p t')"
proof -
  have "trace_packets (write_trace_packet p t') = trace_packets t @ p"
    using assms(4,5) by (simp add: write_trace_packet_def trace_packets_def)
  moreover have "table_refs t' \<subseteq> all_defs (trace_packets t) \<union> all_defs p"
    using assms(1,2) unfolding trace_ok_def by blast
  ultimately show ?thesis
    using assms(1,3,5) by (simp add: trace_ok_def resolved_append all_defs_append)
qed

lemma trace_ok_refs: "trace_ok t \<Longrightarrow> r \<in> table_refs t \<Longrightarrow> r \<in> all_defs (trace_packets t)"
  by (auto simp: trace_ok_def)

lemma intern_cases:
  obtains iid where "intern_key ID mk k m = (iid, m, None)" "(k, iid) \<in> set m"
  | iid where "intern_key ID mk k m = (iid, m @ [(k, iid)], Some (interned_packet ID iid (mk k)))"
  by (cases "map_of m k") (auto simp: intern_key_def Let_def dest: map_of_SomeD)

lemma interned_packet_refs: "all_defs (interned_packet ID iid name) = {Interned ID iid}"
    "resolved D (interned_packet ID iid name)"
  by (simp_all add: interned_packet_def all_defs_def)

text \<open>Interning keeps the file resolvable and hands out a defined id, whichever table it uses.\<close>

lemma intern_ok:
  assumes ok: "trace_ok t" and intern: "intern_key ID mk k m = (iid, m', p)"
    and old: "Interned ID ` snd ` set m \<subseteq> table_refs t"
    and t': "tc_packets t' = tc_packets t" "tc_open t'" "table_refs t' \<subseteq> table_refs t \<union> Interned ID ` snd ` set m'"
  shows "trace_ok (write_new p t') \<and> Interned ID iid \<in> all_defs (trace_packets (write_new p t'))
     \<and> all_defs (trace_packets t) \<subseteq> all_defs (trace_packets (write_new p t'))"
proof (cases rule: intern_cases [of ID mk k m])
  case (1 i)
  then have eqs: "iid = i" "m' = m" "p = None" using intern by auto
  have "Interned ID i \<in> table_refs t" using 1(2) old by force
  moreover have "table_refs t' \<subseteq> table_refs t" using t'(3) old eqs(2) by blast
  moreover have "trace_packets (write_new p t') = trace_packets t"
    using t'(1) eqs by (simp add: write_new_def trace_packets_def)
  ultimately show ?thesis
    using ok t'(2) eqs unfolding trace_ok_def by (simp add: write_new_def) blast
next
  case (2 i)
  then have eqs: "iid = i" "m' = m @ [(k, i)]" "p = Some (interned_packet ID i (mk k))" using intern by auto
  have "trace_ok (write_trace_packet (interned_packet ID i (mk k)) t')"
    by (rule write_ok [OF ok]) (use t' old eqs in \<open>auto simp: interned_packet_refs\<close>)
  then show ?thesis
    using t'(1,2) eqs(1,3) by (auto simp: write_new_def write_trace_packet_def trace_packets_def all_defs_append interned_packet_refs)
qed

lemma table_refs_update:
  "table_refs (t\<lparr>tc_categories := m\<rparr>) \<subseteq> table_refs t \<union> Interned 1 ` snd ` set m"
  "table_refs (t\<lparr>tc_event_names := m'\<rparr>) \<subseteq> table_refs t \<union> Interned 2 ` snd ` set m'"
  "table_refs (t\<lparr>tc_log_bodies := m\<rparr>) \<subseteq> table_refs t \<union> Interned 20 ` snd ` set m"
  by (auto simp: table_refs_def)

definition gives :: "reference \<Rightarrow> tracer \<Rightarrow> tracer \<Rightarrow> bool" where
  "gives r t t' \<longleftrightarrow> trace_ok t' \<and> r \<in> all_defs (trace_packets t') \<and> all_defs (trace_packets t) \<subseteq> all_defs (trace_packets t')"

lemma category_ok:
  assumes "trace_ok t" "category k t = (iid, t')"
  shows "gives (Interned 1 iid) t t'"
proof -
  obtain m p where i: "intern_key 1 id k (tc_categories t) = (iid, m, p)" "t' = write_new p (t\<lparr>tc_categories := m\<rparr>)"
    using assms(2) by (auto simp: category_def split_beta) (metis prod.collapse)
  show ?thesis unfolding gives_def i(2)
    by (rule intern_ok [OF assms(1) i(1)])
       (use assms(1) table_refs_update in \<open>auto simp: trace_ok_def table_refs_def\<close>)
qed

lemma event_name_ok:
  assumes "trace_ok t" "event_name k t = (iid, t')"
  shows "gives (Interned 2 iid) t t'"
proof -
  obtain m p where i: "intern_key 2 name_for_id k (tc_event_names t) = (iid, m, p)" "t' = write_new p (t\<lparr>tc_event_names := m\<rparr>)"
    using assms(2) by (auto simp: event_name_def split_beta) (metis prod.collapse)
  show ?thesis unfolding gives_def i(2)
    by (rule intern_ok [OF assms(1) i(1)])
       (use assms(1) table_refs_update in \<open>auto simp: trace_ok_def table_refs_def\<close>)
qed

lemma log_body_ok:
  assumes "trace_ok t" "log_body k t = (iid, t')"
  shows "gives (Interned 20 iid) t t'"
proof -
  obtain m p where i: "intern_key 20 id k (tc_log_bodies t) = (iid, m, p)" "t' = write_new p (t\<lparr>tc_log_bodies := m\<rparr>)"
    using assms(2) by (auto simp: log_body_def split_beta) (metis prod.collapse)
  show ?thesis unfolding gives_def i(2)
    by (rule intern_ok [OF assms(1) i(1)])
       (use assms(1) table_refs_update in \<open>auto simp: trace_ok_def table_refs_def\<close>)
qed

lemma process_packet_refs:
  "all_defs [PSub 1 [PSub 60 [PUint64 1 1, PSub 3 [PInt32 1 1, PString 6 n]]]] = {Track 1}"
  "resolved D [PSub 1 [PSub 60 [PUint64 1 1, PSub 3 [PInt32 1 1, PString 6 n]]]]"
  by (simp_all add: all_defs_def)

lemma process_track_ok:
  assumes "trace_ok t" "process_track t = (u, t')"
  shows "gives (Track u) t t'"
proof (cases "tc_process t = 0")
  case True
  let ?p = "[PSub 1 [PSub 60 [PUint64 1 1, PSub 3 [PInt32 1 1, PString 6 (bytes_of ''NUClear'')]]]]"
  have "trace_ok (write_trace_packet ?p (t\<lparr>tc_process := 1\<rparr>))"
    by (rule write_ok [OF assms(1)]) (use assms(1) in \<open>auto simp: process_packet_refs trace_ok_def table_refs_def\<close>)
  then show ?thesis
    using assms True unfolding gives_def
    by (auto simp: process_track_def write_trace_packet_def trace_packets_def all_defs_append process_packet_refs trace_ok_def)
next
  case False
  then have "Track (tc_process t) \<in> table_refs t" by (simp add: table_refs_def)
  then show ?thesis
    using assms False unfolding gives_def by (auto simp: process_track_def trace_ok_def)
qed

lemma thread_packet_refs:
  "all_defs (thread_packet parent uuid name) = {Track uuid, Track (uuid + 1)}"
  "resolved D (thread_packet parent uuid name) \<longleftrightarrow> Track parent \<in> D"
  by (auto simp: thread_packet_def all_defs_def)

lemma thread_packet_ok:
  assumes "trace_ok t" "Track parent \<in> all_defs (trace_packets t)"
    and t2: "t2 = t\<lparr>tc_threads := tc_threads t @ [(k, u)], tc_next_uuid := v\<rparr>"
  shows "gives (Track u) t (write_trace_packet (thread_packet parent u name) t2)
     \<and> Track (u + 1) \<in> all_defs (trace_packets (write_trace_packet (thread_packet parent u name) t2))"
proof -
  have refs: "table_refs t2 \<subseteq> table_refs t \<union> all_defs (thread_packet parent u name)"
    unfolding t2 thread_packet_refs by (auto simp: table_refs_def)
  have "trace_ok (write_trace_packet (thread_packet parent u name) t2)"
    by (rule write_ok [OF assms(1) refs]) (use assms in \<open>simp_all add: thread_packet_refs trace_ok_def\<close>)
  moreover have "trace_packets (write_trace_packet (thread_packet parent u name) t2) = trace_packets t @ thread_packet parent u name"
    using assms(1) t2 by (simp add: write_trace_packet_def trace_packets_def trace_ok_def)
  ultimately show ?thesis by (auto simp: gives_def all_defs_append thread_packet_refs)
qed

lemma gives_trans: "gives a t t1 \<Longrightarrow> gives b t1 t2 \<Longrightarrow> gives b t t2 \<and> a \<in> all_defs (trace_packets t2)"
  by (auto simp: gives_def)

lemma thread_refs:
  assumes "u \<in> snd ` set (tc_threads t)"
  shows "Track u \<in> table_refs t" "Track (u + 1) \<in> table_refs t"
proof -
  have "Track u \<in> Track ` snd ` set (tc_threads t)" using assms by (rule imageI)
  then show "Track u \<in> table_refs t" unfolding table_refs_def by (simp only: Un_iff simp_thms)
  have "Track (u + 1) \<in> (\<lambda>v. Track (v + 1)) ` snd ` set (tc_threads t)"
    using assms by (rule image_eqI [where f = "\<lambda>v. Track (v + 1)", OF refl])
  then show "Track (u + 1) \<in> table_refs t" unfolding table_refs_def by (simp only: Un_iff simp_thms)
qed

lemma thread_track_ok:
  assumes "trace_ok t" "thread_track st t = (u, t')"
  shows "gives (Track u) t t' \<and> Track (u + 1) \<in> all_defs (trace_packets t')"
proof (cases "map_of (tc_threads t) (st_thread st)")
  case (Some uuid)
  then have "(st_thread st, uuid) \<in> set (tc_threads t)" by (rule map_of_SomeD)
  then have "uuid \<in> snd ` set (tc_threads t)" by (rule image_eqI [rotated]) simp
  then have "Track uuid \<in> table_refs t" "Track (uuid + 1) \<in> table_refs t"
    by (rule thread_refs)+
  moreover have "u = uuid" "t' = t" using assms(2) Some by (simp_all add: thread_track_def)
  ultimately show ?thesis
    using assms(1) trace_ok_refs [OF assms(1)] by (simp add: gives_def)
next
  case None
  obtain parent t1 where pt: "process_track t = (parent, t1)" by (cases "process_track t")
  have g: "gives (Track parent) t t1" by (rule process_track_ok [OF assms(1) pt])
  then have t1: "trace_ok t1" "Track parent \<in> all_defs (trace_packets t1)" by (simp_all add: gives_def)
  have eq: "(u, t') = (tc_next_uuid t1, write_trace_packet (thread_packet parent (tc_next_uuid t1)
      (case st_pool st of None \<Rightarrow> ''Non NUClear'' | Some n \<Rightarrow> n))
      (t1\<lparr>tc_threads := tc_threads t1 @ [(st_thread st, tc_next_uuid t1)], tc_next_uuid := tc_next_uuid t1 + 2\<rparr>))"
    using assms(2) None pt by (auto simp: thread_track_def Let_def)
  show ?thesis
    using thread_packet_ok [OF t1 refl] gives_trans [OF g] eq by (metis Pair_inject)
qed

text \<open>The events and log messages keep the file resolvable.\<close>

lemma encode_event_ok:
  assumes "trace_ok t"
  shows "trace_ok (encode_event k s t)"
proof -
  obtain thread t1 where 1: "thread_track (relevant_event k s) t = (thread, t1)" by fastforce
  obtain name t2 where 2: "event_name (tr_identifiers s) t1 = (name, t2)" by fastforce
  obtain cat1 t3 where 3: "category (reactor_name (tr_identifiers s)) t2 = (cat1, t3)" by fastforce
  obtain cat2 t4 where 4: "category ''reaction'' t3 = (cat2, t4)" by fastforce
  note g1 = thread_track_ok [OF assms 1]
  then have "trace_ok t1" by (simp add: gives_def)
  note g2 = event_name_ok [OF this 2]
  then have "trace_ok t2" by (simp add: gives_def)
  note g3 = category_ok [OF this 3]
  then have "trace_ok t3" by (simp add: gives_def)
  note g4 = category_ok [OF this 4]
  then have t4: "trace_ok t4" by (simp add: gives_def)
  let ?p = "event_packet k s thread name cat1 cat2"
  have "{Track thread, Track (thread + 1), Interned 2 name, Interned 1 cat1, Interned 1 cat2} \<subseteq> all_defs (trace_packets t4)"
    using g1 g2 g3 g4 unfolding gives_def by blast
  then have "resolved (all_defs (trace_packets t4)) ?p"
    by (simp add: event_packet_def)
  then have "trace_ok (write_trace_packet ?p t4)"
    using t4 by (intro write_ok [OF t4]) (simp_all add: trace_ok_def)
  then show ?thesis by (simp add: encode_event_def 1 2 3 4)
qed

lemma encode_log_ok:
  assumes "trace_ok t"
  shows "trace_ok (encode_log s m t)"
proof -
  define ids where "ids = (case lm_statistics m of None \<Rightarrow> None | Some s \<Rightarrow> tr_identifiers s)"
  obtain thread t1 where 1: "thread_track (tr_created s) t = (thread, t1)" by fastforce
  obtain name t2 where 2: "event_name ids t1 = (name, t2)" by fastforce
  obtain cat1 t3 where 3: "category (reactor_name ids) t2 = (cat1, t3)" by fastforce
  obtain cat2 t4 where 4: "category ''log'' t3 = (cat2, t4)" by fastforce
  obtain body t5 where 5: "log_body (lm_text m) t4 = (body, t5)" by fastforce
  note g1 = thread_track_ok [OF assms 1]
  then have "trace_ok t1" by (simp add: gives_def)
  note g2 = event_name_ok [OF this 2]
  then have "trace_ok t2" by (simp add: gives_def)
  note g3 = category_ok [OF this 3]
  then have "trace_ok t3" by (simp add: gives_def)
  note g4 = category_ok [OF this 4]
  then have "trace_ok t4" by (simp add: gives_def)
  note g5 = log_body_ok [OF this 5]
  then have t5: "trace_ok t5" by (simp add: gives_def)
  let ?p = "log_packet m (tr_created s) thread name cat1 cat2 body"
  have "{Track thread, Track (thread + 1), Interned 2 name, Interned 1 cat1, Interned 1 cat2, Interned 20 body}
      \<subseteq> all_defs (trace_packets t5)"
    using g1 g2 g3 g4 g5 unfolding gives_def by blast
  then have "resolved (all_defs (trace_packets t5)) ?p"
    by (simp add: log_packet_def)
  then have "trace_ok (write_trace_packet ?p t5)"
    using t5 by (intro write_ok [OF t5]) (simp_all add: trace_ok_def)
  then show ?thesis by (simp add: encode_log_def ids_def [symmetric] 1 2 3 4 5)
qed

lemma trace_step_ok: "trace_ok t \<Longrightarrow> trace_ok (trace_step i t)"
  by (cases i) (simp_all add: encode_event_ok encode_log_ok)

lemma trace_steps_ok: "trace_ok t \<Longrightarrow> trace_ok (fold trace_step inputs t)"
  by (induction inputs arbitrary: t) (simp_all add: trace_step_ok)

lemma trace_ok_bound [simp]:
  "trace_ok (t\<lparr>tc_event_bound := a, tc_log_bound := b\<rparr>) \<longleftrightarrow> trace_ok t"
  by (simp add: trace_ok_def trace_packets_def table_refs_def)

lemma begin_trace_ok: "trace_ok (begin_trace True logs current new_tracer)"
proof -
  let ?t = "write_trace_packet reset_packet (new_tracer\<lparr>tc_event_bound := False, tc_log_bound := False, tc_packets := [], tc_open := True\<rparr>)"
  have "trace_ok ?t"
    by (simp add: trace_ok_def trace_packets_def write_trace_packet_def new_tracer_def table_refs_def reset_packet_def)
  then show ?thesis by (simp add: begin_trace_def Let_def encode_event_ok)
qed

section \<open>A second trace\<close>

text \<open>Nothing forgets an interned name, and only \<open>event_name\<close> writes the definition of one.\<close>

definition named :: "(nat \<times> reaction_identifiers) option \<Rightarrow> tracer \<Rightarrow> bool" where
  "named k t \<longleftrightarrow> map_of (tc_event_names t) k \<noteq> None"

definition no_name_defs :: "tracer \<Rightarrow> bool" where
  "no_name_defs t \<longleftrightarrow> (\<forall>i. Interned 2 i \<notin> all_defs (trace_packets t))"

lemma named_write [simp]: "named k (write_trace_packet p t) = named k t" "named k (write_new q t) = named k t"
  by (auto simp: named_def write_trace_packet_def write_new_def split: option.splits)

lemma named_update [simp]:
  "named k (t\<lparr>tc_threads := a\<rparr>) = named k t" "named k (t\<lparr>tc_next_uuid := b\<rparr>) = named k t"
  "named k (t\<lparr>tc_process := b\<rparr>) = named k t" "named k (t\<lparr>tc_categories := c\<rparr>) = named k t"
  "named k (t\<lparr>tc_log_bodies := c\<rparr>) = named k t" "named k (t\<lparr>tc_packets := d, tc_open := ok\<rparr>) = named k t"
  "named k (t\<lparr>tc_event_bound := e, tc_log_bound := f\<rparr>) = named k t"
  by (simp_all add: named_def)

lemma thread_track_named [simp]: "named k (snd (thread_track st t)) = named k t"
  by (auto simp: thread_track_def process_track_def Let_def split: option.splits if_splits)

lemma category_named [simp]: "named k (snd (category c t)) = named k t"
  by (auto simp: category_def split_beta)

lemma log_body_named [simp]: "named k (snd (log_body c t)) = named k t"
  by (auto simp: log_body_def split_beta)

lemma map_of_found: "(k, v) \<in> set m \<Longrightarrow> \<exists>w. map_of m k = Some w"
  by (induction m) auto

lemma event_name_named [simp]: "named k (snd (event_name j t)) \<longleftrightarrow> k = j \<or> named k t"
  by (cases rule: intern_cases [of 2 name_for_id j "tc_event_names t"])
     (auto simp: event_name_def named_def write_new_def write_trace_packet_def map_add_def
        dest: map_of_found split: option.splits)

lemma encode_event_named [simp]: "named k (encode_event e s t) \<longleftrightarrow> k = tr_identifiers s \<or> named k t"
  unfolding encode_event_def by (simp add: split_beta)

lemma encode_log_named: "named k t \<Longrightarrow> named k (encode_log s m t)"
  unfolding encode_log_def by (simp add: split_beta Let_def)

lemma trace_steps_named: "named k t \<Longrightarrow> named k (fold trace_step inputs t)"
proof (induction inputs arbitrary: t)
  case (Cons i inputs)
  have "named k (trace_step i t)" using Cons.prems by (cases i) (simp_all add: encode_log_named)
  then show ?case using Cons.IH by simp
qed simp

lemma begin_trace_named: "named (tr_identifiers current) (begin_trace ok logs current t)"
  by (simp add: begin_trace_def Let_def)

text \<open>What the calls before the first event of a file can have written to it.\<close>

lemma no_defs_write:
  "no_name_defs t \<Longrightarrow> \<forall>i. Interned 2 i \<notin> all_defs p \<Longrightarrow> no_name_defs (write_trace_packet p t)"
  by (auto simp: no_name_defs_def trace_packets_def write_trace_packet_def all_defs_append)

lemma no_defs_update [simp]:
  "no_name_defs (t\<lparr>tc_threads := a\<rparr>) = no_name_defs t" "no_name_defs (t\<lparr>tc_next_uuid := b\<rparr>) = no_name_defs t"
  "no_name_defs (t\<lparr>tc_process := b\<rparr>) = no_name_defs t" "no_name_defs (t\<lparr>tc_categories := c\<rparr>) = no_name_defs t"
  by (simp_all add: no_name_defs_def trace_packets_def)

lemma no_defs_process: "no_name_defs t \<Longrightarrow> no_name_defs (snd (process_track t))"
  by (simp add: process_track_def no_defs_write process_packet_refs)

lemma no_defs_thread: "no_name_defs t \<Longrightarrow> no_name_defs (snd (thread_track st t))"
  using no_defs_process [of t]
  by (auto simp: thread_track_def split_beta Let_def thread_packet_refs intro!: no_defs_write split: option.splits)

lemma no_defs_category: "no_name_defs t \<Longrightarrow> no_name_defs (snd (category c t))"
  by (cases rule: intern_cases [of 1 id c "tc_categories t"])
     (auto simp: category_def write_new_def interned_packet_refs intro!: no_defs_write)

lemma known_name: "named k t \<Longrightarrow> \<exists>i. event_name k t = (i, t)"
  by (auto simp: named_def event_name_def intern_key_def write_new_def split: option.splits)

definition broken :: "tracer \<Rightarrow> bool" where
  "broken t \<longleftrightarrow> tc_open t \<and> \<not> resolved {} (trace_packets t)"

lemma broken_write [intro]: "broken t \<Longrightarrow> broken (write_trace_packet p t)"
  by (simp add: broken_def trace_packets_def write_trace_packet_def resolved_append)

lemma broken_new [intro]: "broken t \<Longrightarrow> broken (write_new p t)"
  by (auto simp: write_new_def split: option.splits)

lemma broken_update [simp]:
  "broken (t\<lparr>tc_threads := a\<rparr>) = broken t" "broken (t\<lparr>tc_next_uuid := b\<rparr>) = broken t"
  "broken (t\<lparr>tc_process := b\<rparr>) = broken t" "broken (t\<lparr>tc_categories := c\<rparr>) = broken t"
  "broken (t\<lparr>tc_event_names := d\<rparr>) = broken t" "broken (t\<lparr>tc_event_bound := e, tc_log_bound := f\<rparr>) = broken t"
  by (simp_all add: broken_def trace_packets_def)

lemma broken_thread: "broken t \<Longrightarrow> broken (snd (thread_track st t))"
  by (auto simp: thread_track_def process_track_def split_beta Let_def intro!: broken_write split: option.splits)

lemma broken_category: "broken t \<Longrightarrow> broken (snd (category c t))"
  by (auto simp: category_def split_beta)

lemma broken_event_name: "broken t \<Longrightarrow> broken (snd (event_name c t))"
  by (auto simp: event_name_def split_beta)

lemma broken_encode_event: "broken t \<Longrightarrow> broken (encode_event e s t)"
  unfolding encode_event_def
  by (simp add: split_beta broken_write broken_thread broken_category broken_event_name)

lemma open_thread: "tc_open (snd (thread_track st t)) = tc_open t"
  by (auto simp: thread_track_def process_track_def split_beta Let_def intro!: broken_write split: option.splits)

lemma open_category: "tc_open (snd (category c t)) = tc_open t"
  by (auto simp: category_def write_new_def split_beta split: option.splits)

lemma known_event_breaks:
  assumes "no_name_defs t" "named (tr_identifiers s) t" "tc_open t"
  shows "broken (encode_event e s t)"
proof -
  define t1 where "t1 = snd (thread_track (relevant_event e s) t)"
  have t1: "no_name_defs t1" "named (tr_identifiers s) t1" "tc_open t1"
    using assms by (simp_all add: t1_def no_defs_thread open_thread)
  then obtain i where i: "event_name (tr_identifiers s) t1 = (i, t1)" using known_name by blast
  define t4 where "t4 = snd (category ''reaction'' (snd (category (reactor_name (tr_identifiers s)) t1)))"
  have t4: "no_name_defs t4" "tc_open t4"
    using t1 by (simp_all add: t4_def no_defs_category open_category)
  obtain th c1 c2 where "encode_event e s t = write_trace_packet (event_packet e s th i c1 c2) t4"
    using i by (simp add: encode_event_def split_beta t1_def t4_def)
  moreover have "\<not> resolved (all_defs (trace_packets t4)) (event_packet e s th i c1 c2)"
    using t4(1) by (simp add: event_packet_def no_name_defs_def)
  ultimately show ?thesis
    using t4(2) by (simp add: broken_def trace_packets_def write_trace_packet_def resolved_append)
qed

text \<open>
  A second trace file does not resolve. The interned strings, the thread tracks and the process track are
  never forgotten: after a first trace, however it went on, a second \<open>BeginTrace\<close> (handled by the same
  reaction) announces that the incremental state is cleared and at once writes an event whose name is interned
  in the first file only.
\<close>

theorem second_trace_dangling:
  assumes "tr_identifiers current' = tr_identifiers current"
  shows "\<not> resolved {} (trace_packets
     (begin_trace True logs' current'
        (end_trace (fold trace_step inputs (begin_trace True logs current new_tracer)))))"
proof -
  let ?t = "end_trace (fold trace_step inputs (begin_trace True logs current new_tracer))"
  let ?t2 = "write_trace_packet reset_packet
      (?t\<lparr>tc_event_bound := False, tc_log_bound := False, tc_packets := [], tc_open := True\<rparr>)"
  have "named (tr_identifiers current) (fold trace_step inputs (begin_trace True logs current new_tracer))"
    by (rule trace_steps_named [OF begin_trace_named])
  then have "named (tr_identifiers current') ?t2"
    using assms by (simp add: named_def end_trace_def write_trace_packet_def)
  moreover have "no_name_defs ?t2"
    by (simp add: no_name_defs_def trace_packets_def write_trace_packet_def reset_packet_def all_defs_def)
  ultimately have "broken (encode_event CREATED current' ?t2)"
    by (intro known_event_breaks) (simp_all add: write_trace_packet_def)
  then have "broken (encode_event STARTED current' (encode_event CREATED current' ?t2))"
    by (rule broken_encode_event)
  then show ?thesis by (simp add: begin_trace_def Let_def broken_def trace_packets_def)
qed

definition a_stamp :: trace_stamp where
  "a_stamp = \<lparr>st_thread = 1, st_pool = Some ''TracePool'', st_real = 10, st_cpu = 5\<rparr>"

definition some_stats :: trace_stats where
  "some_stats = \<lparr>tr_identifiers = Some (1, \<lparr>ri_name = ''b'', ri_reactor = ''T'', ri_dsl = ''d'', ri_function = ''f''\<rparr>),
     tr_task = 7, tr_created = a_stamp, tr_started = a_stamp, tr_finished = a_stamp\<rparr>"

theorem second_trace_dangling_witness:
  "\<not> resolved {} (trace_packets
     (begin_trace True False some_stats (end_trace (begin_trace True False some_stats new_tracer))))"
  using second_trace_dangling [of some_stats some_stats False "[]" False] by simp

text \<open>
  C16. A trace file resolves by itself. From a new controller whose file opens, whatever reaction events and log
  messages arrive after \<open>BeginTrace\<close>, every packet of the file refers only to interned strings and tracks that
  an earlier packet of the file defines.
\<close>

theorem trace_references_defined:
  "resolved {} (trace_packets (fold trace_step inputs (begin_trace True logs current new_tracer)))"
  using trace_steps_ok [OF begin_trace_ok] by (simp add: trace_ok_def)

end
