(* ===== verification/Nuc_Clock.thy ===== *)
theory Nuc_Clock
  imports Nuc_Prelude Complex_Main
begin

text \<open>
  The clock of the system (\<open>clock.cpp\<close>): three slots of clock data of which one is active, the base clock scaled by
  a real-time factor. Times and durations are the ticks of \<open>int64\<close> counters, far from their bounds; the double
  arithmetic of the factor is exact (\<open>rat\<close>), and \<open>duration_cast\<close> truncates towards zero. The readings of the base
  clock are arguments.
\<close>

section \<open>State and operations\<close>

record clock_data =
  cd_base_from :: int
  cd_epoch :: int
  cd_rtf :: rat

record clock =
  cl_data :: "clock_data list"
  cl_active :: nat

definition dc :: "rat \<Rightarrow> int" where
  "dc x = (if 0 \<le> x then \<lfloor>x\<rfloor> else \<lceil>x\<rceil>)"

text \<open>The three slots read the base clock one after the other when they are initialised.\<close>

definition initial_clock :: "int \<Rightarrow> int \<Rightarrow> int \<Rightarrow> clock" where
  "initial_clock b0 b1 b2 =
     \<lparr>cl_data = map (\<lambda>b. \<lparr>cd_base_from = b, cd_epoch = b, cd_rtf = 1\<rparr>) [b0, b1, b2], cl_active = 0\<rparr>"

definition data_now :: "clock_data \<Rightarrow> int \<Rightarrow> int" where
  "data_now d base = cd_epoch d + dc (of_int (base - cd_base_from d) * cd_rtf d)"

definition clock_now :: "clock \<Rightarrow> int \<Rightarrow> int" where
  "clock_now c base = data_now (cl_data c ! cl_active c) base"

definition adjust_clock :: "int \<Rightarrow> rat \<Rightarrow> int \<Rightarrow> clock \<Rightarrow> clock" where
  "adjust_clock adjustment r base c =
     (let current = cl_data c ! cl_active c; n = (cl_active c + 1) mod length (cl_data c);
          next = \<lparr>cd_base_from = base,
                   cd_epoch = cd_epoch current + adjustment + dc (of_int (base - cd_base_from current) * cd_rtf current),
                   cd_rtf = r\<rparr>
      in \<lparr>cl_data = (cl_data c)[n := next], cl_active = n\<rparr>)"

definition set_clock :: "int \<Rightarrow> rat \<Rightarrow> int \<Rightarrow> clock \<Rightarrow> clock" where
  "set_clock time r base c =
     (let n = (cl_active c + 1) mod length (cl_data c)
      in \<lparr>cl_data = (cl_data c)[n := \<lparr>cd_base_from = base, cd_epoch = time, cd_rtf = r\<rparr>], cl_active = n\<rparr>)"

definition clock_rtf :: "clock \<Rightarrow> rat" where
  "clock_rtf c = cd_rtf (cl_data c ! cl_active c)"

definition clock_wf :: "clock \<Rightarrow> bool" where
  "clock_wf c \<longleftrightarrow> length (cl_data c) = 3 \<and> cl_active c < 3"

section \<open>Readings\<close>

lemma dc_0 [simp]: "dc 0 = 0"
  by (simp add: dc_def)

lemma dc_of_int [simp]: "dc (of_int n) = n"
  by (simp add: dc_def)

lemma dc_numeral [simp]: "dc (numeral n) = numeral n"
  by (simp add: dc_def)

lemma dc_mono: "x \<le> y \<Longrightarrow> dc x \<le> dc y"
proof (cases "0 \<le> x \<or> y < 0")
  case True
  then show "x \<le> y \<Longrightarrow> dc x \<le> dc y" by (auto simp: dc_def floor_mono ceiling_mono)
next
  case False
  then have "\<lceil>x\<rceil> \<le> 0" "0 \<le> \<lfloor>y\<rfloor>" by (simp_all add: ceiling_le_iff)
  then have "\<lceil>x\<rceil> \<le> \<lfloor>y\<rfloor>" by (rule order_trans)
  then show "x \<le> y \<Longrightarrow> dc x \<le> dc y" using False by (simp add: dc_def)
qed

lemma dc_nonneg: "0 \<le> x \<Longrightarrow> 0 \<le> dc x"
  using dc_mono [of 0 x] by simp

lemma initial_clock_wf: "clock_wf (initial_clock b0 b1 b2)"
  by (simp add: clock_wf_def initial_clock_def)

lemma set_clock_wf [intro]: "clock_wf c \<Longrightarrow> clock_wf (set_clock t r b c)"
  by (simp add: clock_wf_def set_clock_def Let_def)

lemma adjust_clock_wf [intro]: "clock_wf c \<Longrightarrow> clock_wf (adjust_clock a r b c)"
  by (simp add: clock_wf_def adjust_clock_def Let_def)

lemma now_set_clock: "clock_wf c \<Longrightarrow> clock_now (set_clock t r b c) b' = t + dc (of_int (b' - b) * r)"
  by (simp add: clock_now_def data_now_def set_clock_def clock_wf_def Let_def)

lemma now_adjust_clock:
  "clock_wf c \<Longrightarrow> clock_now (adjust_clock a r b c) b' = clock_now c b + a + dc (of_int (b' - b) * r)"
  by (simp add: clock_now_def data_now_def adjust_clock_def clock_wf_def Let_def)

lemma rtf_after [simp]:
  "clock_wf c \<Longrightarrow> clock_rtf (set_clock t r b c) = r" "clock_wf c \<Longrightarrow> clock_rtf (adjust_clock a r b c) = r"
  by (simp_all add: clock_rtf_def set_clock_def adjust_clock_def clock_wf_def Let_def)

lemma clock_now_mono:
  assumes "0 \<le> clock_rtf c" "b \<le> b'"
  shows "clock_now c b \<le> clock_now c b'"
proof -
  have "rat_of_int (b - cd_base_from (cl_data c ! cl_active c)) * clock_rtf c
      \<le> of_int (b' - cd_base_from (cl_data c ! cl_active c)) * clock_rtf c"
    using assms by (intro mult_right_mono) simp_all
  then show ?thesis using dc_mono by (simp add: clock_now_def data_now_def clock_rtf_def)
qed

text \<open>
  Adjusting and setting the clock. An adjustment moves the time by exactly the given amount at the moment it is
  made, and setting the clock makes it show the given time; from then on the clock advances by the new factor:
  never backwards if it is not negative, and by exactly the elapsed base time if it is 1. A reader that copies the
  active slot without the mutex reads an intact slot as long as at most two updates happen meanwhile, and the third
  update writes to it.
\<close>

theorem clock_updates:
  assumes "clock_wf c" "b \<le> b1" "b1 \<le> b2"
  shows "clock_now (adjust_clock a r b c) b = clock_now c b + a
    \<and> clock_now (set_clock t r b c) b = t
    \<and> (\<forall>c' \<in> {adjust_clock a r b c, set_clock t r b c}.
         clock_rtf c' = r \<and> (0 \<le> r \<longrightarrow> clock_now c' b1 \<le> clock_now c' b2)
         \<and> (r = 1 \<longrightarrow> clock_now c' b2 = clock_now c' b1 + (b2 - b1)))
    \<and> cl_data (set_clock t r b (adjust_clock a' r' b c)) ! cl_active c = cl_data c ! cl_active c
    \<and> cl_active (set_clock t r b (adjust_clock a' r' b (set_clock t' r'' b c))) = cl_active c"
proof -
  have "clock_rtf c' = r \<and> (0 \<le> r \<longrightarrow> clock_now c' b1 \<le> clock_now c' b2)
      \<and> (r = 1 \<longrightarrow> clock_now c' b2 = clock_now c' b1 + (b2 - b1))"
    if c': "c' \<in> {adjust_clock a r b c, set_clock t r b c}" for c'
  proof -
    have rtf: "clock_rtf c' = r" using c' assms(1) by auto
    moreover have "clock_now c' b1 \<le> clock_now c' b2" if "0 \<le> r"
      using clock_now_mono [of c' b1 b2] rtf that assms(3) by simp
    moreover have "clock_now c' b2 = clock_now c' b1 + (b2 - b1)" if "r = 1"
      using c' that assms(1) by (auto simp: now_adjust_clock now_set_clock simp flip: of_int_diff)
    ultimately show ?thesis by blast
  qed
  moreover have "cl_active c = 0 \<or> cl_active c = 1 \<or> cl_active c = 2" "length (cl_data c) = 3"
    using assms(1) by (auto simp: clock_wf_def)
  then have "cl_data (set_clock t r b (adjust_clock a' r' b c)) ! cl_active c = cl_data c ! cl_active c"
    "cl_active (set_clock t r b (adjust_clock a' r' b (set_clock t' r'' b c))) = cl_active c"
    by (auto simp: set_clock_def adjust_clock_def Let_def)
  ultimately show ?thesis
    using assms(1) by (simp add: now_adjust_clock now_set_clock)
qed

theorem clock_updates_witness:
  "clock_now (adjust_clock 100 (1/2) 10 (initial_clock 0 1 2)) 10 = clock_now (initial_clock 0 1 2) 10 + 100
   \<and> clock_now (set_clock 7 (1/2) 10 (initial_clock 0 1 2)) 20 \<le> clock_now (set_clock 7 (1/2) 10 (initial_clock 0 1 2)) 30"
  using clock_updates [OF initial_clock_wf, where b = 10 and ?b1.0 = 20 and ?b2.0 = 30 and a = 100 and r = "1/2" and t = 7]
  by simp

end
