(* ===== verification/Std_Heap.thy ===== *)
theory Std_Heap
  imports Nuc_Prelude
begin

text \<open>
  The binary heap algorithms of the standard library on a vector, as \<open>std::push_heap\<close>, \<open>std::pop_heap\<close> and
  \<open>std::make_heap\<close> with \<open>std::greater\<close> are used by the chrono controller: the element with the smallest key is at
  the front. The interface \<open>vector_heap\<close> is what the controller relies on; it asks more of \<open>pop_heap\<close> than the
  standard does, because the controller changes the front before it pops it.
\<close>

section \<open>The algorithms\<close>

definition parent :: "nat \<Rightarrow> nat" where
  "parent i = (i - 1) div 2"

definition swap :: "'a list \<Rightarrow> nat \<Rightarrow> nat \<Rightarrow> 'a list" where
  "swap xs i j = xs[i := xs ! j, j := xs ! i]"

function sift_up :: "('a \<Rightarrow> 'b::linorder) \<Rightarrow> 'a list \<Rightarrow> nat \<Rightarrow> 'a list" where
  "sift_up key xs i =
     (if 0 < i \<and> key (xs ! i) < key (xs ! parent i) then sift_up key (swap xs i (parent i)) (parent i) else xs)"
  by pat_completeness auto
termination by (relation "measure (\<lambda>(key, xs, i). i)") (auto simp: parent_def)

declare sift_up.simps [simp del]

definition least_child :: "('a \<Rightarrow> 'b::linorder) \<Rightarrow> 'a list \<Rightarrow> nat \<Rightarrow> nat" where
  "least_child key xs i =
     (if 2 * i + 2 < length xs \<and> key (xs ! (2 * i + 2)) < key (xs ! (2 * i + 1)) then 2 * i + 2 else 2 * i + 1)"

function sift_down :: "('a \<Rightarrow> 'b::linorder) \<Rightarrow> 'a list \<Rightarrow> nat \<Rightarrow> 'a list" where
  "sift_down key xs i =
     (if length xs \<le> 2 * i + 1 then xs
      else let c = least_child key xs i in if key (xs ! c) < key (xs ! i) then sift_down key (swap xs i c) c else xs)"
  by pat_completeness auto
termination
  by (relation "measure (\<lambda>(key, xs, i). length xs - i)") (auto simp: swap_def least_child_def split: if_splits)

declare sift_down.simps [simp del]

definition push_heap :: "('a \<Rightarrow> 'b::linorder) \<Rightarrow> 'a list \<Rightarrow> 'a list" where
  "push_heap key xs = sift_up key xs (length xs - 1)"

definition pop_heap :: "('a \<Rightarrow> 'b::linorder) \<Rightarrow> 'a list \<Rightarrow> 'a list" where
  "pop_heap key xs =
     (if length xs \<le> 1 then xs else sift_down key ((butlast xs)[0 := last xs]) 0 @ [hd xs])"

definition make_heap :: "('a \<Rightarrow> 'b::linorder) \<Rightarrow> 'a list \<Rightarrow> 'a list" where
  "make_heap key xs = foldr (\<lambda>i ys. sift_down key ys i) [0..<length xs div 2] xs"

text \<open>\<open>heap_from key k xs\<close>: the heap order holds below every node from \<open>k\<close> on; a heap from 0 is a heap.\<close>

definition heap_from :: "('a \<Rightarrow> 'b::linorder) \<Rightarrow> nat \<Rightarrow> 'a list \<Rightarrow> bool" where
  "heap_from key k xs \<longleftrightarrow> (\<forall>i \<in> {1..<length xs}. k \<le> parent i \<longrightarrow> key (xs ! parent i) \<le> key (xs ! i))"

abbreviation is_heap :: "('a \<Rightarrow> 'b::linorder) \<Rightarrow> 'a list \<Rightarrow> bool" where
  "is_heap key xs \<equiv> heap_from key 0 xs"

section \<open>Permutation\<close>

lemma length_swap [simp]: "length (swap xs i j) = length xs"
  by (simp add: swap_def)

lemma mset_swap_list: "i < length xs \<Longrightarrow> j < length xs \<Longrightarrow> mset (swap xs i j) = mset xs"
  unfolding swap_def by (metis mset_swap)

lemma nth_swap:
  "i < length xs \<Longrightarrow> j < length xs \<Longrightarrow> swap xs i j ! k = (if k = j then xs ! i else if k = i then xs ! j else xs ! k)"
  by (auto simp: swap_def nth_list_update)

lemma parent_less: "0 < i \<Longrightarrow> parent i < i"
  by (auto simp: parent_def)

lemma parent_children [simp]: "parent (2 * i + 1) = i" "parent (2 * i + 2) = i" "parent (Suc (2 * i)) = i"
    "parent (Suc (Suc (2 * i))) = i"
  by (simp_all add: parent_def)

lemma parent_cases: "0 < j \<Longrightarrow> parent j = i \<longleftrightarrow> j = 2 * i + 1 \<or> j = 2 * i + 2"
  by (auto simp: parent_def)

lemma mset_sift_up: "i < length xs \<Longrightarrow> mset (sift_up key xs i) = mset xs"
proof (induction key xs i rule: sift_up.induct)
  case (1 key xs i)
  show ?case
    using 1 parent_less [of i] by (subst sift_up.simps) (auto simp: mset_swap_list)
qed

lemma mset_sift_down: "mset (sift_down key xs i) = mset xs"
proof (induction key xs i rule: sift_down.induct)
  case (1 key xs i)
  show ?case
    using 1 by (subst sift_down.simps) (auto simp: Let_def mset_swap_list least_child_def)
qed

lemma length_sift [simp]: "length (sift_down key xs i) = length xs"
  by (metis mset_sift_down size_mset)

section \<open>Order\<close>

text \<open>Sifting up repairs a heap broken only between \<open>i\<close> and its parent.\<close>

lemma sift_up_heap:
  assumes "i < length xs"
    and "\<forall>j \<in> {1..<length xs}. j \<noteq> i \<longrightarrow> key (xs ! parent j) \<le> key (xs ! j)"
    and "\<forall>j \<in> {1..<length xs}. parent j = i \<and> 0 < i \<longrightarrow> key (xs ! parent i) \<le> key (xs ! j)"
  shows "is_heap key (sift_up key xs i)"
  using assms
proof (induction key xs i rule: sift_up.induct)
  case (1 key xs i)
  let ?p = "parent i"
  show ?case
  proof (cases "0 < i \<and> key (xs ! i) < key (xs ! ?p)")
    case True
    then have p: "?p < i" "?p < length xs" using 1(2) parent_less [of i] by simp_all
    let ?ys = "swap xs i ?p"
    have nth: "?ys ! k = (if k = ?p then xs ! i else if k = i then xs ! ?p else xs ! k)" for k
      using p 1(2) by (simp add: nth_swap)
    have up: "key (xs ! parent ?p) \<le> key (xs ! ?p)" if "0 < ?p"
      using 1(3) p that by auto
    have "is_heap key (sift_up key ?ys ?p)"
    proof (rule 1(1) [OF True])
      show "?p < length ?ys" using p by simp
      show "\<forall>j \<in> {1..<length ?ys}. j \<noteq> ?p \<longrightarrow> key (?ys ! parent j) \<le> key (?ys ! j)"
      proof (intro ballI impI)
        fix j assume j: "j \<in> {1..<length ?ys}" "j \<noteq> ?p"
        then have pj: "parent j < j" using parent_less [of j] by simp
        have old: "j \<noteq> i \<Longrightarrow> key (xs ! parent j) \<le> key (xs ! j)" using 1(3) j by auto
        have "parent j = i \<Longrightarrow> key (xs ! ?p) \<le> key (xs ! j)" using 1(4) j True by auto
        then show "key (?ys ! parent j) \<le> key (?ys ! j)"
          using old True pj j unfolding nth by (auto dest: order.strict_implies_order order_trans)
      qed
      show "\<forall>j \<in> {1..<length ?ys}. parent j = ?p \<and> 0 < ?p \<longrightarrow> key (?ys ! parent ?p) \<le> key (?ys ! j)"
      proof (intro ballI impI)
        fix j assume j: "j \<in> {1..<length ?ys}" "parent j = ?p \<and> 0 < ?p"
        then have pp: "parent ?p < ?p" "parent j < j" using parent_less [of "?p"] parent_less [of j] by simp_all
        have "j \<noteq> i \<Longrightarrow> key (xs ! parent j) \<le> key (xs ! j)" using 1(3) j by auto
        then show "key (?ys ! parent ?p) \<le> key (?ys ! j)"
          using up j pp p unfolding nth by (auto intro: order_trans)
      qed
    qed
    then show ?thesis using True by (simp add: sift_up.simps [of key xs i])
  next
    case False
    then have "key (xs ! parent j) \<le> key (xs ! j)" if "j \<in> {1..<length xs}" for j
      using 1(3) that by (cases "j = i") auto
    then show ?thesis using False by (subst sift_up.simps) (auto simp: heap_from_def)
  qed
qed

text \<open>Sifting down repairs a heap broken only between \<open>i\<close> and its children.\<close>

lemma sift_down_heap:
  assumes "\<forall>j \<in> {1..<length xs}. k \<le> parent j \<and> parent j \<noteq> i \<longrightarrow> key (xs ! parent j) \<le> key (xs ! j)"
    and "\<forall>j \<in> {1..<length xs}. parent j = i \<and> 0 < i \<and> k \<le> parent i \<longrightarrow> key (xs ! parent i) \<le> key (xs ! j)"
    and "k \<le> i"
  shows "heap_from key k (sift_down key xs i)"
  using assms
proof (induction key xs i rule: sift_down.induct)
  case (1 key xs i)
  define c where "c = least_child key xs i"
  show ?case
  proof (cases "length xs \<le> 2 * i + 1")
    case True
    then have "parent j \<noteq> i" if "j \<in> {1..<length xs}" for j
      using that parent_cases [of j i] by auto
    then show ?thesis using True 1(2) by (subst sift_down.simps) (simp add: heap_from_def)
  next
    case False
    have c: "c < length xs" "parent c = i" "i < c" "0 < c"
      using False by (auto simp: c_def least_child_def)
    have least: "key (xs ! c) \<le> key (xs ! j)" if "j \<in> {1..<length xs}" "parent j = i" for j
      using that parent_cases [of j i] by (auto simp: c_def least_child_def not_less)
    show ?thesis
    proof (cases "key (xs ! c) < key (xs ! i)")
      case True
      let ?ys = "swap xs i c"
      have nth: "?ys ! m = (if m = c then xs ! i else if m = i then xs ! c else xs ! m)" for m
        using c by (simp add: nth_swap)
      have "heap_from key k (sift_down key ?ys c)"
      proof (rule 1(1) [OF False c_def True])
        show "\<forall>j \<in> {1..<length ?ys}. k \<le> parent j \<and> parent j \<noteq> c \<longrightarrow> key (?ys ! parent j) \<le> key (?ys ! j)"
        proof (intro ballI impI)
          fix j assume j: "j \<in> {1..<length ?ys}" "k \<le> parent j \<and> parent j \<noteq> c"
          then have j': "j \<in> {1..<length xs}" by simp
          have old: "parent j \<noteq> i \<Longrightarrow> key (xs ! parent j) \<le> key (xs ! j)" using 1(2) j by auto
          have up: "j = i \<Longrightarrow> key (xs ! parent i) \<le> key (xs ! c)" using 1(3) j c by auto
          have "parent j < j" using j parent_less [of j] by simp
          then show "key (?ys ! parent j) \<le> key (?ys ! j)"
            using old up True j least [OF j'] c unfolding nth by auto
        qed
        show "\<forall>j \<in> {1..<length ?ys}. parent j = c \<and> 0 < c \<and> k \<le> parent c \<longrightarrow> key (?ys ! parent c) \<le> key (?ys ! j)"
        proof (intro ballI impI)
          fix j assume j: "j \<in> {1..<length ?ys}" "parent j = c \<and> 0 < c \<and> k \<le> parent c"
          then have "parent j < j" using parent_less [of j] by simp
          moreover have "key (xs ! c) \<le> key (xs ! j)" using 1(2,4) j c by auto
          ultimately show "key (?ys ! parent c) \<le> key (?ys ! j)"
            using j c unfolding nth by auto
        qed
        show "k \<le> c" using 1(4) c by simp
      qed
      then show ?thesis using True False by (subst sift_down.simps) (simp add: c_def [symmetric] Let_def)
    next
      case False': False
      have "key (xs ! parent j) \<le> key (xs ! j)" if "j \<in> {1..<length xs}" "k \<le> parent j" for j
        using 1(2) that least [OF that(1)] False' by (cases "parent j = i") auto
      then show ?thesis using False False'
        by (subst sift_down.simps) (simp add: c_def [symmetric] Let_def heap_from_def)
    qed
  qed
qed

lemma heap_front_least:
  assumes "is_heap key xs" "i < length xs"
  shows "key (xs ! 0) \<le> key (xs ! i)"
  using assms(2)
proof (induction i rule: less_induct)
  case (less i)
  show ?case
  proof (cases "i = 0")
    case False
    then have "key (xs ! 0) \<le> key (xs ! parent i)" "key (xs ! parent i) \<le> key (xs ! i)"
      using less parent_less [of i] assms(1) by (auto simp: heap_from_def)
    then show ?thesis by (rule order_trans)
  qed simp
qed

lemma push_heap_ok:
  assumes "is_heap key xs"
  shows "is_heap key (push_heap key (xs @ [x]))" "mset (push_heap key (xs @ [x])) = add_mset x (mset xs)"
proof -
  have old: "key ((xs @ [x]) ! parent j) \<le> key ((xs @ [x]) ! j)" if "j \<in> {1..<length xs}" for j
    using that assms parent_less [of j] by (auto simp: nth_append heap_from_def)
  show "is_heap key (push_heap key (xs @ [x]))"
    unfolding push_heap_def
  proof (intro sift_up_heap)
    show "length (xs @ [x]) - 1 < length (xs @ [x])" by simp
    show "\<forall>j \<in> {1..<length (xs @ [x])}. j \<noteq> length (xs @ [x]) - 1 \<longrightarrow> key ((xs @ [x]) ! parent j) \<le> key ((xs @ [x]) ! j)"
      using old by auto
    have "parent j \<noteq> length xs" if "j \<in> {1..<length (xs @ [x])}" for j
      using that parent_less [of j] by auto
    then show "\<forall>j \<in> {1..<length (xs @ [x])}. parent j = length (xs @ [x]) - 1 \<and> 0 < length (xs @ [x]) - 1 \<longrightarrow>
        key ((xs @ [x]) ! parent (length (xs @ [x]) - 1)) \<le> key ((xs @ [x]) ! j)"
      by simp
  qed
qed (simp add: push_heap_def mset_sift_up)

lemma heap_new_front: "is_heap key (x # xs) \<Longrightarrow> heap_from key 1 (y # xs)"
  by (auto simp: heap_from_def nth_Cons split: nat.splits)

lemma pop_heap_ok:
  assumes "heap_from key 1 xs" "xs \<noteq> []"
  shows "is_heap key (butlast (pop_heap key xs))" "last (pop_heap key xs) = hd xs" "mset (pop_heap key xs) = mset xs"
proof -
  obtain x ys where xs: "xs = x # ys" using assms(2) by (cases xs) auto
  show "is_heap key (butlast (pop_heap key xs))"
  proof (cases "length xs \<le> 1")
    case True
    then show ?thesis by (simp add: pop_heap_def heap_from_def)
  next
    case False
    let ?ys = "(butlast xs)[0 := last xs]"
    have "key (?ys ! parent j) \<le> key (?ys ! j)" if "j \<in> {1..<length ?ys}" "parent j \<noteq> 0" for j
      using that assms(1) parent_less [of j] by (auto simp: nth_butlast nth_list_update heap_from_def)
    then have "is_heap key (sift_down key ?ys 0)" by (intro sift_down_heap) auto
    then show ?thesis using False by (simp add: pop_heap_def)
  qed
  show "last (pop_heap key xs) = hd xs"
    using xs by (auto simp: pop_heap_def)
  have "mset ((butlast xs)[0 := last xs]) + {#hd xs#} = mset xs" if "\<not> length xs \<le> 1"
  proof -
    have "ys \<noteq> []" using xs that by auto
    then have "mset ys = add_mset (last ys) (mset (butlast ys))" by (cases ys rule: rev_cases) simp_all
    then show ?thesis using \<open>ys \<noteq> []\<close> xs by simp
  qed
  then show "mset (pop_heap key xs) = mset xs" by (simp add: pop_heap_def mset_sift_down)
qed

lemma make_heap_ok: "is_heap key (make_heap key xs)" "mset (make_heap key xs) = mset xs"
proof -
  let ?h = "\<lambda>m. foldr (\<lambda>i ys. sift_down key ys i) [m..<length xs div 2] xs"
  have len: "length (foldr (\<lambda>i ys. sift_down key ys i) is xs) = length xs"
    and perm: "mset (foldr (\<lambda>i ys. sift_down key ys i) is xs) = mset xs" for "is"
    by (induction "is") (simp_all add: mset_sift_down)
  show "mset (make_heap key xs) = mset xs" unfolding make_heap_def by (rule perm)
  have "heap_from key m (?h m)" if "m \<le> length xs div 2" for m
    using that
  proof (induction m rule: inc_induct)
    case base
    have "\<not> length xs div 2 \<le> parent j" if "j \<in> {1..<length xs}" for j
      using that by (auto simp: parent_def)
    then show ?case by (auto simp: heap_from_def)
  next
    case (step m)
    have "heap_from key m (sift_down key (?h (Suc m)) m)"
      using step.IH unfolding heap_from_def
      by (intro sift_down_heap [unfolded heap_from_def]) (auto simp: Suc_le_eq dest: parent_less)
    then show ?case using step.hyps by (simp add: upt_conv_Cons)
  qed
  from this [of 0] show "is_heap key (make_heap key xs)" by (simp add: make_heap_def)
qed

section \<open>The interface\<close>

locale vector_heap =
  fixes key :: "'a \<Rightarrow> 'b::linorder" and push pop mk :: "'a list \<Rightarrow> 'a list"
  assumes push_heap: "is_heap key xs \<Longrightarrow> is_heap key (push (xs @ [x]))"
    and push_mset: "is_heap key xs \<Longrightarrow> mset (push (xs @ [x])) = add_mset x (mset xs)"
    and pop_front: "heap_from key 1 xs \<Longrightarrow> xs \<noteq> [] \<Longrightarrow> last (pop xs) = hd xs"
    and pop_rest: "heap_from key 1 xs \<Longrightarrow> xs \<noteq> [] \<Longrightarrow> is_heap key (butlast (pop xs))"
    and pop_mset: "heap_from key 1 xs \<Longrightarrow> xs \<noteq> [] \<Longrightarrow> mset (pop xs) = mset xs"
    and make_is_heap: "is_heap key (mk xs)"
    and make_mset: "mset (mk xs) = mset xs"
begin

lemma pop_split:
  assumes "is_heap key (x # xs)"
  shows "pop (y # xs) = butlast (pop (y # xs)) @ [y]"
proof -
  have h: "heap_from key 1 (y # xs)" using assms by (rule heap_new_front)
  have "pop (y # xs) \<noteq> []" using pop_mset [OF h] by auto
  then show ?thesis using pop_front [OF h] by (metis append_butlast_last_id list.distinct(1) list.sel(1))
qed

text \<open>The front replaced and put back, and the front removed: whatever its new key, a heap of the right elements.\<close>

lemma requeue_front:
  assumes "is_heap key (x # xs)"
  shows "is_heap key (push (pop (y # xs)))" "mset (push (pop (y # xs))) = add_mset y (mset xs)"
proof -
  let ?ts = "butlast (pop (y # xs))"
  have h: "heap_from key 1 (y # xs)" using assms by (rule heap_new_front)
  have ts: "is_heap key ?ts" using pop_rest [OF h] by simp
  have eq: "pop (y # xs) = ?ts @ [y]" by (rule pop_split [OF assms])
  have "add_mset y (mset ?ts) = add_mset y (mset xs)"
    using pop_mset [OF h] arg_cong [OF eq, of mset] by simp
  then show "is_heap key (push (pop (y # xs)))" "mset (push (pop (y # xs))) = add_mset y (mset xs)"
    using push_heap [OF ts, of y] push_mset [OF ts, of y] eq by simp_all
qed

lemma remove_front:
  assumes "is_heap key (x # xs)"
  shows "is_heap key (butlast (pop (y # xs)))" "mset (butlast (pop (y # xs))) = mset xs"
proof -
  have h: "heap_from key 1 (y # xs)" using assms by (rule heap_new_front)
  show "is_heap key (butlast (pop (y # xs)))" using pop_rest [OF h] by simp
  show "mset (butlast (pop (y # xs))) = mset xs"
    using pop_mset [OF h] arg_cong [OF pop_split [OF assms, of y], of mset] by simp
qed

end

interpretation std: vector_heap key "push_heap key" "pop_heap key" "make_heap key" for key :: "'a \<Rightarrow> 'b::linorder"
  by unfold_locales (simp_all add: push_heap_ok pop_heap_ok make_heap_ok)

end
