(* ===== verification/Chrono_Control.thy ===== *)
theory Chrono_Control
  imports Nuc_Clock Std_Heap
begin

text \<open>
  The chrono controller (\<open>extension/ChronoController.cpp\<close>) with the tasks the sources give it: \<open>Every\<close>, \<open>Watchdog\<close>
  with its data store, and delayed emissions. The controller's mutex makes its reactions and the parts of its loop
  atomic; a step of the model is such a part, and \<open>Elapse\<close> lets the base clock run between them.
\<close>

section \<open>The world of a chrono task\<close>

text \<open>
  A watchdog store is indexed by the group and the runtime argument, if any; \<open>cw_events\<close> is what the tasks have
  submitted and emitted so far.
\<close>

type_synonym watchdog_key = "nat \<times> nat option"

datatype chrono_event = Submitted nid | Emitted nat

record chrono_world =
  cw_clock :: clock
  cw_base :: int
  cw_store :: "watchdog_key \<rightharpoonup> int"
  cw_events :: "chrono_event list"

definition world_now :: "chrono_world \<Rightarrow> int" where
  "world_now w = clock_now (cw_clock w) (cw_base w)"

definition elapse :: "nat \<Rightarrow> chrono_world \<Rightarrow> chrono_world" where
  "elapse d w = w\<lparr>cw_base := cw_base w + int d\<rparr>"

definition happen :: "chrono_event \<Rightarrow> chrono_world \<Rightarrow> chrono_world" where
  "happen e w = w\<lparr>cw_events := cw_events w @ [e]\<rparr>"

text \<open>
  A task is a function of its time that returns whether to renew, with the time it has set; \<open>None\<close> if it throws,
  which the functions of the sources do only before they change anything.
\<close>

type_synonym chrono_fun = "chrono_world \<Rightarrow> int \<Rightarrow> (bool \<times> int \<times> chrono_world) option"

record chrono_task =
  ct_task :: chrono_fun
  ct_time :: int
  ct_id :: nid

definition every_fun :: "nid \<Rightarrow> int \<Rightarrow> chrono_fun" where
  "every_fun reaction jump w time = Some (True, time + jump, happen (Submitted reaction) w)"

definition delay_fun :: "nat \<Rightarrow> chrono_fun" where
  "delay_fun data w time = Some (False, time, happen (Emitted data) w)"

section \<open>Watchdogs\<close>

definition watchdog_init :: "watchdog_key \<Rightarrow> chrono_world \<Rightarrow> chrono_world" where
  "watchdog_init k w = (if cw_store w k = None then w\<lparr>cw_store := (cw_store w)(k \<mapsto> world_now w)\<rparr> else w)"

definition watchdog_get :: "watchdog_key \<Rightarrow> chrono_world \<Rightarrow> int option" where
  "watchdog_get k w = cw_store w k"

definition watchdog_service :: "watchdog_key \<Rightarrow> int \<Rightarrow> chrono_world \<Rightarrow> chrono_world option" where
  "watchdog_service k when w =
     (case cw_store w k of None \<Rightarrow> None | Some s \<Rightarrow> Some (w\<lparr>cw_store := (cw_store w)(k \<mapsto> when)\<rparr>))"

definition watchdog_unbind :: "watchdog_key \<Rightarrow> chrono_world \<Rightarrow> chrono_world" where
  "watchdog_unbind k w = w\<lparr>cw_store := (cw_store w)(k := None)\<rparr>"

definition watchdog_task :: "nid \<Rightarrow> int \<Rightarrow> int \<Rightarrow> chrono_fun" where
  "watchdog_task reaction period service_time w time =
     (if service_time + period < world_now w then Some (True, time + period, happen (Submitted reaction) w)
      else Some (True, service_time + period, w))"

definition watchdog_fun :: "nid \<Rightarrow> watchdog_key \<Rightarrow> int \<Rightarrow> chrono_fun" where
  "watchdog_fun reaction k period w time =
     (case watchdog_get k w of None \<Rightarrow> None | Some s \<Rightarrow> watchdog_task reaction period s w time)"

section \<open>The controller\<close>

text \<open>
  \<open>ch_waiting\<close> is the target of the timed wait on the condition variable the loop is in, if it is in one; only this
  wait has an effect when it ends.
\<close>

record chrono =
  ch_tasks :: "chrono_task list"
  ch_running :: bool
  ch_cv :: int
  ch_ns :: int
  ch_waiting :: "int option"

definition new_chrono :: "int \<Rightarrow> int \<Rightarrow> chrono" where
  "new_chrono cv ns = \<lparr>ch_tasks = [], ch_running = True, ch_cv = cv, ch_ns = ns, ch_waiting = None\<rparr>"

definition add_chrono_task :: "chrono_task \<Rightarrow> chrono \<Rightarrow> chrono" where
  "add_chrono_task t ch =
     (if ch_running ch then ch\<lparr>ch_tasks := push_heap ct_time (ch_tasks ch @ [t])\<rparr> else ch)"

definition unbind_chrono_task :: "nid \<Rightarrow> chrono \<Rightarrow> chrono" where
  "unbind_chrono_task i ch =
     (if \<exists>t \<in> set (ch_tasks ch). ct_id t = i
      then ch\<lparr>ch_tasks := make_heap ct_time (erase_first (\<lambda>t. ct_id t = i) (ch_tasks ch))\<rparr> else ch)"

definition shutdown_chrono :: "chrono \<Rightarrow> chrono" where
  "shutdown_chrono ch = ch\<lparr>ch_running := False\<rparr>"

datatype travel_action = RELATIVE_TRAVEL | ABSOLUTE_TRAVEL | NEAREST_TRAVEL

definition travel_clock :: "int \<Rightarrow> rat \<Rightarrow> chrono_world \<Rightarrow> chrono_world" where
  "travel_clock t r w = w\<lparr>cw_clock := set_clock t r (cw_base w) (cw_clock w)\<rparr>"

text \<open>\<open>lag\<close>: the base time that passes between the two readings of a relative travel.\<close>

definition time_travel :: "travel_action \<Rightarrow> int \<Rightarrow> rat \<Rightarrow> nat \<Rightarrow> chrono_world \<times> chrono \<Rightarrow> chrono_world \<times> chrono" where
  "time_travel a target r lag s =
     (let (w, ch) = s
      in case a of
        ABSOLUTE_TRAVEL \<Rightarrow> (travel_clock target r w, ch)
      | RELATIVE_TRAVEL \<Rightarrow>
          (let adjustment = target - world_now w
           in (travel_clock target r (elapse lag w),
               ch\<lparr>ch_tasks := map (\<lambda>t. t\<lparr>ct_time := ct_time t + adjustment\<rparr>) (ch_tasks ch)\<rparr>))
      | NEAREST_TRAVEL \<Rightarrow>
          (let nearest = (if ch_tasks ch = [] then target else min target (Min (ct_time ` set (ch_tasks ch))))
           in (travel_clock nearest r w, ch)))"

text \<open>The running average of how late a wait ended.\<close>

definition update_accuracy :: "int \<Rightarrow> int \<Rightarrow> int \<Rightarrow> int" where
  "update_accuracy acc end_time target =
     (let err = end_time - (target - acc)
      in if 0 < err then (if acc < err then err else (acc * 99 + err) div 100) else acc)"

text \<open>
  One pass of the loop, up to a wait: \<open>lag\<close> is the base time from the reading of \<open>start\<close> to the end of the part that
  holds the mutex (the task run, the precise sleep). A paused clock, an empty list and the spin loop only wait. A
  task that throws ends the reaction; the idle task of \<open>Always\<close> starts it again with the state as it is.
\<close>

definition chrono_iteration :: "nat \<Rightarrow> chrono_world \<times> chrono \<Rightarrow> chrono_world \<times> chrono" where
  "chrono_iteration lag s =
     (let (w, ch) = s; start = world_now w; w1 = elapse lag w
      in if \<not> ch_running ch \<or> ch_waiting ch \<noteq> None then (w, ch)
         else case ch_tasks ch of
           [] \<Rightarrow> (w, ch)
         | x # rest \<Rightarrow>
             if ct_time x \<le> start then
               (case ct_task x w1 (ct_time x) of
                  None \<Rightarrow> (w1, ch)
                | Some (renew, t, w2) \<Rightarrow>
                    (let ts = pop_heap ct_time (x\<lparr>ct_time := t\<rparr> # rest)
                     in (w2, ch\<lparr>ch_tasks := (if renew then push_heap ct_time ts else butlast ts)\<rparr>)))
             else
               (let r = clock_rtf (cw_clock w); until = dc (of_int (ct_time x - start) / r)
                in if r = 0 then (w1, ch)
                   else if ch_cv ch < until then (w1, ch\<lparr>ch_waiting := Some (ct_time x)\<rparr>)
                   else if ch_ns ch < until then (w1, ch\<lparr>ch_ns := update_accuracy (ch_ns ch) (world_now w1) (ct_time x)\<rparr>)
                   else (w1, ch)))"

definition finish_wait :: "chrono_world \<times> chrono \<Rightarrow> chrono_world \<times> chrono" where
  "finish_wait s =
     (let (w, ch) = s
      in case ch_waiting ch of
        None \<Rightarrow> (w, ch)
      | Some target \<Rightarrow> (w, ch\<lparr>ch_cv := update_accuracy (ch_cv ch) (world_now w) target, ch_waiting := None\<rparr>))"

text \<open>Binding and emitting.\<close>

definition bind_every :: "nid \<Rightarrow> int \<Rightarrow> chrono_world \<times> chrono \<Rightarrow> chrono_world \<times> chrono" where
  "bind_every reaction jump s =
     (let (w, ch) = s
      in (w, add_chrono_task \<lparr>ct_task = every_fun reaction jump, ct_time = world_now w + jump, ct_id = reaction\<rparr> ch))"

definition emit_at :: "nat \<Rightarrow> int \<Rightarrow> chrono_world \<times> chrono \<Rightarrow> chrono_world \<times> chrono" where
  "emit_at data at_time s =
     (let (w, ch) = s in (w, add_chrono_task \<lparr>ct_task = delay_fun data, ct_time = at_time, ct_id = -1\<rparr> ch))"

definition emit_delay :: "nat \<Rightarrow> int \<Rightarrow> chrono_world \<times> chrono \<Rightarrow> chrono_world \<times> chrono" where
  "emit_delay data delay s = emit_at data (world_now (fst s) + delay) s"

definition bind_watchdog :: "nid \<Rightarrow> watchdog_key \<Rightarrow> int \<Rightarrow> chrono_world \<times> chrono \<Rightarrow> chrono_world \<times> chrono" where
  "bind_watchdog reaction k period s =
     (let (w, ch) = s; w1 = watchdog_init k w
      in (w1, add_chrono_task \<lparr>ct_task = watchdog_fun reaction k period, ct_time = world_now w1 + period, ct_id = reaction\<rparr> ch))"

definition unbind_watchdog :: "nid \<Rightarrow> watchdog_key \<Rightarrow> chrono_world \<times> chrono \<Rightarrow> chrono_world \<times> chrono" where
  "unbind_watchdog reaction k s = (let (w, ch) = s in (watchdog_unbind k w, unbind_chrono_task reaction ch))"

definition unbind_every :: "nid \<Rightarrow> chrono_world \<times> chrono \<Rightarrow> chrono_world \<times> chrono" where
  "unbind_every reaction s = (let (w, ch) = s in (w, unbind_chrono_task reaction ch))"

definition service_watchdog :: "watchdog_key \<Rightarrow> int \<Rightarrow> chrono_world \<times> chrono \<Rightarrow> chrono_world \<times> chrono" where
  "service_watchdog k when s =
     (let (w, ch) = s in (case watchdog_service k when w of None \<Rightarrow> (w, ch) | Some w1 \<Rightarrow> (w1, ch)))"

datatype chrono_op =
    BindEvery nid int | UnbindEvery nid | BindWatchdog nid watchdog_key int | UnbindWatchdog nid watchdog_key
  | ServiceDog watchdog_key int | EmitDelay nat int | EmitAt nat int | AddTask chrono_task | Travel travel_action int rat nat
  | Iterate nat | FinishWait | Elapse nat | ShutdownChrono

fun chrono_step :: "chrono_op \<Rightarrow> chrono_world \<times> chrono \<Rightarrow> chrono_world \<times> chrono" where
  "chrono_step (BindEvery i j) s = bind_every i j s"
| "chrono_step (UnbindEvery i) s = unbind_every i s"
| "chrono_step (BindWatchdog i k p) s = bind_watchdog i k p s"
| "chrono_step (UnbindWatchdog i k) s = unbind_watchdog i k s"
| "chrono_step (ServiceDog k t) s = service_watchdog k t s"
| "chrono_step (EmitDelay d t) s = emit_delay d t s"
| "chrono_step (EmitAt d t) s = emit_at d t s"
| "chrono_step (AddTask t) s = (fst s, add_chrono_task t (snd s))"
| "chrono_step (Travel a t r lag) s = time_travel a t r lag s"
| "chrono_step (Iterate lag) s = chrono_iteration lag s"
| "chrono_step FinishWait s = finish_wait s"
| "chrono_step (Elapse d) s = (elapse d (fst s), snd s)"
| "chrono_step ShutdownChrono s = (fst s, shutdown_chrono (snd s))"

section \<open>The heap of tasks\<close>

abbreviation task_heap :: "chrono_world \<times> chrono \<Rightarrow> bool" where
  "task_heap s \<equiv> is_heap ct_time (ch_tasks (snd s))"

lemma heap_add [intro]: "is_heap ct_time (ch_tasks ch) \<Longrightarrow> is_heap ct_time (ch_tasks (add_chrono_task t ch))"
  by (simp add: add_chrono_task_def std.push_heap)

lemma heap_unbind [intro]: "is_heap ct_time (ch_tasks ch) \<Longrightarrow> is_heap ct_time (ch_tasks (unbind_chrono_task i ch))"
  by (simp add: unbind_chrono_task_def std.make_is_heap)

lemma heap_shift:
  "is_heap ct_time (map (\<lambda>t. t\<lparr>ct_time := ct_time t + d\<rparr>) ts) \<longleftrightarrow> is_heap ct_time ts"
proof -
  let ?us = "map (\<lambda>t. t\<lparr>ct_time := ct_time t + d\<rparr>) ts"
  have "(ct_time (?us ! parent i) \<le> ct_time (?us ! i)) = (ct_time (ts ! parent i) \<le> ct_time (ts ! i))"
    if "i \<in> {1..<length ts}" for i
    using that parent_less [of i] by auto
  then show ?thesis by (simp add: heap_from_def)
qed

lemma heap_travel: "task_heap s \<Longrightarrow> task_heap (time_travel a t r lag s)"
  by (cases a) (auto simp: time_travel_def split_beta Let_def heap_shift)

lemma iteration_tasks:
  assumes "ch_tasks ch = x # rest" "is_heap ct_time (x # rest)"
  shows "is_heap ct_time (ch_tasks (snd (chrono_iteration lag (w, ch))))
    \<and> (ch_running ch \<and> ch_waiting ch = None \<and> ct_time x \<le> world_now w \<longrightarrow>
         (case ct_task x (elapse lag w) (ct_time x) of
            None \<Rightarrow> chrono_iteration lag (w, ch) = (elapse lag w, ch)
          | Some (renew, t, w2) \<Rightarrow>
              fst (chrono_iteration lag (w, ch)) = w2
              \<and> mset (ch_tasks (snd (chrono_iteration lag (w, ch)))) =
                  (if renew then add_mset (x\<lparr>ct_time := t\<rparr>) (mset rest) else mset rest)))"
  using assms std.requeue_front [OF assms(2)] std.remove_front [OF assms(2)]
  by (auto simp: chrono_iteration_def Let_def split: option.splits)

lemma heap_iteration: "task_heap s \<Longrightarrow> task_heap (chrono_iteration lag s)"
proof (cases "ch_tasks (snd s)")
  case Nil
  then show "task_heap s \<Longrightarrow> ?thesis" by (simp add: chrono_iteration_def split_beta Let_def)
next
  case (Cons x rest)
  then show "task_heap s \<Longrightarrow> ?thesis" using iteration_tasks [of "snd s" x rest lag "fst s"] by simp
qed

lemma heap_finish_wait: "task_heap s \<Longrightarrow> task_heap (finish_wait s)"
  by (auto simp: finish_wait_def split: option.splits prod.splits)

lemma heap_step: "task_heap s \<Longrightarrow> task_heap (chrono_step op s)"
  by (cases op)
     (auto simp: heap_travel heap_iteration heap_finish_wait bind_every_def unbind_every_def bind_watchdog_def
       unbind_watchdog_def service_watchdog_def emit_delay_def emit_at_def shutdown_chrono_def split_beta Let_def split: option.splits)

lemma heap_new: "is_heap ct_time (ch_tasks (new_chrono cv ns))"
  by (simp add: new_chrono_def heap_from_def)

lemma heap_reachable: "task_heap (fold chrono_step ops (w, new_chrono cv ns))"
proof -
  have "task_heap s \<Longrightarrow> task_heap (fold chrono_step ops s)" for s
    by (induction ops arbitrary: s) (simp_all add: heap_step)
  then show ?thesis using heap_new by simp
qed

lemma heap_least: "is_heap ct_time (x # rest) \<Longrightarrow> y \<in> set rest \<Longrightarrow> ct_time x \<le> ct_time y"
  using heap_front_least [of ct_time "x # rest"] by (metis in_set_conv_nth length_Cons nth_Cons_0 nth_Cons_Suc Suc_less_eq)

text \<open>
  C20. The loop runs the earliest task, once, and only when it is due. After any history of binding, unbinding,
  servicing, emitting, time travel, waits and runs, the task the loop looks at has the least time of all tasks; if
  that time has not come the tasks and what has been submitted stay as they are; if it has, this task alone runs,
  and afterwards the tasks are the others and, if it asks to be renewed, this one with the time it has set, although
  the heap is given to \<open>pop_heap\<close> with its front already changed. A task that throws stays where it is.
\<close>

theorem chrono_runs_earliest:
  assumes "fold chrono_step ops (w0, new_chrono cv ns) = (w, ch)" "ch_tasks ch = x # rest"
    and "ch_running ch" "ch_waiting ch = None"
  shows "(\<forall>y \<in> set rest. ct_time x \<le> ct_time y)
    \<and> (world_now w < ct_time x \<longrightarrow>
         ch_tasks (snd (chrono_iteration lag (w, ch))) = x # rest
         \<and> cw_events (fst (chrono_iteration lag (w, ch))) = cw_events w)
    \<and> (ct_time x \<le> world_now w \<longrightarrow>
         (case ct_task x (elapse lag w) (ct_time x) of
            None \<Rightarrow> chrono_iteration lag (w, ch) = (elapse lag w, ch)
          | Some (renew, t, w2) \<Rightarrow>
              fst (chrono_iteration lag (w, ch)) = w2
              \<and> mset (ch_tasks (snd (chrono_iteration lag (w, ch)))) =
                  (if renew then add_mset (x\<lparr>ct_time := t\<rparr>) (mset rest) else mset rest)))"
proof (intro conjI impI)
  have heap: "is_heap ct_time (x # rest)"
    using heap_reachable [of ops w0 cv ns] assms(1,2) by simp
  show "\<forall>y \<in> set rest. ct_time x \<le> ct_time y" using heap_least [OF heap] by blast
  show "ch_tasks (snd (chrono_iteration lag (w, ch))) = x # rest"
    "cw_events (fst (chrono_iteration lag (w, ch))) = cw_events w" if "world_now w < ct_time x"
    using that assms by (simp_all add: chrono_iteration_def elapse_def Let_def)
  show "case ct_task x (elapse lag w) (ct_time x) of
      None \<Rightarrow> chrono_iteration lag (w, ch) = (elapse lag w, ch)
    | Some (renew, t, w2) \<Rightarrow>
        fst (chrono_iteration lag (w, ch)) = w2
        \<and> mset (ch_tasks (snd (chrono_iteration lag (w, ch)))) =
            (if renew then add_mset (x\<lparr>ct_time := t\<rparr>) (mset rest) else mset rest)"
    if "ct_time x \<le> world_now w"
    using iteration_tasks [OF assms(2) heap] that assms(3,4) by blast
qed

text \<open>One task of a delayed emission, from its emission until it is due.\<close>

theorem chrono_runs_earliest_witness:
  "let w0 = \<lparr>cw_clock = initial_clock 0 0 0, cw_base = 0, cw_store = Map.empty, cw_events = []\<rparr>;
       ch = \<lparr>ch_tasks = [\<lparr>ct_task = delay_fun 7, ct_time = 5, ct_id = -1\<rparr>], ch_running = True, ch_cv = 0, ch_ns = 0, ch_waiting = None\<rparr>
   in ch_tasks (snd (chrono_iteration 0 (w0, ch))) = [\<lparr>ct_task = delay_fun 7, ct_time = 5, ct_id = -1\<rparr>]"
proof -
  let ?w0 = "\<lparr>cw_clock = initial_clock 0 0 0, cw_base = 0, cw_store = Map.empty, cw_events = []\<rparr>"
  let ?t = "\<lparr>ct_task = delay_fun 7, ct_time = 5, ct_id = -1\<rparr>"
  have now: "world_now ?w0 = 0"
    by (simp add: world_now_def clock_now_def initial_clock_def data_now_def)
  have "fold chrono_step [EmitAt 7 5] (?w0, new_chrono 0 0) =
      (?w0, \<lparr>ch_tasks = [?t], ch_running = True, ch_cv = 0, ch_ns = 0, ch_waiting = None\<rparr>)"
    by (simp add: emit_at_def add_chrono_task_def new_chrono_def push_heap_def sift_up.simps)
  from chrono_runs_earliest [OF this, of ?t "[]" 0] now show ?thesis by (simp add: Let_def)
qed

section \<open>Time travel\<close>

text \<open>
  Time travel. The clock shows the requested time and runs at the requested rate. A relative travel moves every
  task so that the time left until it is unchanged, to the tick, however long the clock is read before it is set;
  an absolute travel moves no task; the nearest travel goes to the latest time not after the target that skips no
  task.
\<close>

theorem time_travel_moves:
  assumes "clock_wf (cw_clock w)" "time_travel a target r lag (w, ch) = (w', ch')"
  shows "clock_rtf (cw_clock w') = r \<and> world_now w' \<le> target
    \<and> (a = RELATIVE_TRAVEL \<longrightarrow> world_now w' = target
         \<and> map (\<lambda>t. ct_time t - world_now w') (ch_tasks ch') = map (\<lambda>t. ct_time t - world_now w) (ch_tasks ch)
         \<and> map ct_task (ch_tasks ch') = map ct_task (ch_tasks ch) \<and> map ct_id (ch_tasks ch') = map ct_id (ch_tasks ch))
    \<and> (a = ABSOLUTE_TRAVEL \<longrightarrow> world_now w' = target \<and> ch' = ch)
    \<and> (a = NEAREST_TRAVEL \<longrightarrow> ch' = ch \<and> (\<forall>t \<in> set (ch_tasks ch). world_now w' \<le> ct_time t)
         \<and> (world_now w' = target \<or> world_now w' \<in> ct_time ` set (ch_tasks ch)))"
proof -
  have now: "world_now (travel_clock t r v) = t" "clock_rtf (cw_clock (travel_clock t r v)) = r"
    if "cw_clock v = cw_clock w" for t and v :: chrono_world
    using assms(1) that by (simp_all add: world_now_def travel_clock_def now_set_clock)
  show ?thesis
  proof (cases a)
    case RELATIVE_TRAVEL
    then show ?thesis
      using assms(2) now [of "elapse lag w" target] by (auto simp: time_travel_def Let_def elapse_def)
  next
    case ABSOLUTE_TRAVEL
    then show ?thesis using assms(2) now [of w target] by (auto simp: time_travel_def)
  next
    case NEAREST_TRAVEL
    let ?n = "if ch_tasks ch = [] then target else min target (Min (ct_time ` set (ch_tasks ch)))"
    have "w' = travel_clock ?n r w" "ch' = ch" using assms(2) NEAREST_TRAVEL by (auto simp: time_travel_def Let_def)
    then have w': "world_now w' = ?n" "clock_rtf (cw_clock w') = r" using now [of w] by simp_all
    have "?n \<le> ct_time t" if "t \<in> set (ch_tasks ch)" for t
      using that by (auto intro: min.coboundedI2)
    moreover have "?n = target \<or> ?n \<in> ct_time ` set (ch_tasks ch)"
    proof (cases "ch_tasks ch = [] \<or> target \<le> Min (ct_time ` set (ch_tasks ch))")
      case False
      then have "?n = Min (ct_time ` set (ch_tasks ch))" by simp
      then show ?thesis using False Min_in [of "ct_time ` set (ch_tasks ch)"] by simp
    qed auto
    ultimately show ?thesis using w' \<open>ch' = ch\<close> NEAREST_TRAVEL by simp
  qed
qed

theorem time_travel_moves_witness:
  "let w = \<lparr>cw_clock = initial_clock 0 0 0, cw_base = 0, cw_store = Map.empty, cw_events = []\<rparr>;
       ch = \<lparr>ch_tasks = [\<lparr>ct_task = delay_fun 7, ct_time = 5, ct_id = -1\<rparr>], ch_running = True, ch_cv = 0, ch_ns = 0, ch_waiting = None\<rparr>
   in world_now (fst (time_travel NEAREST_TRAVEL 100 1 0 (w, ch))) \<le> 5"
  using time_travel_moves [of "\<lparr>cw_clock = initial_clock 0 0 0, cw_base = 0, cw_store = Map.empty, cw_events = []\<rparr>" NEAREST_TRAVEL 100 1 0
      "\<lparr>ch_tasks = [\<lparr>ct_task = delay_fun 7, ct_time = 5, ct_id = -1\<rparr>], ch_running = True, ch_cv = 0, ch_ns = 0, ch_waiting = None\<rparr>",
      OF _ prod.collapse [symmetric]]
  by (simp add: initial_clock_wf Let_def)

section \<open>Periodic reactions and watchdogs\<close>

lemma single_heap [simp]: "push_heap key (pop_heap key [x]) = [x]"
  by (simp add: push_heap_def pop_heap_def sift_up.simps)

lemma now_happen [simp]: "world_now (happen e w) = world_now w"
  by (simp add: world_now_def happen_def)

lemma elapse_0 [simp]: "elapse 0 w = w"
  by (simp add: elapse_def)

abbreviation every_task :: "nid \<Rightarrow> int \<Rightarrow> int \<Rightarrow> chrono_task" where
  "every_task reaction jump t \<equiv> \<lparr>ct_task = every_fun reaction jump, ct_time = t, ct_id = reaction\<rparr>"

lemma every_iteration:
  assumes "ch_running ch" "ch_waiting ch = None" "t \<le> world_now w"
  shows "chrono_iteration 0 (w, ch\<lparr>ch_tasks := [every_task i j t]\<rparr>) =
     (happen (Submitted i) w, ch\<lparr>ch_tasks := [every_task i j (t + j)]\<rparr>)"
  using assms by (simp add: chrono_iteration_def Let_def every_fun_def)

lemma every_iterations:
  assumes "ch_running ch" "ch_waiting ch = None" "\<forall>m < n. t + int m * j \<le> world_now w"
  shows "(chrono_iteration 0 ^^ n) (w, ch\<lparr>ch_tasks := [every_task i j t]\<rparr>) =
     (w\<lparr>cw_events := cw_events w @ replicate n (Submitted i)\<rparr>, ch\<lparr>ch_tasks := [every_task i j (t + int n * j)]\<rparr>)"
  using assms(3)
proof (induction n)
  case (Suc n)
  then have "t + int n * j \<le> world_now w" by blast
  then have "t + int n * j \<le> world_now (w\<lparr>cw_events := cw_events w @ replicate n (Submitted i)\<rparr>)"
    by (simp add: world_now_def)
  then show ?case
    using Suc every_iteration [OF assms(1,2), of "t + int n * j"]
    by (simp add: happen_def algebra_simps replicate_append_same)
qed simp



text \<open>A watchdog without its store at the front of the heap: the loop throws or waits, for ever.\<close>

fun loop_op :: "chrono_op \<Rightarrow> bool" where
  "loop_op (Iterate lag) \<longleftrightarrow> True"
| "loop_op FinishWait \<longleftrightarrow> True"
| "loop_op (Elapse d) \<longleftrightarrow> True"
| "loop_op _ \<longleftrightarrow> False"

definition stuck :: "watchdog_key \<Rightarrow> chrono_world \<times> chrono \<Rightarrow> bool" where
  "stuck k s \<longleftrightarrow> cw_store (fst s) k = None
     \<and> (\<exists>x rest i p. ch_tasks (snd s) = x # rest \<and> ct_task x = watchdog_fun i k p)"

lemma elapse_fields [simp]: "cw_store (elapse d w) = cw_store w" "cw_events (elapse d w) = cw_events w"
  by (simp_all add: elapse_def)

lemma stuck_step:
  assumes "stuck k s" "loop_op op"
  shows "stuck k (chrono_step op s) \<and> ch_tasks (snd (chrono_step op s)) = ch_tasks (snd s)
    \<and> cw_events (fst (chrono_step op s)) = cw_events (fst s)"
proof -
  obtain x rest i p where x: "ch_tasks (snd s) = x # rest" "ct_task x = watchdog_fun i k p" "cw_store (fst s) k = None"
    using assms(1) by (auto simp: stuck_def)
  then have throws: "ct_task x (elapse lag (fst s)) t = None" for lag t
    by (simp add: watchdog_fun_def watchdog_get_def)
  show ?thesis
    using assms(2) x throws unfolding stuck_def
    by (cases op) (auto simp: chrono_iteration_def finish_wait_def split_beta Let_def split: option.splits)
qed

lemma stuck_steps:
  "stuck k s \<Longrightarrow> \<forall>op \<in> set ops. loop_op op \<Longrightarrow>
     ch_tasks (snd (fold chrono_step ops s)) = ch_tasks (snd s)
     \<and> cw_events (fst (fold chrono_step ops s)) = cw_events (fst s)"
proof (induction ops arbitrary: s)
  case (Cons op ops)
  then show ?case using stuck_step [of k s op] by simp
qed simp

text \<open>
  Unbinding one of two watchdogs of a group stops the chrono controller. Two watchdogs with the same group and
  argument share one entry of the data store, and unbinding either removes it. The function of the other one throws
  from then on; when it is the earliest task, no pass of the loop, whatever time goes by, submits or emits anything
  again, here a delayed emission bound for the moment \<open>t\<close>, or changes the tasks.
\<close>

theorem watchdog_unbind_starves:
  assumes "ch_running ch" "ch_tasks ch = []" "i \<noteq> j" "0 < q" "world_now (watchdog_init k w) + q \<le> t"
    and "\<forall>op \<in> set ops. loop_op op"
  shows "let s = emit_at d t (unbind_watchdog i k (bind_watchdog j k q (bind_watchdog i k p (w, ch))));
             s' = fold chrono_step ops s
         in length (ch_tasks (snd s)) = 2 \<and> ch_tasks (snd s') = ch_tasks (snd s) \<and> cw_events (fst s') = cw_events w"
proof -
  let ?w = "watchdog_init k w"
  have again: "watchdog_init k ?w = ?w" by (auto simp: watchdog_init_def)
  let ?a = "\<lparr>ct_task = watchdog_fun i k p, ct_time = world_now ?w + p, ct_id = i\<rparr>"
  let ?b = "\<lparr>ct_task = watchdog_fun j k q, ct_time = world_now ?w + q, ct_id = j\<rparr>"
  let ?e = "\<lparr>ct_task = delay_fun d, ct_time = t, ct_id = -1\<rparr>"
  let ?s1 = "bind_watchdog j k q (bind_watchdog i k p (w, ch))"
  have s1: "fst ?s1 = ?w" "ch_tasks (snd ?s1) \<in> {[?a, ?b], [?b, ?a]}" "ch_running (snd ?s1)"
    using assms(1,2)
    by (auto simp: bind_watchdog_def Let_def again add_chrono_task_def push_heap_def sift_up.simps [of _ _ "Suc 0"]
        sift_up.simps [of _ _ 0] swap_def parent_def)
  let ?s2 = "unbind_watchdog i k ?s1"
  have s2: "fst ?s2 = watchdog_unbind k ?w" "ch_tasks (snd ?s2) = [?b]" "ch_running (snd ?s2)"
    using s1 assms(3) by (auto simp: unbind_watchdog_def split_beta unbind_chrono_task_def make_heap_def)
  let ?s = "emit_at d t ?s2"
  have s: "fst ?s = watchdog_unbind k ?w" "ch_tasks (snd ?s) = [?b, ?e]"
    using s2 assms(5)
    by (auto simp: emit_at_def split_beta add_chrono_task_def push_heap_def sift_up.simps [of _ _ "Suc 0"] parent_def)
  then have "stuck k ?s" by (auto simp: stuck_def watchdog_unbind_def)
  from stuck_steps [OF this assms(6)] show ?thesis
    using s by (simp add: Let_def watchdog_unbind_def watchdog_init_def)
qed

theorem watchdog_unbind_starves_witness:
  "let w = \<lparr>cw_clock = initial_clock 0 0 0, cw_base = 0, cw_store = Map.empty, cw_events = []\<rparr>;
       s = emit_at 9 50 (unbind_watchdog 1 (0, None) (bind_watchdog 2 (0, None) 20 (bind_watchdog 1 (0, None) 10 (w, new_chrono 0 0))))
   in cw_events (fst (fold chrono_step [Elapse 100, Iterate 0, Elapse 100, Iterate 0] s)) = []"
proof -
  let ?w = "\<lparr>cw_clock = initial_clock 0 0 0, cw_base = 0, cw_store = Map.empty, cw_events = []\<rparr>"
  have new: "ch_running (new_chrono 0 0)" "ch_tasks (new_chrono 0 0) = []" by (simp_all add: new_chrono_def)
  have "world_now (watchdog_init (0, None) ?w) + 20 \<le> 50"
    by (simp add: watchdog_init_def world_now_def clock_now_def initial_clock_def data_now_def)
  from watchdog_unbind_starves [OF new _ _ this, of 1 2 "[Elapse 100, Iterate 0, Elapse 100, Iterate 0]" 9 10]
  show ?thesis by (simp add: Let_def del: fold.simps)
qed

end
