(* ===== verification/IO_Control.thy ===== *)
theory IO_Control
  imports Nuc_Prelude
begin

text \<open>
  The IO controller for POSIX (\<open>extension/IOController_Posix.ipp\<close>): the tasks that wait for events of file
  descriptors, the list given to \<open>poll\<close>, and the masking of the events that are being processed. The reactions of
  the controller hold \<open>tasks_mutex\<close>; the loop lets other reactions in between the \<open>poll\<close> and the processing of its
  results, so the two are separate steps. Arguments stand for what the kernel answers (the events of a
  \<open>poll\<close>, \<open>FIONREAD\<close>) and for whether a reaction makes a task of the event it is given.
\<close>

section \<open>Events\<close>

type_synonym event_t = u16

text \<open>The constants of \<open>poll.h\<close> (Linux) and the event types of \<open>IO\<close>.\<close>

abbreviation POLLIN :: event_t where "POLLIN \<equiv> 0x1"
abbreviation POLLOUT :: event_t where "POLLOUT \<equiv> 0x4"
abbreviation POLLERR :: event_t where "POLLERR \<equiv> 0x8"
abbreviation POLLHUP :: event_t where "POLLHUP \<equiv> 0x10"
abbreviation POLLNVAL :: event_t where "POLLNVAL \<equiv> 0x20"

datatype event_type = IO_READ | IO_WRITE | IO_CLOSE | IO_ERROR

fun event_bits :: "event_type \<Rightarrow> event_t" where
  "event_bits IO_READ = POLLIN"
| "event_bits IO_WRITE = POLLOUT"
| "event_bits IO_CLOSE = POLLHUP"
| "event_bits IO_ERROR = (POLLNVAL OR POLLERR)"

section \<open>State\<close>

record io_task =
  io_fd :: int
  io_listening :: event_t
  io_waiting :: event_t
  io_processing :: event_t
  io_reaction :: nid

record pollfd =
  pf_fd :: int
  pf_events :: event_t
  pf_revents :: event_t

text \<open>
  \<open>io_submitted\<close> are the runs the controller has submitted: reaction, descriptor and events. \<open>io_polled\<close>: the loop
  has polled and not yet processed the results.
\<close>

record io =
  io_recv :: int
  io_running :: bool
  io_dirty :: bool
  io_pipe :: nat
  io_watches :: "pollfd list"
  io_tasks :: "io_task list"
  io_polled :: bool
  io_submitted :: "(nid \<times> int \<times> event_t) list"

definition task_less :: "io_task \<Rightarrow> io_task \<Rightarrow> bool" where
  "task_less a b \<longleftrightarrow> (if io_fd a = io_fd b then sint (io_listening a) < sint (io_listening b) else io_fd a < io_fd b)"

section \<open>The list given to poll\<close>

text \<open>One task into the list, whose last entry is at the head of the accumulator.\<close>

fun add_watch :: "io_task \<Rightarrow> pollfd list \<Rightarrow> pollfd list" where
  "add_watch r (w # ws) =
     (if io_fd r = pf_fd w
      then w\<lparr>pf_events := (pf_events w OR io_listening r) AND NOT (io_processing r OR io_waiting r)\<rparr> # ws
      else \<lparr>pf_fd = io_fd r, pf_events = io_listening r AND NOT (io_processing r OR io_waiting r), pf_revents = 0\<rparr> # w # ws)"
| "add_watch r [] = []"

definition rebuild_list :: "io \<Rightarrow> io" where
  "rebuild_list s =
     (let notify = \<lparr>pf_fd = io_recv s, pf_events = POLLIN OR POLLERR OR POLLNVAL, pf_revents = 0\<rparr>
      in s\<lparr>io_watches := rev (fold add_watch (io_tasks s) [notify]), io_dirty := False\<rparr>)"

text \<open>\<open>std::lower_bound\<close>: the halving search, as it runs also when the range is not partitioned.\<close>

function lower_bound_from :: "('a \<Rightarrow> bool) \<Rightarrow> 'a list \<Rightarrow> nat \<Rightarrow> nat \<Rightarrow> nat" where
  "lower_bound_from before xs lo len =
     (if len = 0 then lo
      else let half = len div 2; mid = lo + half
           in if before (xs ! mid) then lower_bound_from before xs (mid + 1) (len - half - 1)
              else lower_bound_from before xs lo half)"
  by pat_completeness auto
termination by (relation "measure (\<lambda>(before, xs, lo, len). len)") auto

declare lower_bound_from.simps [simp del]

definition lower_bound :: "('a \<Rightarrow> bool) \<Rightarrow> 'a list \<Rightarrow> nat" where
  "lower_bound before xs = lower_bound_from before xs 0 (length xs)"

text \<open>The entry of a descriptor as it is looked up, changed by \<open>f\<close> if it is found.\<close>

definition change_watch :: "int \<Rightarrow> (event_t \<Rightarrow> event_t) \<Rightarrow> pollfd list \<Rightarrow> pollfd list" where
  "change_watch fd f ws =
     (let i = lower_bound (\<lambda>w. pf_fd w < fd) ws
      in if i < length ws \<and> pf_fd (ws ! i) = fd then ws[i := (ws ! i)\<lparr>pf_events := f (pf_events (ws ! i))\<rparr>] else ws)"

section \<open>Firing\<close>

text \<open>\<open>fire_event\<close> on the task at position \<open>i\<close>; \<open>gets\<close> tells whether its reaction makes a task.\<close>

definition fire_event :: "(nid \<Rightarrow> bool) \<Rightarrow> nat \<Rightarrow> io \<Rightarrow> io" where
  "fire_event gets i s =
     (let t = io_tasks s ! i
      in if io_processing t = 0 \<and> io_waiting t \<noteq> 0 then
           (if gets (io_reaction t)
            then s\<lparr>io_tasks := (io_tasks s)[i := t\<lparr>io_processing := io_waiting t, io_waiting := 0\<rparr>],
                   io_watches := change_watch (io_fd t) (\<lambda>e. e AND NOT (io_waiting t)) (io_watches s),
                   io_submitted := io_submitted s @ [(io_reaction t, io_fd t, io_waiting t)]\<rparr>
            else s\<lparr>io_tasks := (io_tasks s)[i := t\<lparr>io_waiting := io_waiting t OR io_processing t, io_processing := 0\<rparr>]\<rparr>)
         else s)"

text \<open>The positions of the tasks of a descriptor (\<open>std::equal_range\<close> on the sorted tasks).\<close>

definition task_range :: "int \<Rightarrow> io \<Rightarrow> nat list" where
  "task_range fd s = filter (\<lambda>i. io_fd (io_tasks s ! i) = fd) [0..<length (io_tasks s)]"

definition collect_event :: "event_t \<Rightarrow> bool \<Rightarrow> io_task \<Rightarrow> io_task" where
  "collect_event revents maybe_eof t =
     (let waiting = io_waiting t OR (io_listening t AND revents)
      in t\<lparr>io_waiting := (if maybe_eof \<and> io_processing t AND event_bits IO_READ = 0 then waiting OR event_bits IO_CLOSE else waiting)\<rparr>)"

definition handle_task :: "(nid \<Rightarrow> bool) \<Rightarrow> event_t \<Rightarrow> bool \<Rightarrow> nat \<Rightarrow> io \<Rightarrow> io" where
  "handle_task gets revents maybe_eof i s =
     fire_event gets i (s\<lparr>io_tasks := (io_tasks s)[i := collect_event revents maybe_eof (io_tasks s ! i)]\<rparr>)"

text \<open>
  \<open>process_event\<close> on the entry at position \<open>n\<close>; \<open>available\<close> is the answer of \<open>FIONREAD\<close>, \<open>None\<close> if it fails. The list
  is marked dirty if the range begins at the end of the tasks, that is if every task has a smaller descriptor.
\<close>

definition process_event :: "(nid \<Rightarrow> bool) \<Rightarrow> (int \<Rightarrow> nat option) \<Rightarrow> nat \<Rightarrow> io \<Rightarrow> io" where
  "process_event gets available n s =
     (let e = io_watches s ! n;
          s1 = (if pf_fd e = io_recv s then s\<lparr>io_pipe := io_pipe s - 1\<rparr>
                else let maybe_eof = (pf_revents e AND event_bits IO_READ \<noteq> 0 \<and> available (pf_fd e) = Some 0)
                     in if \<forall>t \<in> set (io_tasks s). io_fd t < pf_fd e then s\<lparr>io_dirty := True\<rparr>
                        else fold (handle_task gets (pf_revents e) maybe_eof) (task_range (pf_fd e) s) s)
      in s1\<lparr>io_watches := (io_watches s1)[n := (io_watches s1 ! n)\<lparr>pf_revents := 0\<rparr>]\<rparr>)"

section \<open>The reactions\<close>

definition bump :: "io \<Rightarrow> io" where
  "bump s = s\<lparr>io_pipe := io_pipe s + 1\<rparr>"

definition configure_io :: "int \<Rightarrow> event_t \<Rightarrow> nid \<Rightarrow> io \<Rightarrow> io" where
  "configure_io fd events reaction s =
     (let t = \<lparr>io_fd = fd, io_listening = events, io_waiting = 0, io_processing = 0, io_reaction = reaction\<rparr>
      in bump (s\<lparr>io_tasks := insert_lower (\<lambda>a b. \<not> task_less b a) t (io_tasks s), io_dirty := True\<rparr>))"

definition find_task :: "nid \<Rightarrow> io \<Rightarrow> nat option" where
  "find_task i s =
     (case filter (\<lambda>n. io_reaction (io_tasks s ! n) = i) [0..<length (io_tasks s)] of [] \<Rightarrow> None | n # _ \<Rightarrow> Some n)"

definition io_finished :: "(nid \<Rightarrow> bool) \<Rightarrow> nid \<Rightarrow> io \<Rightarrow> io" where
  "io_finished gets i s =
     (case find_task i s of
        None \<Rightarrow> s
      | Some n \<Rightarrow>
          (let t = io_tasks s ! n
           in if io_processing t AND event_bits IO_CLOSE \<noteq> 0
              then s\<lparr>io_dirty := True, io_tasks := take n (io_tasks s) @ drop (Suc n) (io_tasks s)\<rparr>
              else fire_event gets n
                     ((bump s)\<lparr>io_watches := change_watch (io_fd t) (\<lambda>e. e OR io_processing t) (io_watches s),
                               io_tasks := (io_tasks s)[n := t\<lparr>io_processing := 0\<rparr>]\<rparr>)))"

definition unbind_io :: "nid \<Rightarrow> io \<Rightarrow> io" where
  "unbind_io i s = bump (s\<lparr>io_tasks := erase_first (\<lambda>t. io_reaction t = i) (io_tasks s), io_dirty := True\<rparr>)"

definition shutdown_io :: "io \<Rightarrow> io" where
  "shutdown_io s = bump (s\<lparr>io_running := False\<rparr>)"

text \<open>
  The loop: rebuild a dirty list and poll (\<open>revents\<close> gives the events of each descriptor), then process every entry
  with events.
\<close>

definition poll_io :: "(int \<Rightarrow> event_t) \<Rightarrow> io \<Rightarrow> io" where
  "poll_io revents s =
     (if io_running s \<and> \<not> io_polled s
      then let s1 = (if io_dirty s then rebuild_list s else s)
           in s1\<lparr>io_watches := map (\<lambda>w. w\<lparr>pf_revents := revents (pf_fd w)\<rparr>) (io_watches s1), io_polled := True\<rparr>
      else s)"

definition process_entry :: "(nid \<Rightarrow> bool) \<Rightarrow> (int \<Rightarrow> nat option) \<Rightarrow> nat \<Rightarrow> io \<Rightarrow> io" where
  "process_entry gets available n s =
     (if pf_revents (io_watches s ! n) \<noteq> 0 then process_event gets available n s else s)"

definition process_io :: "(nid \<Rightarrow> bool) \<Rightarrow> (int \<Rightarrow> nat option) \<Rightarrow> io \<Rightarrow> io" where
  "process_io gets available s =
     (if io_polled s then (fold (process_entry gets available) [0..<length (io_watches s)] s)\<lparr>io_polled := False\<rparr> else s)"

definition new_io :: "int \<Rightarrow> io" where
  "new_io recv = rebuild_list \<lparr>io_recv = recv, io_running = True, io_dirty = True, io_pipe = 0, io_watches = [],
     io_tasks = [], io_polled = False, io_submitted = []\<rparr>"

datatype io_op = ConfigureIO int event_t nid | FinishedIO nid | UnbindIO nid | ShutdownIO
  | PollIO "int \<Rightarrow> event_t" | ProcessIO "int \<Rightarrow> nat option"

fun io_step :: "(nid \<Rightarrow> bool) \<Rightarrow> io_op \<Rightarrow> io \<Rightarrow> io" where
  "io_step gets (ConfigureIO fd e r) s = configure_io fd e r s"
| "io_step gets (FinishedIO r) s = io_finished gets r s"
| "io_step gets (UnbindIO r) s = unbind_io r s"
| "io_step gets ShutdownIO s = shutdown_io s"
| "io_step gets (PollIO ev) s = poll_io ev s"
| "io_step gets (ProcessIO av) s = process_io gets av s"

section \<open>Looking up a descriptor\<close>

lemma lower_bound_from_spec:
  assumes "\<And>i j. i \<le> j \<Longrightarrow> j < length xs \<Longrightarrow> before (xs ! j) \<Longrightarrow> before (xs ! i)"
    and "lo + len \<le> length xs" "\<forall>i < lo. before (xs ! i)" "\<forall>i. lo + len \<le> i \<and> i < length xs \<longrightarrow> \<not> before (xs ! i)"
  shows "lower_bound_from before xs lo len \<le> length xs
    \<and> (\<forall>i < lower_bound_from before xs lo len. before (xs ! i))
    \<and> (\<forall>i. lower_bound_from before xs lo len \<le> i \<and> i < length xs \<longrightarrow> \<not> before (xs ! i))"
  using assms
proof (induction before xs lo len rule: lower_bound_from.induct)
  case (1 before xs lo len)
  show ?case
  proof (cases "len = 0")
    case True
    then have "lower_bound_from before xs lo len = lo" by (subst lower_bound_from.simps) simp
    then show ?thesis using 1(4-) True by simp
  next
    case False
    let ?mid = "lo + len div 2"
    have mid: "?mid < length xs" using False 1(4) by linarith
    show ?thesis
    proof (cases "before (xs ! ?mid)")
      case True
      have eq: "lower_bound_from before xs lo len = lower_bound_from before xs (?mid + 1) (len - len div 2 - 1)"
        using False True by (subst lower_bound_from.simps) (simp add: Let_def)
      have below: "\<forall>i < ?mid + 1. before (xs ! i)" using 1(3) [of _ ?mid] True mid by (simp add: less_Suc_eq_le)
      have end_eq: "?mid + 1 + (len - len div 2 - 1) = lo + len" using False by linarith
      show ?thesis unfolding eq
        by (rule 1(1) [OF False refl refl True 1(3)]) (use 1(4,6) below end_eq in simp_all)
    next
      case False': False
      have eq: "lower_bound_from before xs lo len = lower_bound_from before xs lo (len div 2)"
        using False False' by (subst lower_bound_from.simps) (simp add: Let_def)
      have above: "\<forall>i. ?mid \<le> i \<and> i < length xs \<longrightarrow> \<not> before (xs ! i)" using 1(3) [of ?mid] False' by blast
      show ?thesis unfolding eq
        by (rule 1(2) [OF False refl refl False' 1(3)]) (use 1(5) above mid in simp_all)
    qed
  qed
qed

text \<open>On a strictly sorted list the entry is found: the change is that of every entry of the descriptor.\<close>

lemma change_watch_sorted:
  assumes "sorted_wrt (<) (map pf_fd ws)"
  shows "change_watch fd f ws = map (\<lambda>w. if pf_fd w = fd then w\<lparr>pf_events := f (pf_events w)\<rparr> else w) ws"
proof -
  define r where "r = lower_bound (\<lambda>w. pf_fd w < fd) ws"
  have less: "pf_fd (ws ! i) < pf_fd (ws ! j)" if "i < j" "j < length ws" for i j
    using assms that by (simp add: sorted_wrt_iff_nth_less)
  have mono: "pf_fd (ws ! i) < fd" if "i \<le> j" "j < length ws" "pf_fd (ws ! j) < fd" for i j
    using less [of i j] that by (cases "i = j") auto
  have r: "\<forall>i < r. pf_fd (ws ! i) < fd" "\<forall>i. r \<le> i \<and> i < length ws \<longrightarrow> \<not> pf_fd (ws ! i) < fd"
    using lower_bound_from_spec [of ws "\<lambda>w. pf_fd w < fd" 0 "length ws"] mono
    by (simp_all add: r_def lower_bound_def)
  have here: "pf_fd (ws ! k) = fd \<Longrightarrow> k < length ws \<Longrightarrow> k = r" for k
  proof -
    assume k: "pf_fd (ws ! k) = fd" "k < length ws"
    then have "r \<le> k" using r(1) by (meson not_le order_less_irrefl)
    moreover have "\<not> r < k" using less [of r k] k r(2) by auto
    ultimately show "k = r" by simp
  qed
  show ?thesis
    unfolding change_watch_def r_def [symmetric] Let_def
  proof (rule nth_equalityI)
    fix i assume "i < length (if r < length ws \<and> pf_fd (ws ! r) = fd then ws[r := (ws ! r)\<lparr>pf_events := f (pf_events (ws ! r))\<rparr>] else ws)"
    then have "i < length ws" by (simp split: if_splits)
    then show "(if r < length ws \<and> pf_fd (ws ! r) = fd then ws[r := (ws ! r)\<lparr>pf_events := f (pf_events (ws ! r))\<rparr>] else ws) ! i
        = map (\<lambda>w. if pf_fd w = fd then w\<lparr>pf_events := f (pf_events w)\<rparr> else w) ws ! i"
      using here [of i] by (cases "i = r") auto
  qed simp
qed

section \<open>Every interest is polled or taken up again\<close>

definition busy :: "io_task \<Rightarrow> event_t" where
  "busy t = io_processing t OR io_waiting t"

text \<open>A bit a task listens for is in the entry of its descriptor, unless some task of the descriptor is busy with it.\<close>

definition cover :: "io_task set \<Rightarrow> pollfd \<Rightarrow> io_task \<Rightarrow> bool" where
  "cover T w t \<longleftrightarrow> (\<forall>b. bit (io_listening t) b \<longrightarrow> bit (pf_events w) b \<or> (\<exists>t' \<in> T. io_fd t' = io_fd t \<and> bit (busy t') b))"

definition covered :: "io_task list \<Rightarrow> pollfd list \<Rightarrow> bool" where
  "covered ts ws \<longleftrightarrow> (\<forall>t \<in> set ts. \<exists>w \<in> set ws. pf_fd w = io_fd t \<and> cover (set ts) w t)"

lemma cover_mono: "cover T w t \<Longrightarrow> T \<subseteq> T' \<Longrightarrow> cover T' w t"
  unfolding cover_def by blast

lemma add_watch_covers:
  assumes "ws \<noteq> []" "sorted_wrt (>) (map pf_fd ws)" "pf_fd (hd ws) \<le> io_fd r" "covered ts ws"
    and "\<forall>t \<in> set ts. io_fd t \<le> io_fd r"
  shows "add_watch r ws \<noteq> [] \<and> sorted_wrt (>) (map pf_fd (add_watch r ws)) \<and> pf_fd (hd (add_watch r ws)) = io_fd r
    \<and> covered (ts @ [r]) (add_watch r ws)"
proof -
  obtain w vs where ws: "ws = w # vs" using assms(1) by (cases ws) auto
  let ?T = "set (ts @ [r])"
  show ?thesis
  proof (cases "io_fd r = pf_fd w")
    case True
    let ?w = "w\<lparr>pf_events := (pf_events w OR io_listening r) AND NOT (io_processing r OR io_waiting r)\<rparr>"
    have "covered (ts @ [r]) (?w # vs)"
      unfolding covered_def
    proof
      fix t assume "t \<in> ?T"
      then consider "t = r" | "t \<in> set ts" by auto
      then show "\<exists>v \<in> set (?w # vs). pf_fd v = io_fd t \<and> cover ?T v t"
      proof cases
        case 1
        have "cover ?T ?w r"
          by (auto simp: cover_def busy_def bit_simps dest: bit_imp_le_length)
        then show ?thesis using 1 True by auto
      next
        case 2
        then obtain v where v: "v \<in> set ws" "pf_fd v = io_fd t" "cover (set ts) v t"
          using assms(4) by (auto simp: covered_def)
        show ?thesis
        proof (cases "v = w")
          case v_w: True
          then have "io_fd t = io_fd r" using v True by simp
          then have "cover ?T ?w t"
            using v(3) v_w by (auto simp: cover_def busy_def bit_simps dest: bit_imp_le_length)
          then show ?thesis using v v_w by auto
        next
          case False
          then show ?thesis using v cover_mono [OF v(3), of ?T] ws by auto
        qed
      qed
    qed
    then show ?thesis using True assms(2) ws by simp
  next
    case False
    let ?v = "\<lparr>pf_fd = io_fd r, pf_events = io_listening r AND NOT (io_processing r OR io_waiting r), pf_revents = 0\<rparr>"
    have "cover ?T ?v r"
      by (auto simp: cover_def busy_def bit_simps dest: bit_imp_le_length)
    then have "covered (ts @ [r]) (?v # ws)"
      using assms(4) unfolding covered_def by (auto intro: cover_mono)
    moreover have "pf_fd w < io_fd r" using False assms(3) ws by simp
    ultimately show ?thesis using False assms(2) ws by auto
  qed
qed

lemma add_watches_cover:
  assumes "sorted (map io_fd (ts @ rs))" "ws \<noteq> []" "sorted_wrt (>) (map pf_fd ws)" "\<forall>r \<in> set rs. pf_fd (hd ws) \<le> io_fd r"
    and "covered ts ws"
  shows "sorted_wrt (>) (map pf_fd (fold add_watch rs ws)) \<and> covered (ts @ rs) (fold add_watch rs ws)"
  using assms
proof (induction rs arbitrary: ts ws)
  case (Cons r rs)
  have step: "add_watch r ws \<noteq> [] \<and> sorted_wrt (>) (map pf_fd (add_watch r ws)) \<and> pf_fd (hd (add_watch r ws)) = io_fd r
      \<and> covered (ts @ [r]) (add_watch r ws)"
    using Cons.prems by (intro add_watch_covers) (auto simp: sorted_append)
  have "\<forall>x \<in> set rs. pf_fd (hd (add_watch r ws)) \<le> io_fd x"
    using Cons.prems(1) step by (auto simp: sorted_append)
  then show ?case using Cons.IH [of "ts @ [r]" "add_watch r ws"] step Cons.prems(1) by simp
qed simp

lemma rebuild_covers:
  assumes "sorted (map io_fd (io_tasks s))" "\<forall>t \<in> set (io_tasks s). io_recv s < io_fd t"
  shows "sorted_wrt (<) (map pf_fd (io_watches (rebuild_list s))) \<and> covered (io_tasks s) (io_watches (rebuild_list s))"
proof -
  let ?n = "\<lparr>pf_fd = io_recv s, pf_events = POLLIN OR POLLERR OR POLLNVAL, pf_revents = 0\<rparr>"
  have "sorted_wrt (>) (map pf_fd (fold add_watch (io_tasks s) [?n])) \<and> covered ([] @ io_tasks s) (fold add_watch (io_tasks s) [?n])"
    by (rule add_watches_cover) (use assms in \<open>auto simp: covered_def\<close>)
  then show ?thesis
    by (simp add: rebuild_list_def Let_def rev_map [symmetric] sorted_wrt_rev covered_def)
qed

text \<open>One task changed, and the entries changed by \<open>g\<close>.\<close>

lemma covered_update:
  assumes cov: "covered ts ws" and i: "i < length ts"
    and same: "io_fd t' = io_fd (ts ! i)" "io_listening t' = io_listening (ts ! i)" "\<And>w. pf_fd (g w) = pf_fd w"
    and busy: "\<And>b w. bit (busy (ts ! i)) b \<Longrightarrow> \<not> bit (busy t') b \<Longrightarrow> w \<in> set ws \<Longrightarrow> pf_fd w = io_fd t' \<Longrightarrow> bit (pf_events (g w)) b"
    and lost: "\<And>w b. w \<in> set ws \<Longrightarrow> bit (pf_events w) b \<Longrightarrow> \<not> bit (pf_events (g w)) b \<Longrightarrow> pf_fd w = io_fd t' \<and> bit (busy t') b"
  shows "covered (ts[i := t']) (map g ws)"
  unfolding covered_def
proof
  fix u assume "u \<in> set (ts[i := t'])"
  then obtain j where j: "j < length ts" "u = ts[i := t'] ! j" by (auto simp: in_set_conv_nth)
  have fd: "io_fd (ts[i := t'] ! k) = io_fd (ts ! k)" "io_listening (ts[i := t'] ! k) = io_listening (ts ! k)" if "k < length ts" for k
    using same that by (cases "k = i", simp_all)+
  obtain w where w: "w \<in> set ws" "pf_fd w = io_fd (ts ! j)" "cover (set ts) w (ts ! j)"
    using cov j(1) unfolding covered_def by (metis nth_mem)
  have t': "t' \<in> set (ts[i := t'])" using i by (simp add: set_update_memI)
  have "cover (set (ts[i := t'])) (g w) u"
    unfolding cover_def
  proof (intro allI impI)
    fix b assume "bit (io_listening u) b"
    then have "bit (io_listening (ts ! j)) b" using fd j by simp
    then consider "bit (pf_events w) b" | v where "v \<in> set ts" "io_fd v = io_fd (ts ! j)" "bit (busy v) b"
      using w(3) unfolding cover_def by blast
    then show "bit (pf_events (g w)) b \<or> (\<exists>v \<in> set (ts[i := t']). io_fd v = io_fd u \<and> bit (busy v) b)"
    proof cases
      case 1
      then show ?thesis using lost [OF w(1) 1] w(2) fd j t' by auto
    next
      case 2
      then obtain m where m: "m < length ts" "v = ts ! m" by (auto simp: in_set_conv_nth)
      show ?thesis
      proof (cases "m = i")
        case True
        then have "io_fd t' = io_fd u" using 2 m same fd j by simp
        then show ?thesis
          using busy [of b w] 2 m True w t' fd j by (metis fd(1))
      next
        case False
        then have "v \<in> set (ts[i := t'])" using m by (metis length_list_update nth_list_update_neq nth_mem)
        then show ?thesis using 2 fd j by auto
      qed
    qed
  qed
  then show "\<exists>w \<in> set (map g ws). pf_fd w = io_fd u \<and> cover (set (ts[i := t'])) w u"
    using w same(3) fd j by auto
qed

text \<open>The invariant; the tasks at the positions \<open>X\<close> may wait without being processed.\<close>

definition io_inv :: "nat set \<Rightarrow> io \<Rightarrow> bool" where
  "io_inv X s \<longleftrightarrow>
     sorted (map io_fd (io_tasks s)) \<and> (\<forall>t \<in> set (io_tasks s). io_recv s < io_fd t)
     \<and> sorted_wrt (<) (map pf_fd (io_watches s))
     \<and> (\<not> io_dirty s \<longrightarrow> covered (io_tasks s) (io_watches s))
     \<and> (\<forall>j < length (io_tasks s). j \<notin> X \<longrightarrow> io_waiting (io_tasks s ! j) \<noteq> 0 \<longrightarrow> io_processing (io_tasks s ! j) \<noteq> 0)
     \<and> (\<forall>t \<in> set (io_tasks s). io_processing t \<noteq> 0 \<longrightarrow> (io_reaction t, io_fd t, io_processing t) \<in> set (io_submitted s))"

lemma map_same_update: "f y = f (xs ! n) \<Longrightarrow> map f (xs[n := y]) = map f xs"
proof (rule nth_equalityI)
  fix i assume "f y = f (xs ! n)" "i < length (map f (xs[n := y]))"
  then show "map f (xs[n := y]) ! i = map f xs ! i" by (cases "i = n") simp_all
qed simp

lemma io_inv_update:
  assumes inv: "io_inv X s" and i: "i < length (io_tasks s)"
    and same: "io_fd t' = io_fd (io_tasks s ! i)" "io_listening t' = io_listening (io_tasks s ! i)" "\<And>w. pf_fd (g w) = pf_fd w"
    and busy: "\<And>b w. bit (busy (io_tasks s ! i)) b \<Longrightarrow> \<not> bit (busy t') b \<Longrightarrow> pf_fd w = io_fd t' \<Longrightarrow> bit (pf_events (g w)) b"
    and lost: "\<And>w b. bit (pf_events w) b \<Longrightarrow> \<not> bit (pf_events (g w)) b \<Longrightarrow> pf_fd w = io_fd t' \<and> bit (busy t') b"
    and s': "io_tasks s' = (io_tasks s)[i := t']" "io_watches s' = map g (io_watches s)" "io_recv s' = io_recv s"
      "io_dirty s' = io_dirty s" "set (io_submitted s) \<subseteq> set (io_submitted s')"
    and waits: "X \<subseteq> insert i Y" "i \<notin> Y \<Longrightarrow> io_waiting t' \<noteq> 0 \<Longrightarrow> io_processing t' \<noteq> 0"
    and run: "io_processing t' \<noteq> 0 \<Longrightarrow> (io_reaction t', io_fd t', io_processing t') \<in> set (io_submitted s')"
  shows "io_inv Y s'"
proof -
  have fds: "map io_fd (io_tasks s') = map io_fd (io_tasks s)"
    unfolding s'(1) by (rule map_same_update [OF same(1)])
  have watch_fds: "map pf_fd (io_watches s') = map pf_fd (io_watches s)"
    unfolding s'(2) by (simp add: same(3) comp_def)
  have "covered (io_tasks s') (io_watches s')" if "\<not> io_dirty s'"
    unfolding s'(1,2) by (rule covered_update) (use inv i same busy lost that s' in \<open>auto simp: io_inv_def\<close>)
  moreover have "\<forall>t \<in> set (io_tasks s'). io_recv s' < io_fd t"
  proof -
    have "\<forall>x \<in> set (map io_fd (io_tasks s')). io_recv s' < x" unfolding fds s'(3) using inv by (simp add: io_inv_def)
    then show ?thesis by simp
  qed
  moreover have "\<forall>j < length (io_tasks s'). j \<notin> Y \<longrightarrow> io_waiting (io_tasks s' ! j) \<noteq> 0 \<longrightarrow> io_processing (io_tasks s' ! j) \<noteq> 0"
    using inv i waits unfolding s'(1) io_inv_def by (simp add: nth_list_update) blast
  moreover have "(io_reaction t, io_fd t, io_processing t) \<in> set (io_submitted s')"
    if "t \<in> set (io_tasks s')" "io_processing t \<noteq> 0" for t
  proof -
    have "t = t' \<or> t \<in> set (io_tasks s)"
      using that(1) set_update_subset_insert [of "io_tasks s" i t'] unfolding s'(1) by blast
    then show ?thesis using run that(2) inv s'(5) unfolding io_inv_def by blast
  qed
  ultimately show ?thesis
    using inv fds watch_fds unfolding io_inv_def by simp
qed

lemma fire_event_inv:
  assumes inv: "io_inv {i} s" and i: "i < length (io_tasks s)"
  shows "io_inv {} (fire_event (\<lambda>_. True) i s)"
proof -
  let ?t = "io_tasks s ! i"
  show ?thesis
  proof (cases "io_processing ?t = 0 \<and> io_waiting ?t \<noteq> 0")
    case False
    then show ?thesis using inv by (auto simp: io_inv_def fire_event_def Let_def)
  next
    case True
    let ?u = "?t\<lparr>io_processing := io_waiting ?t, io_waiting := 0\<rparr>"
    let ?g = "\<lambda>w. if pf_fd w = io_fd ?t then w\<lparr>pf_events := pf_events w AND NOT (io_waiting ?t)\<rparr> else w"
    have sw: "sorted_wrt (<) (map pf_fd (io_watches s))" using inv by (simp add: io_inv_def)
    have cw: "change_watch (io_fd ?t) (\<lambda>e. e AND NOT (io_waiting ?t)) (io_watches s) = map ?g (io_watches s)"
      by (rule change_watch_sorted [OF sw])
    have busy: "busy ?u = busy ?t" using True by (simp add: busy_def)
    show ?thesis
    proof (rule io_inv_update [OF inv i, of ?u ?g])
      fix w b assume "bit (pf_events w) b" "\<not> bit (pf_events (?g w)) b"
      then show "pf_fd w = io_fd ?u \<and> bit (busy ?u) b"
        unfolding busy by (auto simp: busy_def bit_simps split: if_splits dest: bit_imp_le_length)
    qed (use True busy in \<open>auto simp: fire_event_def Let_def cw\<close>)
  qed
qed

lemma handle_task_inv:
  assumes inv: "io_inv {} s" and i: "i < length (io_tasks s)"
  shows "io_inv {} (handle_task (\<lambda>_. True) revents eof i s)"
proof -
  let ?t = "io_tasks s ! i"
  let ?s = "s\<lparr>io_tasks := (io_tasks s)[i := collect_event revents eof ?t]\<rparr>"
  have fields: "io_fd (collect_event revents eof ?t) = io_fd ?t" "io_listening (collect_event revents eof ?t) = io_listening ?t"
    "io_reaction (collect_event revents eof ?t) = io_reaction ?t" "io_processing (collect_event revents eof ?t) = io_processing ?t"
    by (simp_all add: collect_event_def Let_def)
  have grows: "bit (busy ?t) b \<Longrightarrow> bit (busy (collect_event revents eof ?t)) b" for b
    by (auto simp: busy_def collect_event_def Let_def bit_simps)
  have "io_inv {i} ?s"
    by (rule io_inv_update [OF inv i, of "collect_event revents eof ?t" id])
       (use inv i fields grows in \<open>auto simp: io_inv_def\<close>)
  then show ?thesis unfolding handle_task_def by (rule fire_event_inv) (simp add: i)
qed

lemma fire_event_length [simp]: "length (io_tasks (fire_event gets i s)) = length (io_tasks s)"
  by (simp add: fire_event_def Let_def)

lemma handle_task_length [simp]: "length (io_tasks (handle_task gets r e i s)) = length (io_tasks s)"
  by (simp add: handle_task_def)

lemma handle_tasks_inv:
  "io_inv {} s \<Longrightarrow> \<forall>i \<in> set is. i < length (io_tasks s) \<Longrightarrow> io_inv {} (fold (handle_task (\<lambda>_. True) r e) is s)"
  by (induction "is" arbitrary: s) (simp_all add: handle_task_inv)

text \<open>The fields the invariant does not read.\<close>

lemma io_inv_fields [simp]:
  "io_inv X (s\<lparr>io_pipe := a\<rparr>) = io_inv X s" "io_inv X (s\<lparr>io_running := b\<rparr>) = io_inv X s"
  "io_inv X (s\<lparr>io_polled := c\<rparr>) = io_inv X s"
  by (simp_all add: io_inv_def)

lemma io_inv_dirty: "io_inv X s \<Longrightarrow> io_inv X (s\<lparr>io_dirty := True\<rparr>)"
  by (simp add: io_inv_def)

lemma covered_events:
  assumes "covered ts ws" "\<forall>w \<in> set ws. \<exists>v \<in> set vs. pf_fd v = pf_fd w \<and> pf_events v = pf_events w"
  shows "covered ts vs"
  using assms unfolding covered_def cover_def by metis

lemma revents_inv:
  assumes "io_inv X s" "map (\<lambda>w. (pf_fd w, pf_events w)) ws = map (\<lambda>w. (pf_fd w, pf_events w)) (io_watches s)"
  shows "io_inv X (s\<lparr>io_watches := ws\<rparr>)"
proof -
  have fds: "map pf_fd ws = map pf_fd (io_watches s)"
    using arg_cong [OF assms(2), of "map fst"] by (simp add: comp_def)
  have "\<exists>v \<in> set ws. pf_fd v = pf_fd w \<and> pf_events v = pf_events w" if "w \<in> set (io_watches s)" for w
  proof -
    have "(pf_fd w, pf_events w) \<in> set (map (\<lambda>w. (pf_fd w, pf_events w)) ws)" unfolding assms(2) using that by simp
    then show ?thesis by auto
  qed
  then have "\<forall>w \<in> set (io_watches s). \<exists>v \<in> set ws. pf_fd v = pf_fd w \<and> pf_events v = pf_events w" by blast
  then have "covered (io_tasks s) ws" if "covered (io_tasks s) (io_watches s)"
    using that by (rule covered_events [rotated])
  then show ?thesis using assms(1) fds by (simp add: io_inv_def)
qed

lemma process_event_inv: "io_inv {} s \<Longrightarrow> io_inv {} (process_event (\<lambda>_. True) available n s)"
proof -
  assume inv: "io_inv {} s"
  have reset: "io_inv {} (u\<lparr>io_watches := (io_watches u)[n := (io_watches u ! n)\<lparr>pf_revents := 0\<rparr>]\<rparr>)" if "io_inv {} u" for u
    using that by (rule revents_inv) (rule map_same_update, simp)
  show ?thesis
    using inv unfolding process_event_def Let_def
    by (intro reset) (auto intro!: io_inv_dirty handle_tasks_inv simp: task_range_def)
qed

lemma io_inv_set:
  "io_inv {} s \<longleftrightarrow>
     sorted (map io_fd (io_tasks s)) \<and> (\<forall>t \<in> set (io_tasks s). io_recv s < io_fd t)
     \<and> sorted_wrt (<) (map pf_fd (io_watches s))
     \<and> (\<not> io_dirty s \<longrightarrow> covered (io_tasks s) (io_watches s))
     \<and> (\<forall>t \<in> set (io_tasks s). io_waiting t \<noteq> 0 \<longrightarrow> io_processing t \<noteq> 0)
     \<and> (\<forall>t \<in> set (io_tasks s). io_processing t \<noteq> 0 \<longrightarrow> (io_reaction t, io_fd t, io_processing t) \<in> set (io_submitted s))"
  unfolding io_inv_def by (simp only: all_set_conv_all_nth empty_iff not_False_eq_True simp_thms)

text \<open>A smaller list of tasks, marked dirty.\<close>

lemma io_inv_fewer:
  assumes "io_inv {} s" "sorted (map io_fd ts)" "set ts \<subseteq> set (io_tasks s)"
  shows "io_inv {} (s\<lparr>io_dirty := True, io_tasks := ts\<rparr>)"
  using assms unfolding io_inv_set by auto

lemma sorted_erase_first: "sorted (map f xs) \<Longrightarrow> sorted (map f (erase_first P xs))"
  by (induction xs) (auto dest: erase_first_subset)

lemma sorted_without_nth:
  assumes "sorted (map f xs)" "n < length xs"
  shows "sorted (map f (take n xs @ drop (Suc n) xs))"
proof -
  have "xs = take n xs @ xs ! n # drop (Suc n) xs" using assms(2) by (rule id_take_nth_drop)
  then have "sorted (map f (take n xs @ xs ! n # drop (Suc n) xs))" using assms(1) by simp
  then show ?thesis by (auto simp: sorted_append)
qed

lemma find_task_SomeD: "find_task i s = Some n \<Longrightarrow> n < length (io_tasks s) \<and> io_reaction (io_tasks s ! n) = i"
proof -
  assume "find_task i s = Some n"
  then have "\<exists>ns. filter (\<lambda>n. io_reaction (io_tasks s ! n) = i) [0..<length (io_tasks s)] = n # ns"
    unfolding find_task_def by (simp split: list.splits)
  then have "n \<in> set (filter (\<lambda>n. io_reaction (io_tasks s ! n) = i) [0..<length (io_tasks s)])"
    by (metis list.set_intros(1))
  then show ?thesis by simp
qed

lemma insert_task_sorted:
  assumes "sorted (map io_fd ts)"
  shows "sorted (map io_fd (insert_lower (\<lambda>a b. \<not> task_less b a) t ts))"
proof -
  let ?P = "\<lambda>y. \<not> task_less t y"
  have split: "sorted (map io_fd (takeWhile ?P ts @ dropWhile ?P ts))" using assms by simp
  have low: "io_fd y \<le> io_fd t" if "y \<in> set (takeWhile ?P ts)" for y
    using set_takeWhileD [OF that] by (auto simp: task_less_def split: if_splits)
  have high: "io_fd t \<le> io_fd y" if "y \<in> set (dropWhile ?P ts)" for y
  proof -
    have "dropWhile ?P ts \<noteq> []" using that by (metis empty_iff list.set(1))
    then obtain z zs where z: "dropWhile ?P ts = z # zs" unfolding neq_Nil_conv by blast
    then have "task_less t z" by (simp add: dropWhile_eq_Cons_conv)
    then have "io_fd t \<le> io_fd z" by (auto simp: task_less_def split: if_splits)
    moreover have "io_fd z \<le> io_fd y" using split that unfolding z by (auto simp: sorted_append)
    ultimately show ?thesis by simp
  qed
  have "sorted (map io_fd (takeWhile ?P ts))" "sorted (map io_fd (dropWhile ?P ts))"
    using split unfolding map_append sorted_append by blast+
  then show ?thesis
    using low high by (simp only: insert_lower_def) (auto simp: sorted_append intro: order_trans)
qed

lemma configure_io_inv:
  assumes "io_inv {} s" "io_recv s < fd"
  shows "io_inv {} (configure_io fd e r s)"
proof -
  let ?t = "\<lparr>io_fd = fd, io_listening = e, io_waiting = 0, io_processing = 0, io_reaction = r\<rparr>"
  show ?thesis
    using assms insert_task_sorted [of "io_tasks s" ?t] unfolding configure_io_def bump_def Let_def
    by (simp only: io_inv_fields) (auto simp: io_inv_set)
qed

lemma unbind_io_inv: "io_inv {} s \<Longrightarrow> io_inv {} (unbind_io r s)"
proof -
  assume inv: "io_inv {} s"
  have "io_inv {} (s\<lparr>io_dirty := True, io_tasks := erase_first (\<lambda>t. io_reaction t = r) (io_tasks s)\<rparr>)"
    using inv by (intro io_inv_fewer) (simp_all add: io_inv_set sorted_erase_first set_erase_first)
  moreover have "s\<lparr>io_dirty := True, io_tasks := ts\<rparr> = s\<lparr>io_tasks := ts, io_dirty := True\<rparr>" for ts by simp
  ultimately show ?thesis by (simp only: unbind_io_def bump_def io_inv_fields)
qed

lemma io_finished_inv:
  assumes inv: "io_inv {} s"
  shows "io_inv {} (io_finished (\<lambda>_. True) i s)"
proof (cases "find_task i s")
  case None
  then show ?thesis using inv by (simp add: io_finished_def)
next
  case (Some n)
  let ?t = "io_tasks s ! n"
  have n: "n < length (io_tasks s)" using find_task_SomeD [OF Some] by simp
  show ?thesis
  proof (cases "io_processing ?t AND event_bits IO_CLOSE \<noteq> 0")
    case True
    have "set (take n (io_tasks s) @ drop (Suc n) (io_tasks s)) \<subseteq> set (io_tasks s)"
      by (auto dest: in_set_takeD in_set_dropD)
    then have "io_inv {} (s\<lparr>io_dirty := True, io_tasks := take n (io_tasks s) @ drop (Suc n) (io_tasks s)\<rparr>)"
      using sorted_without_nth [of io_fd "io_tasks s" n] inv n by (intro io_inv_fewer) (simp_all add: io_inv_set)
    then show ?thesis using Some True by (simp add: io_finished_def Let_def)
  next
    case False
    let ?u = "?t\<lparr>io_processing := 0\<rparr>"
    let ?g = "\<lambda>w. if pf_fd w = io_fd ?t then w\<lparr>pf_events := pf_events w OR io_processing ?t\<rparr> else w"
    have sw: "sorted_wrt (<) (map pf_fd (io_watches s))" using inv by (simp add: io_inv_def)
    have cw: "change_watch (io_fd ?t) (\<lambda>e. e OR io_processing ?t) (io_watches s) = map ?g (io_watches s)"
      by (rule change_watch_sorted [OF sw])
    let ?s = "(bump s)\<lparr>io_watches := map ?g (io_watches s), io_tasks := (io_tasks s)[n := ?u]\<rparr>"
    have "io_inv {n} ?s"
    proof (rule io_inv_update [OF inv n, of ?u ?g])
      fix b w assume "bit (busy ?t) b" "\<not> bit (busy ?u) b" "pf_fd w = io_fd ?u"
      then show "bit (pf_events (?g w)) b" by (auto simp: busy_def bit_simps)
    next
      fix w b assume "bit (pf_events w) b" "\<not> bit (pf_events (?g w)) b"
      then show "pf_fd w = io_fd ?u \<and> bit (busy ?u) b" by (auto simp: bit_simps split: if_splits)
    qed (simp_all add: bump_def)
    then have "io_inv {} (fire_event (\<lambda>_. True) n ?s)" by (rule fire_event_inv) (simp add: n)
    then show ?thesis using Some False by (simp add: io_finished_def Let_def cw)
  qed
qed

lemma rebuild_inv: "io_inv {} s \<Longrightarrow> io_inv {} (rebuild_list s)"
  using rebuild_covers [of s] unfolding io_inv_set by (simp add: rebuild_list_def Let_def)

lemma poll_io_inv: "io_inv {} s \<Longrightarrow> io_inv {} (poll_io ev s)"
proof -
  assume inv: "io_inv {} s"
  have "io_inv {} (u\<lparr>io_watches := map (\<lambda>w. w\<lparr>pf_revents := ev (pf_fd w)\<rparr>) (io_watches u)\<rparr>)" if "io_inv {} u" for u
    using that by (rule revents_inv) simp
  then show ?thesis using inv rebuild_inv [OF inv] by (simp add: poll_io_def Let_def)
qed

lemma process_io_inv:
  assumes "io_inv {} s"
  shows "io_inv {} (process_io (\<lambda>_. True) available s)"
proof -
  have "io_inv {} (fold (process_entry (\<lambda>_. True) available) is u)" if "io_inv {} u" for "is" u
    using that by (induction "is" arbitrary: u) (simp_all add: process_entry_def process_event_inv)
  then show ?thesis using assms by (simp add: process_io_def)
qed

lemma new_io_inv: "io_inv {} (new_io recv)"
  unfolding new_io_def by (rule rebuild_inv) (simp add: io_inv_set)

lemma recv_fixed [simp]: "io_recv (io_step gets op s) = io_recv s"
proof -
  have h: "io_recv (fold (handle_task gets r e) is u) = io_recv u" for r e "is" u
    by (induction "is" arbitrary: u) (simp_all add: handle_task_def fire_event_def Let_def)
  have "io_recv (fold (process_entry gets av) is u) = io_recv u" for av "is" u
    by (induction "is" arbitrary: u) (simp_all add: process_entry_def process_event_def Let_def h)
  then show ?thesis
    by (cases op) (auto simp: configure_io_def bump_def io_finished_def fire_event_def unbind_io_def shutdown_io_def poll_io_def
        rebuild_list_def process_io_def Let_def split: option.splits)
qed

fun above :: "int \<Rightarrow> io_op \<Rightarrow> bool" where
  "above recv (ConfigureIO fd e r) \<longleftrightarrow> recv < fd"
| "above recv _ \<longleftrightarrow> True"

lemma io_step_inv: "io_inv {} s \<Longrightarrow> above (io_recv s) op \<Longrightarrow> io_inv {} (io_step (\<lambda>_. True) op s)"
  by (cases op)
     (simp_all add: configure_io_inv io_finished_inv unbind_io_inv poll_io_inv process_io_inv shutdown_io_def bump_def)

lemma io_steps_inv:
  "io_inv {} s \<Longrightarrow> \<forall>op \<in> set ops. above (io_recv s) op \<Longrightarrow> io_inv {} (fold (io_step (\<lambda>_. True)) ops s)"
  by (induction ops arbitrary: s) (simp_all add: io_step_inv)



section \<open>One run at a time\<close>

definition held :: "nid \<Rightarrow> io \<Rightarrow> bool" where
  "held i s \<longleftrightarrow> (\<forall>t \<in> set (io_tasks s). io_reaction t = i \<longrightarrow> io_processing t \<noteq> 0)"

definition runs_of :: "nid \<Rightarrow> io \<Rightarrow> (nid \<times> int \<times> event_t) list" where
  "runs_of i s = filter (\<lambda>r. fst r = i) (io_submitted s)"

lemma held_update:
  assumes "held i s" "io_reaction u = i \<longrightarrow> io_processing u \<noteq> 0" "io_tasks s' = (io_tasks s)[n := u]"
  shows "held i s'"
  using assms set_update_subset_insert [of "io_tasks s" n u] unfolding held_def by auto

lemma fire_event_held:
  assumes "held i s" "n < length (io_tasks s)"
  shows "held i (fire_event gets n s) \<and> runs_of i (fire_event gets n s) = runs_of i s"
proof (cases "io_processing (io_tasks s ! n) = 0 \<and> io_waiting (io_tasks s ! n) \<noteq> 0")
  case False
  then show ?thesis using assms by (auto simp: fire_event_def Let_def)
next
  case True
  then have "io_reaction (io_tasks s ! n) \<noteq> i" using assms by (auto simp: held_def)
  then show ?thesis
    using True assms
    by (auto simp: fire_event_def Let_def runs_of_def held_def dest!: set_update_subset_insert [THEN subsetD])
qed

lemma handle_task_held:
  assumes "held i s" "n < length (io_tasks s)"
  shows "held i (handle_task gets r e n s) \<and> runs_of i (handle_task gets r e n s) = runs_of i s"
proof -
  let ?u = "collect_event r e (io_tasks s ! n)"
  have u: "io_reaction ?u = io_reaction (io_tasks s ! n)" "io_processing ?u = io_processing (io_tasks s ! n)"
    by (simp_all add: collect_event_def Let_def)
  have "held i (s\<lparr>io_tasks := (io_tasks s)[n := ?u]\<rparr>)"
    by (rule held_update [where n = n and u = ?u]) (use assms u in \<open>auto simp: held_def\<close>)
  moreover have "runs_of i (s\<lparr>io_tasks := (io_tasks s)[n := ?u]\<rparr>) = runs_of i s" by (simp add: runs_of_def)
  ultimately show ?thesis
    unfolding handle_task_def using fire_event_held [of i "s\<lparr>io_tasks := (io_tasks s)[n := ?u]\<rparr>" n gets] assms(2) by simp
qed

lemma handle_tasks_held:
  "held i s \<Longrightarrow> \<forall>n \<in> set is. n < length (io_tasks s) \<Longrightarrow>
     held i (fold (handle_task gets r e) is s) \<and> runs_of i (fold (handle_task gets r e) is s) = runs_of i s"
proof (induction "is" arbitrary: s)
  case (Cons n "is")
  then show ?case using handle_task_held [of i s n gets r e] by simp
qed simp

lemma held_fields [simp]:
  "held i (s\<lparr>io_watches := a\<rparr>) = held i s" "held i (s\<lparr>io_dirty := b\<rparr>) = held i s" "held i (s\<lparr>io_pipe := c\<rparr>) = held i s"
  "held i (s\<lparr>io_polled := b\<rparr>) = held i s" "runs_of i (s\<lparr>io_watches := a\<rparr>) = runs_of i s"
  "runs_of i (s\<lparr>io_dirty := b\<rparr>) = runs_of i s" "runs_of i (s\<lparr>io_pipe := c\<rparr>) = runs_of i s"
  "runs_of i (s\<lparr>io_polled := b\<rparr>) = runs_of i s" "runs_of i (s\<lparr>io_tasks := d\<rparr>) = runs_of i s"
  by (simp_all add: held_def runs_of_def)

lemma process_entries_held:
  "held i s \<Longrightarrow> held i (fold (process_entry gets av) is s) \<and> runs_of i (fold (process_entry gets av) is s) = runs_of i s"
proof (induction "is" arbitrary: s)
  case (Cons n "is")
  have "held i (process_entry gets av n s) \<and> runs_of i (process_entry gets av n s) = runs_of i s"
    using Cons.prems handle_tasks_held [of i s "task_range (pf_fd (io_watches s ! n)) s" gets]
    by (auto simp: process_entry_def process_event_def Let_def task_range_def)
  then show ?case using Cons.IH by simp
qed simp

lemma held_fewer: "held i s \<Longrightarrow> set ts \<subseteq> set (io_tasks s) \<Longrightarrow> held i (s\<lparr>io_tasks := ts\<rparr>)"
  by (auto simp: held_def)

lemma io_finished_held:
  assumes "held i s" "j \<noteq> i"
  shows "held i (io_finished gets j s) \<and> runs_of i (io_finished gets j s) = runs_of i s"
proof (cases "find_task j s")
  case None
  then show ?thesis using assms by (simp add: io_finished_def)
next
  case (Some n)
  let ?t = "io_tasks s ! n"
  have n: "n < length (io_tasks s)" "io_reaction ?t = j" using find_task_SomeD [OF Some] by simp_all
  show ?thesis
  proof (cases "io_processing ?t AND event_bits IO_CLOSE \<noteq> 0")
    case True
    then show ?thesis
      using Some assms by (auto simp: io_finished_def Let_def held_def runs_of_def dest: in_set_takeD in_set_dropD)
  next
    case False
    let ?s = "(bump s)\<lparr>io_watches := change_watch (io_fd ?t) (\<lambda>e. e OR io_processing ?t) (io_watches s),
        io_tasks := (io_tasks s)[n := ?t\<lparr>io_processing := 0\<rparr>]\<rparr>"
    have "held i ?s"
      by (rule held_update [where n = n and u = "?t\<lparr>io_processing := 0\<rparr>", OF assms(1)]) (use n assms(2) in \<open>simp_all add: bump_def\<close>)
    moreover have "runs_of i ?s = runs_of i s" by (simp add: bump_def)
    ultimately show ?thesis
      using Some False fire_event_held [of i ?s n gets] n(1) by (simp add: io_finished_def Let_def)
  qed
qed

fun leaves_alone :: "nid \<Rightarrow> io_op \<Rightarrow> bool" where
  "leaves_alone i (FinishedIO j) \<longleftrightarrow> j \<noteq> i"
| "leaves_alone i (ConfigureIO fd e j) \<longleftrightarrow> j \<noteq> i"
| "leaves_alone i _ \<longleftrightarrow> True"

lemma io_step_held:
  assumes "held i s" "leaves_alone i op"
  shows "held i (io_step gets op s) \<and> runs_of i (io_step gets op s) = runs_of i s"
proof (cases op)
  case (ConfigureIO fd e r)
  then show ?thesis using assms by (auto simp: configure_io_def bump_def Let_def held_def runs_of_def)
next
  case (UnbindIO r)
  then show ?thesis using assms by (auto simp: unbind_io_def bump_def held_def runs_of_def dest: erase_first_subset)
next
  case (PollIO ev)
  then show ?thesis using assms by (simp add: poll_io_def rebuild_list_def Let_def)
qed (use assms io_finished_held process_entries_held in
      \<open>auto simp: shutdown_io_def bump_def process_io_def held_def runs_of_def\<close>)

text \<open>
  One run at a time. Once a run of a reaction has been submitted for its descriptor (it is processing events),
  nothing that happens before the run has finished submits another one, whatever events come, whichever descriptors
  there are and whichever reactions refuse: not polling, not processing, not the ends of other runs. As the end is
  announced by \<open>post_run\<close> alone, which an exception of the callback skips, a callback that throws is the
  reaction's last.
\<close>

theorem io_one_run_at_a_time:
  assumes "\<forall>t \<in> set (io_tasks s). io_reaction t = i \<longrightarrow> io_processing t \<noteq> 0"
    and "\<forall>op \<in> set ops. leaves_alone i op"
  shows "filter (\<lambda>r. fst r = i) (io_submitted (fold (io_step gets) ops s)) = filter (\<lambda>r. fst r = i) (io_submitted s)"
proof -
  have "held i s \<Longrightarrow> runs_of i (fold (io_step gets) ops s) = runs_of i s"
    using assms(2)
  proof (induction ops arbitrary: s)
    case (Cons op ops)
    then show ?case using io_step_held [of i s op gets] by simp
  qed simp
  then show ?thesis using assms(1) by (simp add: held_def runs_of_def)
qed

theorem io_one_run_at_a_time_witness:
  "let s = (new_io 5)\<lparr>io_tasks := [\<lparr>io_fd = 7, io_listening = POLLIN, io_waiting = 0, io_processing = POLLIN, io_reaction = 1\<rparr>]\<rparr>
   in filter (\<lambda>r. fst r = 1) (io_submitted (fold (io_step (\<lambda>_. True)) [PollIO (\<lambda>_. POLLIN), ProcessIO (\<lambda>_. None)] s)) = []"
proof -
  let ?s = "(new_io 5)\<lparr>io_tasks := [\<lparr>io_fd = 7, io_listening = POLLIN, io_waiting = 0, io_processing = POLLIN, io_reaction = 1\<rparr>]\<rparr>"
  have "\<forall>t \<in> set (io_tasks ?s). io_reaction t = 1 \<longrightarrow> io_processing t \<noteq> 0"
    "\<forall>op \<in> set [PollIO (\<lambda>_. POLLIN), ProcessIO (\<lambda>_. None)]. leaves_alone 1 op" by simp_all
  from io_one_run_at_a_time [OF this, of "\<lambda>_. True"] show ?thesis
    by (simp add: Let_def new_io_def rebuild_list_def del: fold.simps)
qed

end
