(* ===== verification/IO_Faults.thy ===== *)
theory IO_Faults
  imports IO_Control
begin

text \<open>
  Histories of the IO controller in which a task goes deaf: a descriptor below the one of the notification pipe, an
  event its reaction refuses, and a datagram without bytes.
\<close>

lemma lower_bound_steps:
  "lower_bound_from P xs lo 0 = lo"
  "lower_bound_from P xs lo (Suc n) =
     (if P (xs ! (lo + Suc n div 2)) then lower_bound_from P xs (lo + Suc n div 2 + 1) (Suc n - Suc n div 2 - 1)
      else lower_bound_from P xs lo (Suc n div 2))"
  by (simp_all add: lower_bound_from.simps [of P xs lo 0] lower_bound_from.simps [of P xs lo "Suc n"] Let_def)

lemma lower_bound_2: "lower_bound P [a, b] = (if P b then 2 else if P a then 1 else 0)"
  by (simp add: lower_bound_def lower_bound_steps)

lemma lower_bound_3: "lower_bound P [a, b, c] = (if P b then (if P c then 3 else 2) else if P a then 1 else 0)"
  by (simp add: lower_bound_def lower_bound_steps)

definition pipe_watch :: "int \<Rightarrow> pollfd" where
  "pipe_watch recv = \<lparr>pf_fd = recv, pf_events = POLLIN OR POLLERR OR POLLNVAL, pf_revents = 0\<rparr>"

lemma new_io_simp:
  "new_io recv = \<lparr>io_recv = recv, io_running = True, io_dirty = False, io_pipe = 0, io_watches = [pipe_watch recv],
     io_tasks = [], io_polled = False, io_submitted = []\<rparr>"
  by (simp add: new_io_def rebuild_list_def Let_def pipe_watch_def)

lemmas io_run = configure_io_def bump_def insert_lower_def poll_io_def rebuild_list_def process_io_def process_entry_def
  process_event_def task_range_def handle_task_def collect_event_def fire_event_def change_watch_def io_finished_def
  find_task_def Let_def

text \<open>After the first event of a task: the task is processing it, and the list has masked it if the entry was found.\<close>

lemma first_event:
  assumes "fd \<noteq> recv" "e = POLLIN"
  shows "process_io (\<lambda>_. accepts) av (poll_io (\<lambda>f. if f = fd then POLLIN else 0) (configure_io fd e 1 (new_io recv))) =
    (let close = (if av fd = Some 0 then POLLHUP else 0)
     in \<lparr>io_recv = recv, io_running = True, io_dirty = False, io_pipe = 1,
        io_watches = [pipe_watch recv,
          \<lparr>pf_fd = fd, pf_events = (if accepts \<and> recv < fd then 0 else POLLIN), pf_revents = 0\<rparr>],
        io_tasks = [\<lparr>io_fd = fd, io_listening = e, io_waiting = (if accepts then 0 else POLLIN OR close),
          io_processing = (if accepts then POLLIN OR close else 0), io_reaction = 1\<rparr>],
        io_polled = False, io_submitted = (if accepts then [(1, fd, POLLIN OR close)] else [])\<rparr>)"
  using assms
  by (auto simp: new_io_simp io_run lower_bound_2 pipe_watch_def upt_rec [of 0] upt_rec [of "Suc 0"])

definition polls :: "int \<Rightarrow> int \<Rightarrow> event_t" where
  "polls fd = (\<lambda>f. if f = fd then POLLIN else 0)"

definition first_run :: "bool \<Rightarrow> (int \<Rightarrow> nat option) \<Rightarrow> int \<Rightarrow> int \<Rightarrow> io" where
  "first_run accepts av recv fd =
     process_io (\<lambda>_. accepts) av (poll_io (polls fd) (configure_io fd POLLIN 1 (new_io recv)))"

definition another_bound :: "(int \<Rightarrow> nat option) \<Rightarrow> int \<Rightarrow> io \<Rightarrow> io" where
  "another_bound av other s = process_io (\<lambda>_. True) av (poll_io (\<lambda>_. 0) (configure_io other POLLIN 2 s))"

lemma low_descriptor:
  assumes "fd < recv" "recv < other" "av fd \<noteq> Some 0"
  shows "io_finished (\<lambda>_. True) 1 (another_bound av other (first_run True av recv fd)) =
    \<lparr>io_recv = recv, io_running = True, io_dirty = False, io_pipe = 3,
      io_watches = [pipe_watch recv, \<lparr>pf_fd = fd, pf_events = 0, pf_revents = 0\<rparr>, \<lparr>pf_fd = other, pf_events = POLLIN, pf_revents = 0\<rparr>],
      io_tasks = [\<lparr>io_fd = fd, io_listening = POLLIN, io_waiting = 0, io_processing = 0, io_reaction = 1\<rparr>,
        \<lparr>io_fd = other, io_listening = POLLIN, io_waiting = 0, io_processing = 0, io_reaction = 2\<rparr>],
      io_polled = False, io_submitted = [(1, fd, POLLIN)]\<rparr>"
proof -
  have "first_run True av recv fd = \<lparr>io_recv = recv, io_running = True, io_dirty = False, io_pipe = 1,
      io_watches = [pipe_watch recv, \<lparr>pf_fd = fd, pf_events = POLLIN, pf_revents = 0\<rparr>],
      io_tasks = [\<lparr>io_fd = fd, io_listening = POLLIN, io_waiting = 0, io_processing = POLLIN, io_reaction = 1\<rparr>],
      io_polled = False, io_submitted = [(1, fd, POLLIN)]\<rparr>"
    using first_event [of fd recv POLLIN True av] assms by (simp add: first_run_def polls_def Let_def)
  then show ?thesis
    using assms
    by (simp add: another_bound_def io_run task_less_def pipe_watch_def lower_bound_3 upt_rec [of 0] upt_rec [of "Suc 0"] upt_rec [of "Suc (Suc 0)"])
qed

lemma refused_event:
  assumes "recv < fd" "fd < other" "av fd \<noteq> Some 0"
  shows "another_bound av other (first_run False av recv fd) =
    \<lparr>io_recv = recv, io_running = True, io_dirty = False, io_pipe = 2,
      io_watches = [pipe_watch recv, \<lparr>pf_fd = fd, pf_events = 0, pf_revents = 0\<rparr>, \<lparr>pf_fd = other, pf_events = POLLIN, pf_revents = 0\<rparr>],
      io_tasks = [\<lparr>io_fd = fd, io_listening = POLLIN, io_waiting = POLLIN, io_processing = 0, io_reaction = 1\<rparr>,
        \<lparr>io_fd = other, io_listening = POLLIN, io_waiting = 0, io_processing = 0, io_reaction = 2\<rparr>],
      io_polled = False, io_submitted = []\<rparr>"
proof -
  have "first_run False av recv fd = \<lparr>io_recv = recv, io_running = True, io_dirty = False, io_pipe = 1,
      io_watches = [pipe_watch recv, \<lparr>pf_fd = fd, pf_events = POLLIN, pf_revents = 0\<rparr>],
      io_tasks = [\<lparr>io_fd = fd, io_listening = POLLIN, io_waiting = POLLIN, io_processing = 0, io_reaction = 1\<rparr>],
      io_polled = False, io_submitted = []\<rparr>"
    using first_event [of fd recv POLLIN False av] assms by (simp add: first_run_def polls_def Let_def)
  then show ?thesis
    using assms
    by (simp add: another_bound_def io_run task_less_def pipe_watch_def lower_bound_3 upt_rec [of 0] upt_rec [of "Suc 0"] upt_rec [of "Suc (Suc 0)"])
qed

text \<open>
  Two ways to go deaf. A task that reads from a descriptor below the one of the notification pipe (standard
  input, say) runs for its first event while another descriptor is bound: the rebuilt list masks the event, but at
  the end of the run the search in the list, which the pipe's entry at its front leaves unsorted, does not find
  the entry to unmask it. And a task whose reaction refuses its event (its data is missing, it is disabled) keeps
  the event waiting, so that the list rebuilt for another descriptor masks it although no run will ever finish. In
  both cases the task is bound and idle, the list is up to date, and \<open>poll\<close> is asked for nothing on its descriptor.
\<close>

theorem io_deaf_task:
  assumes "av fd \<noteq> Some 0"
  shows "(fd < recv \<and> recv < other \<longrightarrow>
      (let s = io_finished (\<lambda>_. True) 1 (another_bound av other (first_run True av recv fd))
       in \<not> io_dirty s
          \<and> io_tasks s ! 0 = \<lparr>io_fd = fd, io_listening = POLLIN, io_waiting = 0, io_processing = 0, io_reaction = 1\<rparr>
          \<and> [w \<leftarrow> io_watches s. pf_fd w = fd] = [\<lparr>pf_fd = fd, pf_events = 0, pf_revents = 0\<rparr>]))
    \<and> (recv < fd \<and> fd < other \<longrightarrow>
      (let s = another_bound av other (first_run False av recv fd)
       in \<not> io_dirty s
          \<and> io_tasks s ! 0 = \<lparr>io_fd = fd, io_listening = POLLIN, io_waiting = POLLIN, io_processing = 0, io_reaction = 1\<rparr>
          \<and> [w \<leftarrow> io_watches s. pf_fd w = fd] = [\<lparr>pf_fd = fd, pf_events = 0, pf_revents = 0\<rparr>]
          \<and> io_submitted s = []))"
  using low_descriptor [of fd recv other av] refused_event [of recv fd other av] assms
  by (simp add: Let_def pipe_watch_def)

theorem io_deaf_task_witness:
  "io_watches (io_finished (\<lambda>_. True) 1 (another_bound (\<lambda>_. None) 9 (first_run True (\<lambda>_. None) 5 0))) \<noteq> []
   \<and> \<not> io_dirty (io_finished (\<lambda>_. True) 1 (another_bound (\<lambda>_. None) 9 (first_run True (\<lambda>_. None) 5 0)))"
  using io_deaf_task [of "\<lambda>_. None" 0 5 9] by (auto simp: Let_def)

text \<open>
  A datagram without bytes ends a UDP reaction. If a descriptor is readable and has no bytes available, the
  controller adds CLOSE to the events of the run even where the task does not listen for it, and when the run has
  finished the task is removed; a UDP socket with an empty datagram at the front of its queue is just that.
\<close>

theorem io_empty_datagram_unbinds:
  assumes "av fd = Some 0" "fd \<noteq> recv"
  shows "(let s = first_run True av recv fd
    in io_submitted s = [(1, fd, POLLIN OR POLLHUP)] \<and> map io_listening (io_tasks s) = [POLLIN]
       \<and> io_tasks (io_finished gets 1 s) = [] \<and> io_dirty (io_finished gets 1 s))"
proof -
  have "first_run True av recv fd = \<lparr>io_recv = recv, io_running = True, io_dirty = False, io_pipe = 1,
      io_watches = [pipe_watch recv, \<lparr>pf_fd = fd, pf_events = (if recv < fd then 0 else POLLIN), pf_revents = 0\<rparr>],
      io_tasks = [\<lparr>io_fd = fd, io_listening = POLLIN, io_waiting = 0, io_processing = POLLIN OR POLLHUP, io_reaction = 1\<rparr>],
      io_polled = False, io_submitted = [(1, fd, POLLIN OR POLLHUP)]\<rparr>"
    using first_event [of fd recv POLLIN True av] assms by (simp add: first_run_def polls_def Let_def)
  then show ?thesis by (simp add: Let_def io_finished_def find_task_def)
qed

theorem io_empty_datagram_unbinds_witness:
  "io_tasks (io_finished (\<lambda>_. True) 1 (first_run True (\<lambda>_. Some 0) 5 7)) = []"
  using io_empty_datagram_unbinds [of "\<lambda>_. Some 0" 7 5] by (simp add: Let_def)

end
