(* ===== verification/Dsl_Words.thy ===== *)
theory Dsl_Words
  imports Reaction_Core Task_Order
begin

text \<open>
  What a sentence of DSL words means: the fusions of \<open>dsl/fusion\<close> with the defaults of \<open>NoOp\<close>, the scope of
  \<open>TaskScope\<close>, and \<open>Last\<close>. A word that has a method is the function of that method; \<open>'t\<close> is the task it reads.
\<close>

section \<open>Fusions\<close>

fun priority_fuse :: "('t \<Rightarrow> int) list \<Rightarrow> 't \<Rightarrow> int" where
  "priority_fuse [] t = priority_value W_NORMAL"
| "priority_fuse [w] t = w t"
| "priority_fuse (w # v # ws) t = max (w t) (priority_fuse (v # ws) t)"

text \<open>The exception is the \<open>std::logic_error\<close> of words that disagree; an inner fusion may throw it too.\<close>

datatype fuse_error = BothAlwaysAndNever | MoreThanOnePool

fun inline_fuse :: "('t \<Rightarrow> fuse_error + Inline) list \<Rightarrow> 't \<Rightarrow> fuse_error + Inline" where
  "inline_fuse [] t = Inr NEUTRAL"
| "inline_fuse [w] t = w t"
| "inline_fuse (w # v # ws) t =
     (case w t of
        Inl e \<Rightarrow> Inl e
      | Inr a \<Rightarrow>
          (case inline_fuse (v # ws) t of
             Inl e \<Rightarrow> Inl e
           | Inr b \<Rightarrow>
               (if (a = ALWAYS \<and> b = NEVER) \<or> (a = NEVER \<and> b = ALWAYS) then Inl BothAlwaysAndNever
                else Inr (if a = NEUTRAL then b else a))))"

fun pool_fuse :: "'p \<Rightarrow> ('t \<Rightarrow> 'p) list \<Rightarrow> 't \<Rightarrow> fuse_error + 'p" where
  "pool_fuse dflt [] t = Inr dflt"
| "pool_fuse dflt [w] t = Inr (w t)"
| "pool_fuse dflt (w # v # ws) t = Inl MoreThanOnePool"

fun group_fuse :: "('t \<Rightarrow> 'g set) list \<Rightarrow> 't \<Rightarrow> 'g set" where
  "group_fuse [] t = {}"
| "group_fuse [w] t = w t"
| "group_fuse (w # v # ws) t = w t \<union> group_fuse (v # ws) t"

text \<open>Preconditions may change the state of the words; the first false one ends them.\<close>

fun precondition_fuse :: "('t \<Rightarrow> 's \<Rightarrow> bool \<times> 's) list \<Rightarrow> 't \<Rightarrow> 's \<Rightarrow> bool \<times> 's" where
  "precondition_fuse [] t s = (True, s)"
| "precondition_fuse [w] t s = w t s"
| "precondition_fuse (w # v # ws) t s =
     (case w t s of (False, s1) \<Rightarrow> (False, s1) | (True, s1) \<Rightarrow> precondition_fuse (v # ws) t s1)"

text \<open>\<open>pre_run\<close> and \<open>post_run\<close>: one after the other until one throws.\<close>

fun run_fuse :: "('t \<Rightarrow> 's \<Rightarrow> 'e option \<times> 's) list \<Rightarrow> 't \<Rightarrow> 's \<Rightarrow> 'e option \<times> 's" where
  "run_fuse [] t s = (None, s)"
| "run_fuse [w] t s = w t s"
| "run_fuse (w # v # ws) t s =
     (case w t s of (Some e, s1) \<Rightarrow> (Some e, s1) | (None, s1) \<Rightarrow> run_fuse (v # ws) t s1)"

lemma priority_fuse_max: "ws \<noteq> [] \<Longrightarrow> priority_fuse ws t = Max ((\<lambda>w. w t) ` set ws)"
  by (induction ws t rule: priority_fuse.induct) auto

lemma group_fuse_union: "group_fuse ws t = (\<Union>w \<in> set ws. w t)"
  by (induction ws t rule: group_fuse.induct) auto

lemma run_fuse_append:
  "run_fuse (ws @ vs) t s = (case run_fuse ws t s of (Some e, s1) \<Rightarrow> (Some e, s1) | (None, s1) \<Rightarrow> run_fuse vs t s1)"
proof (induction ws t s rule: run_fuse.induct)
  case (2 w t s)
  then show ?case by (cases vs) (auto split: prod.splits option.splits)
next
  case (3 w v ws t s)
  then show ?case by (auto split: prod.splits option.splits)
qed simp

lemma inline_fuse_cases:
  "\<forall>w \<in> set ws. \<exists>i. w t = Inr i \<Longrightarrow>
   inline_fuse ws t =
     (if Inr ALWAYS \<in> (\<lambda>w. w t) ` set ws \<and> Inr NEVER \<in> (\<lambda>w. w t) ` set ws then Inl BothAlwaysAndNever
      else if Inr ALWAYS \<in> (\<lambda>w. w t) ` set ws then Inr ALWAYS
      else if Inr NEVER \<in> (\<lambda>w. w t) ` set ws then Inr NEVER
      else Inr NEUTRAL)"
proof (induction ws t rule: inline_fuse.induct)
  case (2 w t)
  then obtain i where "w t = Inr i" by auto
  then show ?case by (cases i) auto
next
  case (3 w v ws t)
  then obtain i where "w t = Inr i" by auto
  moreover have "inline_fuse (v # ws) t =
     (if Inr ALWAYS \<in> (\<lambda>w. w t) ` set (v # ws) \<and> Inr NEVER \<in> (\<lambda>w. w t) ` set (v # ws) then Inl BothAlwaysAndNever
      else if Inr ALWAYS \<in> (\<lambda>w. w t) ` set (v # ws) then Inr ALWAYS
      else if Inr NEVER \<in> (\<lambda>w. w t) ` set (v # ws) then Inr NEVER
      else Inr NEUTRAL)"
    using 3 calculation by simp
  moreover obtain j where "v t = Inr j" using 3(2) by auto
  ultimately show ?case
    by (cases i) (auto simp: image_iff)
qed simp

section \<open>TaskScope\<close>

text \<open>
  The thread's current task, and the id the scope word has stored (0 at first). \<open>nested\<close> runs a task inside the
  running one, with its scope if it has the word.
\<close>

record scope_state =
  sc_current :: "nid option"
  sc_stored :: nid

definition scope_enter :: "nid \<Rightarrow> scope_state \<Rightarrow> nid \<times> scope_state" where
  "scope_enter task s = (sc_stored s, s\<lparr>sc_stored := task\<rparr>)"

definition scope_leave :: "nid \<Rightarrow> scope_state \<Rightarrow> scope_state" where
  "scope_leave old s = s\<lparr>sc_stored := old\<rparr>"

definition in_scope :: "scope_state \<Rightarrow> bool" where
  "in_scope s = (case sc_current s of None \<Rightarrow> False | Some t \<Rightarrow> t = sc_stored s)"

datatype nest = Nest nid bool "nest list"

fun run_nest :: "nest \<Rightarrow> scope_state \<Rightarrow> (nid \<times> bool) list \<times> scope_state"
  and run_nests :: "nest list \<Rightarrow> scope_state \<Rightarrow> (nid \<times> bool) list \<times> scope_state" where
  "run_nest (Nest t scoped inner) s =
     (let (old, s1) = (if scoped then scope_enter t (s\<lparr>sc_current := Some t\<rparr>) else (sc_stored s, s\<lparr>sc_current := Some t\<rparr>));
          here = in_scope s1;
          (seen, s2) = run_nests inner s1;
          s3 = (if scoped then scope_leave old s2 else s2)
      in ((t, here) # seen, s3\<lparr>sc_current := sc_current s\<rparr>))"
| "run_nests [] s = ([], s)"
| "run_nests (n # ns) s = (let (a, s1) = run_nest n s; (b, s2) = run_nests ns s1 in (a @ b, s2))"

fun nest_words :: "nest \<Rightarrow> (nid \<times> bool) list" where
  "nest_words (Nest t scoped inner) = (t, scoped) # concat (map nest_words inner)"

lemma scope_restored: "snd (run_nest n s) = s" "snd (run_nests ns s) = s"
proof (induction n s and ns s rule: run_nest_run_nests.induct)
  case (3 n ns s)
  then show ?case by (cases "run_nest n s") (simp add: split_beta Let_def)
qed (auto simp: scope_enter_def scope_leave_def split_beta Let_def)

text \<open>A task is in scope exactly if it has the word itself, however the tasks are nested, if ids are unique.\<close>

lemma in_scope_exact:
  "distinct (map fst (nest_words n)) \<Longrightarrow> sc_stored s \<notin> fst ` set (nest_words n) \<Longrightarrow> fst (run_nest n s) = nest_words n"
  "distinct (map fst (concat (map nest_words ns))) \<Longrightarrow> sc_stored s \<notin> fst ` set (concat (map nest_words ns)) \<Longrightarrow>
     fst (run_nests ns s) = concat (map nest_words ns)"
proof (induction n s and ns s rule: run_nest_run_nests.induct)
  case (1 t scoped inner s)
  then show ?case
    by (cases scoped) (auto simp: scope_enter_def in_scope_def split_beta Let_def)
next
  case (3 n ns s)
  have "snd (run_nest n s) = s" by (rule scope_restored)
  then show ?case using 3 by (auto simp: split_beta Let_def prod_eq_iff image_Un)
qed simp

section \<open>Last\<close>

text \<open>
  \<open>LastItemStorage\<close> is its list, and the data of a run is a list of one item (\<open>None\<close> for a null pointer). \<open>Last\<close>
  merges it into the list the generator keeps.
\<close>

definition last_storage :: "'v option \<Rightarrow> 'v option list" where
  "last_storage x = [x]"

definition last_good :: "'v option list \<Rightarrow> bool" where
  "last_good l \<longleftrightarrow> l \<noteq> []"

definition last_merge :: "nat \<Rightarrow> 'v option list \<Rightarrow> 'v option list \<Rightarrow> 'v option list \<times> 'v option list" where
  "last_merge n t d =
     (let t1 = t @ d; t2 = (if n < length t1 then drop (length t1 - n) t1 else t1) in (t2, t2))"

fun last_runs :: "nat \<Rightarrow> 'v option list \<Rightarrow> 'v option list \<Rightarrow> 'v option list list" where
  "last_runs n t [] = []"
| "last_runs n t (x # xs) = (let (t', d') = last_merge n t (last_storage x) in d' # last_runs n t' xs)"

lemma last_merge_suffix:
  "last_merge n (drop (length ys - n) ys) (last_storage x) =
     (drop (length (ys @ [x]) - n) (ys @ [x]), drop (length (ys @ [x]) - n) (ys @ [x]))"
  by (auto simp: last_merge_def last_storage_def Let_def Suc_diff_le not_less)

lemma last_runs_suffixes:
  "last_runs n (drop (length ys - n) ys) xs =
     map (\<lambda>k. let zs = ys @ take k xs in drop (length zs - n) zs) [1..<Suc (length xs)]"
proof (induction xs arbitrary: ys)
  case (Cons x xs)
  have "map (\<lambda>k. let zs = ys @ take k (x # xs) in drop (length zs - n) zs) [1..<Suc (length (x # xs))] =
      drop (length (ys @ [x]) - n) (ys @ [x]) # map (\<lambda>k. let zs = (ys @ [x]) @ take k xs in drop (length zs - n) zs) [1..<Suc (length xs)]"
  proof -
    have "[1..<Suc (length (x # xs))] = 1 # map Suc [1..<Suc (length xs)]"
      unfolding map_Suc_upt by (simp add: upt_conv_Cons del: upt_Suc)
    then show ?thesis by (simp add: Let_def comp_def del: upt_Suc)
  qed
  then show ?case using Cons [of "ys @ [x]"] by (simp add: last_merge_suffix Let_def del: upt_Suc)
qed simp

text \<open>
  \<open>Last<n>\<close> hands out the last \<open>n\<close> items. Over any sequence of triggers the \<open>k\<close>-th run is given the last \<open>n\<close> of the
  first \<open>k\<close> items in the order of their arrival. With \<open>n\<close> at least 1 its data always counts as present: an item that
  does not exist yet is handed on as a null pointer instead of keeping the reaction from running, as the same word
  without \<open>Last\<close> would.
\<close>

theorem last_gives_last_n:
  "last_runs n [] xs = map (\<lambda>k. drop (k - n) (take k xs)) [1..<Suc (length xs)]
   \<and> (0 < n \<longrightarrow> (\<forall>d \<in> set (last_runs n [] xs). last_good d))
   \<and> (0 < n \<longrightarrow> last_runs n [] [None :: 'v option] = [[None]])"
proof -
  have runs: "last_runs n [] xs = map (\<lambda>k. drop (k - n) (take k xs)) [1..<Suc (length xs)]"
    using last_runs_suffixes [of n "[]" xs] by (auto simp: Let_def min_def)
  moreover have "drop (k - n) (take k xs) \<noteq> []" if "0 < n" "k \<in> set [1..<Suc (length xs)]" for k
    using that by auto
  then have "\<forall>d \<in> set (last_runs n [] xs). last_good d" if "0 < n"
    using that unfolding runs last_good_def by (auto simp del: upt_Suc drop_eq_Nil)
  moreover have "last_runs n [] [None :: 'v option] = [[None]]" if "0 < n"
    using that by (simp add: last_merge_def last_storage_def Let_def)
  ultimately show ?thesis by blast
qed

theorem last_gives_last_n_witness:
  "last_runs 2 [] [Some (1 :: nat), Some 2, Some 3] = [[Some (1 :: nat)], [Some (1 :: nat), Some 2], [Some 2, Some 3]]"
  using conjunct1 [OF last_gives_last_n [of 2 "[Some (1 :: nat), Some 2, Some 3]"]]
  by (simp add: upt_rec del: last_runs.simps)

end
