(* ===== verification/Emit_Dispatch.thy ===== *)
theory Emit_Dispatch
  imports Reaction_Core
begin

text \<open>
  Emitting data (\<open>dsl/word/emit/Local.hpp\<close>, \<open>Inline.hpp\<close>) on one thread: the callbacks of a type
  (\<open>TypeCallbackStore\<close>), the thread's current data (\<open>ThreadStore\<close>), the last data of each type (\<open>DataStore\<close>), and
  what \<open>Trigger\<close>, \<open>With\<close> and \<open>Optional\<close> read of them (\<open>CacheGet\<close>). A reaction that runs inline runs in the middle of
  the emission and may emit itself; one that does not is queued. Types and reactions are numbers.
\<close>

section \<open>Stores\<close>

datatype 'v dispatched = Queued nat "'v option list" | Ran nat "'v option list"

record 'v hub =
  hb_store :: "nat \<Rightarrow> 'v option"
  hb_thread :: "nat \<Rightarrow> 'v option"
  hb_callbacks :: "nat \<Rightarrow> nat list"
  hb_log :: "'v dispatched list"

definition new_hub :: "'v hub" where
  "new_hub = \<lparr>hb_store = (\<lambda>_. None), hb_thread = (\<lambda>_. None), hb_callbacks = (\<lambda>_. []), hb_log = []\<rparr>"

definition type_bind :: "nat \<Rightarrow> nat \<Rightarrow> 'v hub \<Rightarrow> 'v hub" where
  "type_bind T r h = h\<lparr>hb_callbacks := (hb_callbacks h)(T := hb_callbacks h T @ [r])\<rparr>"

definition type_unbind :: "nat \<Rightarrow> nat \<Rightarrow> 'v hub \<Rightarrow> 'v hub" where
  "type_unbind T r h = h\<lparr>hb_callbacks := (hb_callbacks h)(T := erase_first (\<lambda>i. i = r) (hb_callbacks h T))\<rparr>"

definition cache_get :: "nat \<Rightarrow> 'v hub \<Rightarrow> 'v option" where
  "cache_get T h = (case hb_thread h T of None \<Rightarrow> hb_store h T | Some v \<Rightarrow> Some v)"

section \<open>Reactions\<close>

text \<open>
  The data words of a reaction in order, \<open>Trigger\<close> and \<open>With\<close> alike; its inline word; whether it is enabled; and the
  emissions its callback makes with the data it is given.
\<close>

datatype data_word = Required nat | Optionally nat

record emission =
  em_type :: nat
  em_inline :: bool

record 'v program =
  pg_words :: "nat \<Rightarrow> data_word list"
  pg_inline :: "nat \<Rightarrow> Inline"
  pg_enabled :: "nat \<Rightarrow> bool"
  pg_body :: "nat \<Rightarrow> 'v option list \<Rightarrow> (emission \<times> 'v) list"

fun word_get :: "data_word \<Rightarrow> 'v hub \<Rightarrow> 'v option" where
  "word_get (Required T) h = cache_get T h"
| "word_get (Optionally T) h = cache_get T h"

fun word_good :: "data_word \<Rightarrow> 'v option \<Rightarrow> bool" where
  "word_good (Required T) d \<longleftrightarrow> d \<noteq> None"
| "word_good (Optionally T) d \<longleftrightarrow> True"

text \<open>\<open>get_task\<close>, reduced to the data it binds; \<open>None\<close> if it makes no task.\<close>

definition task_data :: "'v program \<Rightarrow> nat \<Rightarrow> 'v hub \<Rightarrow> 'v option list option" where
  "task_data P r h =
     (let data = map (\<lambda>w. word_get w h) (pg_words P r)
      in if pg_enabled P r \<and> list_all2 word_good (pg_words P r) data then Some data else None)"

section \<open>Emission\<close>

text \<open>
  \<open>emit_to\<close> is \<open>Local::emit\<close> or, with \<open>inl\<close>, \<open>Inline::emit\<close>. The first argument bounds the depth of emissions within
  inline runs; \<open>None\<close> is a depth that was not enough.
\<close>

function emit_to :: "nat \<Rightarrow> 'v program \<Rightarrow> emission \<Rightarrow> 'v \<Rightarrow> 'v hub \<Rightarrow> 'v hub option"
  and dispatch :: "nat \<Rightarrow> 'v program \<Rightarrow> emission \<Rightarrow> 'v \<Rightarrow> nat list \<Rightarrow> 'v hub \<Rightarrow> 'v hub option"
  and run_body :: "nat \<Rightarrow> 'v program \<Rightarrow> (emission \<times> 'v) list \<Rightarrow> 'v hub \<Rightarrow> 'v hub option"
where
  "emit_to 0 P e v h = None"
| "emit_to (Suc n) P e v h =
     (case dispatch n P e v (hb_callbacks h (em_type e)) h of
        None \<Rightarrow> None
      | Some h1 \<Rightarrow> Some (h1\<lparr>hb_thread := (hb_thread h1)(em_type e := None), hb_store := (hb_store h1)(em_type e \<mapsto> v)\<rparr>))"
| "dispatch n P e v [] h = Some h"
| "dispatch n P e v (r # rs) h =
     (let h1 = h\<lparr>hb_thread := (hb_thread h)(em_type e \<mapsto> v)\<rparr>
      in case task_data P r h1 of
           None \<Rightarrow> dispatch n P e v rs h1
         | Some d \<Rightarrow>
             (if resolve_inline (pg_inline P r) (em_inline e)
              then case run_body n P (pg_body P r d) (h1\<lparr>hb_log := hb_log h1 @ [Ran r d]\<rparr>) of
                     None \<Rightarrow> None
                   | Some h2 \<Rightarrow> dispatch n P e v rs h2
              else dispatch n P e v rs (h1\<lparr>hb_log := hb_log h1 @ [Queued r d]\<rparr>)))"
| "run_body n P [] h = Some h"
| "run_body n P ((e, v) # es) h =
     (case emit_to n P e v h of None \<Rightarrow> None | Some h1 \<Rightarrow> run_body n P es h1)"
  by pat_completeness auto
termination
  by (relation "inv_image (less_than <*lex*> less_than <*lex*> less_than)
        (\<lambda>x. case x of Inl (n, P, e, v, h) \<Rightarrow> (n, 0, 0)
                | Inr (Inl (n, P, e, v, rs, h)) \<Rightarrow> (n, 2, length rs)
                | Inr (Inr (n, P, es, h)) \<Rightarrow> (n, 1, length es))") auto

text \<open>A sequence of emissions of the thread.\<close>

definition emit_all :: "nat \<Rightarrow> 'v program \<Rightarrow> (emission \<times> 'v) list \<Rightarrow> 'v hub \<Rightarrow> 'v hub option" where
  "emit_all n P es h = run_body n P es h"

section \<open>Emissions that queue\<close>

text \<open>
  The specification: only the latest value of each type. An emission makes its value the latest first and then
  queues every reaction of the type, in the order they were bound, with the latest values of its words.
\<close>

record 'v spec_hub =
  sp_latest :: "nat \<Rightarrow> 'v option"
  sp_log :: "'v dispatched list"

definition spec_data :: "'v program \<Rightarrow> nat \<Rightarrow> (nat \<Rightarrow> 'v option) \<Rightarrow> 'v option list option" where
  "spec_data P r latest =
     (let data = map (\<lambda>w. case w of Required T \<Rightarrow> latest T | Optionally T \<Rightarrow> latest T) (pg_words P r)
      in if pg_enabled P r \<and> (\<forall>T. Required T \<in> set (pg_words P r) \<longrightarrow> latest T \<noteq> None) then Some data else None)"

definition queued_for :: "'v program \<Rightarrow> (nat \<Rightarrow> 'v option) \<Rightarrow> nat list \<Rightarrow> 'v dispatched list" where
  "queued_for P latest rs = concat (map (\<lambda>r. case spec_data P r latest of None \<Rightarrow> [] | Some d \<Rightarrow> [Queued r d]) rs)"

definition spec_emit :: "'v program \<Rightarrow> (nat \<Rightarrow> nat list) \<Rightarrow> emission \<times> 'v \<Rightarrow> 'v spec_hub \<Rightarrow> 'v spec_hub" where
  "spec_emit P callbacks ev s =
     (let T = em_type (fst ev); latest = (sp_latest s)(T \<mapsto> snd ev)
      in \<lparr>sp_latest = latest,
          sp_log = sp_log s @ queued_for P latest (callbacks T)\<rparr>)"

definition abs_hub :: "'v hub \<Rightarrow> 'v spec_hub" where
  "abs_hub h = \<lparr>sp_latest = hb_store h, sp_log = hb_log h\<rparr>"

lemma list_all2_good:
  "list_all2 word_good ws (map (\<lambda>w. word_get w h) ws) \<longleftrightarrow> (\<forall>T. Required T \<in> set ws \<longrightarrow> cache_get T h \<noteq> None)"
proof (induction ws)
  case (Cons w ws)
  then show ?case by (cases w) auto
qed simp

lemma task_data_spec: "task_data P r h = spec_data P r (\<lambda>T. cache_get T h)"
proof -
  have get: "(\<lambda>w. word_get w h) = (\<lambda>w. case w of Required T \<Rightarrow> cache_get T h | Optionally T \<Rightarrow> cache_get T h)"
    by (simp add: fun_eq_iff split: data_word.splits)
  show ?thesis unfolding task_data_def spec_data_def Let_def list_all2_good unfolding get ..
qed

text \<open>While a type is being emitted the thread reads its new value and the stored ones of all other types.\<close>

definition emitting :: "nat \<Rightarrow> 'v \<Rightarrow> (nat \<Rightarrow> 'v option) \<Rightarrow> 'v hub \<Rightarrow> bool" where
  "emitting T v latest h \<longleftrightarrow> (hb_thread h)(T \<mapsto> v) = hb_thread h \<and> (\<lambda>U. cache_get U h) = latest"

lemma emitting_simps:
  assumes "emitting T v latest h"
  shows "h\<lparr>hb_thread := (hb_thread h)(T \<mapsto> v)\<rparr> = h" "task_data P r h = spec_data P r latest"
proof -
  have "h\<lparr>hb_thread := hb_thread h\<rparr> = h" by simp
  then show "h\<lparr>hb_thread := (hb_thread h)(T \<mapsto> v)\<rparr> = h" using assms by (simp only: emitting_def)
  show "task_data P r h = spec_data P r latest" using assms by (simp only: emitting_def task_data_spec)
qed

lemma cache_get_log [simp]: "cache_get U (h\<lparr>hb_log := l\<rparr>) = cache_get U h"
  by (simp add: cache_get_def split: option.splits)

lemma emitting_log [simp]: "emitting T v latest (h\<lparr>hb_log := l\<rparr>) = emitting T v latest h"
  by (simp add: emitting_def del: fun_upd_apply)

lemma emitting_start:
  assumes "hb_thread h = (\<lambda>_. None)"
  shows "emitting T v ((hb_store h)(T \<mapsto> v)) (h\<lparr>hb_thread := (\<lambda>_. None)(T \<mapsto> v)\<rparr>)"
  by (simp add: emitting_def cache_get_def fun_eq_iff)

lemma queued_for_simps [simp]:
  "queued_for P latest [] = []"
  "queued_for P latest (r # rs) = (case spec_data P r latest of None \<Rightarrow> [] | Some d \<Rightarrow> [Queued r d]) @ queued_for P latest rs"
  by (simp_all add: queued_for_def)

lemma dispatch_queues_from:
  assumes "\<forall>r \<in> set rs. \<not> resolve_inline (pg_inline P r) (em_inline e)"
    and "emitting (em_type e) v latest h"
  shows "dispatch n P e v rs h = Some (h\<lparr>hb_log := hb_log h @ queued_for P latest rs\<rparr>)"
  using assms
proof (induction rs arbitrary: h)
  case (Cons r rs)
  then show ?case
    by (simp add: emitting_simps [OF Cons.prems(2)] Let_def split: option.splits)
qed simp

lemma dispatch_queues:
  assumes "\<forall>r \<in> set rs. \<not> resolve_inline (pg_inline P r) (em_inline e)"
    and "hb_thread h = (\<lambda>_. None)" "rs \<noteq> []"
  shows "dispatch n P e v rs h = Some (h\<lparr>hb_thread := (\<lambda>_. None)(em_type e \<mapsto> v),
     hb_log := hb_log h @ queued_for P ((hb_store h)(em_type e \<mapsto> v)) rs\<rparr>)"
proof -
  let ?h = "h\<lparr>hb_thread := (\<lambda>_. None)(em_type e \<mapsto> v)\<rparr>"
  obtain r rs' where rs: "rs = r # rs'" using assms(3) by (cases rs) auto
  have "dispatch n P e v rs h = dispatch n P e v rs ?h"
  proof -
    have "h\<lparr>hb_thread := (hb_thread h)(em_type e \<mapsto> v)\<rparr> = ?h\<lparr>hb_thread := (hb_thread ?h)(em_type e \<mapsto> v)\<rparr>"
      using assms(2) by (simp del: fun_upd_apply)
    then show ?thesis unfolding rs dispatch.simps Let_def by (simp only:)
  qed
  also have "\<dots> = Some (?h\<lparr>hb_log := hb_log ?h @ queued_for P ((hb_store h)(em_type e \<mapsto> v)) rs\<rparr>)"
    by (rule dispatch_queues_from [OF assms(1) emitting_start [OF assms(2)]])
  finally show ?thesis by simp
qed

text \<open>
  C21. Emissions refine the latest-value specification. As long as no reaction of the emitted types runs inline, any
  sequence of emissions behaves as if each value replaced the latest one of its type and then queued the reactions
  of the type in the order of binding, each with the latest value of every one of its words, dropping those with a
  required value that was never emitted; between emissions the thread holds no data of its own. One level of
  emission is enough for this.
\<close>

theorem emissions_refine_latest:
  assumes "hb_thread h = (\<lambda>_. None)"
    and "\<forall>(e, v) \<in> set es. \<forall>r \<in> set (hb_callbacks h (em_type e)). \<not> resolve_inline (pg_inline P r) (em_inline e)"
  shows "\<exists>h'. emit_all (Suc n) P es h = Some h' \<and> hb_thread h' = (\<lambda>_. None) \<and> hb_callbacks h' = hb_callbacks h
    \<and> abs_hub h' = fold (spec_emit P (hb_callbacks h)) es (abs_hub h)"
  using assms unfolding emit_all_def
proof (induction es arbitrary: h)
  case (Cons ev es)
  obtain e v where ev: "ev = (e, v)" by (cases ev)
  let ?T = "em_type e"
  have "\<exists>h1. emit_to (Suc n) P e v h = Some h1 \<and> hb_thread h1 = (\<lambda>_. None) \<and> hb_callbacks h1 = hb_callbacks h
      \<and> abs_hub h1 = spec_emit P (hb_callbacks h) (e, v) (abs_hub h)"
  proof (cases "hb_callbacks h ?T = []")
    case True
    then show ?thesis using Cons.prems(1) by (auto simp: abs_hub_def spec_emit_def Let_def)
  next
    case False
    have "dispatch n P e v (hb_callbacks h ?T) h = Some (h\<lparr>hb_thread := (\<lambda>_. None)(?T \<mapsto> v),
        hb_log := hb_log h @ queued_for P ((hb_store h)(?T \<mapsto> v)) (hb_callbacks h ?T)\<rparr>)"
      by (rule dispatch_queues) (use Cons.prems ev False in auto)
    then show ?thesis by (auto simp: abs_hub_def spec_emit_def Let_def)
  qed
  then obtain h1 where h1: "emit_to (Suc n) P e v h = Some h1" "hb_thread h1 = (\<lambda>_. None)" "hb_callbacks h1 = hb_callbacks h"
      "abs_hub h1 = spec_emit P (hb_callbacks h) (e, v) (abs_hub h)" by blast
  then show ?case using Cons.IH [of h1] Cons.prems ev by simp
qed simp

text \<open>The value 10 of type 0 to a reaction with the words \<open>Trigger<0>\<close> and \<open>Optional<With<1>>\<close>.\<close>

definition example_program :: "nat program" where
  "example_program = \<lparr>pg_words = (\<lambda>_. [Required 0, Optionally 1]), pg_inline = (\<lambda>_. NEUTRAL), pg_enabled = (\<lambda>_. True),
     pg_body = (\<lambda>_ _. [])\<rparr>"

theorem emissions_refine_latest_witness:
  "\<exists>h'. emit_all 1 example_program [(\<lparr>em_type = 0, em_inline = False\<rparr>, 10)] (type_bind 0 7 new_hub) = Some h'
     \<and> sp_log (abs_hub h') = [Queued 7 [Some 10, None]]"
proof -
  have "hb_thread (type_bind 0 7 new_hub :: nat hub) = (\<lambda>_. None)" by (simp add: type_bind_def new_hub_def)
  moreover have "\<forall>(e, v) \<in> set [(\<lparr>em_type = 0, em_inline = False\<rparr>, 10 :: nat)].
      \<forall>r \<in> set (hb_callbacks (type_bind 0 7 new_hub :: nat hub) (em_type e)). \<not> resolve_inline (pg_inline example_program r) (em_inline e)"
    by (simp add: example_program_def resolve_inline_def)
  ultimately obtain h' where h': "emit_all (Suc 0) example_program [(\<lparr>em_type = 0, em_inline = False\<rparr>, 10)] (type_bind 0 7 new_hub) = Some h'"
      "abs_hub h' = fold (spec_emit example_program (hb_callbacks (type_bind 0 7 new_hub :: nat hub)))
          [(\<lparr>em_type = 0, em_inline = False\<rparr>, 10)] (abs_hub (type_bind 0 7 new_hub))"
    using emissions_refine_latest [of "type_bind 0 7 new_hub" "[(\<lparr>em_type = 0, em_inline = False\<rparr>, 10)]" example_program 0] by blast
  then show ?thesis
    by (auto simp: spec_emit_def queued_for_def spec_data_def abs_hub_def type_bind_def new_hub_def example_program_def Let_def)
qed

section \<open>Nested emissions\<close>

text \<open>Reaction 1 runs inline and answers \<open>a\<close> with an emission of \<open>b\<close>; reaction 2 is queued.\<close>

definition nesting :: "nat \<Rightarrow> nat \<Rightarrow> nat program" where
  "nesting a b = \<lparr>pg_words = (\<lambda>_. [Required 0]), pg_inline = (\<lambda>r. if r = 1 then ALWAYS else NEVER), pg_enabled = (\<lambda>_. True),
     pg_body = (\<lambda>r d. if d = [Some a] then [(\<lparr>em_type = 0, em_inline = False\<rparr>, b)] else [])\<rparr>"

text \<open>
  A nested emission of the same type is overtaken by the outer one. If a reaction that runs inline for \<open>a\<close> emits
  \<open>b\<close> of the same type, the store and every later \<open>With\<close> hold \<open>a\<close> although \<open>b\<close> was emitted after it, and a reaction
  bound later receives \<open>b\<close> before \<open>a\<close>.
\<close>

theorem nested_emission_overtaken:
  assumes "a \<noteq> b"
  shows "\<exists>h. emit_all 3 (nesting a b) [(\<lparr>em_type = 0, em_inline = False\<rparr>, a)] (type_bind 0 2 (type_bind 0 1 new_hub)) = Some h
     \<and> cache_get 0 h = Some a \<and> hb_log h = [Ran 1 [Some a], Ran 1 [Some b], Queued 2 [Some b], Queued 2 [Some a]]"
  using assms
  by (simp add: emit_all_def nesting_def type_bind_def new_hub_def task_data_def cache_get_def resolve_inline_def
      numeral_3_eq_3 Let_def)

theorem nested_emission_overtaken_witness:
  "\<exists>h. emit_all 3 (nesting 4 5) [(\<lparr>em_type = 0, em_inline = False\<rparr>, 4)] (type_bind 0 2 (type_bind 0 1 new_hub)) = Some h
     \<and> cache_get 0 h = Some 4"
  using nested_emission_overtaken [of 4 5] by auto

end
