(* ===== verification/Always_Word.thy ===== *)
theory Always_Word
  imports Thread_Pool
begin

text \<open>
  The word \<open>Always\<close> (\<open>dsl/word/Always.hpp\<close>): a pool of its own for each reaction, a task that submits its successor
  when it has run, and a second task, one priority lower, that starts the first again when there was none to run.
  The pool has one worker; what it runs next is \<open>pop_buckets\<close> on the buckets of \<open>Thread_Pool\<close>.
\<close>

section \<open>The pool of a reaction\<close>

text \<open>The static map of \<open>Always::pool\<close>: descriptors by reaction id, made on first use; \<open>ref\<close> is a fresh address.\<close>

definition always_pool :: "(nid \<Rightarrow> string) \<Rightarrow> nat \<Rightarrow> nid \<Rightarrow> string \<Rightarrow> (nid \<Rightarrow> pool_descriptor option)
   \<Rightarrow> pool_descriptor \<times> (nid \<Rightarrow> pool_descriptor option)" where
  "always_pool show_id ref i name pools =
     (case pools i of
        Some d \<Rightarrow> (d, pools)
      | None \<Rightarrow>
          (let d = \<lparr>pd_ref = ref, pd_name = (if name \<noteq> [] then name else ''Always['' @ show_id i @ '']''),
                    pd_concurrency = 1, pd_counts_for_idle = False, pd_persistent = False\<rparr>
           in (d, pools(i \<mapsto> d))))"

section \<open>State and operations\<close>

text \<open>\<open>Run\<close> is a task of the reaction, \<open>Restart\<close> the one of \<open>make_idle_task\<close>.\<close>

datatype always_task = Run | Restart

record always =
  aw_priority :: int
  aw_enabled :: bool
  aw_accept :: bool
  aw_buckets :: "always_task list list"

definition new_always :: "int \<Rightarrow> always" where
  "new_always p = \<lparr>aw_priority = p, aw_enabled = True, aw_accept = True, aw_buckets = replicate PRIORITY_BUCKETS []\<rparr>"

definition always_priority :: "always_task \<Rightarrow> int \<Rightarrow> int" where
  "always_priority k p = (case k of Run \<Rightarrow> p | Restart \<Rightarrow> p - 1)"

definition always_submit :: "always_task option \<Rightarrow> always \<Rightarrow> always" where
  "always_submit t s =
     (case t of
        None \<Rightarrow> s
      | Some k \<Rightarrow>
          if \<not> aw_accept s then s
          else (let b = priority_index (always_priority k (aw_priority s))
                in s\<lparr>aw_buckets := (aw_buckets s)[b := aw_buckets s ! b @ [k]]\<rparr>))"

text \<open>\<open>get_task\<close>; \<open>ready\<close> says whether the preconditions and the data of the reaction allow one.\<close>

definition always_get_task :: "bool \<Rightarrow> always \<Rightarrow> always_task option" where
  "always_get_task ready s = (if aw_enabled s \<and> ready then Some Run else None)"

definition always_bind :: "bool \<Rightarrow> always \<Rightarrow> always" where
  "always_bind ready s = always_submit (Some Restart) (always_submit (always_get_task ready s) s)"

definition always_post_run :: "bool \<Rightarrow> always \<Rightarrow> always" where
  "always_post_run ready s = always_submit (always_get_task ready s) s"

text \<open>The callback of \<open>make_idle_task\<close>.\<close>

definition always_restart :: "bool \<Rightarrow> always \<Rightarrow> always" where
  "always_restart ready s = always_submit (Some Restart) (always_submit (always_get_task ready s) s)"

definition always_unbind :: "always \<Rightarrow> always" where
  "always_unbind s = s\<lparr>aw_enabled := False\<rparr>"

text \<open>
  What happens to the pool: its worker runs the next task (the callback may throw, which skips \<open>post_run\<close>), the
  reaction is unbound, the pool is stopped.
\<close>

datatype always_op = Next (throws: bool) (ready: bool) | UnbindAlways | StopPool

fun always_step :: "always_op \<Rightarrow> always \<Rightarrow> always_task option \<times> always" where
  "always_step (Next t r) s =
     (case pop_buckets (aw_buckets s) of
        None \<Rightarrow> (None, s)
      | Some (k, bs) \<Rightarrow>
          (let s1 = s\<lparr>aw_buckets := bs\<rparr>
           in (Some k, case k of Run \<Rightarrow> (if t then s1 else always_post_run r s1) | Restart \<Rightarrow> always_restart r s1)))"
| "always_step UnbindAlways s = (None, always_unbind s)"
| "always_step StopPool s = (None, s\<lparr>aw_accept := False\<rparr>)"

definition always_run :: "always_op list \<Rightarrow> always \<Rightarrow> always" where
  "always_run ops s = fold (\<lambda>op s. snd (always_step op s)) ops s"

lemma always_run_simps [simp]:
  "always_run [] s = s" "always_run (op # ops) s = always_run ops (snd (always_step op s))"
  "always_run (ops @ ops') s = always_run ops' (always_run ops s)"
  by (simp_all add: always_run_def)

section \<open>At most one task of the reaction\<close>

text \<open>
  Priorities whose restart task falls into a lower bucket: the values of \<open>Priority\<close> but \<open>IDLE\<close>. The pool then holds
  the restart task and at most one task of the reaction in front of it.
\<close>

definition separated :: "int \<Rightarrow> bool" where
  "separated p \<longleftrightarrow> priority_index p < priority_index (p - 1)"

lemma separated_iff: "separated p \<longleftrightarrow> p \<in> {250, 500, 750, 1000}"
  by (auto simp: separated_def priority_index_simp split: if_splits)

definition always_buckets :: "int \<Rightarrow> always_task list \<Rightarrow> always_task list \<Rightarrow> always_task list list" where
  "always_buckets p a b = (replicate PRIORITY_BUCKETS [])[priority_index p := a, priority_index (p - 1) := b]"

definition always_ok :: "always \<Rightarrow> bool" where
  "always_ok s \<longleftrightarrow> separated (aw_priority s) \<and> aw_accept s
     \<and> (\<exists>a. (a = [] \<or> a = [Run]) \<and> aw_buckets s = always_buckets (aw_priority s) a [Restart])"

lemma always_buckets_simps:
  assumes "separated p"
  shows "concat (always_buckets p a b) = a @ b"
    and "pop_buckets (always_buckets p (k # a) b) = Some (k, always_buckets p a b)"
    and "pop_buckets (always_buckets p [] (k # b)) = Some (k, always_buckets p [] b)"
    and "(always_buckets p a b)[priority_index p := c] = always_buckets p c b"
    and "(always_buckets p a b)[priority_index (p - 1) := c] = always_buckets p a c"
    and "always_buckets p a b ! priority_index p = a"
    and "always_buckets p a b ! priority_index (p - 1) = b"
  using assms unfolding separated_iff
  by (auto simp: always_buckets_def priority_index_simp numeral_eq_Suc)

lemma always_submit_simps:
  assumes "separated (aw_priority s)" "aw_accept s" "aw_buckets s = always_buckets (aw_priority s) a b"
  shows "always_submit (Some Run) s = s\<lparr>aw_buckets := always_buckets (aw_priority s) (a @ [Run]) b\<rparr>"
    and "always_submit (Some Restart) s = s\<lparr>aw_buckets := always_buckets (aw_priority s) a (b @ [Restart])\<rparr>"
  using assms by (simp_all add: always_submit_def always_priority_def always_buckets_simps Let_def)

lemma always_buckets_empty: "separated p \<Longrightarrow> always_buckets p [] [] = replicate PRIORITY_BUCKETS []"
  unfolding separated_iff by (auto simp: always_buckets_def priority_index_simp numeral_eq_Suc)

lemma always_submit_None [simp]: "always_submit None s = s"
  by (simp add: always_submit_def)

lemma always_restart_empty:
  assumes "separated (aw_priority s)" "aw_accept s" "aw_buckets s = always_buckets (aw_priority s) [] []"
  shows "always_restart r s = s\<lparr>aw_buckets := always_buckets (aw_priority s) (if aw_enabled s \<and> r then [Run] else []) [Restart]\<rparr>"
  using always_submit_simps [OF assms] assms
    always_submit_simps(2) [of "s\<lparr>aw_buckets := always_buckets (aw_priority s) [Run] []\<rparr>" "[Run]" "[]"]
  by (simp add: always_restart_def always_get_task_def)

lemma always_bind_ok:
  assumes "separated p"
  shows "always_ok (always_bind r (new_always p))"
proof -
  have "always_bind r (new_always p) = always_restart r (new_always p)" by (simp add: always_bind_def always_restart_def)
  then show ?thesis
    using assms always_restart_empty [of "new_always p" r] always_buckets_empty [OF assms]
    by (auto simp: always_ok_def new_always_def)
qed

text \<open>What the worker runs next, and what it leaves: the task of the reaction comes first, if there is one.\<close>

lemma always_next:
  assumes "separated (aw_priority s)" "aw_accept s" "a = [] \<or> a = [Run]"
    and "aw_buckets s = always_buckets (aw_priority s) a [Restart]"
  shows "always_step (Next t r) s = (Some (if a = [] then Restart else Run),
      s\<lparr>aw_buckets := always_buckets (aw_priority s) (if aw_enabled s \<and> r \<and> (a = [] \<or> \<not> t) then [Run] else []) [Restart]\<rparr>)"
proof -
  note simps = always_buckets_simps [OF assms(1)]
  let ?s = "s\<lparr>aw_buckets := always_buckets (aw_priority s) [] []\<rparr>"
  let ?t = "s\<lparr>aw_buckets := always_buckets (aw_priority s) [] [Restart]\<rparr>"
  have "always_submit (Some Run) ?t = s\<lparr>aw_buckets := always_buckets (aw_priority s) [Run] [Restart]\<rparr>"
    using always_submit_simps(1) [of ?t "[]" "[Restart]"] assms(1,2) by simp
  then show ?thesis
    using assms(1-4) always_restart_empty [of ?s r]
    by (auto simp: simps Let_def always_post_run_def always_get_task_def)
qed

lemma always_ok_step:
  assumes "always_ok s" "op \<noteq> StopPool"
  shows "always_ok (snd (always_step op s))"
proof (cases op)
  case (Next t r)
  obtain a where "a = [] \<or> a = [Run]" "aw_buckets s = always_buckets (aw_priority s) a [Restart]" "separated (aw_priority s)" "aw_accept s"
    using assms(1) by (auto simp: always_ok_def)
  from always_next [OF this(3,4,1,2), of t r] this show ?thesis
    unfolding Next by (auto simp: always_ok_def simp del: always_step.simps)
qed (use assms in \<open>auto simp: always_ok_def always_unbind_def\<close>)

lemma always_ok_run: "always_ok s \<Longrightarrow> StopPool \<notin> set ops \<Longrightarrow> always_ok (always_run ops s)"
  by (induction ops arbitrary: s) (auto simp: always_ok_step simp del: always_step.simps)



section \<open>Priority IDLE\<close>

text \<open>
  With \<open>Priority::IDLE\<close> the restart task falls into the bucket of the reaction's own tasks, behind them, so it runs
  although there are some.
\<close>

definition idle_state :: "always_task list \<Rightarrow> always" where
  "idle_state l = \<lparr>aw_priority = 0, aw_enabled = True, aw_accept = True, aw_buckets = [[], [], [], [], l]\<rparr>"

lemma idle_next:
  "snd (always_step (Next False True) (idle_state (k # l)))
   = idle_state (l @ (case k of Run \<Rightarrow> [Run] | Restart \<Rightarrow> [Run, Restart]))"
  by (cases k) (simp_all add: idle_state_def always_post_run_def always_restart_def always_get_task_def always_submit_def
      always_priority_def priority_index_simp numeral_eq_Suc Let_def)

lemma idle_round:
  "always_run (replicate m (Next False True)) (idle_state (replicate m Run @ l)) = idle_state (l @ replicate m Run)"
proof (induction m arbitrary: l)
  case (Suc m)
  then show ?case using Suc [of "l @ [Run]"]
    by (simp add: idle_next replicate_append_same del: always_step.simps)
qed simp

lemma idle_bound: "always_bind True (new_always 0) = idle_state [Run, Restart]"
  by (simp add: always_bind_def new_always_def idle_state_def always_submit_def always_get_task_def always_priority_def
      priority_index_simp numeral_eq_Suc Let_def)

text \<open>
  \<open>Always\<close> with \<open>Priority::IDLE\<close> floods its pool. The restart task runs in turn with the tasks of the reaction
  and adds one each time: if the callback never throws and its data is always there, the number of tasks in the pool
  exceeds every bound.
\<close>

theorem always_idle_floods:
  "\<exists>k. concat (aw_buckets (always_run (replicate k (Next False True)) (always_bind True (new_always 0)))) = replicate (Suc n) Run @ [Restart]"
proof -
  have "\<exists>k. always_run (replicate k (Next False True)) (idle_state [Run, Restart]) = idle_state (replicate (Suc n) Run @ [Restart])" for n
  proof (induction n)
    case 0
    show ?case by (rule exI [of _ 0]) simp
  next
    case (Suc n)
    then obtain k where k: "always_run (replicate k (Next False True)) (idle_state [Run, Restart])
        = idle_state (replicate (Suc n) Run @ [Restart])" by blast
    have "always_run (replicate k (Next False True) @ replicate (Suc n) (Next False True) @ [Next False True]) (idle_state [Run, Restart])
        = idle_state (replicate (Suc n) Run @ [Run, Restart])"
      unfolding always_run_simps(3) k idle_round by (simp add: idle_next del: always_step.simps)
    moreover have "replicate (Suc n) Run @ [Run, Restart] = replicate (Suc (Suc n)) Run @ [Restart]"
      by (simp add: replicate_append_same [symmetric])
    moreover have "replicate k (Next False True) @ replicate (Suc n) (Next False True) @ [Next False True]
        = replicate (k + Suc (Suc n)) (Next False True)"
      by (simp only: replicate_append_same replicate_Suc [symmetric] replicate_add [symmetric])
    ultimately show ?case by metis
  qed
  then obtain k where "always_run (replicate k (Next False True)) (idle_state [Run, Restart]) = idle_state (replicate (Suc n) Run @ [Restart])"
    by blast
  then show ?thesis unfolding idle_bound by (intro exI [of _ k]) (simp add: idle_state_def)
qed

lemma enabled_submit [simp]: "aw_enabled (always_submit k s) = aw_enabled s"
  by (simp add: always_submit_def Let_def split: option.split)

lemma enabled_step: "aw_enabled (snd (always_step op s)) \<longleftrightarrow> aw_enabled s \<and> op \<noteq> UnbindAlways"
  by (cases op) (auto simp: always_unbind_def always_post_run_def always_restart_def Let_def split: option.splits always_task.splits)

lemma enabled_run: "aw_enabled (always_run ops s) \<longleftrightarrow> aw_enabled s \<and> UnbindAlways \<notin> set ops"
  by (induction ops arbitrary: s) (auto simp: enabled_step simp del: always_step.simps)

text \<open>
  An unbound \<open>Always\<close> keeps its worker busy. Once the reaction is unbound and its last task has run, the worker
  runs the restart task over and over until the pool is stopped, because each run submits the next one.
\<close>

theorem always_unbound_spins:
  assumes "p \<in> {250, 500, 750, 1000}" and "UnbindAlways \<in> set ops" and "StopPool \<notin> set ops"
    and "s = always_run (ops @ [Next t r]) (always_bind r0 (new_always p))"
  shows "\<not> aw_enabled s \<and> concat (aw_buckets s) = [Restart] \<and> always_step (Next t' r') s = (Some Restart, s)"
proof -
  let ?s = "always_run ops (always_bind r0 (new_always p))"
  have off: "\<not> aw_enabled ?s" using assms(2) by (simp add: enabled_run)
  have "always_ok ?s" using always_ok_run [OF always_bind_ok assms(3)] assms(1) separated_iff by simp
  then obtain a where a: "a = [] \<or> a = [Run]" "aw_buckets ?s = always_buckets (aw_priority ?s) a [Restart]"
      "separated (aw_priority ?s)" "aw_accept ?s"
    by (auto simp: always_ok_def)
  have s: "s = ?s\<lparr>aw_buckets := always_buckets (aw_priority ?s) [] [Restart]\<rparr>"
    using assms(4) always_next [OF a(3,4,1,2), of t r] off by (simp del: always_step.simps)
  have "always_step (Next t' r') s = (Some Restart, s)"
    using always_next [of s "[]" t' r'] a(3,4) off unfolding s by (simp del: always_step.simps)
  then show ?thesis using off a(3) unfolding s by (simp add: always_buckets_simps del: always_step.simps)
qed

theorem always_unbound_spins_witness:
  "concat (aw_buckets (always_run ([UnbindAlways] @ [Next False True]) (always_bind True (new_always 500)))) = [Restart]"
proof -
  have "(500 :: int) \<in> {250, 500, 750, 1000}" "UnbindAlways \<in> set [UnbindAlways]" "StopPool \<notin> set [UnbindAlways]" by simp_all
  from always_unbound_spins [OF this refl] show ?thesis by blast
qed

end
