(* ===== verification/File_Desc.thy ===== *)
theory File_Desc
  imports Nuc_Prelude
begin

text \<open>
  \<open>util::FileDescriptor\<close>: an object that owns a descriptor of the operating system, closes it when it is destroyed,
  and hands it over when it is moved. The system is the set of open descriptors and the log of the calls made on
  them.
\<close>

section \<open>Descriptors\<close>

text \<open>\<open>INVALID_SOCKET\<close> on POSIX.\<close>

abbreviation INVALID_SOCKET :: int where "INVALID_SOCKET \<equiv> - 1"

text \<open>The cleanup function of an object is named by what it does: none, or \<open>shutdown(fd, SHUT_RDWR)\<close>.\<close>

datatype cleanup = NoCleanup | ShutdownBoth

datatype fd_call = ShutdownCall int | CloseCall int

record os =
  os_open :: "int set"
  os_calls :: "fd_call list"

record file_descriptor =
  fd_num :: int
  fd_cleanup :: cleanup

definition fd_default :: file_descriptor where
  "fd_default = \<lparr>fd_num = INVALID_SOCKET, fd_cleanup = NoCleanup\<rparr>"

definition fd_make :: "int \<Rightarrow> cleanup \<Rightarrow> file_descriptor" where
  "fd_make n c = \<lparr>fd_num = n, fd_cleanup = c\<rparr>"

text \<open>\<open>fcntl(fd, F_GETFL)\<close> fails with \<open>EBADF\<close> exactly for a descriptor that is not open.\<close>

definition fd_valid :: "file_descriptor \<Rightarrow> os \<Rightarrow> bool" where
  "fd_valid f s \<longleftrightarrow> fd_num f \<in> os_open s"

definition os_call :: "fd_call \<Rightarrow> os \<Rightarrow> os" where
  "os_call c s =
     (case c of
        ShutdownCall n \<Rightarrow> s\<lparr>os_calls := os_calls s @ [c]\<rparr>
      | CloseCall n \<Rightarrow> s\<lparr>os_calls := os_calls s @ [c], os_open := os_open s - {n}\<rparr>)"

definition fd_close :: "file_descriptor \<Rightarrow> os \<Rightarrow> file_descriptor \<times> os" where
  "fd_close f s =
     (if fd_valid f s
      then (f\<lparr>fd_num := INVALID_SOCKET\<rparr>,
            os_call (CloseCall (fd_num f)) (if fd_cleanup f = NoCleanup then s else os_call (ShutdownCall (fd_num f)) s))
      else (f, s))"

text \<open>The move constructor: the new object, and what is left in \<open>rhs\<close>.\<close>

definition fd_move :: "file_descriptor \<Rightarrow> file_descriptor \<times> file_descriptor" where
  "fd_move rhs = (rhs, \<lparr>fd_num = INVALID_SOCKET, fd_cleanup = NoCleanup\<rparr>)"

text \<open>The move assignment to another object: the old descriptor is closed first.\<close>

definition fd_move_assign :: "file_descriptor \<Rightarrow> file_descriptor \<Rightarrow> os \<Rightarrow> file_descriptor \<times> file_descriptor \<times> os" where
  "fd_move_assign lhs rhs s =
     (let (_, s1) = fd_close lhs s; (f, rest) = fd_move rhs in (f, rest, s1))"

definition fd_release :: "file_descriptor \<Rightarrow> int \<times> file_descriptor" where
  "fd_release f = (fd_num f, f\<lparr>fd_num := INVALID_SOCKET\<rparr>)"

section \<open>Objects that own descriptors\<close>

text \<open>
  The objects of a program by name, and the descriptors that were released to raw owners, who close them once. A
  construction is given a descriptor the system has just opened, or the invalid one when it refused.
\<close>

record fd_world =
  fw_os :: os
  fw_objects :: "nat \<Rightarrow> file_descriptor option"
  fw_released :: "int set"

datatype fd_op = MakeFd nat int cleanup | MoveFd nat nat | AssignFd nat nat | CloseFd nat | ReleaseFd nat | DestroyFd nat
  | CloseRaw int

definition fd_set :: "nat \<Rightarrow> file_descriptor \<Rightarrow> fd_world \<Rightarrow> fd_world" where
  "fd_set a f w = w\<lparr>fw_objects := (fw_objects w)(a \<mapsto> f)\<rparr>"

fun fd_step :: "fd_op \<Rightarrow> fd_world \<Rightarrow> fd_world" where
  "fd_step (MakeFd a n c) w =
     (if fw_objects w a \<noteq> None then w
      else if n = INVALID_SOCKET then fd_set a (fd_make n c) w
      else if n \<in> os_open (fw_os w) then w
      else fd_set a (fd_make n c) (w\<lparr>fw_os := (fw_os w)\<lparr>os_open := insert n (os_open (fw_os w))\<rparr>\<rparr>))"
| "fd_step (MoveFd a b) w =
     (case (fw_objects w a, fw_objects w b) of
        (None, Some f) \<Rightarrow> (let (g, rest) = fd_move f in fd_set b rest (fd_set a g w))
      | _ \<Rightarrow> w)"
| "fd_step (AssignFd a b) w =
     (case (fw_objects w a, fw_objects w b) of
        (Some l, Some f) \<Rightarrow>
          (if a = b then w
           else (let (g, rest, s) = fd_move_assign l f (fw_os w) in fd_set b rest (fd_set a g (w\<lparr>fw_os := s\<rparr>))))
      | _ \<Rightarrow> w)"
| "fd_step (CloseFd a) w =
     (case fw_objects w a of
        None \<Rightarrow> w
      | Some f \<Rightarrow> (let (g, s) = fd_close f (fw_os w) in fd_set a g (w\<lparr>fw_os := s\<rparr>)))"
| "fd_step (ReleaseFd a) w =
     (case fw_objects w a of
        None \<Rightarrow> w
      | Some f \<Rightarrow> (let (n, g) = fd_release f
                   in fd_set a g (w\<lparr>fw_released := (if n = INVALID_SOCKET then {} else {n}) \<union> fw_released w\<rparr>)))"
| "fd_step (DestroyFd a) w =
     (case fw_objects w a of
        None \<Rightarrow> w
      | Some f \<Rightarrow> (let (g, s) = fd_close f (fw_os w) in w\<lparr>fw_os := s, fw_objects := (fw_objects w)(a := None)\<rparr>))"
| "fd_step (CloseRaw n) w =
     (if n \<in> fw_released w
      then w\<lparr>fw_os := os_call (CloseCall n) (fw_os w), fw_released := fw_released w - {n}\<rparr> else w)"

definition fd_start :: fd_world where
  "fd_start = \<lparr>fw_os = \<lparr>os_open = {}, os_calls = []\<rparr>, fw_objects = (\<lambda>_. None), fw_released = {}\<rparr>"

text \<open>The descriptor an object owns, if it owns one.\<close>

definition owned :: "fd_world \<Rightarrow> nat \<Rightarrow> int option" where
  "owned w a = (case fw_objects w a of None \<Rightarrow> None | Some f \<Rightarrow> if fd_num f = INVALID_SOCKET then None else Some (fd_num f))"

text \<open>
  Every open descriptor has one owner, an object or a raw one; every owner's descriptor is open; nothing else is.
\<close>

definition fd_inv :: "fd_world \<Rightarrow> bool" where
  "fd_inv w \<longleftrightarrow>
     (\<forall>a b n. owned w a = Some n \<and> owned w b = Some n \<longrightarrow> a = b)
     \<and> (\<forall>a n. owned w a = Some n \<longrightarrow> n \<notin> fw_released w)
     \<and> os_open (fw_os w) = ran (owned w) \<union> fw_released w
     \<and> INVALID_SOCKET \<notin> fw_released w"

definition num_of :: "file_descriptor \<Rightarrow> int option" where
  "num_of f = (if fd_num f = INVALID_SOCKET then None else Some (fd_num f))"

lemma owned_simps [simp]:
  "owned (fd_set a f w) b = (if b = a then num_of f else owned w b)"
  "owned (w\<lparr>fw_os := s\<rparr>) b = owned w b" "owned (w\<lparr>fw_released := r\<rparr>) b = owned w b"
  "owned (w\<lparr>fw_os := s, fw_objects := (fw_objects w)(a := None)\<rparr>) b = (if b = a then None else owned w b)"
  by (simp_all add: owned_def fd_set_def num_of_def)

lemma owned_object: "fw_objects w a = Some f \<Longrightarrow> owned w a = num_of f"
  by (simp add: owned_def num_of_def)

lemma fd_set_simps [simp]: "fw_os (fd_set a f w) = fw_os w" "fw_released (fd_set a f w) = fw_released w"
  by (simp_all add: fd_set_def)

lemma fd_close_os:
  "INVALID_SOCKET \<notin> os_open s \<Longrightarrow> os_open (snd (fd_close f s)) = os_open s - set_option (num_of f)"
  by (auto simp: fd_close_def os_call_def fd_valid_def num_of_def)

lemma fd_close_object: "num_of f \<noteq> None \<Longrightarrow> fd_valid f s \<Longrightarrow> num_of (fst (fd_close f s)) = None"
  by (simp add: fd_close_def num_of_def)

lemma fd_close_num: "INVALID_SOCKET \<notin> os_open s \<Longrightarrow> num_of f \<noteq> None \<longrightarrow> fd_valid f s \<Longrightarrow> num_of (fst (fd_close f s)) = None"
  by (auto simp: fd_close_def num_of_def fd_valid_def)

text \<open>The invariant over the two maps it is about.\<close>

definition own_inv :: "(nat \<Rightarrow> int option) \<Rightarrow> int set \<Rightarrow> int set \<Rightarrow> bool" where
  "own_inv own released opened \<longleftrightarrow>
     (\<forall>a b n. own a = Some n \<and> own b = Some n \<longrightarrow> a = b)
     \<and> (\<forall>a n. own a = Some n \<longrightarrow> n \<notin> released)
     \<and> opened = ran own \<union> released
     \<and> INVALID_SOCKET \<notin> opened"

lemma fd_inv_own: "fd_inv w \<longleftrightarrow> own_inv (owned w) (fw_released w) (os_open (fw_os w))"
proof -
  have "INVALID_SOCKET \<notin> ran (owned w)" by (auto simp: owned_def ran_def split: option.splits if_splits)
  then show ?thesis unfolding fd_inv_def own_inv_def by auto
qed

lemma ran_del:
  assumes "\<forall>a b n. own a = Some n \<and> own b = Some n \<longrightarrow> a = b"
  shows "ran (own(a := None)) = ran own - set_option (own a)"
proof (intro equalityI subsetI)
  fix n assume "n \<in> ran (own(a := None))"
  then obtain b where "b \<noteq> a" "own b = Some n" by (auto simp: ran_def split: if_splits)
  then show "n \<in> ran own - set_option (own a)" using assms by (auto simp: ran_def)
next
  fix n assume "n \<in> ran own - set_option (own a)"
  then obtain b where b: "own b = Some n" "n \<notin> set_option (own a)" by (auto simp: ran_def)
  then have "b \<noteq> a" by auto
  then show "n \<in> ran (own(a := None))" using b by (auto simp: ran_def intro!: exI [of _ b])
qed

lemma ran_move:
  assumes "own a = None" "a \<noteq> b"
  shows "ran (own(a := own b, b := None)) = ran own"
proof (intro equalityI subsetI)
  fix n assume "n \<in> ran own"
  then obtain c where "own c = Some n" by (auto simp: ran_def)
  then have "(own(a := own b, b := None)) (if c = b then a else c) = Some n" using assms by auto
  then show "n \<in> ran (own(a := own b, b := None))" unfolding ran_def by blast
qed (auto simp: ran_def split: if_splits)

lemma own_inv_open: "own_inv own r op \<Longrightarrow> own a = None \<Longrightarrow> n \<notin> op \<Longrightarrow> n \<noteq> INVALID_SOCKET \<Longrightarrow> own_inv (own(a := Some n)) r (insert n op)"
  unfolding own_inv_def by (auto simp: ran_map_upd) (auto simp: ran_def)

lemma own_inv_close: "own_inv own r op \<Longrightarrow> own_inv (own(a := None)) r (op - set_option (own a))"
  unfolding own_inv_def by (cases "own a") (auto simp: ran_del)

lemma own_inv_move: "own_inv own r op \<Longrightarrow> own a = None \<Longrightarrow> a \<noteq> b \<Longrightarrow> own_inv (own(a := own b, b := None)) r op"
  unfolding own_inv_def using ran_move [of own a b] by (auto split: if_splits)

lemma own_inv_release: "own_inv own r op \<Longrightarrow> own_inv (own(a := None)) (set_option (own a) \<union> r) op"
  unfolding own_inv_def using ran_del [of own a] by (cases "own a") (auto intro: ranI split: if_splits)

lemma own_inv_raw: "own_inv own r op \<Longrightarrow> n \<in> r \<Longrightarrow> own_inv own (r - {n}) (op - {n})"
  unfolding own_inv_def by (auto simp: ran_def)

lemma fd_close_world:
  assumes "fd_inv w" "fw_objects w a = Some f"
  shows "os_open (snd (fd_close f (fw_os w))) = os_open (fw_os w) - set_option (owned w a)"
    and "num_of (fst (fd_close f (fw_os w))) = None"
proof -
  have inv: "own_inv (owned w) (fw_released w) (os_open (fw_os w))" using assms(1) fd_inv_own by blast
  then have bad: "INVALID_SOCKET \<notin> os_open (fw_os w)" unfolding own_inv_def by (elim conjE)
  show "os_open (snd (fd_close f (fw_os w))) = os_open (fw_os w) - set_option (owned w a)"
    using fd_close_os [OF bad] owned_object [OF assms(2)] by simp
  have "num_of f \<noteq> None \<longrightarrow> fd_valid f (fw_os w)"
  proof
    assume n: "num_of f \<noteq> None"
    then have "owned w a = Some (fd_num f)" using owned_object [OF assms(2)] by (simp add: num_of_def split: if_splits)
    then show "fd_valid f (fw_os w)" using inv ranI [of "owned w" a "fd_num f"] unfolding own_inv_def fd_valid_def by blast
  qed
  then show "num_of (fst (fd_close f (fw_os w))) = None" by (rule fd_close_num [OF bad])
qed

lemma owned_fun: "owned (fd_set a f w) = (owned w)(a := num_of f)"
  by (simp add: fun_eq_iff)

lemma num_of_simps [simp]:
  "num_of \<lparr>fd_num = INVALID_SOCKET, fd_cleanup = c\<rparr> = None" "num_of (f\<lparr>fd_num := INVALID_SOCKET\<rparr>) = None"
  "num_of (fd_make n c) = (if n = INVALID_SOCKET then None else Some n)"
  by (simp_all add: num_of_def fd_make_def)

lemma owned_world [simp]:
  "owned (w\<lparr>fw_os := s\<rparr>) = owned w" "owned (w\<lparr>fw_released := r\<rparr>) = owned w" "owned (w\<lparr>fw_os := s, fw_released := r\<rparr>) = owned w"
  by (simp_all add: fun_eq_iff owned_def)

lemma fd_close_inv:
  assumes "fd_inv w" "fw_objects w a = Some f"
  shows "fd_inv (fd_set a (fst (fd_close f (fw_os w))) (w\<lparr>fw_os := snd (fd_close f (fw_os w))\<rparr>))"
  using own_inv_close [of "owned w" "fw_released w" "os_open (fw_os w)" a] assms(1) fd_close_world [OF assms]
  by (simp add: fd_inv_own owned_fun)

lemma fd_move_inv:
  assumes "fd_inv w" "fw_objects w b = Some f" "owned w a = None" "a \<noteq> b"
  shows "fd_inv (fd_set b (snd (fd_move f)) (fd_set a (fst (fd_move f)) w))"
  using own_inv_move [of "owned w" "fw_released w" "os_open (fw_os w)" a b] assms(1,3,4) owned_object [OF assms(2)]
  by (simp add: fd_inv_own owned_fun fd_move_def)

lemma fd_set_twice: "fd_set a g (fd_set a f w) = fd_set a g w"
  by (simp add: fd_set_def)

lemma fd_step_inv:
  assumes inv: "fd_inv w"
  shows "fd_inv (fd_step op w)"
proof (cases op)
  case (MakeFd a n c)
  show ?thesis
  proof (cases "fw_objects w a = None \<and> (n = INVALID_SOCKET \<or> n \<notin> os_open (fw_os w))")
    case True
    then have "owned w a = None" by (simp add: owned_def)
    then show ?thesis
      using True MakeFd inv own_inv_close [of "owned w" "fw_released w" "os_open (fw_os w)" a]
        own_inv_open [of "owned w" "fw_released w" "os_open (fw_os w)" a n]
      by (cases "n = INVALID_SOCKET") (simp_all add: fd_inv_own owned_fun)
  qed (use MakeFd inv in auto)
next
  case (MoveFd a b)
  show ?thesis
  proof (cases "fw_objects w a = None \<and> fw_objects w b \<noteq> None")
    case True
    then obtain f where "fw_objects w b = Some f" "fw_objects w a = None" "owned w a = None" "a \<noteq> b"
      by (cases "a = b") (auto simp: owned_def)
    then show ?thesis using fd_move_inv [OF inv, of b f a] MoveFd by (simp add: split_beta)
  qed (use MoveFd inv in \<open>auto split: option.splits\<close>)
next
  case (AssignFd a b)
  show ?thesis
  proof (cases "fw_objects w a \<noteq> None \<and> fw_objects w b \<noteq> None \<and> a \<noteq> b")
    case True
    then obtain l f where f: "fw_objects w a = Some l" "fw_objects w b = Some f" "a \<noteq> b" by auto
    let ?w = "fd_set a (fst (fd_close l (fw_os w))) (w\<lparr>fw_os := snd (fd_close l (fw_os w))\<rparr>)"
    have "fd_inv ?w" "owned ?w a = None" "fw_objects ?w b = Some f"
      using fd_close_inv [OF inv f(1)] fd_close_world [OF inv f(1)] f by (simp_all add: fd_set_def [of a])
         (simp add: fd_set_def owned_def num_of_def split: if_splits)
    from fd_move_inv [OF this(1,3,2) f(3)] show ?thesis
      using f AssignFd by (simp add: split_beta fd_move_assign_def fd_set_twice Let_def)
  qed (use AssignFd inv in \<open>auto split: option.splits\<close>)
next
  case (CloseFd a)
  then show ?thesis using inv fd_close_inv [OF inv] by (auto simp: split_beta split: option.split)
next
  case (ReleaseFd a)
  then show ?thesis
    using inv own_inv_release [of "owned w" "fw_released w" "os_open (fw_os w)" a] owned_object [of w a]
    by (auto simp: fd_inv_own owned_fun fd_release_def num_of_def split: option.splits if_splits)
next
  case (DestroyFd a)
  have "owned (w\<lparr>fw_os := s, fw_objects := (fw_objects w)(a := None)\<rparr>) = (owned w)(a := None)" for s
    by (simp add: fun_eq_iff)
  then show ?thesis
    using DestroyFd inv own_inv_close [of "owned w" "fw_released w" "os_open (fw_os w)" a] fd_close_world(1) [OF inv]
    by (auto simp: fd_inv_own split_beta split: option.split)
next
  case (CloseRaw n)
  then show ?thesis
    using inv own_inv_raw [of "owned w" "fw_released w" "os_open (fw_os w)" n]
    by (simp add: fd_inv_own os_call_def)
qed

lemma fd_run_inv: "fd_inv w \<Longrightarrow> fd_inv (fold fd_step ops w)"
  by (induction ops arbitrary: w) (auto simp: fd_step_inv)

lemma fd_start_inv: "fd_inv fd_start"
  by (simp add: fd_inv_def fd_start_def owned_def ran_def)

fun fd_touched :: "fd_op \<Rightarrow> nat set" where
  "fd_touched (MakeFd a n c) = {a}"
| "fd_touched (MoveFd a b) = {a, b}"
| "fd_touched (AssignFd a b) = {a, b}"
| "fd_touched (CloseFd a) = {a}"
| "fd_touched (ReleaseFd a) = {a}"
| "fd_touched (DestroyFd a) = {a}"
| "fd_touched (CloseRaw n) = {}"

lemma owned_untouched: "b \<notin> fd_touched op \<Longrightarrow> owned (fd_step op w) b = owned w b"
  by (cases op) (auto simp: split_beta Let_def split: option.split)

text \<open>
  C27. A descriptor has one owner. Over any sequence of constructions, moves, assignments, closes, releases and
  destructions, no two objects own the same descriptor, and the open descriptors are exactly those owned by an
  object or released and not yet closed by their raw owner: nothing leaks and nothing is closed twice. No operation on
  some objects closes or takes the descriptor of another.
\<close>

theorem descriptors_one_owner:
  assumes "w = fold fd_step ops fd_start"
  shows "os_open (fw_os w) = ran (owned w) \<union> fw_released w \<and> ran (owned w) \<inter> fw_released w = {}
    \<and> (owned w a = Some n \<and> owned w b = Some n \<longrightarrow> a = b)
    \<and> (b \<notin> fd_touched op \<and> owned w b = Some n \<longrightarrow>
         owned (fd_step op w) b = Some n \<and> n \<in> os_open (fw_os (fd_step op w)))"
proof -
  have inv: "fd_inv w" using fd_run_inv [OF fd_start_inv] assms by simp
  have "n \<in> os_open (fw_os w')" if "fd_inv w'" "owned w' b = Some n" for w' :: fd_world
    using that ranI [of "owned w'" b n] unfolding fd_inv_def by auto
  then show ?thesis
    using inv fd_step_inv [OF inv, of op] owned_untouched [of b op w] unfolding fd_inv_def by (auto simp: ran_def)
qed

theorem descriptors_one_owner_witness:
  "os_open (fw_os (fold fd_step [MakeFd 0 7 ShutdownBoth, MoveFd 1 0, MakeFd 2 8 NoCleanup, ReleaseFd 2, DestroyFd 1] fd_start)) = {8}"
proof -
  let ?w = "fold fd_step [MakeFd 0 7 ShutdownBoth, MoveFd 1 0, MakeFd 2 8 NoCleanup, ReleaseFd 2, DestroyFd 1] fd_start"
  have "os_open (fw_os ?w) = ran (owned ?w) \<union> fw_released ?w"
    using descriptors_one_owner [OF refl] by blast
  moreover have "ran (owned ?w) = {}" "fw_released ?w = {8}"
    by (auto simp: fd_start_def fd_move_def fd_release_def fd_set_def fd_make_def fd_close_def fd_valid_def os_call_def owned_def ran_def
        split: if_splits)
  ultimately show ?thesis by simp
qed

end
