(* ===== verification/Sock_Words.thy ===== *)
theory Sock_Words
  imports File_Desc Net_State
begin

text \<open>
  The words and emissions on sockets: \<open>dsl/word/UDP.hpp\<close>, \<open>dsl/word/TCP.hpp\<close>, \<open>emit/UDP.hpp\<close>, and the address
  helpers under \<open>util/network\<close>. What the operating system answers is the argument \<open>kernel\<close>; every call that can fail
  is a branch. Addresses are \<open>sock\<close> of \<open>Net_State\<close>, here with the port as the number the code sees after
  \<open>ntohs\<close>.
\<close>

section \<open>Errors and the operating system\<close>

datatype sock_call = SysGetaddrinfo | SysGetifaddrs | SysSocket | SysPktinfo4 | SysPktinfo6 | SysReuseAddr | SysReusePort
  | SysBind sock | SysJoin4 "u8 list" "u8 list" | SysMulticastIf4 "u8 list" | SysJoin6 "u8 list" nat | SysMulticastIf6 nat
  | SysListen | SysGetsockname | SysBroadcast | SysSendto sock "u8 list" | SysRecvmsg

datatype sock_error = SystemError sock_call | NoAddress | UnknownSocketFamily | FamilyMismatch | NoInterface

text \<open>A value-initialised \<open>sock_t\<close> has the family \<open>AF_UNSPEC\<close>.\<close>

definition zero_sock :: sock where
  "zero_sock = OtherFamily 0"

section \<open>Name resolution\<close>

text \<open>\<open>resolve\<close>: the loop goes over the list but looks at its head (\<open>servinfo\<close>) each time.\<close>

fun resolve_from :: "sock \<Rightarrow> sock list \<Rightarrow> sock \<Rightarrow> sock" where
  "resolve_from servinfo [] target = target"
| "resolve_from servinfo (p # ps) target =
     (case servinfo of
        V4 _ _ \<Rightarrow> servinfo
      | V6 _ _ _ \<Rightarrow> resolve_from servinfo ps servinfo
      | OtherFamily _ \<Rightarrow> resolve_from servinfo ps target)"

definition resolve :: "sock list option \<Rightarrow> sock_error + sock" where
  "resolve addresses =
     (case addresses of
        None \<Rightarrow> Inl (SystemError SysGetaddrinfo)
      | Some [] \<Rightarrow> Inl NoAddress
      | Some (servinfo # ps) \<Rightarrow>
          (let target = resolve_from servinfo (servinfo # ps) zero_sock
           in if target = zero_sock then Inl NoAddress else Inr target))"

section \<open>Interfaces\<close>

record ifaddr =
  ia_name :: string
  ia_addr :: "sock option"
  ia_netmask :: "sock option"
  ia_dstaddr :: "sock option"
  ia_flags :: u32

record net_interface =
  ni_name :: string
  ni_ip :: sock
  ni_netmask :: sock
  ni_broadcast :: sock
  ni_is_broadcast :: bool
  ni_is_loopback :: bool
  ni_is_pointtopoint :: bool
  ni_is_multicast :: bool

abbreviation IFF_BROADCAST :: u32 where "IFF_BROADCAST \<equiv> 0x2"
abbreviation IFF_LOOPBACK :: u32 where "IFF_LOOPBACK \<equiv> 0x8"
abbreviation IFF_POINTOPOINT :: u32 where "IFF_POINTOPOINT \<equiv> 0x10"
abbreviation IFF_MULTICAST :: u32 where "IFF_MULTICAST \<equiv> 0x1000"

definition is_inet :: "sock \<Rightarrow> bool" where
  "is_inet a = (case a of OtherFamily _ \<Rightarrow> False | _ \<Rightarrow> True)"

definition interface_of :: "ifaddr \<Rightarrow> net_interface option" where
  "interface_of it =
     (case ia_addr it of
        None \<Rightarrow> None
      | Some a \<Rightarrow>
          if \<not> is_inet a then None
          else Some \<lparr>ni_name = ia_name it, ni_ip = a,
                     ni_netmask = (case ia_netmask it of None \<Rightarrow> zero_sock | Some m \<Rightarrow> m),
                     ni_broadcast = (case ia_dstaddr it of None \<Rightarrow> zero_sock | Some d \<Rightarrow> d),
                     ni_is_broadcast = (ia_flags it AND IFF_BROADCAST \<noteq> 0),
                     ni_is_loopback = (ia_flags it AND IFF_LOOPBACK \<noteq> 0),
                     ni_is_pointtopoint = (ia_flags it AND IFF_POINTOPOINT \<noteq> 0),
                     ni_is_multicast = (ia_flags it AND IFF_MULTICAST \<noteq> 0)\<rparr>)"

definition get_interfaces :: "ifaddr list option \<Rightarrow> sock_error + net_interface list" where
  "get_interfaces addrs =
     (case addrs of
        None \<Rightarrow> Inl (SystemError SysGetifaddrs)
      | Some its \<Rightarrow> Inr (List.map_filter interface_of its))"

text \<open>The answers of the system to the calls of one operation.\<close>

record kernel =
  k_addresses :: "string \<Rightarrow> sock list option"
  k_ifaddrs :: "ifaddr list option"
  k_ifindex :: "string \<Rightarrow> nat"
  k_socket :: int
  k_ok :: "sock_call \<Rightarrow> bool"
  k_getsockname :: "sock option"

definition sys :: "kernel \<Rightarrow> sock_call \<Rightarrow> sock_error + unit" where
  "sys k c = (if k_ok k c then Inr () else Inl (SystemError c))"

text \<open>\<open>resolve(address, port)\<close>: the addresses of the name with the port.\<close>

definition with_port :: "u16 \<Rightarrow> sock \<Rightarrow> sock" where
  "with_port p a = (case a of V4 b _ \<Rightarrow> V4 b p | V6 b _ s \<Rightarrow> V6 b p s | OtherFamily n \<Rightarrow> OtherFamily n)"

definition k_resolve :: "kernel \<Rightarrow> string \<Rightarrow> u16 \<Rightarrow> sock_error + sock" where
  "k_resolve k name p = resolve (map_option (map (with_port p)) (k_addresses k name))"

definition if_number_from_address :: "kernel \<Rightarrow> u8 list \<Rightarrow> sock_error + nat" where
  "if_number_from_address k ipv6 =
     (if list_all (\<lambda>i. i = 0) ipv6 then Inr 0
      else bind_res (get_interfaces (k_ifaddrs k)) (\<lambda>ifaces.
             (case find (\<lambda>i. case ni_ip i of V6 a _ _ \<Rightarrow> a = ipv6 | _ \<Rightarrow> False) ifaces of
                None \<Rightarrow> Inl NoInterface
              | Some i \<Rightarrow> Inr (k_ifindex k (ni_name i)))))"

section \<open>Opening UDP sockets\<close>

datatype udp_type = UNICAST | BROADCAST | MULTICAST

record connect_options =
  co_type :: udp_type
  co_bind :: string
  co_port :: u16
  co_target :: string

definition any_of_family :: "sock \<Rightarrow> u16 \<Rightarrow> sock_error + sock" where
  "any_of_family a p =
     (case a of
        V4 _ _ \<Rightarrow> Inr (V4 [0, 0, 0, 0] p)
      | V6 _ _ s \<Rightarrow> Inr (V6 (replicate 16 0) p s)
      | OtherFamily _ \<Rightarrow> Inl UnknownSocketFamily)"

text \<open>The multicast target (zero if there is none) and the address to bind to.\<close>

definition udp_addresses :: "kernel \<Rightarrow> connect_options \<Rightarrow> sock_error + sock \<times> sock" where
  "udp_addresses k opt =
     (if co_type opt = MULTICAST then
        bind_res (k_resolve k (co_target opt) (co_port opt)) (\<lambda>target.
          (if co_bind opt = [] then bind_res (any_of_family target (co_port opt)) (\<lambda>b. Inr (target, b))
           else bind_res (k_resolve k (co_bind opt) (co_port opt)) (\<lambda>b.
                  (if same_family target b then Inr (target, b) else Inl FamilyMismatch))))
      else if co_bind opt = [] then Inr (zero_sock, V4 [0, 0, 0, 0] (co_port opt))
      else bind_res (k_resolve k (co_bind opt) (co_port opt)) (\<lambda>b. Inr (zero_sock, b)))"

definition sys_bind :: "kernel \<Rightarrow> sock \<Rightarrow> sock_error + unit" where
  "sys_bind k a = (if is_inet a then sys k (SysBind a) else Inl UnknownSocketFamily)"

definition join_group :: "kernel \<Rightarrow> sock \<Rightarrow> sock \<Rightarrow> sock_error + unit" where
  "join_group k target bnd =
     (case (target, bnd) of
        (V4 mc _, V4 a _) \<Rightarrow> bind_res (sys k (SysJoin4 mc a)) (\<lambda>_. sys k (SysMulticastIf4 a))
      | (V6 mc _ _, V6 a _ _) \<Rightarrow>
          bind_res (if_number_from_address k a) (\<lambda>n.
          bind_res (sys k (SysJoin6 mc n)) (\<lambda>_. sys k (SysMulticastIf6 n)))
      | _ \<Rightarrow> Inr ())"

definition bound_port :: "kernel \<Rightarrow> sock_error + u16" where
  "bound_port k =
     (case k_getsockname k of
        None \<Rightarrow> Inl (SystemError SysGetsockname)
      | Some (V4 _ p) \<Rightarrow> Inr p
      | Some (V6 _ p _) \<Rightarrow> Inr p
      | Some (OtherFamily _) \<Rightarrow> Inl UnknownSocketFamily)"

text \<open>The calls on the open socket, in order; the first one that fails ends them.\<close>

definition udp_setup :: "kernel \<Rightarrow> connect_options \<Rightarrow> sock \<Rightarrow> sock \<Rightarrow> sock_error + u16" where
  "udp_setup k opt target bnd =
     bind_res (case bnd of V4 _ _ \<Rightarrow> sys k SysPktinfo4 | V6 _ _ _ \<Rightarrow> sys k SysPktinfo6 | OtherFamily _ \<Rightarrow> Inr ()) (\<lambda>_.
     bind_res (sys k SysReuseAddr) (\<lambda>_.
     bind_res (sys k SysReusePort) (\<lambda>_.
     bind_res (sys_bind k bnd) (\<lambda>_.
     bind_res (if co_type opt = MULTICAST then join_group k target bnd else Inr ()) (\<lambda>_. bound_port k)))))"

text \<open>
  A local \<open>FileDescriptor\<close> holds the socket: leaving by an exception destroys it, which closes the socket; at the end
  it is released to the reaction.
\<close>

definition with_socket :: "int \<Rightarrow> cleanup \<Rightarrow> sock_error + 'a \<Rightarrow> os \<Rightarrow> (sock_error + 'a \<times> int) \<times> os" where
  "with_socket n c setup s =
     (let f = fd_make n c
      in if \<not> fd_valid f s then (Inl (SystemError SysSocket), snd (fd_close f s))
         else case setup of
           Inl e \<Rightarrow> (Inl e, snd (fd_close f s))
         | Inr x \<Rightarrow> (let (cfd, f') = fd_release f in (Inr (x, cfd), snd (fd_close f' s))))"

text \<open>\<open>socket\<close> adds a descriptor to the open ones, unless it fails.\<close>

definition sys_socket :: "kernel \<Rightarrow> os \<Rightarrow> os" where
  "sys_socket k s = (if k_socket k = INVALID_SOCKET then s else s\<lparr>os_open := insert (k_socket k) (os_open s)\<rparr>)"

definition udp_connect :: "kernel \<Rightarrow> connect_options \<Rightarrow> os \<Rightarrow> (sock_error + u16 \<times> int) \<times> os" where
  "udp_connect k opt s =
     (case udp_addresses k opt of
        Inl e \<Rightarrow> (Inl e, s)
      | Inr (target, bnd) \<Rightarrow> with_socket (k_socket k) NoCleanup (udp_setup k opt target bnd) (sys_socket k s))"

text \<open>The unbinder of the reaction.\<close>

definition udp_unbind :: "int \<Rightarrow> os \<Rightarrow> os" where
  "udp_unbind cfd s = os_call (CloseCall cfd) s"

definition udp_bind :: "kernel \<Rightarrow> u16 \<Rightarrow> string \<Rightarrow> os \<Rightarrow> (sock_error + u16 \<times> int) \<times> os" where
  "udp_bind k p address = udp_connect k \<lparr>co_type = UNICAST, co_bind = address, co_port = p, co_target = []\<rparr>"

definition udp_broadcast_bind :: "kernel \<Rightarrow> u16 \<Rightarrow> string \<Rightarrow> os \<Rightarrow> (sock_error + u16 \<times> int) \<times> os" where
  "udp_broadcast_bind k p address = udp_connect k \<lparr>co_type = BROADCAST, co_bind = address, co_port = p, co_target = []\<rparr>"

definition udp_multicast_bind :: "kernel \<Rightarrow> string \<Rightarrow> u16 \<Rightarrow> string \<Rightarrow> os \<Rightarrow> (sock_error + u16 \<times> int) \<times> os" where
  "udp_multicast_bind k target p address = udp_connect k \<lparr>co_type = MULTICAST, co_bind = address, co_port = p, co_target = target\<rparr>"

section \<open>Receiving\<close>

text \<open>An event of \<open>IO::get\<close> and the ancillary data of a datagram.\<close>

record sock_event =
  se_fd :: int
  se_read :: bool

definition event_valid :: "sock_event \<Rightarrow> bool" where
  "event_valid e \<longleftrightarrow> se_fd e \<noteq> INVALID_SOCKET"

datatype control = Pktinfo4 "u8 list" | Pktinfo6 "u8 list" | OtherControl

record packet =
  pk_valid :: bool
  pk_payload :: "u8 list"
  pk_local :: sock
  pk_remote :: sock

definition no_packet :: packet where
  "no_packet = \<lparr>pk_valid = False, pk_payload = [], pk_local = zero_sock, pk_remote = zero_sock\<rparr>"

text \<open>The loop over the control headers, with its \<open>break\<close>.\<close>

fun packet_local :: "control list \<Rightarrow> sock \<Rightarrow> sock" where
  "packet_local [] a = a"
| "packet_local (c # cs) a =
     (case (a, c) of
        (V4 _ p, Pktinfo4 d) \<Rightarrow> V4 d p
      | (V6 _ p s, Pktinfo6 d) \<Rightarrow> V6 d p s
      | _ \<Rightarrow> packet_local cs a)"

text \<open>\<open>UDP::read\<close>; \<open>recvmsg\<close> gives the payload, the sender and the control headers.\<close>

definition udp_read :: "sock_event \<Rightarrow> (u8 list \<times> sock \<times> control list) option \<Rightarrow> sock option \<Rightarrow> sock_error + packet" where
  "udp_read e recvmsg getsockname =
     (if \<not> event_valid e \<or> \<not> se_read e then Inr no_packet
      else case recvmsg of
        None \<Rightarrow> Inr no_packet
      | Some (payload, remote, cs) \<Rightarrow>
          (case getsockname of
             None \<Rightarrow> Inl (SystemError SysGetsockname)
           | Some a \<Rightarrow> Inr \<lparr>pk_valid = True, pk_payload = payload, pk_local = packet_local cs a, pk_remote = remote\<rparr>))"

definition same_address :: "sock \<Rightarrow> sock \<Rightarrow> bool" where
  "same_address a b =
     (case (a, b) of
        (V4 x _, V4 y _) \<Rightarrow> x = y
      | (V6 x _ _, V6 y _ _) \<Rightarrow> x = y
      | _ \<Rightarrow> False)"

definition udp_get :: "net_interface list \<Rightarrow> packet \<Rightarrow> packet" where
  "udp_get ifaces r = (if \<exists>i \<in> set ifaces. same_address (ni_ip i) (pk_local r) then r else no_packet)"

definition udp_broadcast_get :: "net_interface list \<Rightarrow> packet \<Rightarrow> packet" where
  "udp_broadcast_get ifaces r =
     (case pk_local r of
        V4 d _ \<Rightarrow>
          (if d = [0xFF, 0xFF, 0xFF, 0xFF] then r
           else if \<exists>i \<in> set ifaces. ni_is_broadcast i \<and> (\<exists>p. ni_broadcast i = V4 d p) then r else no_packet)
      | _ \<Rightarrow> no_packet)"

text \<open>\<open>ntohl(s_addr) & 0xF0000000 == 0xE0000000\<close>, and the first byte of an IPv6 address.\<close>

definition network_word :: "u8 list \<Rightarrow> u32" where
  "network_word bs = bytes_word (rev bs)"

definition udp_is_multicast :: "sock \<Rightarrow> bool" where
  "udp_is_multicast a =
     (case a of
        V4 d _ \<Rightarrow> network_word d AND 0xF0000000 = 0xE0000000
      | V6 d _ _ \<Rightarrow> d \<noteq> [] \<and> hd d = 0xFF
      | OtherFamily _ \<Rightarrow> False)"

definition udp_multicast_get :: "packet \<Rightarrow> packet" where
  "udp_multicast_get r = (if udp_is_multicast (pk_local r) then r else no_packet)"

section \<open>Sending\<close>

text \<open>\<open>emit::UDP\<close> tests the address as it lies in memory: \<open>s_addr >> 28 == 0xE\<close>.\<close>

definition emit_is_multicast :: "bool \<Rightarrow> sock \<Rightarrow> bool" where
  "emit_is_multicast le a =
     (case a of
        V4 d _ \<Rightarrow> drop_bit 28 (bytes_word (mem_order le d) :: u32) = 0xE
      | V6 d _ _ \<Rightarrow> d \<noteq> [] \<and> hd d AND 0xFF = 0xFF
      | OtherFamily _ \<Rightarrow> False)"

definition emit_local :: "kernel \<Rightarrow> sock \<Rightarrow> string \<Rightarrow> u16 \<Rightarrow> sock_error + sock" where
  "emit_local k remote from_addr from_port =
     (if from_addr = [] then any_of_family remote from_port
      else bind_res (k_resolve k from_addr from_port) (\<lambda>l. if same_family l remote then Inr l else Inl FamilyMismatch))"

definition emit_interface :: "kernel \<Rightarrow> sock \<Rightarrow> sock_error + unit" where
  "emit_interface k l =
     (case l of
        V4 a _ \<Rightarrow> sys k (SysMulticastIf4 a)
      | V6 a _ _ \<Rightarrow> bind_res (if_number_from_address k a) (\<lambda>n. sys k (SysMulticastIf6 n))
      | OtherFamily _ \<Rightarrow> Inr ())"

definition emit_setup :: "bool \<Rightarrow> kernel \<Rightarrow> sock \<Rightarrow> sock \<Rightarrow> string \<Rightarrow> u16 \<Rightarrow> u8 list \<Rightarrow> sock_error + unit" where
  "emit_setup le k remote l from_addr from_port payload =
     bind_res (sys k SysReuseAddr) (\<lambda>_.
     bind_res (sys k SysReusePort) (\<lambda>_.
     bind_res (if emit_is_multicast le remote \<and> from_addr \<noteq> [] then emit_interface k l else Inr ()) (\<lambda>_.
     bind_res (if from_addr \<noteq> [] \<or> from_port \<noteq> 0 then sys_bind k l else Inr ()) (\<lambda>_.
     bind_res (sys k SysBroadcast) (\<lambda>_. sys k (SysSendto remote payload))))))"

definition emit_udp ::
  "bool \<Rightarrow> kernel \<Rightarrow> u8 list \<Rightarrow> string \<Rightarrow> u16 \<Rightarrow> string \<Rightarrow> u16 \<Rightarrow> os \<Rightarrow> (sock_error + unit) \<times> os"
where
  "emit_udp le k payload to_addr to_port from_addr from_port s =
     (case k_resolve k to_addr to_port of
        Inl e \<Rightarrow> (Inl e, s)
      | Inr remote \<Rightarrow>
          (case emit_local k remote from_addr from_port of
             Inl e \<Rightarrow> (Inl e, s)
           | Inr l \<Rightarrow>
               (let f = fd_make (k_socket k) NoCleanup; s1 = sys_socket k s
                in (if fd_valid f s1 then emit_setup le k remote l from_addr from_port payload else Inl (SystemError SysSocket),
                    snd (fd_close f s1)))))"

section \<open>TCP\<close>

definition tcp_setup :: "kernel \<Rightarrow> sock \<Rightarrow> sock_error + u16" where
  "tcp_setup k address =
     bind_res (sys_bind k address) (\<lambda>_.
     bind_res (sys k SysListen) (\<lambda>_.
       case k_getsockname k of
         None \<Rightarrow> Inl (SystemError SysGetsockname)
       | Some (V4 _ p) \<Rightarrow> Inr p
       | Some (V6 _ p _) \<Rightarrow> Inr p
       | Some (OtherFamily _) \<Rightarrow> Inr 0))"

definition tcp_bind :: "kernel \<Rightarrow> u16 \<Rightarrow> string \<Rightarrow> os \<Rightarrow> (sock_error + u16 \<times> int) \<times> os" where
  "tcp_bind k p address s =
     (case (if address \<noteq> [] then k_resolve k address p else Inr (V4 [0, 0, 0, 0] p)) of
        Inl e \<Rightarrow> (Inl e, s)
      | Inr a \<Rightarrow> with_socket (k_socket k) ShutdownBoth (tcp_setup k a) (sys_socket k s))"

definition tcp_unbind :: "int \<Rightarrow> os \<Rightarrow> os" where
  "tcp_unbind cfd s = os_call (CloseCall cfd) (os_call (ShutdownCall cfd) s)"

record connection =
  tc_local :: sock
  tc_remote :: sock
  tc_fd :: int

text \<open>\<open>Connection{}\<close>: the aggregate has no default for its descriptor, so it is zero.\<close>

definition no_connection :: connection where
  "no_connection = \<lparr>tc_local = zero_sock, tc_remote = zero_sock, tc_fd = 0\<rparr>"

definition connection_valid :: "connection \<Rightarrow> bool" where
  "connection_valid c \<longleftrightarrow> tc_fd c \<noteq> INVALID_SOCKET"

text \<open>\<open>TCP::get\<close>: \<open>accept\<close> gives the new descriptor (or the invalid one) and the remote address.\<close>

definition tcp_get :: "sock_event \<Rightarrow> int \<times> sock \<Rightarrow> sock option \<Rightarrow> os \<Rightarrow> connection \<times> os" where
  "tcp_get e accepted getsockname s =
     (if \<not> event_valid e then (no_connection, s)
      else
        (let (n, remote) = accepted;
             s1 = (if n = INVALID_SOCKET then s else s\<lparr>os_open := insert n (os_open s)\<rparr>);
             f = fd_make n ShutdownBoth;
             l = (case getsockname of None \<Rightarrow> zero_sock | Some a \<Rightarrow> a)
         in if \<not> fd_valid f s1 then (no_connection, snd (fd_close f s1))
            else (let (cfd, f') = fd_release f
                  in (\<lparr>tc_local = l, tc_remote = remote, tc_fd = cfd\<rparr>, snd (fd_close f' s1)))))"

section \<open>Resolution looks at the head\<close>

lemma resolve_from_head:
  "resolve_from h ps target = (if ps = [] then target else case h of OtherFamily _ \<Rightarrow> target | _ \<Rightarrow> h)"
  by (induction h ps target rule: resolve_from.induct) (auto split: sock.splits)

text \<open>What the comments of \<open>resolve\<close> promise: the first IPv4 address, or else the first IPv6 one.\<close>

definition preferred :: "sock list \<Rightarrow> sock option" where
  "preferred as = (case find (\<lambda>a. \<exists>b p. a = V4 b p) as of
     Some a \<Rightarrow> Some a | None \<Rightarrow> find (\<lambda>a. \<exists>b p s. a = V6 b p s) as)"

text \<open>
  Only the head of the resolved addresses counts. The promised preference for IPv4 does not exist: an IPv6 address
  at the head wins over every IPv4 address behind it, and an address of another family at the head makes the
  resolution fail although IPv4 and IPv6 addresses follow.
\<close>

theorem resolve_takes_head:
  "resolve (Some (h # as)) = (case h of OtherFamily _ \<Rightarrow> Inl NoAddress | _ \<Rightarrow> Inr h)
   \<and> preferred [V6 b q s, V4 a p] = Some (V4 a p) \<and> resolve (Some [V6 b q s, V4 a p]) = Inr (V6 b q s)
   \<and> preferred [OtherFamily n, V4 a p] = Some (V4 a p) \<and> resolve (Some [OtherFamily n, V4 a p]) = Inl NoAddress"
  by (simp add: resolve_def resolve_from_head zero_sock_def preferred_def Let_def split: sock.splits)

section \<open>No socket is lost\<close>

lemma with_socket_open:
  assumes "INVALID_SOCKET \<notin> os_open s" "k_socket k \<notin> os_open s"
  shows "(case with_socket (k_socket k) c setup (sys_socket k s) of
            (Inl e, s') \<Rightarrow> os_open s' = os_open s
          | (Inr (x, cfd), s') \<Rightarrow> cfd = k_socket k \<and> cfd \<noteq> INVALID_SOCKET \<and> os_open s' = insert cfd (os_open s))"
  using assms
  by (auto simp: with_socket_def sys_socket_def fd_valid_def fd_close_def fd_make_def fd_release_def os_call_def
      Let_def split: sum.splits)

text \<open>
  C26. No socket leaks. Whatever calls of the operating system fail, opening a UDP or TCP socket leaves no descriptor
  open when it throws; when it succeeds exactly the new socket is open, and the unbinder of the reaction closes it.
  Emitting by UDP closes its socket in every case.
\<close>

theorem sockets_not_leaked:
  assumes "INVALID_SOCKET \<notin> os_open s" and "k_socket k \<notin> os_open s"
  shows "(case udp_connect k opt s of
            (Inl e, s') \<Rightarrow> os_open s' = os_open s
          | (Inr (p, cfd), s') \<Rightarrow> os_open s' = insert (k_socket k) (os_open s) \<and> os_open (udp_unbind cfd s') = os_open s)
    \<and> (case tcp_bind k port address s of
            (Inl e, s') \<Rightarrow> os_open s' = os_open s
          | (Inr (p, cfd), s') \<Rightarrow> os_open s' = insert (k_socket k) (os_open s) \<and> os_open (tcp_unbind cfd s') = os_open s)
    \<and> os_open (snd (emit_udp le k payload to_addr to_port from_addr from_port s)) = os_open s"
proof (intro conjI)
  show "case udp_connect k opt s of
            (Inl e, s') \<Rightarrow> os_open s' = os_open s
          | (Inr (p, cfd), s') \<Rightarrow> os_open s' = insert (k_socket k) (os_open s) \<and> os_open (udp_unbind cfd s') = os_open s"
  proof (cases "udp_addresses k opt")
    case (Inr ab)
    obtain a b where ab: "ab = (a, b)" by (cases ab)
    show ?thesis
      using with_socket_open [OF assms, of NoCleanup "udp_setup k opt a b"] assms
      by (auto simp: udp_connect_def Inr ab udp_unbind_def os_call_def split: sum.splits)
  qed (simp add: udp_connect_def)
  show "case tcp_bind k port address s of
            (Inl e, s') \<Rightarrow> os_open s' = os_open s
          | (Inr (p, cfd), s') \<Rightarrow> os_open s' = insert (k_socket k) (os_open s) \<and> os_open (tcp_unbind cfd s') = os_open s"
  proof (cases "if address \<noteq> [] then k_resolve k address port else Inr (V4 [0, 0, 0, 0] port)")
    case (Inr a)
    show ?thesis
      using with_socket_open [OF assms, of ShutdownBoth "tcp_setup k a"] assms
      by (auto simp: tcp_bind_def Inr tcp_unbind_def os_call_def split: sum.splits)
  qed (simp add: tcp_bind_def)
  show "os_open (snd (emit_udp le k payload to_addr to_port from_addr from_port s)) = os_open s"
    using assms
    by (auto simp: emit_udp_def sys_socket_def fd_valid_def fd_close_def fd_make_def os_call_def Let_def split: sum.split)
qed

text \<open>A kernel on which the group cannot be joined: the socket 5 is opened and closed again.\<close>

definition failing_kernel :: kernel where
  "failing_kernel = \<lparr>k_addresses = (\<lambda>_. Some [V4 [239, 0, 0, 1] 0]), k_ifaddrs = None, k_ifindex = (\<lambda>_. 0), k_socket = 5,
     k_ok = (\<lambda>c. case c of SysJoin4 _ _ \<Rightarrow> False | _ \<Rightarrow> True), k_getsockname = Some (V4 [0, 0, 0, 0] 9)\<rparr>"

theorem sockets_not_leaked_witness:
  "\<exists>s'. udp_multicast_bind failing_kernel ''g'' 9 [] \<lparr>os_open = {3}, os_calls = []\<rparr>
      = (Inl (SystemError (SysJoin4 [239, 0, 0, 1] [0, 0, 0, 0])), s') \<and> os_open s' = {3}"
proof -
  let ?s = "\<lparr>os_open = {3}, os_calls = []\<rparr>"
  obtain s' where s': "udp_multicast_bind failing_kernel ''g'' 9 [] ?s = (Inl (SystemError (SysJoin4 [239, 0, 0, 1] [0, 0, 0, 0])), s')"
    by (simp add: udp_multicast_bind_def udp_connect_def udp_addresses_def k_resolve_def resolve_def failing_kernel_def with_port_def
        zero_sock_def any_of_family_def with_socket_def udp_setup_def sys_def sys_bind_def is_inet_def join_group_def
        sys_socket_def fd_valid_def fd_make_def Let_def)
  then show ?thesis
    using sockets_not_leaked [of ?s failing_kernel "\<lparr>co_type = MULTICAST, co_bind = [], co_port = 9, co_target = ''g''\<rparr>"]
    by (auto simp: udp_multicast_bind_def failing_kernel_def)
qed

section \<open>Absent connections\<close>

text \<open>
  The connection of a \<open>TCP\<close> reaction counts as valid when there is none. If the reaction runs for another trigger, or
  \<open>accept\<close> fails, its data is the value-initialised connection, which counts as present and holds descriptor 0, the
  standard input; a real connection holds the accepted descriptor, which stays open.
\<close>

theorem tcp_absent_connection:
  assumes "INVALID_SOCKET \<notin> os_open s"
  shows "(\<not> event_valid e \<or> fst accepted = INVALID_SOCKET \<longrightarrow>
            tc_fd (fst (tcp_get e accepted name s)) = 0 \<and> connection_valid (fst (tcp_get e accepted name s))
            \<and> snd (tcp_get e accepted name s) = s)
       \<and> (event_valid e \<and> fst accepted \<noteq> INVALID_SOCKET \<longrightarrow>
            tc_fd (fst (tcp_get e accepted name s)) = fst accepted \<and> connection_valid (fst (tcp_get e accepted name s))
            \<and> os_open (snd (tcp_get e accepted name s)) = insert (fst accepted) (os_open s))"
  using assms
  by (cases accepted) (auto simp: tcp_get_def no_connection_def connection_valid_def fd_valid_def fd_make_def fd_close_def
      fd_release_def Let_def)

theorem tcp_absent_connection_witness:
  "connection_valid (fst (tcp_get \<lparr>se_fd = - 1, se_read = False\<rparr> (- 1, zero_sock) None \<lparr>os_open = {0, 1}, os_calls = []\<rparr>))"
  using tcp_absent_connection [of "\<lparr>os_open = {0, 1}, os_calls = []\<rparr>" "\<lparr>se_fd = - 1, se_read = False\<rparr>" "(- 1, zero_sock)" None]
  by (simp add: event_valid_def)

section \<open>The two multicast tests\<close>

lemma bit_bytes_word:
  "bit (bytes_word bs :: 'a::len word) k \<longleftrightarrow> k < LENGTH('a) \<and> k div 8 < length bs \<and> bit (bs ! (k div 8)) (k mod 8)"
proof (induction bs arbitrary: k)
  case (Cons b bs)
  show ?case
  proof (cases "k < 8")
    case True
    then show ?thesis by (auto simp: bit_simps)
  next
    case False
    then obtain j where k: "k = j + 8" by (metis le_add_diff_inverse2 not_less)
    have "\<not> bit b (j + 8)" using bit_imp_le_length [of b "j + 8"] by auto
    then show ?thesis unfolding k using Cons [of j] by (auto simp: bit_simps)
  qed
qed simp

text \<open>The top nibble of the last byte in memory order.\<close>

lemma high_nibble:
  assumes "length bs = 4"
  shows "drop_bit 28 (bytes_word bs :: u32) = ucast (drop_bit 4 (bs ! 3))"
proof (rule bit_word_eqI)
  fix k assume "k < LENGTH(32)"
  then have k: "k < 32" by simp
  show "bit (drop_bit 28 (bytes_word bs :: u32)) k \<longleftrightarrow> bit (ucast (drop_bit 4 (bs ! 3)) :: u32) k"
  proof (cases "k < 4")
    case True
    then have "(k + 28) div 8 = 3" "(k + 28) mod 8 = k + 4" by (auto simp: div_nat_eqI mod_nat_eqI)
    then show ?thesis using True assms by (simp add: bit_simps bit_bytes_word add.commute)
  next
    case False
    then show ?thesis using k by (auto simp: bit_simps dest: bit_imp_le_length)
  qed
qed

lemma high_nibble_E: "ucast (x :: u8) = (0xE :: u32) \<longleftrightarrow> x = 0xE"
proof
  assume eq: "ucast x = (0xE :: u32)"
  have "(0xE :: u32) = ucast (0xE :: u8)" by simp
  then have "ucast x = (ucast (0xE :: u8) :: u32)" using eq by simp
  then have bits: "bit (ucast x :: u32) k \<longleftrightarrow> bit (ucast (0xE :: u8) :: u32) k" for k by simp
  show "x = 0xE"
  proof (rule bit_word_eqI)
    fix k assume "k < LENGTH(8)"
    then show "bit x k \<longleftrightarrow> bit (0xE :: u8) k" using bits [of k] unfolding bit_ucast_iff by simp
  qed
qed simp

lemma mask_high_nibble: "(w :: u32) AND 0xF0000000 = 0xE0000000 \<longleftrightarrow> drop_bit 28 w = 0xE"
proof -
  have mask: "(0xF0000000 :: u32) = push_bit 28 (mask 4)" by (simp add: mask_eq_exp_minus_1)
  have high: "bit w (28 + m) \<Longrightarrow> m < 4" for m using bit_imp_le_length [of w "28 + m"] by simp
  have and_eq: "w AND 0xF0000000 = push_bit 28 (drop_bit 28 w)"
    unfolding mask by (rule bit_word_eqI) (auto simp: bit_simps dest: high)
  have "(0xE0000000 :: u32) = push_bit 28 0xE" by simp
  then have "w AND 0xF0000000 = 0xE0000000 \<longleftrightarrow> push_bit 28 (drop_bit 28 w) = (push_bit 28 0xE :: u32)"
    unfolding and_eq by simp
  also have "\<dots> \<longleftrightarrow> drop_bit 28 w = 0xE"
  proof
    assume "push_bit 28 (drop_bit 28 w) = (push_bit 28 0xE :: u32)"
    then have "drop_bit 28 (push_bit 28 (drop_bit 28 w)) = drop_bit 28 (push_bit 28 (0xE :: u32))" by (rule arg_cong)
    moreover have "drop_bit 28 (push_bit 28 (drop_bit 28 w)) = drop_bit 28 w"
      by (rule bit_word_eqI) (auto simp: bit_simps dest: high)
    ultimately show "drop_bit 28 w = 0xE" by simp
  qed simp
  finally show ?thesis .
qed

lemma udp_is_multicast_V4: "udp_is_multicast (V4 [a, b, c, d] p) \<longleftrightarrow> drop_bit 4 a = 0xE"
  using high_nibble [of "[d, c, b, a]"] by (simp add: udp_is_multicast_def network_word_def mask_high_nibble high_nibble_E)

text \<open>
  The emission tests the wrong end of an IPv4 address for multicast. A reaction takes an address a.b.c.d for
  multicast exactly if \<open>a\<close> lies in 224..239. The emission agrees on a big-endian host, but on a little-endian one it
  looks at \<open>d\<close>: it does not select the interface for a group such as 239.0.0.1 and does for a host such as 10.0.0.230.
\<close>

theorem emit_multicast_wrong_end:
  "(udp_is_multicast (V4 [a, b, c, d] p) \<longleftrightarrow> drop_bit 4 a = 0xE)
   \<and> (emit_is_multicast le (V4 [a, b, c, d] p) \<longleftrightarrow> (if le then drop_bit 4 d = 0xE else drop_bit 4 a = 0xE))
   \<and> (drop_bit 4 a = 0xE \<longleftrightarrow> 224 \<le> unat a \<and> unat a < 240)"
proof (intro conjI)
  show "udp_is_multicast (V4 [a, b, c, d] p) \<longleftrightarrow> drop_bit 4 a = 0xE"
    by (rule udp_is_multicast_V4)
  show "emit_is_multicast le (V4 [a, b, c, d] p) \<longleftrightarrow> (if le then drop_bit 4 d = 0xE else drop_bit 4 a = 0xE)"
    using high_nibble [of "[d, c, b, a]"] high_nibble [of "[a, b, c, d]"]
    by (simp add: emit_is_multicast_def mem_order_def high_nibble_E)
  have "drop_bit 4 a = 0xE \<longleftrightarrow> unat (drop_bit 4 a) = 14" by (simp add: word_unat_eq_iff)
  also have "\<dots> \<longleftrightarrow> unat a div 16 = 14" by (simp only: unat_drop_bit_eq) (simp add: drop_bit_eq_div)
  finally show "drop_bit 4 a = 0xE \<longleftrightarrow> 224 \<le> unat a \<and> unat a < 240" by linarith
qed

section \<open>Which word receives a datagram\<close>

text \<open>
  Interfaces as a host has them: no interface has a multicast address, the address 255.255.255.255 or a broadcast
  address of an interface, and no broadcast address is a multicast one.
\<close>

definition sane_interfaces :: "net_interface list \<Rightarrow> bool" where
  "sane_interfaces ifaces \<longleftrightarrow>
     (\<forall>i \<in> set ifaces. \<not> udp_is_multicast (ni_ip i) \<and> \<not> (\<exists>p. ni_ip i = V4 [0xFF, 0xFF, 0xFF, 0xFF] p)
        \<and> (\<forall>j \<in> set ifaces. ni_is_broadcast j \<longrightarrow> \<not> same_address (ni_ip i) (ni_broadcast j) \<and> \<not> udp_is_multicast (ni_broadcast j)))"

lemma same_address_multicast: "same_address a b \<Longrightarrow> udp_is_multicast a \<longleftrightarrow> udp_is_multicast b"
  by (auto simp: same_address_def udp_is_multicast_def split: sock.splits)

text \<open>
  At most one word receives a datagram. A datagram that arrived is handed on unchanged or not at all: by
  \<open>UDP\<close> if it was sent to the address of an interface, by \<open>UDP::Broadcast\<close> if it was sent to 255.255.255.255 or the
  broadcast address of an interface that has one, by \<open>UDP::Multicast\<close> if it was sent to a multicast address, and on
  a host with sane interfaces these exclude each other. Without a read event or a datagram none of them has data.
\<close>

theorem udp_words_exclusive:
  assumes "sane_interfaces ifaces"
    and "udp_read e recvmsg name = Inr r"
  shows "(pk_valid r \<longleftrightarrow> event_valid e \<and> se_read e \<and> recvmsg \<noteq> None)
    \<and> (\<forall>g \<in> {udp_get ifaces, udp_broadcast_get ifaces, udp_multicast_get}. g r \<in> {r, no_packet})
    \<and> \<not> (pk_valid (udp_get ifaces r) \<and> pk_valid (udp_broadcast_get ifaces r))
    \<and> \<not> (pk_valid (udp_get ifaces r) \<and> pk_valid (udp_multicast_get r))
    \<and> \<not> (pk_valid (udp_broadcast_get ifaces r) \<and> pk_valid (udp_multicast_get r))"
proof (intro conjI)
  show "pk_valid r \<longleftrightarrow> event_valid e \<and> se_read e \<and> recvmsg \<noteq> None"
    using assms(2) by (auto simp: udp_read_def no_packet_def split: if_splits option.splits prod.splits)
  show "\<forall>g \<in> {udp_get ifaces, udp_broadcast_get ifaces, udp_multicast_get}. g r \<in> {r, no_packet}"
    by (auto simp: udp_get_def udp_broadcast_get_def udp_multicast_get_def split: sock.splits)
  have u: "pk_valid (udp_get ifaces r) \<Longrightarrow> \<exists>i \<in> set ifaces. same_address (ni_ip i) (pk_local r)"
    by (auto simp: udp_get_def no_packet_def split: if_splits)
  have b: "pk_valid (udp_broadcast_get ifaces r) \<Longrightarrow> \<exists>d p. pk_local r = V4 d p
      \<and> (d = [0xFF, 0xFF, 0xFF, 0xFF] \<or> (\<exists>i \<in> set ifaces. ni_is_broadcast i \<and> (\<exists>q. ni_broadcast i = V4 d q)))"
    by (auto simp: udp_broadcast_get_def no_packet_def split: sock.splits if_splits)
  have m: "pk_valid (udp_multicast_get r) \<Longrightarrow> udp_is_multicast (pk_local r)"
    by (auto simp: udp_multicast_get_def no_packet_def split: if_splits)
  show "\<not> (pk_valid (udp_get ifaces r) \<and> pk_valid (udp_broadcast_get ifaces r))"
  proof
    assume both: "pk_valid (udp_get ifaces r) \<and> pk_valid (udp_broadcast_get ifaces r)"
    obtain d p where d: "pk_local r = V4 d p"
      "d = [0xFF, 0xFF, 0xFF, 0xFF] \<or> (\<exists>i \<in> set ifaces. ni_is_broadcast i \<and> (\<exists>q. ni_broadcast i = V4 d q))"
      using b both by blast
    obtain i where i: "i \<in> set ifaces" "same_address (ni_ip i) (V4 d p)" using u both d(1) by auto
    then obtain q where "ni_ip i = V4 d q" by (auto simp: same_address_def split: sock.splits)
    then show False using d(2) i(1) assms(1) unfolding sane_interfaces_def same_address_def by fastforce
  qed
  show "\<not> (pk_valid (udp_get ifaces r) \<and> pk_valid (udp_multicast_get r))"
    using u m same_address_multicast assms(1) unfolding sane_interfaces_def by blast
  show "\<not> (pk_valid (udp_broadcast_get ifaces r) \<and> pk_valid (udp_multicast_get r))"
  proof
    assume both: "pk_valid (udp_broadcast_get ifaces r) \<and> pk_valid (udp_multicast_get r)"
    obtain d p where d: "pk_local r = V4 d p"
      "d = [0xFF, 0xFF, 0xFF, 0xFF] \<or> (\<exists>i \<in> set ifaces. ni_is_broadcast i \<and> (\<exists>q. ni_broadcast i = V4 d q))"
      using b both by blast
    have "udp_is_multicast (V4 d q)" for q using m both d(1) by (auto simp: udp_is_multicast_def)
    moreover have "\<not> udp_is_multicast (V4 [0xFF, 0xFF, 0xFF, 0xFF] q)" for q
      by (simp add: udp_is_multicast_V4)
    ultimately show False using d(2) assms(1) unfolding sane_interfaces_def by metis
  qed
qed

text \<open>A host 10.0.0.2 in 10.0.0.0/8, a datagram to 10.255.255.255.\<close>

definition example_interface :: net_interface where
  "example_interface = \<lparr>ni_name = ''e'', ni_ip = V4 [10, 0, 0, 2] 0, ni_netmask = zero_sock, ni_broadcast = V4 [10, 255, 255, 255] 0,
     ni_is_broadcast = True, ni_is_loopback = False, ni_is_pointtopoint = False, ni_is_multicast = True\<rparr>"

theorem udp_words_exclusive_witness:
  "\<exists>r. udp_read \<lparr>se_fd = 4, se_read = True\<rparr> (Some ([1, 2], V4 [10, 0, 0, 3] 7, [Pktinfo4 [10, 255, 255, 255]])) (Some (V4 [0, 0, 0, 0] 9)) = Inr r
     \<and> pk_valid r \<and> udp_broadcast_get [example_interface] r = r \<and> \<not> pk_valid (udp_get [example_interface] r)"
proof -
  have not_mc: "drop_bit 4 (10 :: u8) \<noteq> 0xE" by (simp add: drop_bit_eq_div)
  have sane: "sane_interfaces [example_interface]"
    using not_mc by (simp add: sane_interfaces_def example_interface_def udp_is_multicast_V4 same_address_def)
  let ?r = "\<lparr>pk_valid = True, pk_payload = [1, 2], pk_local = V4 [10, 255, 255, 255] 9, pk_remote = V4 [10, 0, 0, 3] 7\<rparr>"
  have r: "udp_read \<lparr>se_fd = 4, se_read = True\<rparr> (Some ([1, 2], V4 [10, 0, 0, 3] 7, [Pktinfo4 [10, 255, 255, 255]])) (Some (V4 [0, 0, 0, 0] 9)) = Inr ?r"
    by (simp add: udp_read_def event_valid_def)
  have "udp_broadcast_get [example_interface] ?r = ?r"
    by (simp add: udp_broadcast_get_def example_interface_def)
  then show ?thesis using udp_words_exclusive [OF sane r] r by (intro exI [of _ ?r]) auto
qed

end
