(* ===== verification/Serialise_Data.thy ===== *)
theory Serialise_Data
  imports Net_Wire Xx_Hash
begin

text \<open>
  \<open>util/serialise/Serialise.hpp\<close>: the bytes of a trivially copyable value, of a range of them, and the hash that
  identifies their type. A type is given by the size, the bytes of its values in memory and the value read back from
  bytes; the protobuf specialisation only calls that library.
\<close>

section \<open>Operations\<close>

datatype serialise_error = WrongSize

definition serialise_value :: "('a \<Rightarrow> u8 list) \<Rightarrow> 'a \<Rightarrow> u8 list" where
  "serialise_value mem x = mem x"

definition deserialise_value :: "nat \<Rightarrow> (u8 list \<Rightarrow> 'a) \<Rightarrow> u8 list \<Rightarrow> serialise_error + 'a" where
  "deserialise_value n load bs = (if length bs \<noteq> n then Inl WrongSize else Inr (load bs))"

text \<open>The loop that appends the bytes of each item.\<close>

definition serialise_range :: "('a \<Rightarrow> u8 list) \<Rightarrow> 'a list \<Rightarrow> u8 list" where
  "serialise_range mem xs = fold (\<lambda>x out. out @ mem x) xs []"

definition deserialise_range :: "nat \<Rightarrow> (u8 list \<Rightarrow> 'a) \<Rightarrow> u8 list \<Rightarrow> serialise_error + 'a list" where
  "deserialise_range n load bs =
     (if length bs mod n \<noteq> 0 then Inl WrongSize
      else Inr (map (\<lambda>i. load (take n (drop (i * n) bs))) [0..<length bs div n]))"

text \<open>The hash of the demangled name of the type, which the compiler gives.\<close>

definition type_hash :: "bool \<Rightarrow> u8 list \<Rightarrow> u64" where
  "type_hash le type_name = xxhash64 le type_name 0x4e55436c"

section \<open>Types that are copied by their bytes\<close>

text \<open>What \<open>memcpy\<close> promises of a trivially copyable type: the copy has the value that was copied.\<close>

definition copies :: "nat \<Rightarrow> ('a \<Rightarrow> u8 list) \<Rightarrow> (u8 list \<Rightarrow> 'a) \<Rightarrow> bool" where
  "copies n mem load \<longleftrightarrow> 0 < n \<and> (\<forall>x. length (mem x) = n \<and> load (mem x) = x)"

locale trivially_copyable =
  fixes n :: nat and mem :: "'a \<Rightarrow> u8 list" and load :: "u8 list \<Rightarrow> 'a"
  assumes size_pos: "0 < n"
    and size_mem: "length (mem x) = n"
    and load_mem: "load (mem x) = x"
begin

lemma range_concat: "serialise_range mem xs = concat (map mem xs)"
proof -
  have "fold (\<lambda>x out. out @ mem x) xs out = out @ concat (map mem xs)" for out
    by (induction xs arbitrary: out) auto
  then show ?thesis by (simp add: serialise_range_def)
qed

lemma range_length: "length (serialise_range mem xs) = n * length xs"
  by (induction xs) (auto simp: range_concat size_mem)

lemma range_slice: "i < length xs \<Longrightarrow> take n (drop (i * n) (concat (map mem xs))) = mem (xs ! i)"
proof (induction xs arbitrary: i)
  case (Cons x xs)
  then show ?case by (cases i) (auto simp: size_mem)
qed simp

lemma value_roundtrip: "deserialise_value n load (serialise_value mem x) = Inr x"
  by (simp add: deserialise_value_def serialise_value_def size_mem load_mem)

lemma range_roundtrip: "deserialise_range n load (serialise_range mem xs) = Inr xs"
proof -
  have "map (\<lambda>i. load (take n (drop (i * n) (concat (map mem xs))))) [0..<length xs] = map (\<lambda>i. xs ! i) [0..<length xs]"
    by (simp add: range_slice load_mem)
  then show ?thesis
    using size_pos by (simp add: deserialise_range_def range_length range_concat [symmetric] map_nth)
qed

end

lemma trivially_copyable_copies: "copies n mem load \<Longrightarrow> trivially_copyable n mem load"
  by unfold_locales (auto simp: copies_def)

text \<open>Bytes, 16-bit and 64-bit integers in either byte order.\<close>

interpretation byte: trivially_copyable 1 "\<lambda>b :: u8. [b]" hd
  by unfold_locales auto

interpretation int16: trivially_copyable 2 "store16 le" "\<lambda>bs. bytes_word (mem_order le bs)" for le
  by unfold_locales (auto simp: store16_def bytes_word_bytes take_bit_full16)

interpretation int64: trivially_copyable 8 "store64 le" "\<lambda>bs. bytes_word (mem_order le bs)" for le
  by unfold_locales (auto simp: store64_def bytes_word_bytes take_bit_full64)

text \<open>
  C35. Serialised data reads back. For every type whose bytes can be copied, a value and a range of values are read
  back as they were written, and a buffer is refused exactly if its size is not that of a value, or not a multiple
  of it; the 64-bit integers are such a type in both byte orders.
\<close>

theorem serialise_roundtrip:
  assumes "copies n mem load"
  shows "deserialise_value n load (serialise_value mem x) = Inr x
    \<and> deserialise_range n load (serialise_range mem xs) = Inr xs
    \<and> (deserialise_value n load bs = Inl WrongSize \<longleftrightarrow> length bs \<noteq> n)
    \<and> (deserialise_range n load bs = Inl WrongSize \<longleftrightarrow> \<not> n dvd length bs)
    \<and> deserialise_range 8 (\<lambda>bs. bytes_word (mem_order le bs)) (serialise_range (store64 le) ws) = Inr (ws :: u64 list)"
proof (intro conjI)
  note copyable = trivially_copyable_copies [OF assms]
  show "deserialise_value n load (serialise_value mem x) = Inr x" by (rule trivially_copyable.value_roundtrip [OF copyable])
  show "deserialise_range n load (serialise_range mem xs) = Inr xs" by (rule trivially_copyable.range_roundtrip [OF copyable])
  show "deserialise_value n load bs = Inl WrongSize \<longleftrightarrow> length bs \<noteq> n" by (simp add: deserialise_value_def)
  show "deserialise_range n load bs = Inl WrongSize \<longleftrightarrow> \<not> n dvd length bs"
    by (simp add: deserialise_range_def mod_eq_0_iff_dvd)
  show "deserialise_range 8 (\<lambda>bs. bytes_word (mem_order le bs)) (serialise_range (store64 le) ws) = Inr ws"
    by (rule int64.range_roundtrip)
qed

theorem serialise_roundtrip_witness:
  "deserialise_range 2 (\<lambda>bs. bytes_word (mem_order False bs)) (serialise_range (store16 False) [1, 0xABCD]) = Inr [1, 0xABCD :: u16]"
proof -
  have "copies 2 (store16 False) (\<lambda>bs. bytes_word (mem_order False bs))"
    unfolding copies_def using int16.size_mem int16.load_mem by auto
  then show ?thesis by (rule conjunct1 [OF conjunct2 [OF serialise_roundtrip]])
qed

end
