(* ===== verification/Net_Controller.thy ===== *)
theory Net_Controller
  imports Net_Peers Serialise_Data
begin

text \<open>
  The network controller (\<open>extension/NetworkController.cpp\<close>) with the words that feed it: \<open>Network\<close> binds a reaction to
  the hash of its type, an arriving message runs the reactions of its hash with the payload in the thread store, and
  \<open>emit::Network\<close> sends one. The protocol is the \<open>net\<close> of the theories before; its callbacks are applied in order
  when a call of it returns.
\<close>

section \<open>State\<close>

record net_source =
  ns_name :: "u8 list"
  ns_address :: sock
  ns_reliable :: bool

datatype net_emission = NetworkJoin "u8 list" sock | NetworkLeave "u8 list" sock | ProcessNetworkIn int

text \<open>
  \<open>nc_submitted\<close>: the reactions submitted, each with what it finds in the thread store when its task is made.
  \<open>nc_unbound\<close>: the handles the controller has unbound.
\<close>

record controller =
  nc_net :: net
  nc_reactions :: "(u64 \<times> nid) list"
  nc_locked :: bool
  nc_data :: "u8 list option"
  nc_source :: "net_source option"
  nc_submitted :: "(nid \<times> u8 list option \<times> net_source option) list"
  nc_emitted :: "net_emission list"
  nc_process :: "nid option"
  nc_listen :: "nid list"
  nc_unbound :: "nid list"

definition new_controller :: controller where
  "new_controller = \<lparr>nc_net = new_net, nc_reactions = [], nc_locked = False, nc_data = None, nc_source = None,
     nc_submitted = [], nc_emitted = [], nc_process = None, nc_listen = [], nc_unbound = []\<rparr>"

section \<open>Binding\<close>

text \<open>The reactions \<open>Network Bind\<close> and \<open>Network Unbind\<close>; \<open>None\<close> is a thread that waits for the mutex it holds.\<close>

definition network_bind :: "u64 \<Rightarrow> nid \<Rightarrow> controller \<Rightarrow> controller option" where
  "network_bind hash r c =
     (if nc_locked c then None else Some (c\<lparr>nc_reactions := multi_insert hash r (nc_reactions c)\<rparr>))"

definition network_unbind :: "nid \<Rightarrow> controller \<Rightarrow> controller option" where
  "network_unbind r c =
     (if nc_locked c then None else Some (c\<lparr>nc_reactions := erase_first (\<lambda>e. snd e = r) (nc_reactions c)\<rparr>))"

section \<open>Callbacks of the network\<close>

text \<open>
  What a reaction does to the controller while it runs inline: it binds and unbinds network reactions (both by inline
  emissions). \<open>inline\<close> gives these for the reactions that run inline, \<open>None\<close> for the others, which are queued.
\<close>

datatype net_binding = Listen u64 nid | Unlisten nid

fun binding_step :: "net_binding \<Rightarrow> controller \<Rightarrow> controller option" where
  "binding_step (Listen h r) c = network_bind h r c"
| "binding_step (Unlisten r) c = network_unbind r c"

fun binding_steps :: "net_binding list \<Rightarrow> controller \<Rightarrow> controller option" where
  "binding_steps [] c = Some c"
| "binding_steps (b # bs) c = Option.bind (binding_step b c) (binding_steps bs)"

definition submit_network :: "(nid \<Rightarrow> net_binding list option) \<Rightarrow> nid \<Rightarrow> controller \<Rightarrow> controller option" where
  "submit_network inline r c =
     (let c1 = c\<lparr>nc_submitted := nc_submitted c @ [(r, nc_data c, nc_source c)]\<rparr>
      in case inline r of None \<Rightarrow> Some c1 | Some bs \<Rightarrow> binding_steps bs c1)"

fun submit_all :: "(nid \<Rightarrow> net_binding list option) \<Rightarrow> u8 list \<Rightarrow> net_source \<Rightarrow> nid list \<Rightarrow> controller \<Rightarrow> controller option" where
  "submit_all inline payload src [] c = Some c"
| "submit_all inline payload src (r # rs) c =
     Option.bind (submit_network inline r (c\<lparr>nc_data := Some payload, nc_source := Some src\<rparr>)) (submit_all inline payload src rs)"

definition packet_callback ::
  "(nid \<Rightarrow> net_binding list option) \<Rightarrow> nat \<Rightarrow> u64 \<Rightarrow> bool \<Rightarrow> u8 list \<Rightarrow> controller \<Rightarrow> controller option"
where
  "packet_callback inline i hash reliable payload c =
     (if nc_locked c then None
      else
        let t = nt_heap (nc_net c) i;
            src = \<lparr>ns_name = tg_name t, ns_address = tg_addr t, ns_reliable = reliable\<rparr>
        in case submit_all inline payload src (equal_range hash (nc_reactions c)) (c\<lparr>nc_locked := True\<rparr>) of
             None \<Rightarrow> None
           | Some c1 \<Rightarrow> Some (c1\<lparr>nc_data := None, nc_source := None, nc_locked := False\<rparr>))"

definition emit_network_event :: "net_emission \<Rightarrow> controller \<Rightarrow> controller" where
  "emit_network_event e c = c\<lparr>nc_emitted := nc_emitted c @ [e]\<rparr>"

definition join_callback :: "nat \<Rightarrow> controller \<Rightarrow> controller" where
  "join_callback i c = (let t = nt_heap (nc_net c) i in emit_network_event (NetworkJoin (tg_name t) (tg_addr t)) c)"

definition leave_callback :: "nat \<Rightarrow> controller \<Rightarrow> controller" where
  "leave_callback i c = (let t = nt_heap (nc_net c) i in emit_network_event (NetworkLeave (tg_name t) (tg_addr t)) c)"

definition next_event_callback :: "int \<Rightarrow> int \<Rightarrow> controller \<Rightarrow> controller" where
  "next_event_callback now t c = emit_network_event (ProcessNetworkIn (t - now)) c"

fun network_callback :: "(nid \<Rightarrow> net_binding list option) \<Rightarrow> int \<Rightarrow> effect \<Rightarrow> controller \<Rightarrow> controller option" where
  "network_callback inline now (Sendto a bs) c = Some c"
| "network_callback inline now (Joined i) c = Some (join_callback i c)"
| "network_callback inline now (Left i) c = Some (leave_callback i c)"
| "network_callback inline now (Packet i h rel bs) c = packet_callback inline i h rel bs c"
| "network_callback inline now (NextEvent t) c = Some (next_event_callback now t c)"

fun network_callbacks :: "(nid \<Rightarrow> net_binding list option) \<Rightarrow> int \<Rightarrow> effect list \<Rightarrow> controller \<Rightarrow> controller option" where
  "network_callbacks inline now [] c = Some c"
| "network_callbacks inline now (e # es) c = Option.bind (network_callback inline now e c) (network_callbacks inline now es)"

section \<open>Reactions of the controller\<close>

text \<open>
  The calls of the network; an exception of one (\<open>Inl\<close>) ends the reaction, \<open>Inr None\<close> is the deadlock. Each call starts
  with an empty log of effects.
\<close>

definition with_network ::
  "(nid \<Rightarrow> net_binding list option) \<Rightarrow> int \<Rightarrow> (net \<Rightarrow> net_error + net) \<Rightarrow> controller \<Rightarrow> net_error + controller option"
where
  "with_network inline now call c =
     bind_res (call ((nc_net c)\<lparr>nt_log := []\<rparr>)) (\<lambda>s. Inr (network_callbacks inline now (nt_log s) (c\<lparr>nc_net := s\<rparr>)))"

definition network_emit ::
  "(nid \<Rightarrow> net_binding list option) \<Rightarrow> bool \<Rightarrow> int \<Rightarrow> u64 \<Rightarrow> u8 list \<Rightarrow> u8 list \<Rightarrow> bool \<Rightarrow> controller \<Rightarrow> net_error + controller option"
where
  "network_emit inline le now hash payload target reliable =
     with_network inline now (net_send le now hash payload target reliable)"

definition network_process ::
  "(nid \<Rightarrow> net_binding list option) \<Rightarrow> bool \<Rightarrow> (sock \<Rightarrow> bool) \<Rightarrow> int \<Rightarrow> (sock \<times> u8 list) list \<Rightarrow> controller \<Rightarrow> net_error + controller option"
where
  "network_process inline le send_ok now arrivals = with_network inline now (net_process le send_ok now arrivals)"

definition network_shutdown :: "(nid \<Rightarrow> net_binding list option) \<Rightarrow> int \<Rightarrow> controller \<Rightarrow> net_error + controller option" where
  "network_shutdown inline now = with_network inline now (\<lambda>s. Inr (net_shutdown s))"

text \<open>
  The configuration: the old handles are unbound, the network is reset under the configured name or the name of the
  host, and reactions are bound for the timed events and the sockets; \<open>process_id\<close> and \<open>listen_ids\<close> are their ids.
\<close>

record network_configuration =
  cf_name :: "u8 list"
  cf_announce_address :: "u8 list"
  cf_announce_port :: u16
  cf_bind_address :: "u8 list"
  cf_mtu :: u16

definition unbind_handles :: "controller \<Rightarrow> controller" where
  "unbind_handles c =
     c\<lparr>nc_unbound := nc_unbound c @ (case nc_process c of None \<Rightarrow> [] | Some h \<Rightarrow> [h]) @ nc_listen c, nc_listen := []\<rparr>"

definition network_configure ::
  "(nid \<Rightarrow> net_binding list option) \<Rightarrow> bool \<Rightarrow> (u8 list \<Rightarrow> u16 \<Rightarrow> net_error + sock) \<Rightarrow> (sock \<Rightarrow> sock \<Rightarrow> bool) \<Rightarrow> u8 list \<Rightarrow> nid \<Rightarrow> nid list \<Rightarrow> int
   \<Rightarrow> network_configuration \<Rightarrow> controller \<Rightarrow> net_error + controller option"
where
  "network_configure inline le resolve_name open_sockets hostname process_id listen_ids now cf c =
     (let name = (if cf_name cf = [] then hostname else cf_name cf)
      in bind_res (with_network inline now
             (net_reset le resolve_name open_sockets now name (cf_announce_address cf) (cf_announce_port cf) (cf_bind_address cf) (cf_mtu cf))
             (unbind_handles c))
           (\<lambda>c1. Inr (map_option (\<lambda>c2. c2\<lparr>nc_process := Some process_id, nc_listen := listen_ids\<rparr>) c1)))"

section \<open>The words\<close>

text \<open>\<open>Network<T>::get\<close>: what the thread store holds, read back; a payload of the wrong size throws.\<close>

definition network_get :: "(u8 list \<Rightarrow> serialise_error + 'a) \<Rightarrow> u8 list option \<times> net_source option
    \<Rightarrow> serialise_error + (net_source \<times> 'a) option" where
  "network_get deserialise store =
     (case store of
        (Some bs, Some src) \<Rightarrow> (case deserialise bs of Inl e \<Rightarrow> Inl e | Inr x \<Rightarrow> Inr (Some (src, x)))
      | _ \<Rightarrow> Inr None)"

text \<open>\<open>emit::Network\<close>: the message for \<open>Network Emit\<close>.\<close>

record net_emit =
  ne_target :: "u8 list"
  ne_hash :: u64
  ne_payload :: "u8 list"
  ne_reliable :: bool

definition emit_network :: "('a \<Rightarrow> u8 list) \<Rightarrow> u64 \<Rightarrow> 'a \<Rightarrow> u8 list \<Rightarrow> bool \<Rightarrow> net_emit" where
  "emit_network serialise hash x target reliable =
     \<lparr>ne_target = target, ne_hash = hash, ne_payload = serialise x, ne_reliable = reliable\<rparr>"

section \<open>Dispatch to the bound reactions\<close>

text \<open>The specification of the bindings: the reactions with their hashes in the order they were bound.\<close>

fun spec_binding :: "net_binding \<Rightarrow> (u64 \<times> nid) list \<Rightarrow> (u64 \<times> nid) list" where
  "spec_binding (Listen h r) l = l @ [(h, r)]"
| "spec_binding (Unlisten r) l = filter (\<lambda>e. snd e \<noteq> r) l"

definition spec_bindings :: "net_binding list \<Rightarrow> (u64 \<times> nid) list" where
  "spec_bindings bs = fold spec_binding bs []"

fun listened :: "net_binding \<Rightarrow> nid list" where
  "listened (Listen h r) = [r]"
| "listened (Unlisten r) = []"

lemma sorted_multi_insert: "sorted (map fst m) \<Longrightarrow> sorted (map fst (multi_insert k v m))"
proof -
  assume "sorted (map fst m)"
  then have "sorted (map fst (takeWhile (\<lambda>e. fst e \<le> k) m) @ map fst (dropWhile (\<lambda>e. fst e \<le> k) m))"
    by (metis map_append takeWhile_dropWhile_id)
  moreover have "k < x" if "x \<in> set (map fst (dropWhile (\<lambda>e. fst e \<le> k) m))" "sorted (map fst m)" for x
    using that by (induction m) (auto split: if_splits)
  ultimately show ?thesis
    using \<open>sorted (map fst m)\<close> by (fastforce simp: multi_insert_def sorted_append dest: set_takeWhileD)
qed

lemma equal_range_multi_insert:
  "sorted (map fst m) \<Longrightarrow> equal_range k (multi_insert h v m) = equal_range k m @ (if k = h then [v] else [])"
proof (induction m)
  case (Cons e m)
  show ?case
  proof (cases "fst e \<le> h")
    case True
    then show ?thesis using Cons by (auto simp: multi_insert_def equal_range_def)
  next
    case False
    then have "\<forall>e' \<in> set (e # m). fst e' \<noteq> h" using Cons.prems by auto
    then show ?thesis using False by (auto simp: multi_insert_def equal_range_def filter_empty_conv)
  qed
qed (simp add: multi_insert_def equal_range_def)

lemma equal_range_erase:
  "distinct (map snd m) \<Longrightarrow> equal_range k (erase_first (\<lambda>e. snd e = r) m) = filter (\<lambda>i. i \<noteq> r) (equal_range k m)"
proof (induction m)
  case (Cons e m)
  have "filter (\<lambda>i. i \<noteq> snd e) (equal_range k m) = equal_range k m" if "snd e \<notin> snd ` set m"
  proof (rule filter_True, intro ballI notI)
    fix i assume "i \<in> set (equal_range k m)" "i = snd e"
    then show False using that by (auto simp: equal_range_def image_iff)
  qed
  then show ?case using Cons by (auto simp: equal_range_def)
qed (simp add: equal_range_def)

lemma equal_range_filter: "equal_range k (filter (\<lambda>e. snd e \<noteq> r) l) = filter (\<lambda>i. i \<noteq> r) (equal_range k l)"
  by (induction l) (auto simp: equal_range_def)

lemma equal_range_append: "equal_range k (l @ [(h, r)]) = equal_range k l @ (if k = h then [r] else [])"
  by (simp add: equal_range_def)

text \<open>The map against its specification.\<close>

definition bindings_ok :: "(u64 \<times> nid) list \<Rightarrow> controller \<Rightarrow> bool" where
  "bindings_ok spec c \<longleftrightarrow> \<not> nc_locked c \<and> sorted (map fst (nc_reactions c)) \<and> distinct (map snd (nc_reactions c))
     \<and> snd ` set (nc_reactions c) = snd ` set spec
     \<and> (\<forall>h. equal_range h (nc_reactions c) = equal_range h spec)"

lemma sorted_fst_erase_first: "sorted (map fst m) \<Longrightarrow> sorted (map fst (erase_first P m))"
  by (induction m) (auto dest: erase_first_subset)

lemma snd_erase_first:
  assumes "distinct (map snd m)"
  shows "snd ` set (erase_first (\<lambda>e. snd e = r) m) = snd ` set m - {r}"
proof -
  have "set (map snd (erase_first (\<lambda>e. snd e = r) m)) = set (map snd m) - {r}"
    using assms by (induction m) (auto simp del: set_map)
  then show ?thesis by simp
qed

lemma distinct_snd_multi_insert:
  assumes "distinct (map snd m)" "r \<notin> snd ` set m"
  shows "distinct (map snd (multi_insert h r m))"
proof -
  have "mset (takeWhile (\<lambda>e. fst e \<le> h) m) + mset (dropWhile (\<lambda>e. fst e \<le> h) m) = mset m"
    by (metis mset_append takeWhile_dropWhile_id)
  then have "mset (multi_insert h r m) = mset ((h, r) # m)" by (simp add: multi_insert_def)
  then have "mset (map snd (multi_insert h r m)) = mset (map snd ((h, r) # m))" by (simp only: mset_map)
  then show ?thesis using assms mset_eq_imp_distinct_iff by fastforce
qed

lemma binding_step_ok:
  assumes "bindings_ok l c" "\<forall>r \<in> set (listened b). r \<notin> snd ` set l"
  shows "\<exists>c'. binding_step b c = Some c' \<and> bindings_ok (spec_binding b l) c'"
proof (cases b)
  case (Listen h r)
  then show ?thesis
    using assms sorted_multi_insert [of "nc_reactions c" h r]
    by (auto simp: bindings_ok_def network_bind_def equal_range_multi_insert equal_range_append distinct_snd_multi_insert)
next
  case (Unlisten r)
  then show ?thesis
    using assms by (auto simp: bindings_ok_def network_unbind_def equal_range_erase equal_range_filter sorted_fst_erase_first
        snd_erase_first distinct_map_erase_first)
qed

lemma binding_steps_ok:
  "bindings_ok l c \<Longrightarrow> distinct (concat (map listened bs)) \<Longrightarrow> set (concat (map listened bs)) \<inter> snd ` set l = {} \<Longrightarrow>
   \<exists>c'. binding_steps bs c = Some c' \<and> bindings_ok (fold spec_binding bs l) c'"
proof (induction bs arbitrary: c l)
  case (Cons b bs)
  obtain c1 where c1: "binding_step b c = Some c1" "bindings_ok (spec_binding b l) c1"
    using binding_step_ok [of l c b] Cons.prems by auto
  have "set (concat (map listened bs)) \<inter> snd ` set (spec_binding b l) = {}"
    using Cons.prems(2,3) by (cases b) auto
  then show ?case using Cons.IH [OF c1(2)] c1(1) Cons.prems(2) by auto
qed simp

lemma binding_steps_submitted: "binding_steps bs c = Some c' \<Longrightarrow> nc_submitted c' = nc_submitted c"
proof (induction bs arbitrary: c)
  case (Cons b bs)
  then show ?case by (cases b) (auto simp: network_bind_def network_unbind_def bind_eq_Some_conv split: if_splits)
qed simp

lemma submit_all_queued:
  "submit_all (\<lambda>_. None) payload src rs c = Some (c\<lparr>nc_submitted := nc_submitted c @ map (\<lambda>r. (r, Some payload, Some src)) rs,
     nc_data := (if rs = [] then nc_data c else Some payload), nc_source := (if rs = [] then nc_source c else Some src)\<rparr>)"
  by (induction rs arbitrary: c) (simp_all add: submit_network_def)

lemma packet_callback_queued:
  assumes "\<not> nc_locked c"
  shows "packet_callback (\<lambda>_. None) i hash reliable payload c = Some (c\<lparr>nc_data := None, nc_source := None,
     nc_submitted := nc_submitted c @ map (\<lambda>r. (r, Some payload,
       Some \<lparr>ns_name = tg_name (nt_heap (nc_net c) i), ns_address = tg_addr (nt_heap (nc_net c) i), ns_reliable = reliable\<rparr>))
         (equal_range hash (nc_reactions c))\<rparr>)"
  using assms by (simp add: packet_callback_def submit_all_queued Let_def)



text \<open>
  A network reaction that runs inline deadlocks when it changes the bindings. The controller holds its mutex while
  it submits the reactions of a message, and the bindings are changed by inline emissions that take the mutex again:
  a message stops its thread for ever exactly if one of its reactions runs inline and binds or unbinds a network
  reaction, such as \<open>Once\<close> does.
\<close>

theorem inline_network_unbind_deadlocks:
  "packet_callback inline i hash reliable payload c = None \<longleftrightarrow>
     nc_locked c \<or> (\<exists>r \<in> set (equal_range hash (nc_reactions c)). \<exists>b bs. inline r = Some (b # bs))"
proof -
  have step: "binding_step b c = None" if "nc_locked c" for b and c :: controller
    using that by (cases b) (simp_all add: network_bind_def network_unbind_def)
  have one: "submit_network inline r c = (if \<exists>b bs. inline r = Some (b # bs) then None
      else Some (c\<lparr>nc_submitted := nc_submitted c @ [(r, nc_data c, nc_source c)]\<rparr>))" if "nc_locked c" for r c
  proof (cases "inline r")
    case (Some bs)
    then show ?thesis using that by (cases bs) (simp_all add: submit_network_def step)
  qed (simp add: submit_network_def)
  have "submit_all inline payload src rs c = None \<longleftrightarrow> (\<exists>r \<in> set rs. \<exists>b bs. inline r = Some (b # bs))" if "nc_locked c" for src rs c
    using that
  proof (induction rs arbitrary: c)
    case (Cons r rs)
    then show ?case by (auto simp: one)
  qed simp
  note all = this [of "c\<lparr>nc_locked := True\<rparr>"]
  let ?t = "nt_heap (nc_net c) i"
  let ?src = "\<lparr>ns_name = tg_name ?t, ns_address = tg_addr ?t, ns_reliable = reliable\<rparr>"
  have "packet_callback inline i hash reliable payload c = None \<longleftrightarrow>
      nc_locked c \<or> submit_all inline payload ?src (equal_range hash (nc_reactions c)) (c\<lparr>nc_locked := True\<rparr>) = None"
    by (simp add: packet_callback_def Let_def split: option.split)
  then show ?thesis by (simp add: all)
qed

end
