(* ===== verification/Net_Delivery.thy ===== *)
theory Net_Delivery
  imports Net_Controller Net_Reassembly
begin

text \<open>
  A message from one node to the reactions of another: \<open>emit::Network\<close> serialises and sends it, the protocol cuts and
  reassembles it, the controller dispatches it, and \<open>Network\<close> reads it back.
\<close>

section \<open>One message at the receiver\<close>

lemma process_solo_message:
  assumes "udp_key le addr = Inr key" "find_remote key s = Some i" "dp_type hdr = DATA" "dp_count hdr = 1"
  shows "process_packet le now addr (datagram le mtu hdr payload 0) s =
           handle_solo le i (hdr\<lparr>dp_no := 0\<rparr>) (datagram le mtu hdr payload 0) (touch now i s)"
proof -
  have d: "datagram le mtu hdr payload 0 = data_header le (hdr\<lparr>dp_no := 0\<rparr>) @ take (unat mtu) payload"
    by (simp add: datagram_def)
  show ?thesis
    using assms
    by (simp add: process_packet_def d valid_data_header data_header_type handle_data_def data_header_fields parse_data_header)
qed

lemma solo_delivered:
  assumes "udp_key le addr = Inr key" "find_remote key s = Some i" "dp_type hdr = DATA" "dp_count hdr = 1"
    and recent: "dp_reliable hdr \<longrightarrow> unat (tg_recent_index (nt_heap s i)) < length (tg_recent (nt_heap s i))"
  shows "\<exists>s'. process_packet le now addr (datagram le mtu hdr payload 0) s = Inr s'
           \<and> delivered s' = delivered s @ [Packet i (dp_hash hdr) (dp_reliable hdr) (drop 20 (datagram le mtu hdr payload 0))]"
proof -
  have "20 \<le> length (datagram le mtu hdr payload 0)" by (simp add: datagram_def)
  then show ?thesis
    using recent unfolding process_solo_message [OF assms(1-4)]
    by (auto simp: handle_solo_def remember_packet_def Let_def deliver_def delivered_def touch_def)
qed

text \<open>A message of any number of packets, the last one to arrive being \<open>no\<close>.\<close>

lemma message_delivered:
  assumes known: "udp_key le addr = Inr key" "find_remote key s = Some i"
    and hdr: "dp_type hdr = DATA" "dp_count hdr = packet_count mtu payload"
    and size: "length payload div unat mtu + 1 < 2 ^ 16" "mtu \<noteq> 0"
    and fresh: "map_of (tg_assemblers (nt_heap s i)) (dp_id hdr) = None"
    and order: "set nos = {0..<unat (dp_count hdr)} - {no}" "no < unat (dp_count hdr)"
    and rtt: "0 \<le> tg_round_trip (nt_heap s i)"
    and recent: "dp_reliable hdr \<longrightarrow> unat (tg_recent_index (nt_heap s i)) < length (tg_recent (nt_heap s i))"
  shows "\<exists>s'. process_packets le now (map (\<lambda>no. (addr, datagram le mtu hdr payload no)) (nos @ [no])) s = Inr s'
           \<and> delivered s' = delivered s @ [Packet i (dp_hash hdr) (dp_reliable hdr) payload]"
proof (cases "dp_count hdr = 1")
  case True
  then have no: "no = 0" "nos = []" using order by auto
  have "drop 20 (datagram le mtu hdr payload 0) = payload"
    using slices_cover [OF size, of le hdr] hdr(2) True by simp
  then show ?thesis using solo_delivered [OF known hdr(1) True recent, of now mtu payload] no by auto
next
  case False
  then show ?thesis using fragments_delivered [OF known hdr(1) False hdr(2) size fresh order rtt recent] by blast
qed

section \<open>The sender\<close>

fun sent_to :: "effect list \<Rightarrow> (sock \<times> u8 list) list" where
  "sent_to [] = []"
| "sent_to (Sendto a bs # es) = (a, bs) # sent_to es"
| "sent_to (_ # es) = sent_to es"

lemma sent_to_append [simp]: "sent_to (es @ es') = sent_to es @ sent_to es'"
  by (induction es rule: sent_to.induct) auto

lemma fold_want_event:
  "sent_to (nt_log (fold (\<lambda>i. want_event (f i)) is s)) = sent_to (nt_log s)"
  "nt_names (fold (\<lambda>i. want_event (f i)) is s) = nt_names s" "nt_heap (fold (\<lambda>i. want_event (f i)) is s) = nt_heap s"
  "nt_mtu (fold (\<lambda>i. want_event (f i)) is s) = nt_mtu s"
  by (induction "is" arbitrary: s) (auto simp: want_event_def log_effect_def)

lemma enqueue_reliable_keeps:
  "sent_to (nt_log (enqueue_reliable now target hdr payload s)) = sent_to (nt_log s)"
  "nt_names (enqueue_reliable now target hdr payload s) = nt_names s" "nt_heap (enqueue_reliable now target hdr payload s) = nt_heap s"
  "nt_mtu (enqueue_reliable now target hdr payload s) = nt_mtu s"
  by (simp_all add: enqueue_reliable_def fold_want_event Let_def)

lemma sent_to_fold_log:
  "sent_to (nt_log (fold (\<lambda>(to, no). log_effect (Sendto to (f no))) ps s)) = sent_to (nt_log s) @ map (\<lambda>(to, no). (to, f no)) ps"
  by (induction ps arbitrary: s) (auto simp: log_effect_def)

definition message_header :: "u16 \<Rightarrow> u64 \<Rightarrow> bool \<Rightarrow> u8 list \<Rightarrow> u16 \<Rightarrow> data_packet" where
  "message_header mtu hash reliable payload pid =
     \<lparr>dp_type = DATA, dp_id = pid, dp_no = 0, dp_count = packet_count mtu payload, dp_reliable = reliable, dp_hash = hash\<rparr>"

lemma message_header_simps [simp]:
  "dp_count (message_header mtu hash reliable payload pid) = packet_count mtu payload"
  "dp_type (message_header mtu hash reliable payload pid) = DATA" "dp_id (message_header mtu hash reliable payload pid) = pid"
  "dp_reliable (message_header mtu hash reliable payload pid) = reliable" "dp_hash (message_header mtu hash reliable payload pid) = hash"
  by (simp_all add: message_header_def)

lemma net_send_eq:
  assumes connected: "nt_targets s \<noteq> []" and mtu: "nt_mtu s \<noteq> 0" and size: "length payload div unat (nt_mtu s) + 1 < 2 ^ 16"
    and pid: "pick_id (2 ^ 16) (id_used s) (nt_source s) = Some pid"
  shows "\<exists>s'. net_send le now hash payload target reliable s = Inr s' \<and> sent_to (nt_log s') = sent_to (nt_log s) @
     concat (map (\<lambda>no. map (\<lambda>i. (tg_addr (nt_heap s i), datagram le (nt_mtu s) (message_header (nt_mtu s) hash reliable payload pid) payload no))
       (equal_range target (nt_names s))) [0..<unat (packet_count (nt_mtu s) payload)])"
proof -
  let ?hdr = "message_header (nt_mtu s) hash reliable payload pid"
  let ?s1 = "s\<lparr>nt_source := pid\<rparr>"
  let ?s2 = "if reliable then enqueue_reliable now target ?hdr payload ?s1 else ?s1"
  let ?ps = "concat (map (\<lambda>no. map (\<lambda>i. (tg_addr (nt_heap s i), no)) (equal_range target (nt_names s))) [0..<unat (packet_count (nt_mtu s) payload)])"
  have s2: "sent_to (nt_log ?s2) = sent_to (nt_log s)" "nt_names ?s2 = nt_names s" "nt_heap ?s2 = nt_heap s" "nt_mtu ?s2 = nt_mtu s"
    by (simp_all add: enqueue_reliable_keeps)
  have ps: "concat (map (\<lambda>no. map (\<lambda>i. (tg_addr (nt_heap s i), ?hdr, no, payload)) (equal_range target (nt_names s))) [0..<unat (packet_count (nt_mtu s) payload)])
      = map (\<lambda>(to, no). (to, ?hdr, no, payload)) ?ps"
    by (simp add: map_concat comp_def)
  have "net_send le now hash payload target reliable s = send_each le
        (concat (map (\<lambda>no. map (\<lambda>i. (tg_addr (nt_heap ?s2 i), ?hdr, no, payload)) (equal_range target (nt_names ?s2)))
          [0..<unat (dp_count ?hdr)])) ?s2"
    using mtu connected unfolding net_send_def pid by (simp add: message_header_def Let_def)
  also have "\<dots> = send_each le (map (\<lambda>(to, no). (to, ?hdr, no, payload)) ?ps) ?s2"
    using s2 ps by simp
  also have "\<dots> = Inr (fold (\<lambda>(to, no). log_effect (Sendto to (datagram le (nt_mtu ?s2) ?hdr payload no))) ?ps ?s2)"
    by (rule send_each_datagrams) (use size mtu s2 in auto)
  finally have "net_send le now hash payload target reliable s
      = Inr (fold (\<lambda>(to, no). log_effect (Sendto to (datagram le (nt_mtu s) ?hdr payload no))) ?ps ?s2)"
    using s2(4) by simp
  then show ?thesis
    using s2(1) sent_to_fold_log [of "\<lambda>no. datagram le (nt_mtu s) ?hdr payload no" ?ps ?s2] by (simp add: map_concat comp_def)
qed

lemma net_send_datagrams:
  assumes "net_send le now hash payload target reliable s = Inr s'" and "length payload div unat (nt_mtu s) + 1 < 2 ^ 16"
  shows "nt_mtu s \<noteq> 0 \<and> (\<exists>pid. sent_to (nt_log s') = sent_to (nt_log s) @
     concat (map (\<lambda>no. map (\<lambda>i. (tg_addr (nt_heap s i), datagram le (nt_mtu s) (message_header (nt_mtu s) hash reliable payload pid) payload no))
       (equal_range target (nt_names s))) [0..<unat (packet_count (nt_mtu s) payload)]))"
proof -
  obtain pid where pid: "pick_id (2 ^ 16) (id_used s) (nt_source s) = Some pid" and mtu: "nt_mtu s \<noteq> 0"
      and connected: "nt_targets s \<noteq> []"
    using assms(1) by (auto simp: net_send_def res_iff split: if_splits)
  show ?thesis
    using net_send_eq [OF connected mtu assms(2) pid, of le now hash target reliable] mtu assms(1) by auto
qed

section \<open>The controller of the receiver\<close>

text \<open>A network with nothing of its own to do: no announcement is due, no peer times out, nothing is resent.\<close>

definition quiet :: "int \<Rightarrow> net \<Rightarrow> bool" where
  "quiet now s \<longleftrightarrow> nt_targets s \<noteq> [] \<and> now - nt_last_announce s \<le> milliseconds 500 \<and> nt_send s = []
     \<and> (\<forall>i \<in> set (drop 1 (nt_targets s)). now - tg_last_update (nt_heap s i) \<le> seconds 2)"

lemma quiet_process: "quiet now s \<Longrightarrow> net_process le send_ok now arrivals s = process_packets le now arrivals s"
proof -
  have "expire_each le now is s = Inr ([], s)" if "\<forall>i \<in> set is. now - tg_last_update (nt_heap s i) \<le> seconds 2" for "is"
    using that by (induction "is") auto
  then show "quiet now s \<Longrightarrow> ?thesis"
    by (simp add: quiet_def net_process_def process_announce_def expire_targets_def)
qed

fun submissions :: "controller \<Rightarrow> effect \<Rightarrow> (nid \<times> u8 list option \<times> net_source option) list" where
  "submissions c (Packet i h rel bs) = map (\<lambda>r. (r, Some bs,
     Some \<lparr>ns_name = tg_name (nt_heap (nc_net c) i), ns_address = tg_addr (nt_heap (nc_net c) i), ns_reliable = rel\<rparr>))
       (equal_range h (nc_reactions c))"
| "submissions c _ = []"

lemma submissions_cong: "nc_net c' = nc_net c \<Longrightarrow> nc_reactions c' = nc_reactions c \<Longrightarrow> submissions c' e = submissions c e"
  by (cases e) auto

lemma network_callback_queued:
  assumes "\<not> nc_locked c"
  shows "\<exists>c'. network_callback (\<lambda>_. None) now e c = Some c' \<and> \<not> nc_locked c' \<and> nc_net c' = nc_net c
    \<and> nc_reactions c' = nc_reactions c \<and> nc_submitted c' = nc_submitted c @ submissions c e"
  using assms
  by (cases e) (auto simp: packet_callback_queued join_callback_def leave_callback_def next_event_callback_def emit_network_event_def Let_def)

lemma network_callbacks_queued:
  "\<not> nc_locked c \<Longrightarrow> \<exists>c'. network_callbacks (\<lambda>_. None) now es c = Some c'
     \<and> nc_submitted c' = nc_submitted c @ concat (map (submissions c) (filter is_delivery es))"
proof (induction es arbitrary: c)
  case (Cons e es)
  obtain c1 where c1: "network_callback (\<lambda>_. None) now e c = Some c1" "\<not> nc_locked c1" "nc_net c1 = nc_net c"
      "nc_reactions c1 = nc_reactions c" "nc_submitted c1 = nc_submitted c @ submissions c e"
    using network_callback_queued [OF Cons.prems] by blast
  obtain c2 where c2: "network_callbacks (\<lambda>_. None) now es c1 = Some c2"
      "nc_submitted c2 = nc_submitted c1 @ concat (map (submissions c1) (filter is_delivery es))"
    using Cons.IH [OF c1(2)] by blast
  have "submissions c1 = submissions c" using submissions_cong [OF c1(3,4)] by (simp add: fun_eq_iff)
  moreover have "concat (map (submissions c) (filter is_delivery (e # es)))
      = submissions c e @ concat (map (submissions c) (filter is_delivery es))"
    by (cases e) simp_all
  ultimately show ?case using c1(1,5) c2 by simp
qed simp

text \<open>A receiver that knows the sender at \<open>addr\<close> as its peer \<open>i\<close> and holds no packets of message \<open>pid\<close>.\<close>

definition receives :: "bool \<Rightarrow> int \<Rightarrow> sock \<Rightarrow> nat \<Rightarrow> u16 \<Rightarrow> bool \<Rightarrow> controller \<Rightarrow> bool" where
  "receives le now addr i pid reliable c \<longleftrightarrow>
     (let s = nc_net c
      in \<not> nc_locked c \<and> quiet now s \<and> (\<exists>key. udp_key le addr = Inr key \<and> find_remote key s = Some i)
         \<and> map_of (tg_assemblers (nt_heap s i)) pid = None \<and> 0 \<le> tg_round_trip (nt_heap s i)
         \<and> (reliable \<longrightarrow> unat (tg_recent_index (nt_heap s i)) < length (tg_recent (nt_heap s i))))"

lemma controller_receives:
  assumes "receives le now addr i (dp_id hdr) (dp_reliable hdr) c"
    and hdr: "dp_type hdr = DATA" "dp_count hdr = packet_count mtu payload"
    and size: "length payload div unat mtu + 1 < 2 ^ 16" "mtu \<noteq> 0"
    and order: "set nos = {0..<unat (dp_count hdr)} - {no}" "no < unat (dp_count hdr)"
  shows "\<exists>c' src. network_process (\<lambda>_. None) le send_ok now (map (\<lambda>no. (addr, datagram le mtu hdr payload no)) (nos @ [no])) c = Inr (Some c')
    \<and> ns_reliable src = dp_reliable hdr
    \<and> nc_submitted c' = nc_submitted c @ map (\<lambda>r. (r, Some payload, Some src)) (equal_range (dp_hash hdr) (nc_reactions c))"
proof -
  let ?s = "(nc_net c)\<lparr>nt_log := []\<rparr>"
  have quiet: "quiet now ?s" and unlocked: "\<not> nc_locked c" using assms(1) by (simp_all add: receives_def quiet_def Let_def)
  obtain key where "udp_key le addr = Inr key" "find_remote key ?s = Some i"
    using assms(1) by (auto simp: receives_def find_remote_def Let_def)
  then obtain s' where s': "process_packets le now (map (\<lambda>no. (addr, datagram le mtu hdr payload no)) (nos @ [no])) ?s = Inr s'"
      "delivered s' = delivered ?s @ [Packet i (dp_hash hdr) (dp_reliable hdr) payload]"
    using message_delivered [of le addr key ?s i hdr mtu payload nos no now] assms by (auto simp: receives_def Let_def)
  have log: "filter is_delivery (nt_log s') = [Packet i (dp_hash hdr) (dp_reliable hdr) payload]"
    using s'(2) by (simp add: delivered_def)
  obtain c' where c': "network_callbacks (\<lambda>_. None) now (nt_log s') (c\<lparr>nc_net := s'\<rparr>) = Some c'"
      "nc_submitted c' = nc_submitted c @ submissions (c\<lparr>nc_net := s'\<rparr>) (Packet i (dp_hash hdr) (dp_reliable hdr) payload)"
    using network_callbacks_queued [of "c\<lparr>nc_net := s'\<rparr>" now "nt_log s'"] unlocked unfolding log by auto
  let ?src = "\<lparr>ns_name = tg_name (nt_heap s' i), ns_address = tg_addr (nt_heap s' i), ns_reliable = dp_reliable hdr\<rparr>"
  show ?thesis
  proof (rule exI [of _ c'], rule exI [of _ ?src], intro conjI)
    show "network_process (\<lambda>_. None) le send_ok now (map (\<lambda>no. (addr, datagram le mtu hdr payload no)) (nos @ [no])) c = Inr (Some c')"
      using s'(1) c'(1) by (simp only: network_process_def with_network_def quiet_process [OF quiet] bind_res_simps)
  qed (use c'(2) in simp_all)
qed


text \<open>A sender whose peer \<open>p\<close> is at 10.0.0.9, and a receiver with reaction 3 bound to hash 9.\<close>

definition example_sender :: net where
  "example_sender = new_net\<lparr>nt_heap := (\<lambda>_. new_target [112] (V4 [10, 0, 0, 9] 7) 0), nt_targets := [0],
     nt_names := [([112], 0)], nt_mtu := 2\<rparr>"

definition example_controller :: controller where
  "example_controller = new_controller\<lparr>nc_net := example_receiver, nc_reactions := [(4, 2), (9, 3)]\<rparr>"


end
