(* ===== verification/Fun_Fusion.thy ===== *)
theory Fun_Fusion
  imports Dsl_Words
begin

text \<open>
  The compile-time functions that give the arguments of a sentence to its words and its data to the callback:
  \<open>util/FunctionFusion.hpp\<close>, \<open>util/Sequence.hpp\<close>, \<open>util/RelevantArguments.hpp\<close>, \<open>util/TransientDataElements.hpp\<close>,
  \<open>util/meta/Filter.hpp\<close> and \<open>dsl/fusion/FindWords.hpp\<close>. A template metafunction is a function on lists of types;
  whether the compiler accepts a call is the parameter \<open>callable\<close>, whether it converts a type the parameter
  \<open>convertible\<close>.
\<close>

section \<open>Sequences\<close>

text \<open>\<open>GenSequence\<close>: an invalid range restarts as the empty one.\<close>

function gen_sequence :: "int \<Rightarrow> int \<Rightarrow> int list \<Rightarrow> int list" where
  "gen_sequence start end seq =
     (if start = end then seq
      else if start > end then gen_sequence 0 0 []
      else gen_sequence (start + 1) end (seq @ [start]))"
  by pat_completeness auto
termination
  by (relation "measure (\<lambda>(start, end, seq). if start > end then 1 else nat (end - start))") auto

declare gen_sequence.simps [simp del]

definition generate_sequence :: "int \<Rightarrow> int \<Rightarrow> int list" where
  "generate_sequence start end = gen_sequence start end []"

lemma gen_sequence_upto: "start \<le> end \<Longrightarrow> gen_sequence start end seq = seq @ [start..end - 1]"
proof (induction start "end" seq rule: gen_sequence.induct)
  case (1 start "end" seq)
  then show ?case
    by (cases "start = end") (simp_all add: gen_sequence.simps [of start "end"] gen_sequence.simps [of "end" "end"] upto_rec1 [of start "end - 1"])
qed

lemma generate_sequence_upto [simp]: "start \<le> end \<Longrightarrow> generate_sequence start end = [start..end - 1]"
  by (simp add: generate_sequence_def gen_sequence_upto)

lemma generate_sequence_invalid: "start > end \<Longrightarrow> generate_sequence start end = []"
  by (simp add: generate_sequence_def gen_sequence.simps [of start "end"] gen_sequence.simps [of 0 0])

section \<open>The search of the fusion\<close>

text \<open>\<open>std::get\<close> over a sequence of indices.\<close>

definition pick :: "'a list \<Rightarrow> int list \<Rightarrow> 'a list" where
  "pick args ixs = map (\<lambda>i. args ! nat i) ixs"

text \<open>The arguments of \<open>apply_function_fusion_call\<close>: the shared ones, then the selected range.\<close>

definition call_arguments :: "int \<Rightarrow> int \<times> int \<Rightarrow> 'a list \<Rightarrow> 'a list" where
  "call_arguments shared r args =
     pick args (generate_sequence 0 shared) @ pick args (generate_sequence (fst r) (snd r))"

definition is_callable :: "('f \<Rightarrow> 'a list \<Rightarrow> bool) \<Rightarrow> 'f \<Rightarrow> int \<Rightarrow> int \<Rightarrow> int \<Rightarrow> 'a list \<Rightarrow> bool" where
  "is_callable callable f shared start end args = callable f (call_arguments shared (start, end) args)"

text \<open>
  \<open>FunctionFusion\<close>: the ranges found for the functions, or \<open>None\<close> for \<open>std::false_type\<close>. \<open>ranges\<close> is
  \<open>ArgumentRanges\<close>; the processed functions are those before \<open>fs\<close>.
\<close>

function function_fusion ::
  "('f \<Rightarrow> 'a list \<Rightarrow> bool) \<Rightarrow> int \<Rightarrow> 'a list \<Rightarrow> 'f list \<Rightarrow> int \<Rightarrow> int \<Rightarrow> (int \<times> int) list \<Rightarrow> (int \<times> int) list option"
where
  "function_fusion callable shared args [] start end ranges =
     (if start = end \<and> start = int (length args) then Some ranges else None)"
| "function_fusion callable shared args (f # fs) start end ranges =
     (if start > end then None
      else if is_callable callable f shared start end args then
        (case function_fusion callable shared args fs end (int (length args)) (ranges @ [(start, end)]) of
           Some rs \<Rightarrow> Some rs
         | None \<Rightarrow> function_fusion callable shared args (f # fs) start (end - 1) ranges)
      else function_fusion callable shared args (f # fs) start (end - 1) ranges)"
  by pat_completeness auto
termination
  by (relation "measures [\<lambda>(callable, shared, args, fs, start, end, ranges). length fs,
        \<lambda>(callable, shared, args, fs, start, end, ranges). nat (end - start + 1)]") auto

declare function_fusion.simps(2) [simp del]

definition fuse_functions :: "('f \<Rightarrow> 'a list \<Rightarrow> bool) \<Rightarrow> int \<Rightarrow> 'a list \<Rightarrow> 'f list \<Rightarrow> (int \<times> int) list option" where
  "fuse_functions callable shared args fs = function_fusion callable shared args fs shared (int (length args)) []"

section \<open>Calling the fused functions\<close>

text \<open>What a wrapped function returns, as \<open>tuplify\<close> and the callers of \<open>BindFusion\<close> make a tuple of it.\<close>

datatype 'r returned = Void | One 'r | Many "'r list"

fun tuplify :: "'r returned \<Rightarrow> 'r list" where
  "tuplify Void = []"
| "tuplify (One x) = [x]"
| "tuplify (Many xs) = xs"

text \<open>
  \<open>FunctionFusionCaller::call\<close>: each function is called with the shared arguments and its range, one after the other,
  and the results are joined; an exception (\<open>Inl\<close>) leaves the later ones uncalled. The last equation is a mismatch
  that does not compile.
\<close>

fun fusion_call ::
  "('f \<Rightarrow> 'v list \<Rightarrow> 's \<Rightarrow> ('e + 'r returned) \<times> 's) \<Rightarrow> int \<Rightarrow> 'v list \<Rightarrow> 'f list \<Rightarrow> (int \<times> int) list \<Rightarrow> 's \<Rightarrow> ('e + 'r list) \<times> 's"
where
  "fusion_call call shared args [] [] s = (Inr [], s)"
| "fusion_call call shared args (f # fs) (r # rs) s =
     (case call f (call_arguments shared r args) s of
        (Inl e, s1) \<Rightarrow> (Inl e, s1)
      | (Inr x, s1) \<Rightarrow>
          (case fusion_call call shared args fs rs s1 of
             (Inl e, s2) \<Rightarrow> (Inl e, s2)
           | (Inr xs, s2) \<Rightarrow> (Inr (tuplify x @ xs), s2)))"
| "fusion_call call shared args _ _ s = (Inr [], s)"

section \<open>Words that have a method\<close>

fun do_filter :: "('w \<Rightarrow> bool) \<Rightarrow> 'w list \<Rightarrow> 'w list \<Rightarrow> 'w list" where
  "do_filter check [] found = found"
| "do_filter check (w # ws) found = (if check w then do_filter check ws (found @ [w]) else do_filter check ws found)"

text \<open>A word without the method stands for its proxy, \<open>operation::DSLProxy\<close>.\<close>

definition find_words :: "('w \<Rightarrow> bool) \<Rightarrow> ('w \<Rightarrow> 'w) \<Rightarrow> 'w list \<Rightarrow> 'w list" where
  "find_words has_method proxy ws = do_filter has_method (map (\<lambda>w. if has_method w then w else proxy w) ws) []"

lemma do_filter_eq: "do_filter check ws found = found @ filter check ws"
  by (induction check ws found rule: do_filter.induct) auto

lemma find_words_eq: "find_words h p ws = filter h (map (\<lambda>w. if h w then w else p w) ws)"
  by (simp add: find_words_def do_filter_eq)

section \<open>What the search finds\<close>

text \<open>A valid split gives each function a range, in order and without gaps from \<open>start\<close> to the last argument.\<close>

fun valid_split :: "('f \<Rightarrow> 'a list \<Rightarrow> bool) \<Rightarrow> int \<Rightarrow> 'a list \<Rightarrow> 'f list \<Rightarrow> int \<Rightarrow> (int \<times> int) list \<Rightarrow> bool" where
  "valid_split callable shared args [] start [] \<longleftrightarrow> start = int (length args)"
| "valid_split callable shared args (f # fs) start ((a, b) # rs) \<longleftrightarrow>
     a = start \<and> start \<le> b \<and> is_callable callable f shared a b args \<and> valid_split callable shared args fs b rs"
| "valid_split callable shared args _ start _ \<longleftrightarrow> False"

text \<open>The order of the search: the first range that differs is longer.\<close>

fun greedier :: "(int \<times> int) list \<Rightarrow> (int \<times> int) list \<Rightarrow> bool" where
  "greedier ((a, b) # rs) ((c, d) # ss) \<longleftrightarrow> d < b \<or> (b = d \<and> greedier rs ss)"
| "greedier _ _ \<longleftrightarrow> True"

lemma valid_split_end: "valid_split callable shared args fs start rs \<Longrightarrow> start \<le> int (length args)"
  by (induction callable shared args fs start rs rule: valid_split.induct) auto

text \<open>The search from some end on: the best split whose first range ends there or before.\<close>

definition starts_by :: "int \<Rightarrow> (int \<times> int) list \<Rightarrow> bool" where
  "starts_by end rs \<longleftrightarrow> (case rs of [] \<Rightarrow> True | r # _ \<Rightarrow> snd r \<le> end)"

lemma valid_split_starts: "valid_split callable shared args fs start rs \<Longrightarrow> starts_by (int (length args)) rs"
  by (cases fs; cases rs) (auto simp: starts_by_def dest: valid_split_end)

lemma function_fusion_spec:
  "end \<le> int (length args) \<Longrightarrow> (fs = [] \<Longrightarrow> end = int (length args)) \<Longrightarrow>
   (case function_fusion callable shared args fs start end ranges of
      None \<Rightarrow> \<forall>ss. starts_by end ss \<longrightarrow> \<not> valid_split callable shared args fs start ss
    | Some rs \<Rightarrow> \<exists>ss. rs = ranges @ ss \<and> valid_split callable shared args fs start ss \<and> starts_by end ss
        \<and> (\<forall>vs. starts_by end vs \<longrightarrow> valid_split callable shared args fs start vs \<longrightarrow> greedier ss vs))"
proof (induction callable shared args fs start "end" ranges rule: function_fusion.induct)
  case (1 callable shared args start "end" ranges)
  have "valid_split callable shared args [] start ss \<longleftrightarrow> ss = [] \<and> start = int (length args)" for ss
    by (cases ss) auto
  then show ?case using 1 by (auto simp: starts_by_def)
next
  case (2 callable shared args f fs start "end" ranges)
  let ?n = "int (length args)"
  have none: "\<not> valid_split callable shared args (f # fs) start ss" if "starts_by end ss" "start > end" for ss
    using that by (cases ss) (auto simp: starts_by_def)
  show ?case
  proof (cases "start > end")
    case True
    then show ?thesis using none by (simp add: function_fusion.simps(2))
  next
    case False
    let ?rest = "function_fusion callable shared args fs end ?n (ranges @ [(start, end)])"
    have split: "valid_split callable shared args (f # fs) start ss \<longleftrightarrow>
        (\<exists>b tl. ss = (start, b) # tl \<and> start \<le> b \<and> is_callable callable f shared start b args \<and> valid_split callable shared args fs b tl)" for ss
      by (cases ss) auto
    have less: "starts_by end ss \<and> valid_split callable shared args (f # fs) start ss \<longleftrightarrow>
        (starts_by (end - 1) ss \<and> valid_split callable shared args (f # fs) start ss)
        \<or> (\<exists>tl. ss = (start, end) # tl \<and> is_callable callable f shared start end args \<and> valid_split callable shared args fs end tl)" for ss
      using False by (auto simp: split starts_by_def)
    show ?thesis
    proof (cases "is_callable callable f shared start end args \<and> ?rest \<noteq> None")
      case True
      then obtain rs where rs: "?rest = Some rs" by auto
      note all = valid_split_starts [of callable shared args fs "end"]
      obtain tl where tl: "rs = ranges @ [(start, end)] @ tl" "valid_split callable shared args fs end tl"
        "\<forall>vs. starts_by ?n vs \<longrightarrow> valid_split callable shared args fs end vs \<longrightarrow> greedier tl vs"
        using 2(1) True False rs by auto
      have "greedier ((start, end) # tl) vs" if "starts_by end vs" "valid_split callable shared args (f # fs) start vs" for vs
        using that tl(3) all by (auto simp: split starts_by_def)
      then show ?thesis
        using True False rs tl(1,2) by (auto simp: function_fusion.simps(2) starts_by_def)
    next
      case no: False
      let ?next = "function_fusion callable shared args (f # fs) start (end - 1) ranges"
      have eq: "function_fusion callable shared args (f # fs) start end ranges = ?next"
        using False no by (auto simp: function_fusion.simps(2) [of callable shared args f fs start "end"])
      have ih: "case ?next of
          None \<Rightarrow> \<forall>ss. starts_by (end - 1) ss \<longrightarrow> \<not> valid_split callable shared args (f # fs) start ss
        | Some rs \<Rightarrow> \<exists>ss. rs = ranges @ ss \<and> valid_split callable shared args (f # fs) start ss \<and> starts_by (end - 1) ss
            \<and> (\<forall>vs. starts_by (end - 1) vs \<longrightarrow> valid_split callable shared args (f # fs) start vs \<longrightarrow> greedier ss vs)"
        using 2(2,3) 2(4) False no by (cases "is_callable callable f shared start end args") auto
      have not_here: "\<not> (is_callable callable f shared start end args \<and> valid_split callable shared args fs end tl)" for tl
      proof
        assume here: "is_callable callable f shared start end args \<and> valid_split callable shared args fs end tl"
        then have "\<forall>ss. starts_by ?n ss \<longrightarrow> \<not> valid_split callable shared args fs end ss"
          using 2(1) False no by auto
        then show False using here valid_split_starts by blast
      qed
      have "starts_by end ss \<and> valid_split callable shared args (f # fs) start ss \<longleftrightarrow>
          starts_by (end - 1) ss \<and> valid_split callable shared args (f # fs) start ss" for ss
        using less [of ss] not_here by blast
      then show ?thesis unfolding eq using ih by (auto split: option.splits)
    qed
  qed
qed

section \<open>The split of the arguments\<close>

lemma pick_range:
  assumes "a \<le> b" "b \<le> length args"
  shows "pick args (generate_sequence (int a) (int b)) = take (b - a) (drop a args)"
  using assms by (intro nth_equalityI) (auto simp: pick_def nth_upto nat_add_distrib)

lemma call_arguments_range:
  assumes "k \<le> length args" "a \<le> b" "b \<le> length args"
  shows "call_arguments (int k) (int a, int b) args = take k args @ take (b - a) (drop a args)"
  using pick_range [of 0 k args] pick_range [of a b args] assms by (simp add: call_arguments_def)

text \<open>A split of the selected arguments \<open>sel\<close>, as lists: each function can be called with its part.\<close>

definition splits :: "('f \<Rightarrow> 'a list \<Rightarrow> bool) \<Rightarrow> 'a list \<Rightarrow> 'a list \<Rightarrow> 'f list \<Rightarrow> 'a list list \<Rightarrow> bool" where
  "splits callable common sel fs parts \<longleftrightarrow>
     list_all2 (\<lambda>f p. callable f (common @ p)) fs parts \<and> concat parts = sel"

fun ranges_of :: "nat \<Rightarrow> 'a list list \<Rightarrow> (int \<times> int) list" where
  "ranges_of start [] = []"
| "ranges_of start (p # parts) = (int start, int (start + length p)) # ranges_of (start + length p) parts"

lemma valid_split_parts:
  assumes "k \<le> length args" "start \<le> length args"
  shows "valid_split callable (int k) args fs (int start) rs \<longleftrightarrow>
    (\<exists>parts. splits callable (take k args) (drop start args) fs parts \<and> rs = ranges_of start parts)"
  using assms(2)
proof (induction fs arbitrary: start rs)
  case Nil
  then show ?case by (cases rs) (auto simp: splits_def)
next
  case (Cons f fs)
  show ?case
  proof
    assume "valid_split callable (int k) args (f # fs) (int start) rs"
    then obtain b tl where rs: "rs = (int start, b) # tl" "int start \<le> b"
      "is_callable callable f (int k) (int start) b args" "valid_split callable (int k) args fs b tl"
      by (cases rs) auto
    then have "b \<le> int (length args)" using valid_split_end by blast
    define e where "e = nat b"
    have e: "b = int e" "start \<le> e" "e \<le> length args"
      using rs(2) \<open>b \<le> int (length args)\<close> unfolding e_def by linarith+
    obtain parts where parts: "splits callable (take k args) (drop e args) fs parts" "tl = ranges_of e parts"
      using Cons.IH [of e tl] rs(4) e by auto
    let ?p = "take (e - start) (drop start args)"
    have "?p @ drop e args = drop start args"
      using e append_take_drop_id [of "e - start" "drop start args"] by (simp add: add.commute)
    moreover have "callable f (take k args @ ?p)"
      using rs(3) e call_arguments_range [OF assms(1) e(2,3)] by (simp add: is_callable_def)
    moreover have "length ?p = e - start" using e by simp
    ultimately show "\<exists>parts. splits callable (take k args) (drop start args) (f # fs) parts \<and> rs = ranges_of start parts"
      using parts rs(1) e by (intro exI [of _ "?p # parts"]) (auto simp: splits_def)
  next
    assume "\<exists>parts. splits callable (take k args) (drop start args) (f # fs) parts \<and> rs = ranges_of start parts"
    then obtain p parts where p: "callable f (take k args @ p)" "list_all2 (\<lambda>f p. callable f (take k args @ p)) fs parts"
      "p @ concat parts = drop start args" "rs = ranges_of start (p # parts)"
      by (auto simp: splits_def list_all2_Cons1)
    have "length p \<le> length (drop start args)" using p(3) by (metis length_append le_add1)
    then have len: "start + length p \<le> length args" using Cons.prems by simp
    have "take (length p) (drop start args) = p" using p(3) by (metis append_eq_conv_conj)
    then have "is_callable callable f (int k) (int start) (int (start + length p)) args"
      using p(1) call_arguments_range [OF assms(1), of start "start + length p"] len by (simp add: is_callable_def)
    moreover have "concat parts = drop (start + length p) args"
      using p(3) by (metis append_eq_conv_conj drop_drop add.commute)
    then have "valid_split callable (int k) args fs (int (start + length p)) (ranges_of (start + length p) parts)"
      using Cons.IH [OF len, of "ranges_of (start + length p) parts"] p(2) by (auto simp: splits_def)
    ultimately show "valid_split callable (int k) args (f # fs) (int start) rs" using p(4) by simp
  qed
qed

lemma greedier_ranges:
  "greedier (ranges_of start ps) (ranges_of start qs) \<Longrightarrow> length ps = length qs \<Longrightarrow> concat ps = concat qs \<Longrightarrow>
   ps = qs \<or> (\<exists>i < length ps. take i ps = take i qs \<and> length (qs ! i) < length (ps ! i))"
proof (induction ps arbitrary: start qs)
  case (Cons p ps)
  then obtain q qs' where qs: "qs = q # qs'" by (cases qs) auto
  show ?case
  proof (cases "length q < length p")
    case True
    then show ?thesis using qs by (intro disjI2 exI [of _ 0]) simp
  next
    case False
    then have len: "length p = length q" "greedier (ranges_of (start + length p) ps) (ranges_of (start + length p) qs')"
      using Cons.prems(1) qs by auto
    then have "p = q" "concat ps = concat qs'" using Cons.prems(3) qs by auto
    with len Cons.prems(2) qs consider "ps = qs'"
      | i where "i < length ps" "take i ps = take i qs'" "length (qs' ! i) < length (ps ! i)"
      using Cons.IH by auto
    then show ?thesis
    proof cases
      case 1
      then show ?thesis using qs \<open>p = q\<close> by simp
    next
      case (2 i)
      then show ?thesis using qs \<open>p = q\<close> by (intro disjI2 exI [of _ "Suc i"]) simp
    qed
  qed
qed simp

text \<open>A call that only notes which function was called with what.\<close>

definition note_call :: "'f \<Rightarrow> 'a list \<Rightarrow> ('f \<times> 'a list) list \<Rightarrow> (unit + unit returned) \<times> ('f \<times> 'a list) list" where
  "note_call f as log = (Inr Void, log @ [(f, as)])"

lemma fusion_call_parts:
  "k \<le> length args \<Longrightarrow> start \<le> length args \<Longrightarrow> length fs = length parts \<Longrightarrow> concat parts = drop start args \<Longrightarrow>
   fusion_call note_call (int k) args fs (ranges_of start parts) log = (Inr [], log @ zip fs (map (\<lambda>p. take k args @ p) parts))"
proof (induction fs arbitrary: start parts log)
  case (Cons f fs)
  then obtain p ps where parts: "parts = p # ps" by (cases parts) auto
  then have all: "p @ concat ps = drop start args" using Cons.prems(4) by simp
  have "length p \<le> length (drop start args)" using all by (metis length_append le_add1)
  then have len: "start + length p \<le> length args" using Cons.prems(2) by simp
  have p: "take (length p) (drop start args) = p" and ps: "concat ps = drop (start + length p) args"
    using all by (metis append_eq_conv_conj, metis append_eq_conv_conj drop_drop add.commute)
  have "call_arguments (int k) (int start, int start + int (length p)) args = take k args @ p"
    using call_arguments_range [OF Cons.prems(1), of start "start + length p"] len p by simp
  then show ?case
    using Cons.IH [OF Cons.prems(1) len, of ps] Cons.prems(3) ps parts by (simp add: note_call_def)
qed simp

text \<open>
  C10. The fusion gives every word its arguments. A sentence is accepted exactly if the arguments after the shared ones
  can be cut into consecutive parts, one for each word, with which the words can be called; then each word is called
  once, in order, with the shared arguments and its part, so no argument is passed twice or dropped. Among the possible
  cuts the one taken gives the first word that differs the longer part.
\<close>

theorem fusion_splits_arguments:
  assumes "k \<le> length args"
  shows "case fuse_functions callable (int k) args fs of
      None \<Rightarrow> \<not> (\<exists>parts. splits callable (take k args) (drop k args) fs parts)
    | Some rs \<Rightarrow> \<exists>parts. splits callable (take k args) (drop k args) fs parts
        \<and> fusion_call note_call (int k) args fs rs [] = (Inr [], zip fs (map (\<lambda>p. take k args @ p) parts))
        \<and> (\<forall>others. splits callable (take k args) (drop k args) fs others \<longrightarrow> others = parts
             \<or> (\<exists>i < length fs. take i parts = take i others \<and> length (others ! i) < length (parts ! i)))"
proof -
  note parts = valid_split_parts [OF assms assms, of callable fs]
  have spec: "case fuse_functions callable (int k) args fs of
      None \<Rightarrow> \<forall>ss. \<not> valid_split callable (int k) args fs (int k) ss
    | Some rs \<Rightarrow> valid_split callable (int k) args fs (int k) rs
        \<and> (\<forall>vs. valid_split callable (int k) args fs (int k) vs \<longrightarrow> greedier rs vs)"
    using function_fusion_spec [of "int (length args)" args fs callable "int k" "int k" "[]"]
      valid_split_starts [of callable "int k" args fs "int k"]
    by (auto simp: fuse_functions_def split: option.splits)
  show ?thesis
  proof (cases "fuse_functions callable (int k) args fs")
    case None
    then show ?thesis using spec parts by auto
  next
    case (Some rs)
    then obtain ps where ps: "splits callable (take k args) (drop k args) fs ps" "rs = ranges_of k ps"
      and best: "\<And>vs. splits callable (take k args) (drop k args) fs vs \<Longrightarrow> greedier (ranges_of k ps) (ranges_of k vs)"
      using spec parts by auto
    have same: "length vs = length fs" "concat vs = drop k args" if "splits callable (take k args) (drop k args) fs vs" for vs
      using that by (auto simp: splits_def dest: list_all2_lengthD)
    have "fusion_call note_call (int k) args fs rs [] = (Inr [], zip fs (map (\<lambda>p. take k args @ p) ps))"
      using fusion_call_parts [OF assms assms, of fs ps "[]"] same [OF ps(1)] ps(2) by simp
    moreover have "others = ps \<or> (\<exists>i < length fs. take i ps = take i others \<and> length (others ! i) < length (ps ! i))"
      if "splits callable (take k args) (drop k args) fs others" for others
      using greedier_ranges [OF best [OF that]] same [OF that] same [OF ps(1)] by auto
    ultimately show ?thesis using Some ps(1) by auto
  qed
qed

text \<open>
  \<open>on<Trigger<T>, UDP::Multicast, IO>("g", 4, 7, 1)\<close> with the reaction in front: the multicast word could take three,
  but then \<open>IO\<close> would lack one of its two.
\<close>

definition example_callable :: "nat \<Rightarrow> nat list \<Rightarrow> bool" where
  "example_callable w as = (case w of 0 \<Rightarrow> length as = 1 | Suc 0 \<Rightarrow> 2 \<le> length as \<and> length as \<le> 4 | _ \<Rightarrow> length as = 3)"

theorem fusion_splits_arguments_witness:
  "fusion_call note_call 1 [9, 5, 4, 7, 1 :: nat] [0, 1, 2 :: nat] [(1, 1), (1, 3), (3, 5)] []
     = (Inr [], [(0, [9]), (1, [9, 5, 4]), (2, [9, 7, 1])])
   \<and> fuse_functions example_callable 1 [9, 5, 4, 7, 1] [0, 1, 2] = Some [(1, 1), (1, 3), (3, 5)]
   \<and> (\<exists>parts. splits example_callable [9] [5, 4, 7, 1] [0, 1, 2] parts)"
proof -
  have found: "fuse_functions example_callable 1 [9, 5, 4, 7, 1] [0, 1, 2] = Some [(1, 1), (1, 3), (3, 5)]"
    by code_simp
  moreover have "fusion_call note_call 1 [9, 5, 4, 7, 1 :: nat] [0, 1, 2 :: nat] [(1, 1), (1, 3), (3, 5)] []
     = (Inr [], [(0, [9]), (1, [9, 5, 4]), (2, [9, 7, 1])])"
    by code_simp
  ultimately show ?thesis
    using fusion_splits_arguments [of 1 "[9, 5, 4, 7, 1]" example_callable "[0, 1, 2]"] by auto
qed

section \<open>The arguments of the callback\<close>

text \<open>
  \<open>RelevantArguments\<close>: the positions in the data of the words that become the parameters of the callback. \<open>None\<close> is the
  failed \<open>static_assert\<close>.
\<close>

fun relevant_arguments :: "('a \<Rightarrow> 'p \<Rightarrow> bool) \<Rightarrow> 'p list \<Rightarrow> 'a list \<Rightarrow> nat list \<Rightarrow> nat \<Rightarrow> nat list option" where
  "relevant_arguments convertible [] available used index = Some used"
| "relevant_arguments convertible (r # rs) [] used index = None"
| "relevant_arguments convertible (r # rs) (a # as) used index =
     (if convertible a r then relevant_arguments convertible rs as (used @ [index]) (index + 1)
      else relevant_arguments convertible (r # rs) as used (index + 1))"

text \<open>\<open>apply_relevant\<close> calls the function with the data at these positions.\<close>

definition apply_relevant :: "('a \<Rightarrow> 'p \<Rightarrow> bool) \<Rightarrow> 'p list \<Rightarrow> ('a list \<Rightarrow> 'r) \<Rightarrow> 'a list \<Rightarrow> 'r option" where
  "apply_relevant convertible required f data =
     map_option (\<lambda>ixs. f (map (\<lambda>i. data ! i) ixs)) (relevant_arguments convertible required data [] 0)"

text \<open>\<open>ExtractTransient\<close>: the transient elements of the data and their positions.\<close>

fun extract_transient :: "('d \<Rightarrow> bool) \<Rightarrow> 'd list \<Rightarrow> nat \<Rightarrow> 'd list \<Rightarrow> nat list \<Rightarrow> 'd list \<times> nat list" where
  "extract_transient is_transient [] index output indices = (output, indices)"
| "extract_transient is_transient (d # ds) index output indices =
     (if is_transient d then extract_transient is_transient ds (index + 1) (output @ [d]) (indices @ [index])
      else extract_transient is_transient ds (index + 1) output indices)"

lemma extract_transient_positions:
  "extract_transient T ds n out ixs = (out @ filter T ds, ixs @ filter (\<lambda>i. T (ds ! (i - n))) [n..<n + length ds])"
proof (induction T ds n out ixs rule: extract_transient.induct)
  case (2 T d ds n out ixs)
  have "[n..<n + length (d # ds)] = n # [Suc n..<Suc n + length ds]" by (simp add: upt_rec)
  moreover have "filter (\<lambda>i. T ((d # ds) ! (i - n))) [Suc n..<Suc n + length ds] = filter (\<lambda>i. T (ds ! (i - Suc n))) [Suc n..<Suc n + length ds]"
    by (rule filter_cong) (auto simp: nth_Cons' Suc_diff_Suc)
  ultimately show ?case using 2 by simp
qed simp

text \<open>An order-preserving choice of positions that can be converted to the parameters.\<close>

definition fits :: "('a \<Rightarrow> 'p \<Rightarrow> bool) \<Rightarrow> 'p list \<Rightarrow> 'a list \<Rightarrow> nat list \<Rightarrow> bool" where
  "fits convertible required available ixs \<longleftrightarrow>
     sorted_wrt (<) ixs \<and> list_all2 (\<lambda>r i. i < length available \<and> convertible (available ! i) r) required ixs"

lemma fits_Nil [simp]: "fits conv [] as ixs \<longleftrightarrow> ixs = []"
  by (auto simp: fits_def)

lemma fits_empty [simp]: "fits conv (r # rs) [] ixs \<longleftrightarrow> False"
  by (auto simp: fits_def list_all2_Cons1)

lemma fits_here: "fits conv (r # rs) (a # as) (0 # map Suc ixs) \<longleftrightarrow> conv a r \<and> fits conv rs as ixs"
  by (auto simp: fits_def sorted_wrt_map list_all2_map2)

lemma fits_later: "rs \<noteq> [] \<Longrightarrow> fits conv rs (a # as) (map Suc ixs) \<longleftrightarrow> fits conv rs as ixs"
  by (auto simp: fits_def sorted_wrt_map list_all2_map2)

lemma positions_cases:
  assumes "sorted_wrt (<) (ixs :: nat list)" "ixs \<noteq> []"
  obtains (here) js where "ixs = 0 # map Suc js" | (later) js where "ixs = map Suc js"
proof -
  have suc: "\<exists>js. is = map Suc js" if "\<forall>i \<in> set is. 0 < i" for "is"
    using that by (intro exI [of _ "map (\<lambda>i. i - 1) is"]) (auto intro!: nth_equalityI)
  obtain i "is" where ixs: "ixs = i # is" using assms(2) by (cases ixs) auto
  show ?thesis
  proof (cases i)
    case 0
    then have "\<forall>j \<in> set is. 0 < j" using assms(1) ixs by auto
    then show ?thesis using suc [of "is"] ixs 0 that(1) by auto
  next
    case (Suc j)
    then have "\<forall>j \<in> set ixs. 0 < j" using assms(1) ixs by auto
    then show ?thesis using suc [of ixs] that(2) by auto
  qed
qed

lemma list_all2_le_trans: "list_all2 (\<le>) xs ys \<Longrightarrow> list_all2 (\<le>) ys zs \<Longrightarrow> list_all2 (\<le>) xs (zs :: nat list)"
  by (rule list_all2_trans [of "(\<le>)" "(\<le>)"]) auto

text \<open>The same search without the accumulators.\<close>

fun earliest :: "('a \<Rightarrow> 'p \<Rightarrow> bool) \<Rightarrow> 'p list \<Rightarrow> 'a list \<Rightarrow> nat list option" where
  "earliest convertible [] as = Some []"
| "earliest convertible (r # rs) [] = None"
| "earliest convertible (r # rs) (a # as) =
     (if convertible a r then map_option (\<lambda>ixs. 0 # map Suc ixs) (earliest convertible rs as)
      else map_option (map Suc) (earliest convertible (r # rs) as))"

lemma relevant_arguments_earliest:
  "relevant_arguments conv rs as used n = map_option (\<lambda>ixs. used @ map (\<lambda>i. i + n) ixs) (earliest conv rs as)"
  by (induction conv rs as used n rule: relevant_arguments.induct) (auto simp: option.map_comp comp_def)

lemma earliest_least:
  "case earliest conv rs as of
     None \<Rightarrow> \<not> (\<exists>ixs. fits conv rs as ixs)
   | Some ixs \<Rightarrow> fits conv rs as ixs \<and> (\<forall>js. fits conv rs as js \<longrightarrow> list_all2 (\<le>) ixs js)"
proof (induction conv rs as rule: earliest.induct)
  case (3 conv r rs a as)
  have ne: "js \<noteq> []" "sorted_wrt (<) js" if "fits conv (r # rs) (a # as) js" for js
    using that by (auto simp: fits_def)
  show ?case
  proof (cases "conv a r")
    case True
    note ih = 3(1) [OF True]
    have pred: "\<exists>ks. fits conv rs as ks \<and> list_all2 (\<le>) (0 # map Suc ks) js" if js: "fits conv (r # rs) (a # as) js" for js
      using ne(2,1) [OF js]
    proof (cases rule: positions_cases)
      case (here ks)
      then have "fits conv rs as ks" using js by (simp add: fits_here)
      then show ?thesis unfolding here by (intro exI [of _ ks]) (simp add: list.rel_refl)
    next
      case (later ks)
      then obtain k ks' where ks: "ks = k # ks'" using ne(1) [OF js] by (cases ks) auto
      then have "fits conv (r # rs) as (k # ks')" using js later fits_later [of "r # rs" conv a as ks] by simp
      then have "fits conv rs as ks'" by (auto simp: fits_def)
      then show ?thesis using later ks by (intro exI [of _ ks']) (simp add: list.rel_refl)
    qed
    show ?thesis
    proof (cases "earliest conv rs as")
      case None
      then show ?thesis using True ih pred by auto
    next
      case (Some ixs)
      have "list_all2 (\<le>) (0 # map Suc ixs) js" if js: "fits conv (r # rs) (a # as) js" for js
      proof -
        obtain ks where ks: "fits conv rs as ks" "list_all2 (\<le>) (0 # map Suc ks) js" using pred [OF js] by blast
        have "list_all2 (\<le>) (0 # map Suc ixs) (0 # map Suc ks)" using ih Some ks(1) by (simp add: list_all2_map1 list_all2_map2)
        then show ?thesis using ks(2) by (rule list_all2_le_trans)
      qed
      then show ?thesis using True ih Some by (simp add: fits_here)
    qed
  next
    case False
    note ih = 3(2) [OF False]
    have later: "\<exists>ks. js = map Suc ks \<and> fits conv (r # rs) as ks" if js: "fits conv (r # rs) (a # as) js" for js
      using ne(2,1) [OF js]
    proof (cases rule: positions_cases)
      case (here ks)
      then show ?thesis using js False by (simp add: fits_here)
    next
      case (later ks)
      then show ?thesis using js fits_later [of "r # rs" conv a as ks] by auto
    qed
    have "fits conv (r # rs) (a # as) (map Suc ks)" if "fits conv (r # rs) as ks" for ks
      using that fits_later [of "r # rs" conv a as ks] by simp
    then show ?thesis
      using False ih later by (cases "earliest conv (r # rs) as") (fastforce simp: list_all2_map1 list_all2_map2)+
  qed
qed auto

text \<open>
  C25. The callback gets the earliest data that fits. A callback is accepted exactly if its parameters can be taken from
  the data of the words in order, skipping data it does not want; then each parameter is the earliest element that
  leaves the parameters before it theirs, and the call passes exactly these.
\<close>

theorem callback_gets_earliest_data:
  "case relevant_arguments conv required data [] 0 of
     None \<Rightarrow> \<not> (\<exists>ixs. fits conv required data ixs) \<and> apply_relevant conv required f data = None
   | Some ixs \<Rightarrow> fits conv required data ixs \<and> (\<forall>js. fits conv required data js \<longrightarrow> list_all2 (\<le>) ixs js)
       \<and> apply_relevant conv required f data = Some (f (map ((!) data) ixs))
       \<and> length ixs = length required"
proof -
  have eq: "relevant_arguments conv required data [] 0 = earliest conv required data"
    by (simp add: relevant_arguments_earliest option.map_ident)
  have "length ixs = length required" if "fits conv required data ixs" for ixs
    using that by (auto simp: fits_def dest: list_all2_lengthD)
  then show ?thesis
    using earliest_least [of conv required data] unfolding eq apply_relevant_def by (auto split: option.splits)
qed

theorem callback_gets_earliest_data_witness:
  "relevant_arguments (\<lambda>a p. a div 10 = (p :: nat)) [2, 3] [10, 21, 22, 35 :: nat] [] 0 = Some [1, 3]
   \<and> apply_relevant (\<lambda>a p. a div 10 = (p :: nat)) [2, 3] id [10, 21, 22, 35 :: nat] = Some [21, 35]"
  using callback_gets_earliest_data [of "\<lambda>a p. a div 10 = (p :: nat)" "[2, 3]" "[10, 21, 22, 35 :: nat]" id] by simp

end
