(* ===== verification/Queue_Race.thy ===== *)
theory Queue_Race
  imports Block_Queue
begin

text \<open>
  The \<open>TaskQueue\<close> under concurrent calls: the operations of \<open>Block_Queue\<close> cut into their accesses to shared memory
  and interleaved over any number of threads. The interleaving is sequentially consistent; a weaker memory order has
  these executions and more.
\<close>

section \<open>Threads\<close>

text \<open>
  Where a thread is in \<open>enqueue\<close>: at the load of the tail, the \<open>fetch_add\<close> of \<open>write\<close>, the construction of the payload, the
  store of \<open>committed\<close>, \<open>link_next_block\<close>, the load of \<open>next\<close>, and the load and the CAS in \<open>advance_tail\<close>.
\<close>

datatype 'a enq_pc =
    EnqTail 'a
  | EnqClaim 'a nat
  | EnqStore 'a nat nat
  | EnqCommit nat nat
  | EnqLink 'a nat
  | EnqNext 'a nat
  | EnqSeeTail 'a nat nat
  | EnqMoveTail 'a nat nat

text \<open>
  Where a thread is in \<open>try_dequeue\<close>: the loads of \<open>head\<close>, \<open>write\<close>, \<open>read\<close>, \<open>consumed\<close>, \<open>next\<close> and again \<open>write\<close>; the CAS of the
  head and the retirement; the CAS of \<open>read\<close>, the wait for \<open>committed\<close>, the move out of the slot with its destruction,
  the reset of \<open>committed\<close>, the \<open>fetch_add\<close> of \<open>consumed\<close>; then \<open>try_reclaim_block\<close> with its loads, CAS and retirement.
\<close>

datatype 'a deq_pc =
    DeqHead
  | DeqSeeWrite nat
  | DeqSeeRead nat nat
  | DeqSeeConsumed nat nat
  | DeqSeeNext nat nat
  | DeqSeeWriteAgain nat
  | DeqMoveHead nat nat nat
  | DeqRetire nat
  | DeqClaim nat nat
  | DeqSpin nat nat
  | DeqTake nat nat
  | DeqClear 'a nat nat
  | DeqCount 'a nat nat
  | DeqReclaim 'a nat
  | DeqReclaimHead 'a nat
  | DeqReclaimNext 'a nat
  | DeqReclaimMove 'a nat nat
  | DeqReclaimRetire 'a nat
  | DeqDone "'a option"

datatype 'a pc = Ready | Enq "'a enq_pc" | Deq "'a deq_pc"

text \<open>One access of \<open>enqueue\<close>; \<open>None\<close> as the new place is the return.\<close>

fun enq_step ::
  "('a, 'z) qblock_scheme \<Rightarrow> 'a enq_pc \<Rightarrow> ('a, 'z) qblock_scheme qstate \<Rightarrow> 'a enq_pc option \<times> ('a, 'z) qblock_scheme qstate"
where
  "enq_step fresh (EnqTail x) q = (Some (EnqClaim x (tail q)), q)"
| "enq_step fresh (EnqClaim x b) q =
     (let i = wr (mem q b)
      in (Some (if i < BLOCK_SIZE then EnqStore x b i else EnqLink x b), upd_block b (\<lambda>k. k\<lparr>wr := Suc i\<rparr>) q))"
| "enq_step fresh (EnqStore x b i) q =
     (Some (EnqCommit b i), upd_block b (\<lambda>k. k\<lparr>storage := (storage k)(i := Some x)\<rparr>) q)"
| "enq_step fresh (EnqCommit b i) q = (None, upd_block b (\<lambda>k. k\<lparr>committed := (committed k)(i := True)\<rparr>) q)"
| "enq_step fresh (EnqLink x b) q = (Some (EnqNext x b), snd (link_next_block fresh b q))"
| "enq_step fresh (EnqNext x b) q =
     (case next_block (mem q b) of None \<Rightarrow> (Some (EnqNext x b), q) | Some n \<Rightarrow> (Some (EnqSeeTail x b n), q))"
| "enq_step fresh (EnqSeeTail x b n) q = (Some (if tail q = b then EnqMoveTail x b n else EnqTail x), q)"
| "enq_step fresh (EnqMoveTail x b n) q = (Some (EnqTail x), advance_tail b n q)"

text \<open>One access of \<open>try_dequeue\<close>.\<close>

fun deq_step :: "'a deq_pc \<Rightarrow> 'a taskq \<Rightarrow> 'a deq_pc \<times> 'a taskq" where
  "deq_step DeqHead q = (DeqSeeWrite (head q), q)"
| "deq_step (DeqSeeWrite b) q = (DeqSeeRead b (published (mem q b)), q)"
| "deq_step (DeqSeeRead b pub) q =
     (let i = rd (mem q b) in (if pub \<le> i then DeqSeeConsumed b pub else DeqClaim b i, q))"
| "deq_step (DeqSeeConsumed b pub) q = (if consumed (mem q b) < pub then DeqHead else DeqSeeNext b pub, q)"
| "deq_step (DeqSeeNext b pub) q =
     (case next_block (mem q b) of
        None \<Rightarrow> (if pub = 0 then DeqSeeWriteAgain b else DeqDone None, q)
      | Some n \<Rightarrow> (DeqMoveHead b n pub, q))"
| "deq_step (DeqSeeWriteAgain b) q = (if 0 < wr (mem q b) then DeqHead else DeqDone None, q)"
| "deq_step (DeqMoveHead b n pub) q = (if head q = b then (DeqRetire b, q\<lparr>head := n\<rparr>) else (DeqHead, q))"
| "deq_step (DeqRetire b) q = (DeqHead, retire_block b q)"
| "deq_step (DeqClaim b i) q =
     (if rd (mem q b) = i then (DeqSpin b i, upd_block b (\<lambda>k. k\<lparr>rd := Suc i\<rparr>) q) else (DeqHead, q))"
| "deq_step (DeqSpin b i) q = (if committed (mem q b) i then DeqTake b i else DeqSpin b i, q)"
| "deq_step (DeqTake b i) q =
     (case storage (mem q b) i of
        None \<Rightarrow> (DeqTake b i, q)
      | Some x \<Rightarrow> (DeqClear x b i, upd_block b (\<lambda>k. k\<lparr>storage := (storage k)(i := None)\<rparr>) q))"
| "deq_step (DeqClear x b i) q = (DeqCount x b i, upd_block b (\<lambda>k. k\<lparr>committed := (committed k)(i := False)\<rparr>) q)"
| "deq_step (DeqCount x b i) q =
     (if Suc (consumed (mem q b)) = BLOCK_SIZE then DeqReclaim x b else DeqDone (Some x),
      upd_block b (\<lambda>k. k\<lparr>consumed := Suc (consumed k)\<rparr>) q)"
| "deq_step (DeqReclaim x b) q = (if consumed (mem q b) \<noteq> BLOCK_SIZE then DeqDone (Some x) else DeqReclaimHead x b, q)"
| "deq_step (DeqReclaimHead x b) q = (if head q \<noteq> b then DeqDone (Some x) else DeqReclaimNext x b, q)"
| "deq_step (DeqReclaimNext x b) q =
     (case next_block (mem q b) of None \<Rightarrow> (DeqDone (Some x), q) | Some n \<Rightarrow> (DeqReclaimMove x b n, q))"
| "deq_step (DeqReclaimMove x b n) q =
     (if head q = b then (DeqReclaimRetire x b, q\<lparr>head := n\<rparr>) else (DeqDone (Some x), q))"
| "deq_step (DeqReclaimRetire x b) q = (DeqDone (Some x), retire_block b q)"
| "deq_step (DeqDone r) q = (DeqDone r, q)"

section \<open>Interleavings\<close>

text \<open>
  The queue, its threads, and what was given to and got from it: the items of all calls of \<open>enqueue\<close>, and the results
  of the calls of \<open>try_dequeue\<close> that returned.
\<close>

record 'a race =
  rc_queue :: "'a taskq"
  rc_threads :: nat
  rc_pc :: "nat \<Rightarrow> 'a pc"
  rc_given :: "'a list"
  rc_got :: "'a option list"

text \<open>
  A thread calls an operation, makes its next access, or has a weak CAS of \<open>read\<close> or the tail fail for no reason; a
  thread that is not in the right place does nothing.
\<close>

datatype 'a move = CallEnqueue nat 'a | CallDequeue nat | Step nat | Spurious nat

definition set_pc :: "nat \<Rightarrow> 'a pc \<Rightarrow> 'a race \<Rightarrow> 'a race" where
  "set_pc t p r = r\<lparr>rc_pc := (\<lambda>u. if u = t then p else rc_pc r u)\<rparr>"

fun step_thread :: "nat \<Rightarrow> 'a race \<Rightarrow> 'a race" where
  "step_thread t r =
     (case rc_pc r t of
        Ready \<Rightarrow> r
      | Enq p \<Rightarrow>
          (let (p', q') = enq_step taskq_block p (rc_queue r)
           in set_pc t (case p' of None \<Rightarrow> Ready | Some p' \<Rightarrow> Enq p') (r\<lparr>rc_queue := q'\<rparr>))
      | Deq (DeqDone x) \<Rightarrow> set_pc t Ready (r\<lparr>rc_got := rc_got r @ [x]\<rparr>)
      | Deq p \<Rightarrow> (let (p', q') = deq_step p (rc_queue r) in set_pc t (Deq p') (r\<lparr>rc_queue := q'\<rparr>)))"

fun race_step :: "'a move \<Rightarrow> 'a race \<Rightarrow> 'a race" where
  "race_step (CallEnqueue t x) r =
     (if t < rc_threads r \<and> rc_pc r t = Ready then set_pc t (Enq (EnqTail x)) (r\<lparr>rc_given := rc_given r @ [x]\<rparr>) else r)"
| "race_step (CallDequeue t) r =
     (if t < rc_threads r \<and> rc_pc r t = Ready then set_pc t (Deq DeqHead) r else r)"
| "race_step (Step t) r = (if t < rc_threads r then step_thread t r else r)"
| "race_step (Spurious t) r =
     (if t < rc_threads r then
        (case rc_pc r t of Deq (DeqClaim b i) \<Rightarrow> set_pc t (Deq DeqHead) r | _ \<Rightarrow> r)
      else r)"

definition new_race :: "nat \<Rightarrow> 'a race" where
  "new_race n = \<lparr>rc_queue = empty_queue taskq_block, rc_threads = n, rc_pc = (\<lambda>_. Ready), rc_given = [], rc_got = []\<rparr>"

definition race_run :: "'a move list \<Rightarrow> 'a race \<Rightarrow> 'a race" where
  "race_run ms r = fold race_step ms r"

section \<open>The invariant\<close>

text \<open>The item a thread holds, and the slot it produces into or consumes from.\<close>

fun pc_item :: "'a pc \<Rightarrow> 'a multiset" where
  "pc_item Ready = {#}"
| "pc_item (Enq (EnqTail x)) = {#x#}"
| "pc_item (Enq (EnqClaim x b)) = {#x#}"
| "pc_item (Enq (EnqStore x b i)) = {#x#}"
| "pc_item (Enq (EnqCommit b i)) = {#}"
| "pc_item (Enq (EnqLink x b)) = {#x#}"
| "pc_item (Enq (EnqNext x b)) = {#x#}"
| "pc_item (Enq (EnqSeeTail x b n)) = {#x#}"
| "pc_item (Enq (EnqMoveTail x b n)) = {#x#}"
| "pc_item (Deq (DeqClear x b i)) = {#x#}"
| "pc_item (Deq (DeqCount x b i)) = {#x#}"
| "pc_item (Deq (DeqReclaim x b)) = {#x#}"
| "pc_item (Deq (DeqReclaimHead x b)) = {#x#}"
| "pc_item (Deq (DeqReclaimNext x b)) = {#x#}"
| "pc_item (Deq (DeqReclaimMove x b n)) = {#x#}"
| "pc_item (Deq (DeqReclaimRetire x b)) = {#x#}"
| "pc_item (Deq (DeqDone (Some x))) = {#x#}"
| "pc_item (Deq _) = {#}"

fun produces :: "'a pc \<Rightarrow> (nat \<times> nat) option" where
  "produces (Enq (EnqStore x b i)) = Some (b, i)"
| "produces (Enq (EnqCommit b i)) = Some (b, i)"
| "produces _ = None"

fun consumes :: "'a pc \<Rightarrow> (nat \<times> nat) option" where
  "consumes (Deq (DeqSpin b i)) = Some (b, i)"
| "consumes (Deq (DeqTake b i)) = Some (b, i)"
| "consumes (Deq (DeqClear x b i)) = Some (b, i)"
| "consumes _ = None"

fun counts :: "'a pc \<Rightarrow> (nat \<times> nat) option" where
  "counts (Deq (DeqCount x b i)) = Some (b, i)"
| "counts p = consumes p"

text \<open>What a thread knows of the queue at its place, stable under the steps of the others.\<close>

fun pc_ok :: "'a taskq \<Rightarrow> 'a pc \<Rightarrow> bool" where
  "pc_ok q (Enq (EnqClaim x b)) \<longleftrightarrow> b < alloc q"
| "pc_ok q (Enq (EnqStore x b i)) \<longleftrightarrow>
     b < alloc q \<and> i < published (mem q b) \<and> storage (mem q b) i = None \<and> \<not> committed (mem q b) i"
| "pc_ok q (Enq (EnqCommit b i)) \<longleftrightarrow>
     b < alloc q \<and> i < published (mem q b) \<and> storage (mem q b) i \<noteq> None \<and> \<not> committed (mem q b) i"
| "pc_ok q (Enq (EnqLink x b)) \<longleftrightarrow> b < alloc q"
| "pc_ok q (Enq (EnqNext x b)) \<longleftrightarrow> Suc b < alloc q"
| "pc_ok q (Enq (EnqSeeTail x b n)) \<longleftrightarrow> n = Suc b \<and> n < alloc q"
| "pc_ok q (Enq (EnqMoveTail x b n)) \<longleftrightarrow> n = Suc b \<and> n < alloc q"
| "pc_ok q (Deq (DeqSeeWrite b)) \<longleftrightarrow> b < alloc q"
| "pc_ok q (Deq (DeqSeeRead b pub)) \<longleftrightarrow> b < alloc q \<and> pub \<le> published (mem q b)"
| "pc_ok q (Deq (DeqSeeConsumed b pub)) \<longleftrightarrow> b < alloc q \<and> pub \<le> published (mem q b)"
| "pc_ok q (Deq (DeqSeeNext b pub)) \<longleftrightarrow> b < alloc q \<and> pub \<le> consumed (mem q b)"
| "pc_ok q (Deq (DeqSeeWriteAgain b)) \<longleftrightarrow> b < alloc q"
| "pc_ok q (Deq (DeqMoveHead b n pub)) \<longleftrightarrow> n = Suc b \<and> n < alloc q \<and> pub \<le> consumed (mem q b)"
| "pc_ok q (Deq (DeqRetire b)) \<longleftrightarrow> b < alloc q"
| "pc_ok q (Deq (DeqClaim b i)) \<longleftrightarrow> b < alloc q \<and> i < published (mem q b)"
| "pc_ok q (Deq (DeqSpin b i)) \<longleftrightarrow> b < alloc q \<and> i < rd (mem q b)"
| "pc_ok q (Deq (DeqTake b i)) \<longleftrightarrow>
     b < alloc q \<and> i < rd (mem q b) \<and> committed (mem q b) i \<and> storage (mem q b) i \<noteq> None"
| "pc_ok q (Deq (DeqClear x b i)) \<longleftrightarrow>
     b < alloc q \<and> i < rd (mem q b) \<and> committed (mem q b) i \<and> storage (mem q b) i = None"
| "pc_ok q (Deq (DeqCount x b i)) \<longleftrightarrow> b < alloc q \<and> i < rd (mem q b)"
| "pc_ok q (Deq (DeqReclaim x b)) \<longleftrightarrow> b < alloc q \<and> BLOCK_SIZE \<le> consumed (mem q b)"
| "pc_ok q (Deq (DeqReclaimHead x b)) \<longleftrightarrow> b < alloc q \<and> BLOCK_SIZE \<le> consumed (mem q b)"
| "pc_ok q (Deq (DeqReclaimNext x b)) \<longleftrightarrow> b < alloc q \<and> BLOCK_SIZE \<le> consumed (mem q b)"
| "pc_ok q (Deq (DeqReclaimMove x b n)) \<longleftrightarrow> n = Suc b \<and> n < alloc q \<and> BLOCK_SIZE \<le> consumed (mem q b)"
| "pc_ok q (Deq (DeqReclaimRetire x b)) \<longleftrightarrow> b < alloc q"
| "pc_ok q _ \<longleftrightarrow> True"

definition links_ok :: "'a taskq \<Rightarrow> bool" where
  "links_ok q \<longleftrightarrow> head q < alloc q \<and> tail q < alloc q
     \<and> (\<forall>a < alloc q. next_block (mem q a) = (if Suc a = alloc q then None else Some (Suc a)))"

definition windows_ok :: "'a taskq \<Rightarrow> bool" where
  "windows_ok q \<longleftrightarrow>
     (\<forall>a < alloc q. rd (mem q a) \<le> published (mem q a)
        \<and> (\<forall>i. published (mem q a) \<le> i \<longrightarrow> storage (mem q a) i = None \<and> \<not> committed (mem q a) i))"

text \<open>No two threads have the same slot in the same role.\<close>

definition alone :: "('a pc \<Rightarrow> (nat \<times> nat) option) \<Rightarrow> (nat \<Rightarrow> 'a pc) \<Rightarrow> bool" where
  "alone f pc \<longleftrightarrow> (\<forall>t u s. f (pc t) = Some s \<and> f (pc u) = Some s \<longrightarrow> t = u)"

text \<open>A committed slot has its payload until its consumer takes it; a slot whose consumer is through is empty.\<close>

definition slots_ok :: "'a taskq \<Rightarrow> (nat \<Rightarrow> 'a pc) \<Rightarrow> bool" where
  "slots_ok q pc \<longleftrightarrow>
     (\<forall>a < alloc q. \<forall>i. committed (mem q a) i \<longrightarrow> storage (mem q a) i \<noteq> None \<or> (\<exists>t x. pc t = Deq (DeqClear x a i)))
     \<and> (\<forall>a < alloc q. \<forall>i < rd (mem q a). (\<forall>t. consumes (pc t) \<noteq> Some (a, i)) \<longrightarrow>
          storage (mem q a) i = None \<and> \<not> committed (mem q a) i \<and> (\<forall>t. produces (pc t) \<noteq> Some (a, i)))"

definition consumed_ok :: "'a taskq \<Rightarrow> (nat \<Rightarrow> 'a pc) \<Rightarrow> bool" where
  "consumed_ok q pc \<longleftrightarrow>
     (\<forall>a < alloc q. consumed (mem q a) = card {i. i < rd (mem q a) \<and> (\<forall>t. counts (pc t) \<noteq> Some (a, i))})"

definition race_inv :: "'a taskq \<Rightarrow> (nat \<Rightarrow> 'a pc) \<Rightarrow> bool" where
  "race_inv q pc \<longleftrightarrow> links_ok q \<and> windows_ok q \<and> (\<forall>t. pc_ok q (pc t)) \<and> alone produces pc \<and> alone counts pc
     \<and> slots_ok q pc \<and> consumed_ok q pc"

lemma counts_consumes: "consumes p = Some s \<Longrightarrow> counts p = Some s"
  by (cases p rule: counts.cases) auto

definition upd_pc :: "nat \<Rightarrow> 'a pc \<Rightarrow> (nat \<Rightarrow> 'a pc) \<Rightarrow> nat \<Rightarrow> 'a pc" where
  "upd_pc t p pc = (\<lambda>u. if u = t then p else pc u)"

lemma upd_pc_simps [simp]: "upd_pc t p pc t = p" "u \<noteq> t \<Longrightarrow> upd_pc t p pc u = pc u"
  by (simp_all add: upd_pc_def)

lemmas inv_parts = race_inv_def links_ok_def windows_ok_def slots_ok_def consumed_ok_def

text \<open>A step that only moves a thread between places without a slot.\<close>

lemma inv_move:
  assumes "race_inv q pc" "pc_ok q p" "produces p = produces (pc t)" "consumes p = consumes (pc t)" "counts p = counts (pc t)"
    and "\<And>x a i. pc t \<noteq> Deq (DeqClear x a i)"
  shows "race_inv q (upd_pc t p pc)"
proof -
  have same: "produces (upd_pc t p pc u) = produces (pc u)" "consumes (upd_pc t p pc u) = consumes (pc u)"
    "counts (upd_pc t p pc u) = counts (pc u)" for u
    using assms(3,4,5) by (simp_all add: upd_pc_def)
  have ok: "pc_ok q (upd_pc t p pc u)" for u
    using assms(1,2) by (simp add: race_inv_def upd_pc_def)
  have clear: "(\<exists>u x. upd_pc t p pc u = Deq (DeqClear x a i)) \<longleftrightarrow> (\<exists>u x. pc u = Deq (DeqClear x a i))
      \<or> (\<exists>x. p = Deq (DeqClear x a i))" for a i
    using assms(6) unfolding upd_pc_def by metis
  show ?thesis
    using assms(1) ok unfolding race_inv_def slots_ok_def consumed_ok_def alone_def same clear by blast
qed

text \<open>How a step may change the queue for the others: counters grow, and only the slot \<open>s\<close> changes.\<close>

fun takes :: "'a pc \<Rightarrow> (nat \<times> nat) option" where
  "takes (Deq (DeqTake b i)) = Some (b, i)"
| "takes (Deq (DeqClear x b i)) = Some (b, i)"
| "takes _ = None"

definition disturbs :: "nat \<times> nat \<Rightarrow> 'a taskq \<Rightarrow> 'a taskq \<Rightarrow> bool" where
  "disturbs s q q' \<longleftrightarrow> alloc q \<le> alloc q'
     \<and> (\<forall>a < alloc q. published (mem q a) \<le> published (mem q' a) \<and> rd (mem q a) \<le> rd (mem q' a)
          \<and> consumed (mem q a) \<le> consumed (mem q' a)
          \<and> (\<forall>i. (a, i) \<noteq> s \<longrightarrow> storage (mem q' a) i = storage (mem q a) i \<and> committed (mem q' a) i = committed (mem q a) i))"

lemma pc_ok_stable:
  assumes "disturbs s q q'" "pc_ok q p" "produces p \<noteq> Some s" "takes p \<noteq> Some s"
  shows "pc_ok q' p"
proof -
  have d: "alloc q \<le> alloc q'"
    "\<And>a n. a < alloc q \<Longrightarrow> n < published (mem q a) \<Longrightarrow> n < published (mem q' a)"
    "\<And>a n. a < alloc q \<Longrightarrow> n \<le> published (mem q a) \<Longrightarrow> n \<le> published (mem q' a)"
    "\<And>a n. a < alloc q \<Longrightarrow> n < rd (mem q a) \<Longrightarrow> n < rd (mem q' a)"
    "\<And>a n. a < alloc q \<Longrightarrow> n \<le> consumed (mem q a) \<Longrightarrow> n \<le> consumed (mem q' a)"
    "\<And>a i. a < alloc q \<Longrightarrow> (a, i) \<noteq> s \<Longrightarrow> storage (mem q' a) i = storage (mem q a) i"
    "\<And>a i. a < alloc q \<Longrightarrow> (a, i) \<noteq> s \<Longrightarrow> committed (mem q' a) i = committed (mem q a) i"
    using assms(1) unfolding disturbs_def by (meson less_le_trans le_trans)+
  show ?thesis
  proof (cases p)
    case (Enq e)
    then show ?thesis using assms(2-4) d by (cases e) auto
  next
    case (Deq e)
    then show ?thesis using assms(2-4) d by (cases e) auto
  qed simp
qed

lemma takes_consumes: "takes p = Some s \<Longrightarrow> consumes p = Some s"
  by (cases p rule: takes.cases) auto

text \<open>The parts of a step: the places of the other threads stay right.\<close>

lemma places_ok:
  assumes "race_inv q pc" "disturbs s q q'" "pc_ok q' p"
    and "\<And>u. u \<noteq> t \<Longrightarrow> produces (pc u) \<noteq> Some s \<and> takes (pc u) \<noteq> Some s"
  shows "pc_ok q' (upd_pc t p pc u)"
  using assms pc_ok_stable [OF assms(2), of "pc u"] by (cases "u = t") (auto simp: race_inv_def)

lemma alone_upd:
  assumes "alone f pc" "\<And>s u. f p = Some s \<Longrightarrow> u \<noteq> t \<Longrightarrow> f (pc u) \<noteq> Some s"
  shows "alone f (upd_pc t p pc)"
  using assms unfolding alone_def upd_pc_def by (metis (full_types))

lemma aloneD: "alone f pc \<Longrightarrow> f (pc t) = Some s \<Longrightarrow> u \<noteq> t \<Longrightarrow> f (pc u) \<noteq> Some s"
  by (auto simp: alone_def)

lemma pc_ok_cong: "mem q' = mem q \<Longrightarrow> alloc q' = alloc q \<Longrightarrow> pc_ok q' p = pc_ok q p"
  by (cases "(q, p)" rule: pc_ok.cases) auto

lemma inv_pointers:
  assumes "race_inv q pc" "mem q' = mem q" "alloc q' = alloc q" "head q' < alloc q" "tail q' < alloc q"
  shows "race_inv q' pc"
  using assms pc_ok_cong [OF assms(2,3)]
  by (auto simp: race_inv_def links_ok_def windows_ok_def slots_ok_def consumed_ok_def)

lemma inv_places:
  assumes "race_inv q pc"
  shows "pc_ok q (pc t)" "alone produces pc" "alone counts pc" "links_ok q" "windows_ok q"
  using assms by (simp_all add: race_inv_def)

text \<open>The claim of a slot by a producer.\<close>

lemma inv_claim:
  assumes inv: "race_inv q pc" and t: "pc t = Enq (EnqClaim x b)"
  defines "i \<equiv> wr (mem q b)"
  defines "q' \<equiv> upd_block b (\<lambda>k. k\<lparr>wr := Suc i\<rparr>) q"
  defines "p \<equiv> Enq (if i < BLOCK_SIZE then EnqStore x b i else EnqLink x b)"
  shows "race_inv q' (upd_pc t p pc)"
proof -
  have same [simp]: "storage (mem q' a) = storage (mem q a)" "committed (mem q' a) = committed (mem q a)"
    "rd (mem q' a) = rd (mem q a)" "consumed (mem q' a) = consumed (mem q a)" "next_block (mem q' a) = next_block (mem q a)"
    "alloc q' = alloc q" "head q' = head q" "tail q' = tail q" for a
    by (simp_all add: q'_def upd_block_def)
  have pub: "published (mem q a) \<le> published (mem q' a)" for a
    by (auto simp: published_def i_def min_def q'_def upd_block_def)
  have now: "i < published (mem q' b)" "i = published (mem q b)" if "i < BLOCK_SIZE"
    using that by (simp_all add: published_def i_def q'_def upd_block_def)
  have role [simp]: "consumes p = None" "counts p = None" "takes p = None"
    "produces p = (if i < BLOCK_SIZE then Some (b, i) else None)"
    by (simp_all add: p_def)
  have b: "b < alloc q" using inv_places(1) [OF inv, of t] t by simp
  have rd: "rd (mem q a) \<le> published (mem q a)" if "a < alloc q" for a
    using inv_places(5) [OF inv] that by (simp add: windows_ok_def)
  have free: "storage (mem q b) i = None \<and> \<not> committed (mem q b) i" if "i < BLOCK_SIZE"
    using inv_places(5) [OF inv] b now(2) [OF that] by (simp add: windows_ok_def)
  have dist: "disturbs (b, BLOCK_SIZE) q q'" using pub by (simp add: disturbs_def)
  have other: "produces (pc u) \<noteq> Some (b, j) \<and> takes (pc u) \<noteq> Some (b, j)" if "published (mem q b) \<le> j" for u j
    using inv_places(1) [OF inv, of u] that rd [OF b]
    by (cases "pc u"; cases rule: produces.cases [of "pc u"]; cases rule: takes.cases [of "pc u"]) auto
  have ok: "pc_ok q' (upd_pc t p pc u)" for u
  proof (rule places_ok [OF inv dist])
    show "pc_ok q' p" using b free now by (simp add: p_def)
  qed (use other [of BLOCK_SIZE] in \<open>simp add: published_def\<close>)
  have windows: "windows_ok q'"
    using inv_places(5) [OF inv] pub unfolding windows_ok_def same by (meson le_trans)
  have cons: "consumes (upd_pc t p pc u) = consumes (pc u)" "counts (upd_pc t p pc u) = counts (pc u)" for u
    using t by (simp_all add: upd_pc_def)
  have clear: "upd_pc t p pc u = Deq (DeqClear y a j) \<longleftrightarrow> pc u = Deq (DeqClear y a j)" for u y a j
    using t by (simp add: upd_pc_def p_def)
  have prod: "produces (upd_pc t p pc u) \<noteq> Some (a, j)"
    if "j < rd (mem q a)" "produces (pc u) \<noteq> Some (a, j)" "a < alloc q" for u a j
    using that rd [OF that(3)] now(2) by (auto simp: upd_pc_def)
  have "slots_ok q' (upd_pc t p pc)"
    using inv prod unfolding race_inv_def slots_ok_def cons clear same by blast
  moreover have "consumed_ok q' (upd_pc t p pc)"
    using inv unfolding race_inv_def consumed_ok_def cons same by simp
  moreover have "alone counts (upd_pc t p pc)"
    using inv_places(3) [OF inv] unfolding alone_def cons .
  moreover have "alone produces (upd_pc t p pc)"
    by (rule alone_upd [OF inv_places(2) [OF inv]]) (use other [of i] now in \<open>auto split: if_splits\<close>)
  moreover have "links_ok q'"
    using inv_places(4) [OF inv] by (simp add: links_ok_def)
  ultimately show ?thesis using ok windows by (simp add: race_inv_def)
qed

lemma invI:
  assumes "links_ok q" "windows_ok q" "\<And>u. pc_ok q (pc u)" "alone produces pc" "alone counts pc" "slots_ok q pc" "consumed_ok q pc"
  shows "race_inv q pc"
  using assms by (simp add: race_inv_def)

lemma slots_okD:
  assumes "slots_ok q pc" "a < alloc q"
  shows "committed (mem q a) i \<Longrightarrow> storage (mem q a) i \<noteq> None \<or> (\<exists>t x. pc t = Deq (DeqClear x a i))"
    and "i < rd (mem q a) \<Longrightarrow> (\<And>t. consumes (pc t) \<noteq> Some (a, i)) \<Longrightarrow>
      storage (mem q a) i = None \<and> \<not> committed (mem q a) i \<and> (\<forall>t. produces (pc t) \<noteq> Some (a, i))"
  using assms by (simp_all add: slots_ok_def)

lemma race_inv_slots: "race_inv q pc \<Longrightarrow> slots_ok q pc"
  by (simp add: race_inv_def)

lemma producer_uncommitted: "race_inv q pc \<Longrightarrow> produces (pc u) = Some (b, i) \<Longrightarrow> \<not> committed (mem q b) i"
  using inv_places(1) [of q pc u] by (cases "pc u" rule: produces.cases) auto

lemma taker_committed: "race_inv q pc \<Longrightarrow> takes (pc u) = Some (b, i) \<Longrightarrow> committed (mem q b) i"
  using inv_places(1) [of q pc u] by (cases "pc u" rule: takes.cases) auto

lemma counter_below: "race_inv q pc \<Longrightarrow> counts (pc u) = Some (b, i) \<Longrightarrow> i < rd (mem q b)"
  using inv_places(1) [of q pc u] by (cases "pc u" rule: counts.cases; cases "pc u" rule: consumes.cases) auto

text \<open>A change of slot \<open>i\<close> of block \<open>b\<close> only.\<close>

lemma inv_slot:
  assumes inv: "race_inv q pc"
    and same: "\<And>k. wr (f k) = wr k" "\<And>k. rd (f k) = rd k" "\<And>k. consumed (f k) = consumed k" "\<And>k. next_block (f k) = next_block k"
      "\<And>k j. j \<noteq> i \<Longrightarrow> storage (f k) j = storage k j" "\<And>k j. j \<noteq> i \<Longrightarrow> committed (f k) j = committed k j"
    and q': "q' = upd_block b f q"
    and b: "b < alloc q" "i < published (mem q b)"
    and others: "\<And>u. u \<noteq> t \<Longrightarrow> produces (pc u) \<noteq> Some (b, i) \<and> takes (pc u) \<noteq> Some (b, i)"
    and ok: "pc_ok q' p" and alone: "alone produces (upd_pc t p pc)" and counts: "counts p = counts (pc t)"
    and slots: "slots_ok q' (upd_pc t p pc)"
  shows "race_inv q' (upd_pc t p pc)"
proof (rule invI)
  have fields [simp]: "wr (mem q' a) = wr (mem q a)" "rd (mem q' a) = rd (mem q a)" "consumed (mem q' a) = consumed (mem q a)"
    "next_block (mem q' a) = next_block (mem q a)" "alloc q' = alloc q" "head q' = head q" "tail q' = tail q" for a
    by (simp_all add: q' upd_block_def same)
  have slot [simp]: "(a, j) \<noteq> (b, i) \<Longrightarrow> storage (mem q' a) j = storage (mem q a) j"
    "(a, j) \<noteq> (b, i) \<Longrightarrow> committed (mem q' a) j = committed (mem q a) j" for a j
    by (auto simp: q' upd_block_def same)
  have pub [simp]: "published (mem q' a) = published (mem q a)" for a by (simp add: published_def)
  have "disturbs (b, i) q q'" unfolding disturbs_def by simp
  then show "pc_ok q' (upd_pc t p pc u)" for u
    using places_ok [OF inv _ ok] others by blast
  show "links_ok q'" using inv_places(4) [OF inv] by (simp add: links_ok_def)
  show "windows_ok q'"
    using inv_places(5) [OF inv] b(2) unfolding windows_ok_def pub fields
    by (metis slot leD prod.inject)
  have cons: "counts (upd_pc t p pc u) = counts (pc u)" for u using counts by (simp add: upd_pc_def)
  show "alone counts (upd_pc t p pc)" using inv_places(3) [OF inv] unfolding alone_def cons .
  show "consumed_ok q' (upd_pc t p pc)" using inv unfolding race_inv_def consumed_ok_def cons by simp
qed (use alone slots in simp_all)

lemma inv_store:
  assumes inv: "race_inv q pc" and t: "pc t = Enq (EnqStore x b i)"
  shows "race_inv (upd_block b (\<lambda>k. k\<lparr>storage := (storage k)(i := Some x)\<rparr>) q) (upd_pc t (Enq (EnqCommit b i)) pc)" (is "race_inv ?q _")
proof (rule inv_slot [OF inv _ _ _ _ _ _ refl])
  let ?p = "Enq (EnqCommit b i) :: 'a pc"
  have ok: "b < alloc q" "i < published (mem q b)" "\<not> committed (mem q b) i" using inv_places(1) [OF inv, of t] t by auto
  show "b < alloc q" "i < published (mem q b)" by fact+
  have mine: "produces (pc t) = Some (b, i)" by (simp add: t)
  show "produces (pc u) \<noteq> Some (b, i) \<and> takes (pc u) \<noteq> Some (b, i)" if "u \<noteq> t" for u
    using aloneD [OF inv_places(2) [OF inv] mine that] taker_committed [OF inv, of u b i] ok(3) by blast
  show "pc_ok ?q ?p" using ok by (simp add: upd_block_def published_def)
  have prod: "produces (upd_pc t ?p pc u) = produces (pc u)" "consumes (upd_pc t ?p pc u) = consumes (pc u)" for u
    by (simp_all add: upd_pc_def t)
  show "alone produces (upd_pc t ?p pc)" using inv_places(2) [OF inv] unfolding alone_def prod .
  have clear: "upd_pc t ?p pc u = Deq (DeqClear y a j) \<longleftrightarrow> pc u = Deq (DeqClear y a j)" for u y a j
    by (simp add: upd_pc_def t)
  show "slots_ok ?q (upd_pc t ?p pc)"
    unfolding slots_ok_def prod clear
  proof (intro conjI allI impI)
    fix a j assume a: "a < alloc ?q" "committed (mem ?q a) j"
    then show "storage (mem ?q a) j \<noteq> None \<or> (\<exists>t x. pc t = Deq (DeqClear x a j))"
      using slots_okD(1) [OF race_inv_slots [OF inv], of a j] by (auto simp: upd_block_def split: if_splits)
  next
    fix a j assume a: "a < alloc ?q" "j < rd (mem ?q a)" "\<forall>t. consumes (pc t) \<noteq> Some (a, j)"
    then have old: "storage (mem q a) j = None \<and> \<not> committed (mem q a) j \<and> (\<forall>t. produces (pc t) \<noteq> Some (a, j))"
      using slots_okD(2) [OF race_inv_slots [OF inv], of a j] by (auto simp: upd_block_def split: if_splits)
    then have "(a, j) \<noteq> (b, i)" using mine by auto
    then show "storage (mem ?q a) j = None" "\<not> committed (mem ?q a) j" "\<And>t. produces (pc t) \<noteq> Some (a, j)"
      using old by (auto simp: upd_block_def)
  qed
qed (simp_all add: t)

lemma inv_commit:
  assumes inv: "race_inv q pc" and t: "pc t = Enq (EnqCommit b i)"
  shows "race_inv (upd_block b (\<lambda>k. k\<lparr>committed := (committed k)(i := True)\<rparr>) q) (upd_pc t Ready pc)" (is "race_inv ?q _")
proof (rule inv_slot [OF inv _ _ _ _ _ _ refl])
  have ok: "b < alloc q" "i < published (mem q b)" "\<not> committed (mem q b) i" "storage (mem q b) i \<noteq> None"
    using inv_places(1) [OF inv, of t] t by auto
  show "b < alloc q" "i < published (mem q b)" by fact+
  have mine: "produces (pc t) = Some (b, i)" by (simp add: t)
  show "produces (pc u) \<noteq> Some (b, i) \<and> takes (pc u) \<noteq> Some (b, i)" if "u \<noteq> t" for u
    using aloneD [OF inv_places(2) [OF inv] mine that] taker_committed [OF inv, of u b i] ok(3) by blast
  show "alone produces (upd_pc t Ready pc)" by (rule alone_upd [OF inv_places(2) [OF inv]]) simp
  have cons: "consumes (upd_pc t Ready pc u) = consumes (pc u)" for u by (simp add: upd_pc_def t)
  have clear: "upd_pc t Ready pc u = Deq (DeqClear y a j) \<longleftrightarrow> pc u = Deq (DeqClear y a j)" for u y a j
    by (simp add: upd_pc_def t)
  show "slots_ok ?q (upd_pc t Ready pc)"
    unfolding slots_ok_def cons clear
  proof (intro conjI allI impI)
    fix a j assume a: "a < alloc ?q" "committed (mem ?q a) j"
    then show "storage (mem ?q a) j \<noteq> None \<or> (\<exists>t x. pc t = Deq (DeqClear x a j))"
      using slots_okD(1) [OF race_inv_slots [OF inv], of a j] ok(4) by (auto simp: upd_block_def split: if_splits)
  next
    fix a j assume a: "a < alloc ?q" "j < rd (mem ?q a)" "\<forall>t. consumes (pc t) \<noteq> Some (a, j)"
    then have old: "storage (mem q a) j = None \<and> \<not> committed (mem q a) j \<and> (\<forall>t. produces (pc t) \<noteq> Some (a, j))"
      using slots_okD(2) [OF race_inv_slots [OF inv], of a j] by (auto simp: upd_block_def split: if_splits)
    then have "(a, j) \<noteq> (b, i)" using mine by auto
    then show "storage (mem ?q a) j = None" "\<not> committed (mem ?q a) j" "\<And>u. produces (upd_pc t Ready pc u) \<noteq> Some (a, j)"
      using old by (auto simp: upd_block_def upd_pc_def)
  qed
qed (simp_all add: t)

lemma committed_stored:
  assumes inv: "race_inv q pc" and t: "pc t = Deq (DeqSpin b i)" and com: "committed (mem q b) i"
  shows "storage (mem q b) i \<noteq> None"
proof -
  have b: "b < alloc q" using inv_places(1) [OF inv, of t] t by simp
  have "pc u \<noteq> Deq (DeqClear x b i)" for u x
    using aloneD [OF inv_places(3) [OF inv], of t "(b, i)" u] t by (cases "u = t") auto
  then show ?thesis using slots_okD(1) [OF race_inv_slots [OF inv] b com] by auto
qed

lemma inv_take:
  assumes inv: "race_inv q pc" and t: "pc t = Deq (DeqTake b i)"
  shows "race_inv (upd_block b (\<lambda>k. k\<lparr>storage := (storage k)(i := None)\<rparr>) q) (upd_pc t (Deq (DeqClear x b i)) pc)" (is "race_inv ?q _")
proof (rule inv_slot [OF inv _ _ _ _ _ _ refl])
  let ?p = "Deq (DeqClear x b i)"
  have ok: "b < alloc q" "i < rd (mem q b)" "committed (mem q b) i" using inv_places(1) [OF inv, of t] t by auto
  show "b < alloc q" by fact
  show "i < published (mem q b)" using inv_places(5) [OF inv] ok by (auto simp: windows_ok_def)
  have mine: "counts (pc t) = Some (b, i)" by (simp add: t)
  show "produces (pc u) \<noteq> Some (b, i) \<and> takes (pc u) \<noteq> Some (b, i)" if "u \<noteq> t" for u
    using aloneD [OF inv_places(3) [OF inv] mine that] counts_consumes [OF takes_consumes, of "pc u"]
      producer_uncommitted [OF inv, of u b i] ok(3) by blast
  show "pc_ok ?q ?p" using ok by (simp add: upd_block_def)
  have role: "produces (upd_pc t ?p pc u) = produces (pc u)" "consumes (upd_pc t ?p pc u) = consumes (pc u)" for u
    by (simp_all add: upd_pc_def t)
  show "alone produces (upd_pc t ?p pc)" using inv_places(2) [OF inv] unfolding alone_def role .
  show "slots_ok ?q (upd_pc t ?p pc)"
    unfolding slots_ok_def role
  proof (intro conjI allI impI)
    fix a j assume a: "a < alloc ?q" "committed (mem ?q a) j"
    show "storage (mem ?q a) j \<noteq> None \<or> (\<exists>u y. upd_pc t ?p pc u = Deq (DeqClear y a j))"
    proof (cases "(a, j) = (b, i)")
      case False
      have "storage (mem q a) j \<noteq> None \<or> (\<exists>u y. pc u = Deq (DeqClear y a j))"
        using slots_okD(1) [OF race_inv_slots [OF inv], of a j] a by (auto simp: upd_block_def split: if_splits)
      moreover have "\<exists>u y. upd_pc t ?p pc u = Deq (DeqClear y a j)" if "pc u = Deq (DeqClear y a j)" for u y
        using that t by (intro exI [of _ u]) (auto simp: upd_pc_def)
      ultimately show ?thesis using False by (auto simp: upd_block_def)
    qed (use upd_pc_simps(1) in blast)
  next
    fix a j assume a: "a < alloc ?q" "j < rd (mem ?q a)" "\<forall>t. consumes (pc t) \<noteq> Some (a, j)"
    then have old: "storage (mem q a) j = None \<and> \<not> committed (mem q a) j \<and> (\<forall>t. produces (pc t) \<noteq> Some (a, j))"
      using slots_okD(2) [OF race_inv_slots [OF inv], of a j] by (auto simp: upd_block_def split: if_splits)
    then show "storage (mem ?q a) j = None" "\<not> committed (mem ?q a) j" "\<And>t. produces (pc t) \<noteq> Some (a, j)"
      by (auto simp: upd_block_def)
  qed
qed (simp_all add: t)

lemma inv_clear:
  assumes inv: "race_inv q pc" and t: "pc t = Deq (DeqClear x b i)"
  shows "race_inv (upd_block b (\<lambda>k. k\<lparr>committed := (committed k)(i := False)\<rparr>) q) (upd_pc t (Deq (DeqCount x b i)) pc)" (is "race_inv ?q _")
proof (rule inv_slot [OF inv _ _ _ _ _ _ refl])
  let ?p = "Deq (DeqCount x b i)"
  have ok: "b < alloc q" "i < rd (mem q b)" "committed (mem q b) i" "storage (mem q b) i = None"
    using inv_places(1) [OF inv, of t] t by auto
  show "b < alloc q" by fact
  show "i < published (mem q b)" using inv_places(5) [OF inv] ok by (auto simp: windows_ok_def)
  have mine: "counts (pc t) = Some (b, i)" by (simp add: t)
  have nobody: "produces (pc u) \<noteq> Some (b, i)" for u
    using producer_uncommitted [OF inv, of u b i] ok(3) by blast
  show "produces (pc u) \<noteq> Some (b, i) \<and> takes (pc u) \<noteq> Some (b, i)" if "u \<noteq> t" for u
    using aloneD [OF inv_places(3) [OF inv] mine that] counts_consumes [OF takes_consumes, of "pc u"] nobody by blast
  show "pc_ok ?q ?p" using ok by (simp add: upd_block_def)
  have role: "produces (upd_pc t ?p pc u) = produces (pc u)" for u by (simp add: upd_pc_def t)
  show "alone produces (upd_pc t ?p pc)" using inv_places(2) [OF inv] unfolding alone_def role .
  show "slots_ok ?q (upd_pc t ?p pc)"
    unfolding slots_ok_def role
  proof (intro conjI allI impI)
    fix a j assume a: "a < alloc ?q" "committed (mem ?q a) j"
    then have ne: "(a, j) \<noteq> (b, i)" by (auto simp: upd_block_def)
    have "storage (mem q a) j \<noteq> None \<or> (\<exists>u y. pc u = Deq (DeqClear y a j))"
      using slots_okD(1) [OF race_inv_slots [OF inv], of a j] a by (auto simp: upd_block_def split: if_splits)
    moreover have "\<exists>u y. upd_pc t ?p pc u = Deq (DeqClear y a j)" if "pc u = Deq (DeqClear y a j)" for u y
      using that t ne by (intro exI [of _ u]) (auto simp: upd_pc_def)
    ultimately show "storage (mem ?q a) j \<noteq> None \<or> (\<exists>u y. upd_pc t ?p pc u = Deq (DeqClear y a j))"
      by (auto simp: upd_block_def)
  next
    fix a j assume a: "a < alloc ?q" "j < rd (mem ?q a)" "\<forall>u. consumes (upd_pc t ?p pc u) \<noteq> Some (a, j)"
    show "storage (mem ?q a) j = None" "\<not> committed (mem ?q a) j" "\<And>u. produces (pc u) \<noteq> Some (a, j)"
    proof -
      have "storage (mem ?q a) j = None \<and> \<not> committed (mem ?q a) j \<and> (\<forall>u. produces (pc u) \<noteq> Some (a, j))"
      proof (cases "(a, j) = (b, i)")
        case True
        then show ?thesis using ok nobody by (auto simp: upd_block_def)
      next
        case False
        have "consumes (pc u) \<noteq> Some (a, j)" for u
          using a(3) False t by (cases "u = t") (auto dest: spec [of _ u])
        then have "storage (mem q a) j = None \<and> \<not> committed (mem q a) j \<and> (\<forall>u. produces (pc u) \<noteq> Some (a, j))"
          using slots_okD(2) [OF race_inv_slots [OF inv], of a j] a by (auto simp: upd_block_def split: if_splits)
        then show ?thesis using False by (auto simp: upd_block_def)
      qed
      then show "storage (mem ?q a) j = None" "\<not> committed (mem ?q a) j" "\<And>u. produces (pc u) \<noteq> Some (a, j)" by auto
    qed
  qed
qed (simp_all add: t)

lemma counted_insert:
  assumes inv: "race_inv q pc" and t: "counts (pc t) = Some (b, i)" and p: "counts p = None"
  shows "{j. j < rd (mem q b) \<and> (\<forall>u. counts (upd_pc t p pc u) \<noteq> Some (b, j))}
     = insert i {j. j < rd (mem q b) \<and> (\<forall>u. counts (pc u) \<noteq> Some (b, j))}"
proof (rule set_eqI)
  fix j
  have upd: "(\<forall>u. counts (upd_pc t p pc u) \<noteq> Some (b, j)) \<longleftrightarrow> (\<forall>u. u \<noteq> t \<longrightarrow> counts (pc u) \<noteq> Some (b, j))"
    using p by (auto simp: upd_pc_def)
  show "j \<in> {j. j < rd (mem q b) \<and> (\<forall>u. counts (upd_pc t p pc u) \<noteq> Some (b, j))} \<longleftrightarrow>
      j \<in> insert i {j. j < rd (mem q b) \<and> (\<forall>u. counts (pc u) \<noteq> Some (b, j))}"
  proof (cases "j = i")
    case True
    then show ?thesis
      using upd counter_below [OF inv t] aloneD [OF inv_places(3) [OF inv] t] by auto
  next
    case False
    then have "(\<forall>u. u \<noteq> t \<longrightarrow> counts (pc u) \<noteq> Some (b, j)) \<longleftrightarrow> (\<forall>u. counts (pc u) \<noteq> Some (b, j))"
      using t by (metis option.inject prod.inject)
    then show ?thesis using upd False by simp
  qed
qed

text \<open>The consumer that is through, the claim of a slot by a consumer, and the link of a new block.\<close>

lemma inv_count:
  assumes inv: "race_inv q pc" and t: "pc t = Deq (DeqCount x b i)"
  defines "p \<equiv> Deq (if Suc (consumed (mem q b)) = BLOCK_SIZE then DeqReclaim x b else DeqDone (Some x))"
  shows "race_inv (upd_block b (\<lambda>k. k\<lparr>consumed := Suc (consumed k)\<rparr>) q) (upd_pc t p pc)" (is "race_inv ?q _")
proof (rule invI)
  have b: "b < alloc q" using inv_places(1) [OF inv, of t] t by simp
  have fields [simp]: "wr (mem ?q a) = wr (mem q a)" "rd (mem ?q a) = rd (mem q a)" "storage (mem ?q a) = storage (mem q a)"
    "committed (mem ?q a) = committed (mem q a)" "next_block (mem ?q a) = next_block (mem q a)"
    "alloc ?q = alloc q" "head ?q = head q" "tail ?q = tail q" for a
    by (simp_all add: upd_block_def)
  have pub [simp]: "published (mem ?q a) = published (mem q a)" for a by (simp add: published_def)
  have role: "produces p = None" "consumes p = None" "counts p = None" by (simp_all add: p_def)
  have "disturbs (b, BLOCK_SIZE) q ?q" by (auto simp: disturbs_def) (simp_all add: upd_block_def)
  moreover have "pc_ok ?q p" using b by (auto simp: p_def) (simp add: upd_block_def)
  moreover have "produces (pc u) \<noteq> Some (b, BLOCK_SIZE) \<and> takes (pc u) \<noteq> Some (b, BLOCK_SIZE)" for u
  proof -
    have "rd (mem q b) \<le> published (mem q b)" "published (mem q b) \<le> BLOCK_SIZE"
      using inv_places(5) [OF inv] b by (auto simp: windows_ok_def published_def)
    then show ?thesis using inv_places(1) [OF inv, of u]
      by (cases rule: produces.cases [of "pc u"]; cases rule: takes.cases [of "pc u"]) auto
  qed
  ultimately show "pc_ok ?q (upd_pc t p pc u)" for u using places_ok [OF inv] by blast
  show "links_ok ?q" using inv_places(4) [OF inv] by (simp add: links_ok_def)
  show "windows_ok ?q" using inv_places(5) [OF inv] by (simp add: windows_ok_def)
  show "alone produces (upd_pc t p pc)" by (rule alone_upd [OF inv_places(2) [OF inv]]) (simp add: role)
  show "alone counts (upd_pc t p pc)" by (rule alone_upd [OF inv_places(3) [OF inv]]) (simp add: role)
  have same: "produces (upd_pc t p pc u) = produces (pc u)" "consumes (upd_pc t p pc u) = consumes (pc u)" for u
    by (simp_all add: upd_pc_def t role)
  have clear: "upd_pc t p pc u = Deq (DeqClear y a j) \<longleftrightarrow> pc u = Deq (DeqClear y a j)" for u y a j
    by (simp add: upd_pc_def t p_def)
  show "slots_ok ?q (upd_pc t p pc)"
    using race_inv_slots [OF inv] unfolding slots_ok_def same clear by simp
  have mine: "counts (pc t) = Some (b, i)" by (simp add: t)
  show "consumed_ok ?q (upd_pc t p pc)"
    unfolding consumed_ok_def
  proof (intro allI impI)
    fix a assume a: "a < alloc ?q"
    let ?old = "\<lambda>a. {j. j < rd (mem q a) \<and> (\<forall>u. counts (pc u) \<noteq> Some (a, j))}"
    have old: "consumed (mem q a) = card (?old a)" using inv a by (simp add: race_inv_def consumed_ok_def)
    show "consumed (mem ?q a) = card {j. j < rd (mem ?q a) \<and> (\<forall>u. counts (upd_pc t p pc u) \<noteq> Some (a, j))}"
    proof (cases "a = b")
      case True
      have "i \<notin> ?old b" using mine by auto
      then have "card (insert i (?old b)) = Suc (card (?old b))" by simp
      then show ?thesis using True old counted_insert [OF inv mine role(3)] by (simp add: upd_block_def)
    next
      case False
      then have "counts (upd_pc t p pc u) = Some (a, j) \<longleftrightarrow> counts (pc u) = Some (a, j)" for u j
        using mine role(3) by (auto simp: upd_pc_def)
      then show ?thesis using False old by (simp add: upd_block_def)
    qed
  qed
qed

lemma inv_deq_claim:
  assumes inv: "race_inv q pc" and t: "pc t = Deq (DeqClaim b i)" and i: "rd (mem q b) = i"
  defines "p \<equiv> Deq (DeqSpin b i)"
  shows "race_inv (upd_block b (\<lambda>k. k\<lparr>rd := Suc i\<rparr>) q) (upd_pc t p pc)" (is "race_inv ?q _")
proof (rule invI)
  have b: "b < alloc q" "i < published (mem q b)" using inv_places(1) [OF inv, of t] t by auto
  have fields [simp]: "wr (mem ?q a) = wr (mem q a)" "consumed (mem ?q a) = consumed (mem q a)" "storage (mem ?q a) = storage (mem q a)"
    "committed (mem ?q a) = committed (mem q a)" "next_block (mem ?q a) = next_block (mem q a)"
    "alloc ?q = alloc q" "head ?q = head q" "tail ?q = tail q" for a
    by (simp_all add: upd_block_def)
  have rd: "rd (mem ?q a) = (if a = b then Suc i else rd (mem q a))" for a by (simp add: upd_block_def)
  have pub [simp]: "published (mem ?q a) = published (mem q a)" for a by (simp add: published_def)
  have role: "produces p = None" "consumes p = Some (b, i)" "counts p = Some (b, i)" by (simp_all add: p_def)
  have "disturbs (b, BLOCK_SIZE) q ?q" using i by (auto simp: disturbs_def rd)
  moreover have "pc_ok ?q p" using b by (simp add: p_def rd)
  moreover have "produces (pc u) \<noteq> Some (b, BLOCK_SIZE) \<and> takes (pc u) \<noteq> Some (b, BLOCK_SIZE)" for u
  proof -
    have "rd (mem q b) \<le> published (mem q b)" "published (mem q b) \<le> BLOCK_SIZE"
      using inv_places(5) [OF inv] b by (auto simp: windows_ok_def published_def)
    then show ?thesis using inv_places(1) [OF inv, of u]
      by (cases rule: produces.cases [of "pc u"]; cases rule: takes.cases [of "pc u"]) auto
  qed
  ultimately show "pc_ok ?q (upd_pc t p pc u)" for u using places_ok [OF inv] by blast
  show "links_ok ?q" using inv_places(4) [OF inv] by (simp add: links_ok_def)
  show "windows_ok ?q" using inv_places(5) [OF inv] b by (simp add: windows_ok_def rd)
  have fresh: "counts (pc u) \<noteq> Some (b, i)" for u using counter_below [OF inv, of u b i] i by auto
  show "alone produces (upd_pc t p pc)" by (rule alone_upd [OF inv_places(2) [OF inv]]) (simp add: role)
  show "alone counts (upd_pc t p pc)" by (rule alone_upd [OF inv_places(3) [OF inv]]) (use fresh in \<open>auto simp: role\<close>)
  have prod: "produces (upd_pc t p pc u) = produces (pc u)" for u by (simp add: upd_pc_def t role)
  have clear: "upd_pc t p pc u = Deq (DeqClear y a j) \<longleftrightarrow> pc u = Deq (DeqClear y a j)" for u y a j
    by (simp add: upd_pc_def t p_def)
  show "slots_ok ?q (upd_pc t p pc)"
    unfolding slots_ok_def prod clear
  proof (intro conjI allI impI)
    fix a j assume a: "a < alloc ?q" "committed (mem ?q a) j"
    then show "storage (mem ?q a) j \<noteq> None \<or> (\<exists>t x. pc t = Deq (DeqClear x a j))"
      using slots_okD(1) [OF race_inv_slots [OF inv], of a j] by simp
  next
    fix a j assume a: "a < alloc ?q" "j < rd (mem ?q a)" "\<forall>u. consumes (upd_pc t p pc u) \<noteq> Some (a, j)"
    have "consumes (upd_pc t p pc t) \<noteq> Some (a, j)" using a(3) by blast
    then have "(a, j) \<noteq> (b, i)" by (auto simp: role)
    moreover have "consumes (pc u) \<noteq> Some (a, j)" for u using a(3) t by (cases "u = t") (auto dest: spec [of _ u])
    ultimately have "storage (mem q a) j = None \<and> \<not> committed (mem q a) j \<and> (\<forall>t. produces (pc t) \<noteq> Some (a, j))"
      using slots_okD(2) [OF race_inv_slots [OF inv], of a j] a(1,2) i by (auto simp: rd split: if_splits)
    then show "storage (mem ?q a) j = None" "\<not> committed (mem ?q a) j" "\<And>t. produces (pc t) \<noteq> Some (a, j)" by auto
  qed
  show "consumed_ok ?q (upd_pc t p pc)"
    unfolding consumed_ok_def
  proof (intro allI impI)
    fix a assume a: "a < alloc ?q"
    have "consumed (mem q a) = card {j. j < rd (mem q a) \<and> (\<forall>u. counts (pc u) \<noteq> Some (a, j))}"
      using inv a by (simp add: race_inv_def consumed_ok_def)
    moreover have "j < rd (mem ?q a) \<and> (\<forall>u. counts (upd_pc t p pc u) \<noteq> Some (a, j))
        \<longleftrightarrow> j < rd (mem q a) \<and> (\<forall>u. counts (pc u) \<noteq> Some (a, j))" for j
    proof -
      have "counts (upd_pc t p pc u) = (if u = t then Some (b, i) else counts (pc u))" for u
        by (simp add: upd_pc_def role)
      moreover have "counts (pc t) = None" by (simp add: t)
      ultimately have "(\<forall>u. counts (upd_pc t p pc u) \<noteq> Some (a, j)) \<longleftrightarrow> (a, j) \<noteq> (b, i) \<and> (\<forall>u. counts (pc u) \<noteq> Some (a, j))"
        by (metis option.distinct(1) option.inject)
      then show ?thesis using i by (auto simp: rd less_Suc_eq)
    qed
    ultimately show "consumed (mem ?q a) = card {j. j < rd (mem ?q a) \<and> (\<forall>u. counts (upd_pc t p pc u) \<noteq> Some (a, j))}"
      by simp
  qed
qed

lemma inv_link:
  assumes inv: "race_inv q pc" and t: "pc t = Enq (EnqLink x b)"
  shows "race_inv (snd (link_next_block taskq_block b q)) (upd_pc t (Enq (EnqNext x b)) pc)" (is "race_inv ?q _")
proof -
  let ?p = "Enq (EnqNext x b)"
  have b: "b < alloc q" using inv_places(1) [OF inv, of t] t by simp
  have links: "next_block (mem q a) = (if Suc a = alloc q then None else Some (Suc a))" if "a < alloc q" for a
    using inv_places(4) [OF inv] that by (simp add: links_ok_def)
  show ?thesis
  proof (cases "Suc b = alloc q")
    case False
    then have "?q = q" using links [OF b] by (simp add: link_next_block_def)
    moreover have "race_inv q (upd_pc t ?p pc)" by (rule inv_move [OF inv]) (use b False t in auto)
    ultimately show ?thesis by simp
  next
    case True
    define q' where "q' = ?q"
    have m: "mem q' = (mem q)(alloc q := taskq_block, b := (mem q b)\<lparr>next_block := Some (alloc q)\<rparr>)"
      "alloc q' = Suc (alloc q)" "head q' = head q" "tail q' = tail q"
      using links [OF b] True by (simp_all add: q'_def link_next_block_def)
    have old: "storage (mem q' a) = storage (mem q a)" "committed (mem q' a) = committed (mem q a)"
      "wr (mem q' a) = wr (mem q a)" "rd (mem q' a) = rd (mem q a)" "consumed (mem q' a) = consumed (mem q a)" if "a < alloc q" for a
      using that by (simp_all add: m)
    have pub: "published (mem q' a) = published (mem q a)" if "a < alloc q" for a using old [OF that] by (simp add: published_def)
    have new: "mem q' (alloc q) = taskq_block" using b by (simp add: m)
    then have empty: "storage (mem q' (alloc q)) i = None" "\<not> committed (mem q' (alloc q)) i" "rd (mem q' (alloc q)) = 0"
      "consumed (mem q' (alloc q)) = 0" "published (mem q' (alloc q)) = 0" for i
      by (simp_all add: taskq_block_def published_def)
    have below: "a < alloc q \<or> a = alloc q" if "a < alloc q'" for a using that m(2) by auto
    have same: "produces (upd_pc t ?p pc u) = produces (pc u)" "consumes (upd_pc t ?p pc u) = consumes (pc u)"
      "counts (upd_pc t ?p pc u) = counts (pc u)" for u
      by (simp_all add: upd_pc_def t)
    have clear: "upd_pc t ?p pc u = Deq (DeqClear y a j) \<longleftrightarrow> pc u = Deq (DeqClear y a j)" for u y a j
      by (simp add: upd_pc_def t)
    have dist: "disturbs (alloc q, 0) q q'" using old pub m(2) by (simp add: disturbs_def)
    have nobody: "produces (pc u) \<noteq> Some (alloc q, 0) \<and> takes (pc u) \<noteq> Some (alloc q, 0)" for u
      using inv_places(1) [OF inv, of u]
      by (cases rule: produces.cases [of "pc u"]; cases rule: takes.cases [of "pc u"]) auto
    have "race_inv q' (upd_pc t ?p pc)"
    proof (rule invI)
      have "pc_ok q' ?p" using True m(2) by simp
      then show "pc_ok q' (upd_pc t ?p pc u)" for u using places_ok [OF inv dist] nobody by blast
      show "links_ok q'"
        using inv_places(4) [OF inv] True b m by (auto simp: links_ok_def less_Suc_eq taskq_block_def)
      show "windows_ok q'"
        using inv_places(5) [OF inv] below old pub empty unfolding windows_ok_def by (metis le_zero_eq order.refl)
      show "alone produces (upd_pc t ?p pc)" "alone counts (upd_pc t ?p pc)"
        using inv_places(2,3) [OF inv] unfolding alone_def same .
      show "slots_ok q' (upd_pc t ?p pc)"
        using race_inv_slots [OF inv] below old empty unfolding slots_ok_def same clear by (metis not_less_zero)
      show "consumed_ok q' (upd_pc t ?p pc)"
        using inv below old empty unfolding race_inv_def consumed_ok_def same by fastforce
    qed
    then show ?thesis by (simp add: q'_def)
  qed
qed

section \<open>Every step keeps the invariant\<close>

lemma links_okD: "links_ok q \<Longrightarrow> a < alloc q \<Longrightarrow> next_block (mem q a) = (if Suc a = alloc q then None else Some (Suc a))"
  by (simp add: links_ok_def)

lemma consumed_le: "race_inv q pc \<Longrightarrow> b < alloc q \<Longrightarrow> consumed (mem q b) \<le> BLOCK_SIZE"
proof -
  assume inv: "race_inv q pc" and b: "b < alloc q"
  have "card {i. i < rd (mem q b) \<and> (\<forall>t. counts (pc t) \<noteq> Some (b, i))} \<le> card {..<rd (mem q b)}"
    by (rule card_mono) auto
  then show ?thesis
    using inv b inv_places(5) [OF inv] by (force simp: race_inv_def consumed_ok_def windows_ok_def published_def)
qed

lemma inv_enq:
  assumes inv: "race_inv q pc" and t: "pc t = Enq e" and step: "enq_step taskq_block e q = (e', q')"
  shows "race_inv q' (upd_pc t (case e' of None \<Rightarrow> Ready | Some e \<Rightarrow> Enq e) pc)"
proof (cases e)
  case (EnqTail x)
  have "tail q < alloc q" using inv_places(4) [OF inv] by (simp add: links_ok_def)
  then show ?thesis using step EnqTail t inv_move [OF inv, of "Enq (EnqClaim x (tail q))" t] by auto
next
  case (EnqClaim x b)
  then show ?thesis using step t inv_claim [OF inv, of t x b] by (auto simp: Let_def)
next
  case (EnqStore x b i)
  then show ?thesis using step t inv_store [OF inv, of t x b i] by auto
next
  case (EnqCommit b i)
  then show ?thesis using step t inv_commit [OF inv, of t b i] by auto
next
  case (EnqLink x b)
  then show ?thesis using step t inv_link [OF inv, of t x b] by auto
next
  case (EnqNext x b)
  then have "Suc b < alloc q" using inv_places(1) [OF inv, of t] t by simp
  then have "e' = Some (EnqSeeTail x b (Suc b))" "q' = q"
    using step EnqNext links_okD [OF inv_places(4) [OF inv], of b] by auto
  then show ?thesis using \<open>Suc b < alloc q\<close> EnqNext t inv_move [OF inv, of "Enq (EnqSeeTail x b (Suc b))" t] by auto
next
  case (EnqSeeTail x b n)
  then show ?thesis
    using step t inv_places(1) [OF inv, of t] inv_move [OF inv, of "Enq (EnqMoveTail x b n)" t] inv_move [OF inv, of "Enq (EnqTail x)" t]
    by (auto split: if_splits)
next
  case (EnqMoveTail x b n)
  then have "race_inv q (upd_pc t (Enq (EnqTail x)) pc)" using t by (auto intro!: inv_move [OF inv])
  moreover have "n < alloc q" using inv_places(1) [OF inv, of t] t EnqMoveTail by simp
  ultimately have "race_inv (advance_tail b n q) (upd_pc t (Enq (EnqTail x)) pc)"
    by (intro inv_pointers [of q "upd_pc t (Enq (EnqTail x)) pc" "advance_tail b n q"]) (use inv_places(4) [OF inv] in \<open>auto simp: advance_tail_def links_ok_def\<close>)
  then show ?thesis using step EnqMoveTail by auto
qed

lemma inv_deq:
  assumes inv: "race_inv q pc" and t: "pc t = Deq e" and step: "deq_step e q = (e', q')"
  shows "race_inv q' (upd_pc t (Deq e') pc)"
proof -
  note ok = inv_places(1) [OF inv, of t]
  have heads: "head q < alloc q" "tail q < alloc q" using inv_places(4) [OF inv] by (simp_all add: links_ok_def)
  note move = inv_move [OF inv, of "Deq e'" t]
  have at_head: "race_inv (q\<lparr>head := n\<rparr>) pc'" if "race_inv q pc'" "n < alloc q" for n pc'
    by (rule inv_pointers [OF that(1)]) (use heads that(2) in auto)
  have grave: "race_inv (retire_block b q) pc'" if "race_inv q pc'" for b pc'
    by (rule inv_pointers [OF that]) (use heads in \<open>auto simp: retire_block_def\<close>)
  show ?thesis
  proof (cases e)
    case (DeqSeeNext b pub)
    then show ?thesis using step t ok links_okD [OF inv_places(4) [OF inv], of b] move by (auto split: if_splits)
  next
    case (DeqSeeRead b pub)
    then show ?thesis using step t ok move by (auto simp: Let_def split: if_splits)
  next
    case (DeqMoveHead b n pub)
    then show ?thesis using step t ok move at_head by (auto split: if_splits)
  next
    case (DeqRetire b)
    then show ?thesis using step t ok move grave by (auto split: if_splits)
  next
    case (DeqClaim b i)
    then show ?thesis using step t ok move inv_deq_claim [OF inv, of t b i] by (auto split: if_splits)
  next
    case (DeqSpin b i)
    then show ?thesis using step t ok move committed_stored [OF inv, of t b i] by (auto split: if_splits)
  next
    case (DeqTake b i)
    then show ?thesis using step t ok inv_take [OF inv, of t b i] by auto
  next
    case (DeqClear x b i)
    then show ?thesis using step t inv_clear [OF inv, of t x b i] by auto
  next
    case (DeqCount x b i)
    then show ?thesis using step t inv_count [OF inv, of t x b i] by auto
  next
    case (DeqReclaimNext x b)
    then show ?thesis using step t ok links_okD [OF inv_places(4) [OF inv], of b] move by (auto split: if_splits)
  next
    case (DeqReclaimMove x b n)
    then show ?thesis using step t ok move at_head by (auto split: if_splits)
  next
    case (DeqReclaimRetire x b)
    then show ?thesis using step t ok move grave by (auto split: if_splits)
  qed (use step t ok heads move in \<open>auto split: if_splits\<close>)
qed

lemma rc_pc_set_pc [simp]: "rc_pc (set_pc t p r) = upd_pc t p (rc_pc r)" "rc_queue (set_pc t p r) = rc_queue r"
  "rc_threads (set_pc t p r) = rc_threads r" "rc_given (set_pc t p r) = rc_given r" "rc_got (set_pc t p r) = rc_got r"
  by (simp_all add: set_pc_def upd_pc_def)

lemma step_thread_inv:
  assumes "race_inv (rc_queue r) (rc_pc r)"
  shows "race_inv (rc_queue (step_thread t r)) (rc_pc (step_thread t r))"
proof (cases "rc_pc r t")
  case (Enq e)
  then show ?thesis using inv_enq [OF assms Enq] by (cases "enq_step taskq_block e (rc_queue r)") auto
next
  case (Deq e)
  show ?thesis
  proof (cases "\<exists>x. e = DeqDone x")
    case True
    then show ?thesis using Deq inv_move [OF assms, of Ready t] by auto
  next
    case False
    then have "step_thread t r = (let (p', q') = deq_step e (rc_queue r) in set_pc t (Deq p') (r\<lparr>rc_queue := q'\<rparr>))"
      using Deq by (cases e) auto
    then show ?thesis using inv_deq [OF assms Deq] by (cases "deq_step e (rc_queue r)") auto
  qed
qed (use assms in simp)

lemma race_step_inv:
  assumes "race_inv (rc_queue r) (rc_pc r)"
  shows "race_inv (rc_queue (race_step m r)) (rc_pc (race_step m r))"
proof (cases m)
  case (CallEnqueue t x)
  then show ?thesis using assms inv_move [OF assms, of "Enq (EnqTail x)" t] by auto
next
  case (CallDequeue t)
  then show ?thesis using assms inv_move [OF assms, of "Deq DeqHead" t] by auto
next
  case (Step t)
  then show ?thesis using assms step_thread_inv [OF assms, of t] by (simp del: step_thread.simps)
next
  case (Spurious t)
  then show ?thesis using assms inv_move [OF assms, of "Deq DeqHead" t] by (auto split: pc.split deq_pc.split)
qed

lemma new_race_inv: "race_inv (rc_queue (new_race n)) (rc_pc (new_race n))"
  by (auto simp: race_inv_def new_race_def empty_queue_def links_ok_def windows_ok_def taskq_block_def published_def alone_def
      slots_ok_def consumed_ok_def)

lemma race_run_inv: "race_inv (rc_queue (race_run ms (new_race n))) (rc_pc (race_run ms (new_race n)))"
  unfolding race_run_def
proof (induction ms rule: rev_induct)
  case Nil
  then show ?case using new_race_inv by simp
next
  case (snoc m ms)
  then show ?case using race_step_inv by simp
qed

section \<open>Nothing is duplicated, invented or read before it is written\<close>

text \<open>The items in the storage of a block, of all blocks, and with the threads.\<close>

definition slot_items :: "'a tqblock \<Rightarrow> 'a multiset" where
  "slot_items k = (\<Sum>i < BLOCK_SIZE. case storage k i of None \<Rightarrow> {#} | Some x \<Rightarrow> {#x#})"

definition stored_items :: "'a taskq \<Rightarrow> 'a multiset" where
  "stored_items q = (\<Sum>a < alloc q. slot_items (mem q a))"

definition held_items :: "nat \<Rightarrow> (nat \<Rightarrow> 'a pc) \<Rightarrow> 'a multiset" where
  "held_items n pc = (\<Sum>t < n. pc_item (pc t))"

definition got_items :: "'a option list \<Rightarrow> 'a multiset" where
  "got_items rs = mset (concat (map (\<lambda>r. case r of None \<Rightarrow> [] | Some x \<Rightarrow> [x]) rs))"

lemma held_upd: "t < n \<Longrightarrow> held_items n (upd_pc t p pc) + pc_item (pc t) = held_items n pc + pc_item p"
  unfolding held_items_def upd_pc_def by (simp add: sum.remove [of "{..<n}" t] ac_simps)

lemma sum_slot:
  assumes "i < (n :: nat)" "\<And>j. j \<noteq> i \<Longrightarrow> f j = g j"
  shows "(\<Sum>j < n. f j) + g i = (\<Sum>j < n. g j) + (f i :: 'b :: comm_monoid_add)"
proof -
  have "(\<Sum>j \<in> {..<n} - {i}. f j) = (\<Sum>j \<in> {..<n} - {i}. g j)" by (rule sum.cong) (use assms(2) in auto)
  then show ?thesis using assms(1) by (simp add: sum.remove [of "{..<n}" i] ac_simps)
qed

lemma stored_upd:
  assumes "b < alloc q"
  shows "stored_items (upd_block b f q) + slot_items (mem q b) = stored_items q + slot_items (f (mem q b))"
  using sum_slot [of b "alloc q" "\<lambda>a. slot_items (mem (upd_block b f q) a)" "\<lambda>a. slot_items (mem q a)"] assms
  by (simp add: stored_items_def upd_block_def)

lemma stored_keep: "b < alloc q \<Longrightarrow> (\<And>k. storage (f k) = storage k) \<Longrightarrow> stored_items (upd_block b f q) = stored_items q"
  using stored_upd [of b q f] by (simp add: slot_items_def)

lemma slot_items_put:
  assumes "i < BLOCK_SIZE" "storage k i = None"
  shows "slot_items (k\<lparr>storage := (storage k)(i := Some x)\<rparr>) = slot_items k + {#x#}"
  using sum_slot [of i BLOCK_SIZE "\<lambda>j. case ((storage k)(i := Some x)) j of None \<Rightarrow> {#} | Some y \<Rightarrow> {#y#}"
      "\<lambda>j. case storage k j of None \<Rightarrow> {#} | Some y \<Rightarrow> {#y#}"] assms
  by (simp add: slot_items_def)

lemma slot_items_remove:
  assumes "i < BLOCK_SIZE" "storage k i = Some x"
  shows "slot_items (k\<lparr>storage := (storage k)(i := None)\<rparr>) + {#x#} = slot_items k"
  using sum_slot [of i BLOCK_SIZE "\<lambda>j. case ((storage k)(i := None)) j of None \<Rightarrow> {#} | Some y \<Rightarrow> {#y#}"
      "\<lambda>j. case storage k j of None \<Rightarrow> {#} | Some y \<Rightarrow> {#y#}"] assms
  by (simp add: slot_items_def)

lemma enq_conserves:
  assumes inv: "race_inv q pc" and t: "pc t = Enq e" and step: "enq_step taskq_block e q = (e', q')"
  shows "pc_item (case e' of None \<Rightarrow> Ready | Some e \<Rightarrow> Enq e) + stored_items q' = pc_item (Enq e) + stored_items q"
proof (cases e)
  case (EnqClaim x b)
  then show ?thesis using step inv_places(1) [OF inv, of t] t by (auto simp: stored_keep Let_def)
next
  case (EnqStore x b i)
  then have ok: "b < alloc q" "i < published (mem q b)" "storage (mem q b) i = None"
    using inv_places(1) [OF inv, of t] t by auto
  then have "i < BLOCK_SIZE" by (simp add: published_def)
  then have "stored_items q' = stored_items q + {#x#}"
    using step EnqStore stored_upd [OF ok(1), of "\<lambda>k. k\<lparr>storage := (storage k)(i := Some x)\<rparr>"]
      slot_items_put [OF _ ok(3), of x] by auto
  then show ?thesis using step EnqStore by auto
next
  case (EnqCommit b i)
  then show ?thesis using step inv_places(1) [OF inv, of t] t by (auto simp: stored_keep)
next
  case (EnqLink x b)
  then have b: "b < alloc q" using inv_places(1) [OF inv, of t] t by simp
  have "stored_items (snd (link_next_block taskq_block b q)) = stored_items q"
  proof (cases "next_block (mem q b) = None")
    case True
    have "slot_items (mem (snd (link_next_block taskq_block b q)) a) = slot_items (mem q a)" if "a < alloc q" for a
      using True that by (auto simp: link_next_block_def slot_items_def)
    moreover have "slot_items (mem (snd (link_next_block taskq_block b q)) (alloc q)) = {#}"
      using True b by (simp add: link_next_block_def slot_items_def taskq_block_def)
    moreover have "alloc (snd (link_next_block taskq_block b q)) = Suc (alloc q)" using True by (simp add: link_next_block_def)
    ultimately show ?thesis by (simp add: stored_items_def)
  qed (auto simp: link_next_block_def Let_def)
  then show ?thesis using step EnqLink by auto
next
  case (EnqMoveTail x b n)
  then show ?thesis using step by (auto simp: advance_tail_def stored_items_def)
qed (use step in \<open>auto split: option.splits if_splits\<close>)

lemma deq_conserves:
  assumes inv: "race_inv q pc" and t: "pc t = Deq e" and step: "deq_step e q = (e', q')"
  shows "pc_item (Deq e') + stored_items q' = pc_item (Deq e) + stored_items q"
proof -
  note ok = inv_places(1) [OF inv, of t]
  have same: "stored_items (q\<lparr>head := n\<rparr>) = stored_items q" "stored_items (retire_block b q) = stored_items q" for n b
    by (simp_all add: stored_items_def retire_block_def)
  show ?thesis
  proof (cases e)
    case (DeqTake b i)
    then have ok': "b < alloc q" "i < rd (mem q b)" "storage (mem q b) i \<noteq> None" using ok t by auto
    moreover have "rd (mem q b) \<le> published (mem q b)" "published (mem q b) \<le> BLOCK_SIZE"
      using inv_places(5) [OF inv] ok'(1) by (simp_all add: windows_ok_def published_def)
    ultimately have "i < BLOCK_SIZE" by linarith
    obtain x where x: "storage (mem q b) i = Some x" using ok'(3) by auto
    let ?k = "(mem q b)\<lparr>storage := (storage (mem q b))(i := None)\<rparr>"
    have k: "slot_items ?k + {#x#} = slot_items (mem q b)" by (rule slot_items_remove [OF \<open>i < BLOCK_SIZE\<close> x])
    have q': "e' = DeqClear x b i" "q' = upd_block b (\<lambda>k. k\<lparr>storage := (storage k)(i := None)\<rparr>) q"
      using step [symmetric] x unfolding DeqTake by simp_all
    have "stored_items q' + slot_items (mem q b) = stored_items q + slot_items ?k"
      unfolding q'(2) using stored_upd [OF ok'(1), of "\<lambda>k. k\<lparr>storage := (storage k)(i := None)\<rparr>"] .
    then have "stored_items q' + {#x#} + slot_items ?k = stored_items q + slot_items ?k"
      unfolding k [symmetric] by (simp only: ac_simps)
    then have "stored_items q' + {#x#} = stored_items q" by (simp only: add_right_cancel)
    then show ?thesis unfolding q'(1) DeqTake by simp
  next
    case (DeqClear x b i)
    then show ?thesis using step ok t by (auto simp: stored_keep)
  next
    case (DeqCount x b i)
    then show ?thesis using step ok t by (auto simp: stored_keep)
  next
    case (DeqClaim b i)
    then show ?thesis using step ok t by (auto simp: stored_keep split: if_splits)
  qed (use step same in \<open>auto simp: Let_def split: option.splits if_splits\<close>)
qed

lemma held_move:
  assumes "t < n" "pc t = p" "pc_item p' + s' = pc_item p + s"
  shows "held_items n (upd_pc t p' pc) + s' = held_items n pc + s"
proof -
  have "held_items n (upd_pc t p' pc) + s' + pc_item p = held_items n pc + (pc_item p' + s')"
    using held_upd [OF assms(1), of p' pc] assms(2) by (metis add.assoc add.commute)
  also have "\<dots> = held_items n pc + s + pc_item p" unfolding assms(3) by (simp only: ac_simps)
  finally show ?thesis by (simp only: add_right_cancel)
qed

definition all_items :: "'a race \<Rightarrow> 'a multiset" where
  "all_items r = got_items (rc_got r) + (held_items (rc_threads r) (rc_pc r) + stored_items (rc_queue r))"

lemma step_thread_items:
  assumes inv: "race_inv (rc_queue r) (rc_pc r)" and t: "t < rc_threads r"
  shows "all_items (step_thread t r) = all_items r \<and> rc_given (step_thread t r) = rc_given r"
proof (cases "rc_pc r t")
  case (Enq e)
  obtain e' q' where step: "enq_step taskq_block e (rc_queue r) = (e', q')" by force
  let ?p = "case e' of None \<Rightarrow> Ready | Some e \<Rightarrow> Enq e"
  have "held_items (rc_threads r) (upd_pc t ?p (rc_pc r)) + stored_items q' = held_items (rc_threads r) (rc_pc r) + stored_items (rc_queue r)"
    by (rule held_move [of t "rc_threads r" "rc_pc r" "Enq e", OF t Enq]) (rule enq_conserves [OF inv Enq step])
  then show ?thesis using Enq step by (simp add: all_items_def)
next
  case (Deq e)
  show ?thesis
  proof (cases "\<exists>x. e = DeqDone x")
    case True
    then obtain x where e: "e = DeqDone x" by blast
    have "got_items (rc_got r @ [x]) = got_items (rc_got r) + pc_item (Deq e)"
      by (cases x) (simp_all add: got_items_def e)
    moreover have "held_items (rc_threads r) (upd_pc t Ready (rc_pc r)) + pc_item (Deq e) = held_items (rc_threads r) (rc_pc r)"
      using held_upd [OF t, of Ready "rc_pc r"] Deq by simp
    ultimately show ?thesis using Deq e by (simp add: all_items_def) (metis add.assoc add.commute)
  next
    case False
    obtain e' q' where step: "deq_step e (rc_queue r) = (e', q')" by force
    have "step_thread t r = set_pc t (Deq e') (r\<lparr>rc_queue := q'\<rparr>)" using Deq step False by (cases e) auto
    moreover have "held_items (rc_threads r) (upd_pc t (Deq e') (rc_pc r)) + stored_items q' = held_items (rc_threads r) (rc_pc r) + stored_items (rc_queue r)"
      by (rule held_move [of t "rc_threads r" "rc_pc r" "Deq e", OF t Deq]) (rule deq_conserves [OF inv Deq step])
    ultimately show ?thesis by (simp add: all_items_def)
  qed
qed simp

lemma race_step_items:
  assumes inv: "race_inv (rc_queue r) (rc_pc r)" and old: "mset (rc_given r) = all_items r"
  shows "mset (rc_given (race_step m r)) = all_items (race_step m r)"
proof (cases m)
  case (CallEnqueue t x)
  then show ?thesis
    using old held_upd [of t "rc_threads r" "Enq (EnqTail x)" "rc_pc r"] by (auto simp: all_items_def)
next
  case (CallDequeue t)
  then show ?thesis
    using old held_upd [of t "rc_threads r" "Deq DeqHead" "rc_pc r"] by (auto simp: all_items_def)
next
  case (Step t)
  then show ?thesis using old step_thread_items [OF inv, of t] by (simp del: step_thread.simps)
next
  case (Spurious t)
  then show ?thesis
    using old held_upd [of t "rc_threads r" "Deq DeqHead" "rc_pc r"]
    by (auto simp: all_items_def split: pc.split deq_pc.split)
qed

lemma race_step_threads: "rc_threads (race_step m r) = rc_threads r"
  by (cases m) (auto simp: Let_def split: pc.split deq_pc.split prod.split)

lemma race_run_threads: "rc_threads (race_run ms r) = rc_threads r"
  unfolding race_run_def by (induction ms arbitrary: r) (simp_all add: race_step_threads del: race_step.simps)

lemma step_thread_queue:
  "rc_queue (step_thread t r) =
     (case rc_pc r t of Ready \<Rightarrow> rc_queue r | Enq e \<Rightarrow> snd (enq_step taskq_block e (rc_queue r)) | Deq e \<Rightarrow> snd (deq_step e (rc_queue r)))"
  by (auto simp: split_beta Let_def split: pc.split deq_pc.split)

lemma race_run_items: "mset (rc_given (race_run ms (new_race n))) = all_items (race_run ms (new_race n))"
proof (induction ms rule: rev_induct)
  case Nil
  then show ?case
    by (simp add: race_run_def new_race_def all_items_def got_items_def held_items_def stored_items_def empty_queue_def slot_items_def taskq_block_def)
next
  case (snoc m ms)
  then show ?case using race_step_items [OF race_run_inv] by (simp add: race_run_def)
qed

text \<open>
  C8. The task queue neither duplicates nor invents tasks. In every interleaving of calls on any number of threads the
  items given to \<open>enqueue\<close> are exactly those got from \<open>try_dequeue\<close>, those in the hands of a thread, and those lying in
  slots of the blocks; and a consumer that found its slot committed finds the item there.
\<close>

theorem task_queue_conserves:
  assumes r_def: "r = race_run ms (new_race n)"
  shows "mset (rc_given r) = got_items (rc_got r) + held_items n (rc_pc r) + stored_items (rc_queue r)
    \<and> (rc_pc r t = Deq (DeqTake b i) \<longrightarrow> storage (mem (rc_queue r) b) i \<noteq> None)"
proof -
  have "mset (rc_given r) = all_items r" "rc_threads r = n"
    using race_run_items [of ms n] race_run_threads [of ms "new_race n"] unfolding r_def by (simp_all add: new_race_def)
  moreover have "pc_ok (rc_queue r) (rc_pc r t)" using inv_places(1) [OF race_run_inv] unfolding r_def .
  ultimately show ?thesis by (auto simp: all_items_def add.assoc)
qed

declare step_thread.simps [simp del]

section \<open>Blocks are retired too early\<close>

text \<open>The items in the blocks from the head on, which \<open>try_dequeue\<close> can still reach.\<close>

definition live_items :: "'a taskq \<Rightarrow> 'a multiset" where
  "live_items q = (\<Sum>a = head q..<alloc q. slot_items (mem q a))"

text \<open>
  A move that takes the head past a block its thread saw partly filled only: \<open>published\<close> was loaded while the block still
  had room, \<open>next\<close> after it had overflowed.
\<close>

definition stale_move :: "'a move \<Rightarrow> 'a race \<Rightarrow> bool" where
  "stale_move m r = (case m of Step t \<Rightarrow> (case rc_pc r t of Deq (DeqMoveHead b n pub) \<Rightarrow> pub \<noteq> BLOCK_SIZE | _ \<Rightarrow> False) | _ \<Rightarrow> False)"

fun stale_run :: "'a move list \<Rightarrow> 'a race \<Rightarrow> bool" where
  "stale_run [] r = False"
| "stale_run (m # ms) r = (stale_move m r \<or> stale_run ms (race_step m r))"

definition drained :: "'a taskq \<Rightarrow> bool" where
  "drained q \<longleftrightarrow> (\<forall>a < head q. BLOCK_SIZE \<le> consumed (mem q a))"

lemma drained_empty:
  assumes inv: "race_inv q pc" and b: "b < alloc q" and full: "BLOCK_SIZE \<le> consumed (mem q b)"
  shows "slot_items (mem q b) = {#}"
proof -
  let ?s = "{i. i < rd (mem q b) \<and> (\<forall>t. counts (pc t) \<noteq> Some (b, i))}"
  have rd: "rd (mem q b) \<le> BLOCK_SIZE" using inv_places(5) [OF inv] b by (force simp: windows_ok_def published_def)
  then have sub: "?s \<subseteq> {..<BLOCK_SIZE}" by auto
  have "BLOCK_SIZE \<le> card ?s" using full inv b by (simp add: race_inv_def consumed_ok_def)
  then have "?s = {..<BLOCK_SIZE}" using card_seteq [OF _ sub] by simp
  then have "storage (mem q b) i = None" if "i < BLOCK_SIZE" for i
  proof -
    assume all: "?s = {..<BLOCK_SIZE}"
    then have "i \<in> ?s" using that by blast
    then show ?thesis using slots_okD(2) [OF race_inv_slots [OF inv] b, of i] counts_consumes by fastforce
  qed
  then show ?thesis by (simp add: slot_items_def)
qed

lemma enq_consumed: "race_inv q pc \<Longrightarrow> a < alloc q \<Longrightarrow> consumed (mem (snd (enq_step taskq_block e q)) a) = consumed (mem q a)"
  by (cases e) (auto simp: upd_block_def link_next_block_def advance_tail_def Let_def split: option.split)

lemma enq_head: "head (snd (enq_step fresh e q)) = head q"
  by (cases e) (auto simp: upd_block_def link_next_block_def advance_tail_def Let_def split: option.split)

lemma deq_consumed: "consumed (mem q a) \<le> consumed (mem (snd (deq_step e q)) a)"
  by (cases e) (auto simp: upd_block_def retire_block_def Let_def split: option.split)

lemma deq_head:
  "head (snd (deq_step e q)) = head q
   \<or> (\<exists>b n pub. e = DeqMoveHead b n pub \<and> head q = b \<and> head (snd (deq_step e q)) = n \<and> mem (snd (deq_step e q)) = mem q)
   \<or> (\<exists>x b n. e = DeqReclaimMove x b n \<and> head q = b \<and> head (snd (deq_step e q)) = n \<and> mem (snd (deq_step e q)) = mem q)"
  by (cases e) (auto simp: upd_block_def retire_block_def Let_def split: option.split)

lemma drained_step:
  assumes inv: "race_inv (rc_queue r) (rc_pc r)" and old: "drained (rc_queue r)" and fresh: "\<not> stale_move m r"
  shows "drained (rc_queue (race_step m r))"
proof (cases m)
  case (Step t)
  note ok = inv_places(1) [OF inv, of t]
  have below: "a < alloc (rc_queue r)" if "a < head (rc_queue r)" for a
    using inv_places(4) [OF inv] that by (simp add: links_ok_def)
  have "drained (rc_queue (step_thread t r))"
  proof (cases "rc_pc r t")
    case (Enq e)
    then have "rc_queue (step_thread t r) = snd (enq_step taskq_block e (rc_queue r))"
      unfolding step_thread_queue by simp
    then show ?thesis using old enq_consumed [OF inv] enq_head [of taskq_block e "rc_queue r"] below by (simp add: drained_def)
  next
    case (Deq e)
    let ?q = "snd (deq_step e (rc_queue r))"
    have "rc_queue (step_thread t r) = ?q" unfolding step_thread_queue Deq by simp
    moreover have "drained ?q"
      unfolding drained_def
    proof (intro allI impI)
      fix a assume a: "a < head ?q"
      have at: "pc_ok (rc_queue r) (Deq e)" using ok Deq by simp
      have moved: "head ?q = head (rc_queue r)
          \<or> (\<exists>b pub. e = DeqMoveHead b (Suc b) pub \<and> head (rc_queue r) = b \<and> head ?q = Suc b \<and> pub \<le> consumed (mem (rc_queue r) b))
          \<or> (\<exists>x b. e = DeqReclaimMove x b (Suc b) \<and> head (rc_queue r) = b \<and> head ?q = Suc b \<and> BLOCK_SIZE \<le> consumed (mem (rc_queue r) b))"
        using deq_head [of e "rc_queue r"]
      proof (elim disjE exE conjE)
        fix b n pub assume m: "e = DeqMoveHead b n pub" "head (rc_queue r) = b" "head ?q = n"
        have "n = Suc b" "pub \<le> consumed (mem (rc_queue r) b)" using at unfolding m(1) by simp_all
        then show ?thesis using m by blast
      next
        fix x b n assume m: "e = DeqReclaimMove x b n" "head (rc_queue r) = b" "head ?q = n"
        have "n = Suc b" "BLOCK_SIZE \<le> consumed (mem (rc_queue r) b)" using at unfolding m(1) by simp_all
        then show ?thesis using m by blast
      qed simp
      consider "a < head (rc_queue r)" | b pub where "e = DeqMoveHead b (Suc b) pub" "head (rc_queue r) = b" "a = b" "pub \<le> consumed (mem (rc_queue r) b)"
        | x b where "e = DeqReclaimMove x b (Suc b)" "head (rc_queue r) = b" "a = b" "BLOCK_SIZE \<le> consumed (mem (rc_queue r) b)"
        using moved a by (cases "a < head (rc_queue r)") auto
      then have "BLOCK_SIZE \<le> consumed (mem (rc_queue r) a)"
      proof cases
        case 1
        then show ?thesis using old by (simp add: drained_def)
      next
        case (2 b pub)
        then have "pub = BLOCK_SIZE" using fresh Step Deq by (simp add: stale_move_def)
        then show ?thesis using 2 by simp
      qed auto
      then show "BLOCK_SIZE \<le> consumed (mem ?q a)" using deq_consumed le_trans by blast
    qed
    ultimately show ?thesis by simp
  qed (use old in \<open>simp add: step_thread_queue\<close>)
  then show ?thesis using old Step by (simp del: step_thread.simps)
qed (use old in \<open>auto split: pc.split deq_pc.split\<close>)

text \<open>
  C24. Tasks are lost only by a stale view. If no thread moves the head past a block that it saw partly filled, every
  item given to the task queue and not got yet is in the hands of a thread or in a block from the head on, where a later
  \<open>try_dequeue\<close> finds it: checking that \<open>published\<close> is the size of the block before the head is moved would be enough.
\<close>

theorem task_queue_keeps_fresh:
  assumes "r = race_run ms (new_race n)" and "\<not> stale_run ms (new_race n)"
  shows "mset (rc_given r) = got_items (rc_got r) + held_items n (rc_pc r) + live_items (rc_queue r)
    \<and> (\<forall>b. b < head (rc_queue r) \<longrightarrow> slot_items (mem (rc_queue r) b) = {#})"
proof -
  have "drained (rc_queue (race_run ms r'))" if "race_inv (rc_queue r') (rc_pc r')" "drained (rc_queue r')" "\<not> stale_run ms r'" for r' :: "'a race"
    using that
  proof (induction ms arbitrary: r')
    case (Cons m ms)
    then show ?case using Cons.IH [of "race_step m r'"] race_step_inv [of r' m] drained_step [of r' m] by (simp add: race_run_def)
  qed (simp add: race_run_def)
  moreover have "drained (rc_queue (new_race n :: 'a race))" by (simp add: new_race_def empty_queue_def drained_def)
  ultimately have dr: "drained (rc_queue r)" using assms new_race_inv [of n] by blast
  have inv: "race_inv (rc_queue r) (rc_pc r)" using race_run_inv assms(1) by simp
  have heads: "head (rc_queue r) < alloc (rc_queue r)" using inv_places(4) [OF inv] by (simp add: links_ok_def)
  have empty: "slot_items (mem (rc_queue r) b) = {#}" if "b < head (rc_queue r)" for b
    using drained_empty [OF inv, of b] dr that heads by (simp add: drained_def)
  have "{..<alloc (rc_queue r)} = {..<head (rc_queue r)} \<union> {head (rc_queue r)..<alloc (rc_queue r)}" using heads by auto
  then have "stored_items (rc_queue r) = live_items (rc_queue r)"
    unfolding stored_items_def live_items_def using empty
    by (metis (no_types, lifting) finite_atLeastLessThan finite_lessThan ivl_disj_int_one(2) lessThan_iff sum.neutral sum.union_disjoint add_0)
  moreover have "mset (rc_given r) = all_items r" "rc_threads r = n"
    using race_run_items [of ms n] race_run_threads [of ms "new_race n"] unfolding assms(1) by (simp_all add: new_race_def)
  ultimately show ?thesis using empty by (simp add: all_items_def add.assoc)
qed

section \<open>A schedule that loses tasks\<close>

text \<open>Two threads: 0 enqueues, 1 dequeues.\<close>

definition two_pcs :: "'a pc \<Rightarrow> 'a pc \<Rightarrow> nat \<Rightarrow> 'a pc" where
  "two_pcs p p' = (\<lambda>u. if u = 0 then p else if u = 1 then p' else Ready)"

definition duo :: "'a taskq \<Rightarrow> 'a pc \<Rightarrow> 'a pc \<Rightarrow> 'a list \<Rightarrow> 'a option list \<Rightarrow> 'a race" where
  "duo q p p' given got = \<lparr>rc_queue = q, rc_threads = 2, rc_pc = two_pcs p p', rc_given = given, rc_got = got\<rparr>"

lemma duo_sel [simp]: "rc_queue (duo q p p' g h) = q" "rc_threads (duo q p p' g h) = 2" "rc_given (duo q p p' g h) = g"
  "rc_got (duo q p p' g h) = h" "rc_pc (duo q p p' g h) 0 = p" "rc_pc (duo q p p' g h) (Suc 0) = p'"
  by (simp_all add: duo_def two_pcs_def)

lemma duo_start: "new_race 2 = duo (empty_queue taskq_block) Ready Ready [] []"
  by (simp add: new_race_def duo_def two_pcs_def fun_eq_iff)

lemma duo_enq:
  "race_step (CallEnqueue 0 x) (duo q Ready p' g h) = duo q (Enq (EnqTail x)) p' (g @ [x]) h"
  "race_step (Step 0) (duo q (Enq e) p' g h) =
     (case enq_step taskq_block e q of (e', q') \<Rightarrow> duo q' (case e' of None \<Rightarrow> Ready | Some e \<Rightarrow> Enq e) p' g h)"
  by (auto simp: duo_def two_pcs_def set_pc_def fun_eq_iff step_thread.simps Let_def split: prod.split)

lemma duo_deq:
  "race_step (CallDequeue (Suc 0)) (duo q p Ready g h) = duo q p (Deq DeqHead) g h"
  "race_step (Step (Suc 0)) (duo q p (Deq (DeqDone x)) g h) = duo q p Ready g (h @ [x])"
  "(\<And>x. e \<noteq> DeqDone x) \<Longrightarrow> race_step (Step (Suc 0)) (duo q p (Deq e) g h) = (case deq_step e q of (e', q') \<Rightarrow> duo q' p (Deq e') g h)"
  by (cases e; auto simp: duo_def two_pcs_def set_pc_def fun_eq_iff step_thread.simps Let_def split: prod.split)+

lemma race_run_Cons: "race_run (m # ms) r = race_run ms (race_step m r)"
  by (simp add: race_run_def)

lemma race_run_append: "race_run (ms @ ms') r = race_run ms' (race_run ms r)"
  by (simp add: race_run_def)

lemma race_run_Nil: "race_run [] r = r"
  by (simp add: race_run_def)

text \<open>The enqueue of one item, uninterrupted, into a block with room.\<close>

definition push_moves :: "'a \<Rightarrow> 'a move list" where
  "push_moves x = [CallEnqueue 0 x, Step 0, Step 0, Step 0, Step 0]"

lemma push_run:
  assumes "wr (mem q (tail q)) < BLOCK_SIZE"
  shows "race_run (push_moves x) (duo q Ready p' g h) = duo (tail_push x q) Ready p' (g @ [x]) h"
  using assms
  by (simp add: push_moves_def race_run_Cons race_run_Nil duo_enq upd_block_def tail_push_def commit_slot_def Let_def
      del: race_step.simps)

lemma push_all:
  "wr (mem q (tail q)) + length xs \<le> BLOCK_SIZE \<Longrightarrow>
   race_run (concat (map push_moves xs)) (duo q Ready p' g h) = duo (fold tail_push xs q) Ready p' (g @ xs) h"
proof (induction xs arbitrary: q g)
  case (Cons x xs)
  then have "wr (mem q (tail q)) < BLOCK_SIZE" by simp
  moreover have "wr (mem (tail_push x q) (tail (tail_push x q))) + length xs \<le> BLOCK_SIZE"
    using Cons.prems by (simp add: tail_push_def upd_block_def commit_slot_def)
  ultimately show ?case using Cons.IH [of "tail_push x q" "g @ [x]"] by (simp add: race_run_append push_run)
qed (simp add: race_run_Nil)

text \<open>The queue whose first block is \<open>k\<close>.\<close>

definition one_block :: "'a tqblock \<Rightarrow> 'a taskq" where
  "one_block k = \<lparr>mem = (\<lambda>a. if a = 0 then k else taskq_block), alloc = 1, head = 0, tail = 0, graveyard = []\<rparr>"

lemma push_one_block:
  "\<exists>k. fold tail_push xs (one_block k0) = one_block k \<and> wr k = wr k0 + length xs \<and> rd k = rd k0 \<and> consumed k = consumed k0
     \<and> next_block k = next_block k0"
proof (induction xs arbitrary: k0)
  case (Cons x xs)
  let ?k = "commit_slot (wr k0) x (k0\<lparr>wr := Suc (wr k0)\<rparr>)"
  have "tail_push x (one_block k0) = one_block ?k"
    by (auto simp: tail_push_def one_block_def upd_block_def)
  moreover obtain k where "fold tail_push xs (one_block ?k) = one_block k" "wr k = wr ?k + length xs" "rd k = rd ?k" "consumed k = consumed ?k"
    "next_block k = next_block ?k"
    using Cons.IH [of ?k] by blast
  ultimately show ?case by (intro exI [of _ k]) (simp add: commit_slot_def)
qed auto

definition two_blocks :: "'a tqblock \<Rightarrow> 'a tqblock \<Rightarrow> nat \<Rightarrow> nat list \<Rightarrow> 'a taskq" where
  "two_blocks k k' h dead =
     \<lparr>mem = (\<lambda>a. if a = 0 then k else if a = 1 then k' else taskq_block), alloc = 2, head = h, tail = 1, graveyard = dead\<rparr>"

lemma two_blocks_sel [simp]:
  "mem (two_blocks k k' h dead) 0 = k" "mem (two_blocks k k' h dead) (Suc 0) = k'" "head (two_blocks k k' h dead) = h"
  "upd_block (Suc 0) f (two_blocks k k' h dead) = two_blocks k (f k') h dead"
  "(two_blocks k k' h dead)\<lparr>head := n\<rparr> = two_blocks k k' n dead" "retire_block b (two_blocks k k' h dead) = two_blocks k k' h (b # dead)"
  by (simp_all add: two_blocks_def upd_block_def retire_block_def fun_eq_iff)

text \<open>The enqueue that finds the first block full, links the second one and moves the tail.\<close>

lemma overflow_run:
  assumes "wr k = BLOCK_SIZE" "next_block k = None"
  shows "race_run (CallEnqueue 0 y # replicate 10 (Step 0)) (duo (one_block k) Ready p' g h)
    = duo (two_blocks (k\<lparr>wr := Suc BLOCK_SIZE, next_block := Some 1\<rparr>) (commit_slot 0 y (taskq_block\<lparr>wr := 1\<rparr>)) 0 []) Ready p' (g @ [y]) h"
  using assms
  by (simp add: numeral_eq_Suc race_run_Cons race_run_Nil duo_enq one_block_def two_blocks_def upd_block_def link_next_block_def advance_tail_def
      commit_slot_def taskq_block_def fun_eq_iff del: race_step.simps)
     (auto simp: BLOCK_SIZE_def duo_def fun_eq_iff)

lemma late_retire_run:
  assumes "rd k = 0" "consumed k = 0" "next_block k = Some 1"
  shows "race_run (replicate 5 (Step 1)) (duo (two_blocks k k' 0 []) p (Deq (DeqSeeRead 0 0)) g h)
     = duo (two_blocks k k' 1 [0]) p (Deq DeqHead) g h"
  using assms by (simp add: numeral_eq_Suc race_run_Cons race_run_Nil duo_deq del: race_step.simps)

lemma take_run:
  assumes "k' = commit_slot 0 y (taskq_block\<lparr>wr := 1\<rparr>)"
  shows "\<exists>k''. race_run (replicate 9 (Step 1)) (duo (two_blocks k k' 1 dead) p (Deq DeqHead) g h)
      = duo (two_blocks k k'' 1 dead) p Ready g (h @ [Some y]) \<and> rd k'' = 1 \<and> wr k'' = 1 \<and> consumed k'' = 1 \<and> next_block k'' = None
        \<and> slot_items k'' = {#}"
  unfolding assms
  by (simp add: numeral_eq_Suc race_run_Cons race_run_Nil duo_deq published_def commit_slot_def taskq_block_def BLOCK_SIZE_def
      del: race_step.simps) (rule exI, rule conjI, rule refl, simp add: slot_items_def)

lemma empty_run:
  assumes "rd k' = 1" "wr k' = 1" "consumed k' = 1" "next_block k' = None"
  shows "race_run (CallDequeue 1 # replicate 6 (Step 1)) (duo (two_blocks k k' 1 dead) p Ready g h)
      = duo (two_blocks k k' 1 dead) p Ready g (h @ [None])"
  using assms by (simp add: numeral_eq_Suc race_run_Cons race_run_Nil duo_deq published_def BLOCK_SIZE_def del: race_step.simps)

text \<open>
  C9. The task queue can lose tasks. A dequeue that finds the queue empty, and is overtaken before its next load by
  enqueues that fill the block and link the next one, moves the head past the full block: any 64 items given in
  that moment are never got. They lie in the graveyard, and the next \<open>try_dequeue\<close> after the 65th item answers that the
  queue is empty.
\<close>

theorem stale_view_loses_tasks:
  assumes "length xs = BLOCK_SIZE"
  shows "\<exists>ms. let r = race_run ms (new_race 2) in
     rc_given r = xs @ [y] \<and> rc_got r = [Some y, None] \<and> (\<forall>t. rc_pc r t = Ready)
     \<and> graveyard (rc_queue r) = [0] \<and> slot_items (mem (rc_queue r) 0) = mset xs \<and> live_items (rc_queue r) = {#}"
proof -
  let ?first = "[CallDequeue 1, Step 1, Step 1]"
  have start: "empty_queue taskq_block = one_block taskq_block" by (simp add: empty_queue_def one_block_def fun_eq_iff)
  have first: "race_run ?first (new_race 2) = duo (one_block taskq_block) Ready (Deq (DeqSeeRead 0 0)) [] []"
    unfolding duo_start start
    by (simp add: race_run_Cons race_run_Nil duo_deq one_block_def taskq_block_def published_def del: race_step.simps)
  obtain k where k: "fold tail_push xs (one_block taskq_block) = one_block k" "wr k = BLOCK_SIZE" "rd k = 0" "consumed k = 0" "next_block k = None"
    using push_one_block [of xs taskq_block] assms by (auto simp: taskq_block_def)
  have fill: "race_run (concat (map push_moves xs)) (duo (one_block taskq_block) Ready (Deq (DeqSeeRead 0 0)) [] [])
      = duo (one_block k) Ready (Deq (DeqSeeRead 0 0)) xs []"
    using push_all [of "one_block taskq_block" xs "Deq (DeqSeeRead 0 0)" "[]" "[]"] assms k(1)
    by (simp add: one_block_def taskq_block_def)
  let ?k = "k\<lparr>wr := Suc BLOCK_SIZE, next_block := Some 1\<rparr>" and ?k' = "commit_slot 0 y (taskq_block\<lparr>wr := 1\<rparr>)"
  obtain k'' where take: "race_run (replicate 9 (Step 1)) (duo (two_blocks ?k ?k' 1 [0]) Ready (Deq DeqHead) (xs @ [y]) [])
      = duo (two_blocks ?k k'' 1 [0]) Ready Ready (xs @ [y]) [Some y]"
    and k'': "rd k'' = 1" "wr k'' = 1" "consumed k'' = 1" "next_block k'' = None" "slot_items k'' = {#}"
    using take_run [of ?k' y ?k "[0]" Ready "xs @ [y]" "[]"] by auto
  let ?ms = "?first @ concat (map push_moves xs) @ (CallEnqueue 0 y # replicate 10 (Step 0)) @ replicate 5 (Step 1)
      @ replicate 9 (Step 1) @ (CallDequeue 1 # replicate 6 (Step 1))"
  have late: "race_run (replicate 5 (Step 1)) (duo (two_blocks ?k ?k' 0 []) Ready (Deq (DeqSeeRead 0 0)) (xs @ [y]) [])
     = duo (two_blocks ?k ?k' 1 [0]) Ready (Deq DeqHead) (xs @ [y]) []"
    by (rule late_retire_run) (simp_all add: k)
  have run: "race_run ?ms (new_race 2) = duo (two_blocks ?k k'' 1 [0]) Ready Ready (xs @ [y]) [Some y, None]"
    unfolding race_run_append first fill overflow_run [OF k(2,5)] late take
    using empty_run [OF k''(1-4), of ?k "[0]" Ready "xs @ [y]" "[Some y]"] by simp
  let ?r = "duo (two_blocks ?k k'' 1 [0]) Ready Ready (xs @ [y]) [Some y, None]"
  have "mset (rc_given ?r) = all_items ?r" using race_run_items [of ?ms 2] unfolding run .
  moreover have "stored_items (rc_queue ?r) = slot_items ?k" using k'' by (simp add: stored_items_def two_blocks_def numeral_eq_Suc)
  moreover have "held_items (rc_threads ?r) (rc_pc ?r) = {#}" by (simp add: held_items_def numeral_eq_Suc)
  ultimately have "slot_items ?k = mset xs" by (simp add: all_items_def got_items_def)
  moreover have "rc_pc ?r t = Ready" for t by (simp add: duo_def two_pcs_def)
  moreover have "live_items (rc_queue ?r) = {#}" using k'' by (simp add: live_items_def two_blocks_def numeral_eq_Suc)
  ultimately show ?thesis
    unfolding Let_def by (intro exI [of _ ?ms]) (simp only: run duo_sel two_blocks_sel, simp add: two_blocks_def)
qed

theorem stale_view_loses_tasks_witness:
  "\<exists>ms. rc_got (race_run ms (new_race 2)) = [Some 64, None] \<and> slot_items (mem (rc_queue (race_run ms (new_race 2))) 0) = mset [0..<64]"
  using stale_view_loses_tasks [of "[0..<64]" 64] unfolding Let_def by (auto simp: BLOCK_SIZE_def)

text \<open>One item enqueued, which lies in its slot.\<close>

lemma new_duo: "new_race 2 = duo (one_block taskq_block) Ready Ready [] []"
  unfolding duo_start by (rule arg_cong [where f = "\<lambda>q. duo q Ready Ready [] []"]) (simp add: empty_queue_def one_block_def fun_eq_iff)

lemma push_new: "race_run (push_moves x) (new_race 2) = duo (tail_push x (one_block taskq_block)) Ready Ready [x] []"
proof -
  have "wr (mem (one_block taskq_block) (tail (one_block taskq_block))) < BLOCK_SIZE"
    by (simp add: one_block_def taskq_block_def BLOCK_SIZE_def)
  from push_run [OF this, of x Ready "[]" "[]"] show ?thesis unfolding new_duo by simp
qed

lemma nothing_held: "held_items 2 (rc_pc (duo q Ready Ready g h)) = {#}"
  by (simp add: held_items_def numeral_eq_Suc)

theorem task_queue_conserves_witness: "stored_items (rc_queue (race_run (push_moves (7 :: nat)) (new_race 2))) = {#7#}"
  using task_queue_conserves [OF refl, of "push_moves (7 :: nat)" 2, THEN conjunct1]
  unfolding push_new nothing_held by (simp add: got_items_def)

theorem task_queue_keeps_fresh_witness: "live_items (rc_queue (race_run (push_moves (7 :: nat)) (new_race 2))) = {#7#}"
proof -
  have fresh: "\<not> stale_run (push_moves (7 :: nat)) (new_race 2)"
    unfolding new_duo
    by (simp add: push_moves_def duo_enq stale_move_def one_block_def taskq_block_def upd_block_def BLOCK_SIZE_def del: race_step.simps)
  show ?thesis
    using task_queue_keeps_fresh [OF refl fresh, THEN conjunct1]
    unfolding push_new nothing_held by (simp add: got_items_def)
qed

end
