(* ===== verification/Group_Race.thy ===== *)
theory Group_Race
  imports Group_Tokens
begin

text \<open>
  The operations of a group (\<open>scheduler/Group.cpp\<close>) under concurrent calls: those of \<open>Group_Tokens\<close> cut into their
  accesses to shared memory and interleaved over any number of threads. The interleaving is sequentially consistent.
  A section under the mutex is cut only where it has two accesses to the token counter, which the fast path changes
  without the mutex.
\<close>

section \<open>The accesses of the operations\<close>

text \<open>
  A request of \<open>try_submit\<close>; \<open>try_acquire_running_lock\<close> is the same loop without a task (\<open>None\<close>). \<open>release_token\<close> and
  \<open>drain_one_to_pool\<close> return to their caller, which is at its end or goes on to park the task.
\<close>

type_synonym 'p request = "reaction_task \<times> 'p option \<times> bool"

datatype 'p finish = Return | ThenPark "'p request"

text \<open>
  Where a thread is: the next access it makes, with the locals it still needs (slots and handles by address, counts
  it has read, the bucket it looks at).
\<close>

datatype 'p gpc = Ready
  | TrySlow "'p request option" | TryTokens "'p request option" | TryCas "'p request option" int
  | TrySlowAgain "'p request option" | TryRun "'p request option"
  | ParkPublish "'p request" | ParkSub nat | ParkSlow nat int | ParkClaim nat int
  | ReleaseAdd "'p finish" | ReleaseSlow "'p finish" | ReleaseNotify "'p finish"
  | DrainScan "'p finish" nat | DrainClaim "'p finish" "'p wait_entry"
  | DrainSubmit "'p finish" "'p wait_entry" bool | DrainPay "'p finish" bool
  | SlowCount nid int | SlowInsert nid int
  | LockSee nat | LockScan nat | LockTake nat
  | UnlockGive nat | UnlockErase nat bool int | UnlockCount bool bool int "nat list" | UnlockDrain bool int

fun finish_of :: "'p request option \<Rightarrow> 'p finish" where
  "finish_of None = Return"
| "finish_of (Some q) = ThenPark q"

fun finish_pc :: "'p finish \<Rightarrow> 'p gpc" where
  "finish_pc Return = Ready"
| "finish_pc (ThenPark q) = ParkPublish q"

text \<open>The body of \<open>Group::lock\<close> under the mutex.\<close>

definition group_insert :: "nid \<Rightarrow> int \<Rightarrow> 'p group \<Rightarrow> 'p group" where
  "group_insert i p g =
     (let h = handle_alloc g;
          hs = (handles g)(h := \<lparr>lh_task_id = i, lh_priority = p, lh_locked = False, lh_notified = False\<rparr>);
          q = insert_lower (\<lambda>a b. handle_key (hs a) < handle_key (hs b)) h (queue g)
      in g\<lparr>handle_alloc := Suc h, queue := q, handles := clear_notified q (tokens g) hs\<rparr>)"

definition set_locked :: "nat \<Rightarrow> bool \<Rightarrow> 'p group \<Rightarrow> 'p group" where
  "set_locked h b g = g\<lparr>handles := (handles g)(h := (handles g h)\<lparr>lh_locked := b\<rparr>)\<rparr>"

text \<open>
  One access. A weak compare-and-swap that fails for no reason reads the value it expected and tries again, so it is
  no step of its own.
\<close>

fun access :: "'p gpc \<Rightarrow> 'p group \<Rightarrow> 'p gpc \<times> 'p group" where
  "access Ready g = (Ready, g)"
| "access (TrySlow q) g = (if slow_pending g > 0 then finish_pc (finish_of q) else TryTokens q, g)"
| "access (TryTokens q) g = (if tokens g > 0 then TryCas q (tokens g) else finish_pc (finish_of q), g)"
| "access (TryCas q expected) g =
     (if tokens g = expected then (TrySlowAgain q, add_tokens (- 1) g)
      else (if tokens g > 0 then TryCas q (tokens g) else finish_pc (finish_of q), g))"
| "access (TrySlowAgain q) g = (if slow_pending g > 0 then ReleaseAdd (finish_of q) else TryRun q, g)"
| "access (TryRun q) g =
     (Ready, case q of None \<Rightarrow> make_running_lock g
        | Some (task, pool, clear_idle) \<Rightarrow> log_event (EvSubmit task pool clear_idle False) (make_running_lock g))"
| "access (ParkPublish q) g =
     (case q of (task, pool, clear_idle) \<Rightarrow>
        (let (slot, g1) = park_publish task pool clear_idle g in (ParkSub slot, g1)))"
| "access (ParkSub slot) g =
     (if tokens g > 0 then ParkSlow slot (tokens g) else ParkClaim slot (tokens g), add_tokens (- 1) g)"
| "access (ParkSlow slot prev) g = (if slow_pending g > 0 then ReleaseAdd Return else ParkClaim slot prev, g)"
| "access (ParkClaim slot prev) g =
     (if slots g slot then ReleaseAdd Return else if prev > 0 then DrainScan Return 0 else Ready,
      g\<lparr>slots := (slots g)(slot := True)\<rparr>)"
| "access (ReleaseAdd k) g = (if tokens g < 0 then DrainScan k 0 else ReleaseSlow k, add_tokens 1 g)"
| "access (ReleaseSlow k) g = (if slow_pending g > 0 then ReleaseNotify k else DrainScan k 0, g)"
| "access (ReleaseNotify k) g = (finish_pc k, notify_slow_path g)"
| "access (DrainScan k b) g =
     (if b \<ge> PRIORITY_BUCKETS then (finish_pc k, g)
      else case wait_buckets g ! b of
        [] \<Rightarrow> (DrainScan k (Suc b), g)
      | e # es \<Rightarrow> (DrainClaim k e, g\<lparr>wait_buckets := (wait_buckets g)[b := es]\<rparr>))"
| "access (DrainClaim k e) g =
     (DrainSubmit k e (\<not> slots g (we_slot e)), g\<lparr>slots := (slots g)(we_slot e := True)\<rparr>)"
| "access (DrainSubmit k e uncounted) g =
     (DrainPay k uncounted,
      drop_registration e (log_event (EvSubmit (we_task e) (we_pool e) (we_clear_idle e) True) (make_running_lock g)))"
| "access (DrainPay k uncounted) g = (finish_pc k, if uncounted then add_tokens (- 1) g else g)"
| "access (SlowCount i p) g = (SlowInsert i p, g\<lparr>slow_pending := slow_pending g + 1\<rparr>)"
| "access (SlowInsert i p) g = (Ready, group_insert i p g)"
| "access (LockSee h) g = (if lh_locked (handles g h) then Ready else LockScan h, g)"
| "access (LockScan h) g = (if may_lock (queue g) (tokens g) (handles g) h then LockTake h else Ready, g)"
| "access (LockTake h) g = (Ready, add_tokens (- 1) (set_locked h True g))"
| "access (UnlockGive h) g =
     (if lh_locked (handles g h) then (UnlockErase h True (tokens g), add_tokens 1 (set_locked h False g))
      else (UnlockErase h False 0, g))"
| "access (UnlockErase h was_locked prev) g =
     (let removed = (h \<in> set (queue g));
          g1 = g\<lparr>queue := remove1 h (queue g)\<rparr>;
          (to_notify, hs) = collect_notify (queue g1) (tokens g1) (handles g1)
      in (UnlockCount removed was_locked prev to_notify, g1\<lparr>handles := hs\<rparr>))"
| "access (UnlockCount removed was_locked prev to_notify) g =
     (UnlockDrain was_locked prev,
      notify_handles to_notify (if removed then g\<lparr>slow_pending := slow_pending g - 1\<rparr> else g))"
| "access (UnlockDrain was_locked prev) g =
     (if was_locked \<and> prev < 0 then DrainScan Return 0
      else if was_locked \<and> slow_pending g = 0 then DrainScan Return 0 else Ready, g)"

section \<open>Interleavings\<close>

text \<open>
  The group and its threads; \<open>gr_unused\<close> counts the group locks that were destroyed without having been locked. The
  mutex is held between the two parts of a section.
\<close>

record 'p grace =
  gr_group :: "'p group"
  gr_threads :: nat
  gr_pc :: "nat \<Rightarrow> 'p gpc"
  gr_unused :: nat

fun holds_mutex :: "'p gpc \<Rightarrow> bool" where
  "holds_mutex (LockTake h) \<longleftrightarrow> True"
| "holds_mutex (UnlockErase h was_locked prev) \<longleftrightarrow> True"
| "holds_mutex _ \<longleftrightarrow> False"

fun wants_mutex :: "'p gpc \<Rightarrow> bool" where
  "wants_mutex (ReleaseNotify k) \<longleftrightarrow> True"
| "wants_mutex (SlowInsert i p) \<longleftrightarrow> True"
| "wants_mutex (LockScan h) \<longleftrightarrow> True"
| "wants_mutex (UnlockGive h) \<longleftrightarrow> True"
| "wants_mutex _ \<longleftrightarrow> False"

definition mutex_free :: "'p grace \<Rightarrow> bool" where
  "mutex_free r \<longleftrightarrow> list_all (\<lambda>t. \<not> holds_mutex (gr_pc r t)) [0..<gr_threads r]"

text \<open>The handle whose group lock a thread is in a call of.\<close>

fun handle_of :: "'p gpc \<Rightarrow> nat option" where
  "handle_of (LockSee h) = Some h"
| "handle_of (LockScan h) = Some h"
| "handle_of (LockTake h) = Some h"
| "handle_of (UnlockGive h) = Some h"
| "handle_of (UnlockErase h was_locked prev) = Some h"
| "handle_of _ = None"

definition unused_by :: "'p gpc \<Rightarrow> 'p group \<Rightarrow> nat" where
  "unused_by p g = (case p of UnlockGive h \<Rightarrow> (if lh_locked (handles g h) then 0 else 1) | _ \<Rightarrow> 0)"

definition set_gpc :: "nat \<Rightarrow> 'p gpc \<Rightarrow> 'p grace \<Rightarrow> 'p grace" where
  "set_gpc t p r = r\<lparr>gr_pc := (\<lambda>u. if u = t then p else gr_pc r u)\<rparr>"

definition step_gthread :: "nat \<Rightarrow> 'p grace \<Rightarrow> 'p grace" where
  "step_gthread t r =
     (if wants_mutex (gr_pc r t) \<and> \<not> mutex_free r then r
      else let (p, g) = access (gr_pc r t) (gr_group r)
           in set_gpc t p (r\<lparr>gr_group := g, gr_unused := gr_unused r + unused_by (gr_pc r t) (gr_group r)\<rparr>))"

text \<open>
  A call begins on a thread that is in none. A running lock is destroyed only while one is alive; a group lock is
  used while it exists and by one thread at a time, as its owner does.
\<close>

datatype 'p gmove = CallTry nat "'p request option" | CallFinish nat | CallLock nat nid int
  | CallTryLock nat nat | CallUnlock nat nat | GStep nat

definition may_call :: "nat \<Rightarrow> 'p grace \<Rightarrow> bool" where
  "may_call t r \<longleftrightarrow> t < gr_threads r \<and> gr_pc r t = Ready"

definition free_handle :: "nat \<Rightarrow> 'p grace \<Rightarrow> bool" where
  "free_handle h r \<longleftrightarrow> h \<in> set (queue (gr_group r)) \<and> list_all (\<lambda>t. handle_of (gr_pc r t) \<noteq> Some h) [0..<gr_threads r]"

fun grace_step :: "'p gmove \<Rightarrow> 'p grace \<Rightarrow> 'p grace" where
  "grace_step (CallTry t q) r = (if may_call t r then set_gpc t (TrySlow q) r else r)"
| "grace_step (CallFinish t) r =
     (if may_call t r \<and> running (gr_group r) > 0
      then set_gpc t (ReleaseAdd Return) (r\<lparr>gr_group := (gr_group r)\<lparr>running := running (gr_group r) - 1\<rparr>\<rparr>) else r)"
| "grace_step (CallLock t i p) r = (if may_call t r then set_gpc t (SlowCount i p) r else r)"
| "grace_step (CallTryLock t h) r = (if may_call t r \<and> free_handle h r then set_gpc t (LockSee h) r else r)"
| "grace_step (CallUnlock t h) r = (if may_call t r \<and> free_handle h r then set_gpc t (UnlockGive h) r else r)"
| "grace_step (GStep t) r = (if t < gr_threads r then step_gthread t r else r)"

definition new_grace :: "nat \<Rightarrow> group_descriptor \<Rightarrow> 'p grace" where
  "new_grace n d = \<lparr>gr_group = new_group d, gr_threads = n, gr_pc = (\<lambda>_. Ready), gr_unused = 0\<rparr>"

definition grace_run :: "'p gmove list \<Rightarrow> 'p grace \<Rightarrow> 'p grace" where
  "grace_run ms r = fold grace_step ms r"

section \<open>The slots\<close>

text \<open>The slot of the waiter a thread is parking, and of the one it has taken out of a bucket but not yet claimed.\<close>

fun owner :: "'p gpc \<Rightarrow> nat option" where
  "owner (ParkSub s) = Some s"
| "owner (ParkSlow s prev) = Some s"
| "owner (ParkClaim s prev) = Some s"
| "owner _ = None"

fun hand :: "'p gpc \<Rightarrow> nat option" where
  "hand (DrainClaim k e) = Some (we_slot e)"
| "hand _ = None"

definition bucket_slots :: "'p group \<Rightarrow> nat set" where
  "bucket_slots g = we_slot ` set (parked g)"

definition buckets_ok :: "'p group \<Rightarrow> bool" where
  "buckets_ok g \<longleftrightarrow> length (wait_buckets g) = PRIORITY_BUCKETS \<and> distinct (map we_slot (parked g))"

definition gslots_ok :: "nat set \<Rightarrow> (nat \<Rightarrow> bool) \<Rightarrow> nat \<Rightarrow> (nat \<Rightarrow> 'p gpc) \<Rightarrow> bool" where
  "gslots_ok B sl al pc \<longleftrightarrow>
     (\<forall>s \<in> B. s < al) \<and> (\<forall>t s. hand (pc t) = Some s \<longrightarrow> s < al \<and> s \<notin> B)
     \<and> (\<forall>t u s. hand (pc t) = Some s \<and> hand (pc u) = Some s \<longrightarrow> t = u)
     \<and> (\<forall>t s. owner (pc t) = Some s \<longrightarrow> s < al \<and> (s \<in> B \<longrightarrow> \<not> sl s) \<and> (sl s \<or> s \<in> B \<or> (\<exists>u. hand (pc u) = Some s)))
     \<and> (\<forall>t u s. owner (pc t) = Some s \<and> owner (pc u) = Some s \<longrightarrow> t = u)"

definition slot_inv :: "'p group \<Rightarrow> (nat \<Rightarrow> 'p gpc) \<Rightarrow> bool" where
  "slot_inv g pc \<longleftrightarrow> buckets_ok g \<and> gslots_ok (bucket_slots g) (slots g) (slot_alloc g) pc"

lemma gslots_okD:
  assumes "gslots_ok B sl al pc"
  shows "s \<in> B \<Longrightarrow> s < al" "hand (pc t) = Some s \<Longrightarrow> s < al" "hand (pc t) = Some s \<Longrightarrow> s \<notin> B"
    "hand (pc t) = Some s \<Longrightarrow> hand (pc u) = Some s \<Longrightarrow> t = u"
    "owner (pc t) = Some s \<Longrightarrow> s < al" "owner (pc t) = Some s \<Longrightarrow> s \<in> B \<Longrightarrow> \<not> sl s"
    "owner (pc t) = Some s \<Longrightarrow> \<not> sl s \<Longrightarrow> s \<notin> B \<Longrightarrow> \<exists>v. hand (pc v) = Some s"
    "owner (pc t) = Some s \<Longrightarrow> owner (pc u) = Some s \<Longrightarrow> t = u"
  using assms unfolding gslots_ok_def by metis+

lemma gslots_okI:
  assumes "\<And>s. s \<in> B \<Longrightarrow> s < al" "\<And>t s. hand (pc t) = Some s \<Longrightarrow> s < al \<and> s \<notin> B"
    "\<And>t u s. hand (pc t) = Some s \<Longrightarrow> hand (pc u) = Some s \<Longrightarrow> t = u"
    "\<And>t s. owner (pc t) = Some s \<Longrightarrow> s < al \<and> (s \<in> B \<longrightarrow> \<not> sl s)"
    "\<And>t s. owner (pc t) = Some s \<Longrightarrow> \<not> sl s \<Longrightarrow> s \<notin> B \<Longrightarrow> \<exists>v. hand (pc v) = Some s"
    "\<And>t u s. owner (pc t) = Some s \<Longrightarrow> owner (pc u) = Some s \<Longrightarrow> t = u"
  shows "gslots_ok B sl al pc"
  unfolding gslots_ok_def using assms by blast

lemma gslots_ok_frame:
  assumes "gslots_ok B sl al pc" "hand p = hand (pc t)" "owner p = None \<or> owner p = owner (pc t)"
  shows "gslots_ok B sl al (\<lambda>u. if u = t then p else pc u)"
proof -
  have hands: "hand (if u = t then p else pc u) = hand (pc u)" for u using assms(2) by simp
  have owners: "owner (if u = t then p else pc u) = Some s \<Longrightarrow> owner (pc u) = Some s" for u s
    using assms(3) by (auto split: if_splits)
  show ?thesis
    by (rule gslots_okI, unfold hands) (use gslots_okD [OF assms(1)] owners in metis)+
qed

text \<open>A waiter that is put in a bucket, taken out, claimed by its thread, and claimed by the one that took it.\<close>

lemma gslots_ok_publish:
  assumes ok: "gslots_ok B sl al pc" and none: "hand (pc t) = None" "owner (pc t) = None"
  shows "gslots_ok (insert al B) (sl(al := False)) (Suc al) (\<lambda>u. if u = t then ParkSub al else pc u)"
proof -
  have hands: "hand (if u = t then ParkSub al else pc u) = hand (pc u)" for u using none by simp
  have owners: "owner (if u = t then ParkSub al else pc u) = (if u = t then Some al else owner (pc u))" for u by simp
  have fresh: "hand (pc u) \<noteq> Some al" "owner (pc u) \<noteq> Some al" "al \<notin> B" for u
    using gslots_okD(1,2,5) [OF ok] by (meson less_irrefl)+
  show ?thesis
  proof (rule gslots_okI, unfold hands owners)
    fix u s
    assume "(if u = t then Some al else owner (pc u)) = Some s" "\<not> (sl(al := False)) s" "s \<notin> insert al B"
    then show "\<exists>v. hand (pc v) = Some s" using gslots_okD(7) [OF ok, of u s] by (simp split: if_splits)
  next
    fix u s
    assume "(if u = t then Some al else owner (pc u)) = Some s"
    then show "s < Suc al \<and> (s \<in> insert al B \<longrightarrow> \<not> (sl(al := False)) s)"
      using gslots_okD(5,6) [OF ok, of u s] by (auto split: if_splits)
  next
    fix u v s
    assume "(if u = t then Some al else owner (pc u)) = Some s" "(if v = t then Some al else owner (pc v)) = Some s"
    then show "u = v" using gslots_okD(8) [OF ok, of u s v] fresh(2) by (auto split: if_splits)
  qed (use gslots_okD(1,2,3,4) [OF ok] fresh in \<open>auto simp: less_Suc_eq\<close>)
qed

lemma gslots_ok_pop:
  assumes ok: "gslots_ok B sl al pc" and e: "we_slot e \<in> B" and none: "hand (pc t) = None" "owner (pc t) = None"
  shows "gslots_ok (B - {we_slot e}) sl al (\<lambda>u. if u = t then DrainClaim k e else pc u)"
proof -
  have hands: "hand (if u = t then DrainClaim k e else pc u) = (if u = t then Some (we_slot e) else hand (pc u))" for u by simp
  have owners: "owner (if u = t then DrainClaim k e else pc u) = owner (pc u)" for u using none by simp
  show ?thesis
  proof (rule gslots_okI, unfold hands owners)
    fix u s
    assume "(if u = t then Some (we_slot e) else hand (pc u)) = Some s"
    then show "s < al \<and> s \<notin> B - {we_slot e}" using gslots_okD(1-3) [OF ok] e by (auto split: if_splits)
  next
    fix u v s
    assume "(if u = t then Some (we_slot e) else hand (pc u)) = Some s" "(if v = t then Some (we_slot e) else hand (pc v)) = Some s"
    then show "u = v" using gslots_okD(3,4) [OF ok] e by (auto split: if_splits)
  next
    fix u s
    assume "owner (pc u) = Some s" "\<not> sl s" "s \<notin> B - {we_slot e}"
    then consider "s = we_slot e" | v where "v \<noteq> t" "hand (pc v) = Some s"
      using gslots_okD(7) [OF ok] none by (metis Diff_iff empty_iff insert_iff option.discI)
    then show "\<exists>v. (if v = t then Some (we_slot e) else hand (pc v)) = Some s" by cases auto
  qed (use gslots_okD(1,5,6,8) [OF ok] in auto)
qed

lemma gslots_ok_own:
  assumes ok: "gslots_ok B sl al pc" and own: "owner (pc t) = Some s" and none: "hand p = None" "owner p = None"
  shows "gslots_ok B (sl(s := True)) al (\<lambda>u. if u = t then p else pc u)"
proof -
  have "hand (pc t) = None" using own by (cases "pc t") auto
  then have hands: "hand (if u = t then p else pc u) = hand (pc u)" for u using none by simp
  have owners: "owner (if u = t then p else pc u) = Some s' \<Longrightarrow> owner (pc u) = Some s' \<and> s' \<noteq> s" for u s'
    using none gslots_okD(8) [OF ok own] by (auto split: if_splits)
  show ?thesis
    by (rule gslots_okI, unfold hands) (use gslots_okD [OF ok] owners in \<open>metis fun_upd_apply\<close>)+
qed

lemma gslots_ok_claim:
  assumes ok: "gslots_ok B sl al pc" and held: "hand (pc t) = Some s" and none: "hand p = None" "owner p = None"
  shows "gslots_ok B (sl(s := True)) al (\<lambda>u. if u = t then p else pc u)"
proof -
  have hands: "hand (if u = t then p else pc u) = (if u = t then None else hand (pc u))" for u using none by simp
  have "owner (pc t) = None" using held by (cases "pc t") auto
  then have owners: "owner (if u = t then p else pc u) = owner (pc u)" for u using none by simp
  show ?thesis
  proof (rule gslots_okI, unfold hands owners)
    fix u s'
    assume "owner (pc u) = Some s'" "\<not> (sl(s := True)) s'" "s' \<notin> B"
    then obtain v where "hand (pc v) = Some s'" "s' \<noteq> s" using gslots_okD(7) [OF ok] by (metis fun_upd_apply)
    then show "\<exists>v. (if v = t then None else hand (pc v)) = Some s'" using held by (intro exI [of _ v]) auto
  next
    fix u s'
    assume "owner (pc u) = Some s'"
    then show "s' < al \<and> (s' \<in> B \<longrightarrow> \<not> (sl(s := True)) s')" using gslots_okD(3,5,6) [OF ok] held by auto
  qed (use gslots_okD(1-4,8) [OF ok] in \<open>auto split: if_splits\<close>)
qed

text \<open>A waiter is published with a fresh slot; a bucket that is not empty gives its front.\<close>

lemma publish_fields:
  assumes "park_publish task pool clear_idle g = (slot, g')" "length (wait_buckets g) = PRIORITY_BUCKETS"
  shows "slot = slot_alloc g" "slots g' = (slots g)(slot_alloc g := False)" "slot_alloc g' = Suc (slot_alloc g)"
    "tokens g' = tokens g" "running g' = running g" "queue g' = queue g" "handles g' = handles g"
    "handle_alloc g' = handle_alloc g" "slow_pending g' = slow_pending g" "concurrency g' = concurrency g"
    "length (wait_buckets g') = PRIORITY_BUCKETS"
    "mset (parked g') = add_mset \<lparr>we_task = task, we_pool = pool, we_clear_idle = clear_idle, we_slot = slot_alloc g\<rparr> (mset (parked g))"
  using assms mset_concat_push [of "priority_index (t_priority task)" "wait_buckets g"]
  by (auto simp: parked_def park_publish_def log_event_def Let_def split: option.splits)

lemma publish_slot_inv:
  assumes "slot_inv g pc" "hand (pc t) = None" "owner (pc t) = None" "park_publish task pool clear_idle g = (slot, g')"
  shows "slot_inv g' (\<lambda>u. if u = t then ParkSub slot else pc u)"
proof -
  have len: "length (wait_buckets g) = PRIORITY_BUCKETS" using assms(1) by (simp add: slot_inv_def buckets_ok_def)
  note f = publish_fields [OF assms(4) len]
  have slots: "gslots_ok (bucket_slots g) (slots g) (slot_alloc g) pc" using assms(1) by (simp add: slot_inv_def)
  have set: "bucket_slots g' = insert (slot_alloc g) (bucket_slots g)"
    using arg_cong [OF f(12), of set_mset] by (simp add: bucket_slots_def)
  have "mset (map we_slot (parked g')) = mset (slot_alloc g # map we_slot (parked g))" unfolding mset_map f(12) by simp
  moreover have "slot_alloc g \<notin> bucket_slots g" using gslots_okD(1) [OF slots] by blast
  then have "distinct (slot_alloc g # map we_slot (parked g))"
    using assms(1) by (simp add: slot_inv_def buckets_ok_def bucket_slots_def)
  ultimately have "distinct (map we_slot (parked g'))" using distinct_mset_cong by blast
  then show ?thesis
    using gslots_ok_publish [OF slots assms(2,3)] f(11) unfolding slot_inv_def buckets_ok_def set f(1-3) by simp
qed

lemma pop_concat:
  assumes "b < length bs" "bs ! b = e # es"
  shows "mset (concat bs) = add_mset e (mset (concat (bs[b := es])))"
  using assms
proof (induction bs arbitrary: b)
  case (Cons c cs)
  then show ?case by (cases b) auto
qed simp

lemma pop_slot_inv:
  assumes "slot_inv g pc" "hand (pc t) = None" "owner (pc t) = None" "b < PRIORITY_BUCKETS" "wait_buckets g ! b = e # es"
  shows "slot_inv (g\<lparr>wait_buckets := (wait_buckets g)[b := es]\<rparr>) (\<lambda>u. if u = t then DrainClaim k e else pc u)"
    and "bucket_slots (g\<lparr>wait_buckets := (wait_buckets g)[b := es]\<rparr>) = bucket_slots g - {we_slot e}"
    and "we_slot e \<in> bucket_slots g" "e \<in> set (parked g)"
proof -
  let ?g = "g\<lparr>wait_buckets := (wait_buckets g)[b := es]\<rparr>"
  have ok: "buckets_ok g" "gslots_ok (bucket_slots g) (slots g) (slot_alloc g) pc" using assms(1) by (auto simp: slot_inv_def)
  have m: "mset (parked g) = add_mset e (mset (parked ?g))"
    using ok(1) assms(4) pop_concat [OF _ assms(5)] by (simp add: parked_def buckets_ok_def)
  have sl: "mset (map we_slot (parked g)) = mset (we_slot e # map we_slot (parked ?g))" unfolding mset_map m by simp
  then have "distinct (we_slot e # map we_slot (parked ?g))"
    using ok(1) distinct_mset_cong [OF sl] by (simp add: buckets_ok_def)
  then have dist: "we_slot e \<notin> bucket_slots ?g" "distinct (map we_slot (parked ?g))" by (auto simp: bucket_slots_def)
  have p: "set (parked g) = insert e (set (parked ?g))" using arg_cong [OF m, of set_mset] by simp
  then show set: "bucket_slots ?g = bucket_slots g - {we_slot e}" and mem: "we_slot e \<in> bucket_slots g" "e \<in> set (parked g)"
    using dist(1) by (auto simp: bucket_slots_def)
  show "slot_inv ?g (\<lambda>u. if u = t then DrainClaim k e else pc u)"
    using gslots_ok_pop [OF ok(2) mem(1) assms(2,3)] ok(1) dist(2) unfolding slot_inv_def buckets_ok_def set by simp
qed

lemma slot_inv_frame:
  assumes "slot_inv g pc" "hand p = hand (pc t)" "owner p = None \<or> owner p = owner (pc t)"
    "wait_buckets g' = wait_buckets g" "slots g' = slots g" "slot_alloc g' = slot_alloc g"
  shows "slot_inv g' (\<lambda>u. if u = t then p else pc u)"
proof -
  have "bucket_slots g' = bucket_slots g" "buckets_ok g' = buckets_ok g"
    using assms(4) by (simp_all add: bucket_slots_def buckets_ok_def parked_def)
  then show ?thesis using assms gslots_ok_frame [of "bucket_slots g" "slots g" "slot_alloc g" pc p t] by (simp add: slot_inv_def)
qed

lemma slot_inv_slots:
  assumes "gslots_ok (bucket_slots g) sl (slot_alloc g) pc'" "buckets_ok g"
  shows "slot_inv (g\<lparr>slots := sl\<rparr>) pc'"
  using assms by (simp add: slot_inv_def bucket_slots_def buckets_ok_def parked_def)

lemmas access_fields = add_tokens_def make_running_lock_def log_event_def notify_handles_def notify_slow_path_eq
  drop_registration_frame group_insert_def set_locked_def Let_def split_beta

lemma finish_pc_free [simp]:
  "hand (finish_pc k) = None" "owner (finish_pc k) = None" "handle_of (finish_pc k) = None"
  by (cases k; simp)+

fun on_slots :: "'p gpc \<Rightarrow> bool" where
  "on_slots (ParkPublish q) \<longleftrightarrow> True"
| "on_slots (ParkClaim s prev) \<longleftrightarrow> True"
| "on_slots (DrainScan k b) \<longleftrightarrow> True"
| "on_slots (DrainClaim k e) \<longleftrightarrow> True"
| "on_slots _ \<longleftrightarrow> False"

lemma access_off_slots:
  assumes "access p g = (p', g')" "\<not> on_slots p"
  shows "hand p' = hand p" "owner p' = None \<or> owner p' = owner p" "wait_buckets g' = wait_buckets g"
    "slots g' = slots g" "slot_alloc g' = slot_alloc g"
  using assms by (cases p; auto simp: access_fields split: if_splits option.splits)+

lemma slot_inv_access:
  assumes "slot_inv g pc" "access (pc t) g = (p, g')"
  shows "slot_inv g' (\<lambda>u. if u = t then p else pc u)"
proof -
  have ok: "buckets_ok g" "gslots_ok (bucket_slots g) (slots g) (slot_alloc g) pc" using assms(1) by (auto simp: slot_inv_def)
  note frame = slot_inv_frame [OF assms(1), of p t g']
  have off: ?thesis if "\<not> on_slots (pc t)" using frame access_off_slots [OF assms(2) that] by simp
  show ?thesis
  proof (cases "pc t")
    case (ParkPublish q)
    obtain task pool clear_idle where q: "q = (task, pool, clear_idle)" by (cases q)
    obtain slot g1 where "park_publish task pool clear_idle g = (slot, g1)" by fastforce
    then show ?thesis using publish_slot_inv [OF assms(1), of t] assms(2) ParkPublish q by auto
  next
    case (ParkClaim slot prev)
    then show ?thesis using gslots_ok_own [OF ok(2), of t slot p] assms(2) ok(1) by (auto intro!: slot_inv_slots split: if_splits)
  next
    case (DrainClaim k e)
    then show ?thesis using gslots_ok_claim [OF ok(2), of t "we_slot e" p] assms(2) ok(1) by (auto intro!: slot_inv_slots)
  next
    case (DrainScan k b)
    show ?thesis
    proof (cases "b < PRIORITY_BUCKETS \<and> wait_buckets g ! b \<noteq> []")
      case True
      then obtain e es where "wait_buckets g ! b = e # es" by (cases "wait_buckets g ! b") auto
      then show ?thesis using pop_slot_inv(1) [OF assms(1), of t b e es] True DrainScan assms(2) by auto
    next
      case False
      then show ?thesis using frame DrainScan assms(2) by (auto split: if_splits list.splits)
    qed
  qed (use off in simp_all)
qed

section \<open>The locks\<close>

text \<open>Where a thread relies on a handle not being locked; what it adds to \<open>slow_pending\<close> beyond the queue.\<close>

fun sees_unlocked :: "'p gpc \<Rightarrow> nat option" where
  "sees_unlocked (LockScan h) = Some h"
| "sees_unlocked (LockTake h) = Some h"
| "sees_unlocked (UnlockErase h was_locked prev) = Some h"
| "sees_unlocked _ = None"

fun slow_share :: "'p gpc \<Rightarrow> int" where
  "slow_share (SlowInsert i p) = 1"
| "slow_share (UnlockCount removed was_locked prev ns) = (if removed then 1 else 0)"
| "slow_share _ = 0"

definition lock_inv :: "'p group \<Rightarrow> (nat \<Rightarrow> 'p gpc) \<Rightarrow> bool" where
  "lock_inv g pc \<longleftrightarrow> distinct (queue g) \<and> (\<forall>h \<in> set (queue g). h < handle_alloc g)
     \<and> (\<forall>t h. handle_of (pc t) = Some h \<longrightarrow> h \<in> set (queue g))
     \<and> (\<forall>t u h. handle_of (pc t) = Some h \<and> handle_of (pc u) = Some h \<longrightarrow> t = u)
     \<and> (\<forall>t h. sees_unlocked (pc t) = Some h \<longrightarrow> \<not> lh_locked (handles g h))"

lemma sees_unlocked_handle: "sees_unlocked p = Some h \<Longrightarrow> handle_of p = Some h"
  by (cases p) auto

lemma finish_pc_slow [simp]: "sees_unlocked (finish_pc k) = None" "slow_share (finish_pc k) = 0"
  by (cases k; simp)+

lemma lock_invD:
  assumes "lock_inv g pc"
  shows "distinct (queue g)" "h \<in> set (queue g) \<Longrightarrow> h < handle_alloc g"
    "handle_of (pc t) = Some h \<Longrightarrow> h \<in> set (queue g)"
    "handle_of (pc t) = Some h \<Longrightarrow> handle_of (pc u) = Some h \<Longrightarrow> t = u"
    "sees_unlocked (pc t) = Some h \<Longrightarrow> \<not> lh_locked (handles g h)"
  using assms unfolding lock_inv_def by metis+

lemma lock_inv_move:
  assumes inv: "lock_inv g pc" and q: "distinct (queue g')" "handle_alloc g \<le> handle_alloc g'"
    and new: "\<And>h. h \<in> set (queue g') \<Longrightarrow> h \<in> set (queue g) \<or> h < handle_alloc g'"
    and kept: "\<And>h. h \<in> set (queue g) \<Longrightarrow> h \<in> set (queue g') \<or> handle_of (pc t) = Some h"
    and flags: "\<And>h. h \<in> set (queue g) \<Longrightarrow> handle_of (pc t) \<noteq> Some h \<Longrightarrow> lh_locked (handles g' h) = lh_locked (handles g h)"
    and p: "\<And>h. handle_of p = Some h \<Longrightarrow> h \<in> set (queue g') \<and> (handle_of (pc t) = Some h \<or> (\<forall>u. handle_of (pc u) \<noteq> Some h))"
      "\<And>h. sees_unlocked p = Some h \<Longrightarrow> \<not> lh_locked (handles g' h)"
  shows "lock_inv g' (\<lambda>u. if u = t then p else pc u)"
proof -
  note D = lock_invD [OF inv]
  have "h < handle_alloc g'" if "h \<in> set (queue g')" for h using new [OF that] D(2) q(2) by fastforce
  moreover have "h \<in> set (queue g')" if "handle_of (if u = t then p else pc u) = Some h" for u h
    using that p(1) kept D(3,4) by (metis (full_types))
  moreover have "u = v" if "handle_of (if u = t then p else pc u) = Some h" "handle_of (if v = t then p else pc v) = Some h" for u v h
    using that p(1) D(4) by (metis (full_types))
  moreover have "\<not> lh_locked (handles g' h)" if "sees_unlocked (if u = t then p else pc u) = Some h" for u h
  proof (cases "u = t")
    case False
    then have s: "sees_unlocked (pc u) = Some h" using that by simp
    then have "handle_of (pc u) = Some h" by (rule sees_unlocked_handle)
    then show ?thesis using flags [of h] D(3,4,5) s False by metis
  qed (use that p(2) in simp)
  ultimately show ?thesis using q(1) unfolding lock_inv_def by blast
qed

fun on_locks :: "'p gpc \<Rightarrow> bool" where
  "on_locks (SlowInsert i p) \<longleftrightarrow> True"
| "on_locks (LockSee h) \<longleftrightarrow> True"
| "on_locks (LockTake h) \<longleftrightarrow> True"
| "on_locks (UnlockGive h) \<longleftrightarrow> True"
| "on_locks (UnlockErase h was_locked prev) \<longleftrightarrow> True"
| "on_locks _ \<longleftrightarrow> False"

lemma access_off_locks_pc:
  assumes "access p g = (p', g')" "\<not> on_locks p"
  shows "(handle_of p' = None \<or> handle_of p' = handle_of p) \<and> (sees_unlocked p' = None \<or> sees_unlocked p' = sees_unlocked p)"
  using assms by (cases p) (auto simp: Let_def split_beta split: if_splits option.splits list.splits)

lemma access_off_locks:
  assumes "access p g = (p', g')" "\<not> on_locks p"
  shows "queue g' = queue g \<and> handle_alloc g' = handle_alloc g \<and> lh_locked (handles g' h) = lh_locked (handles g h)"
  using assms by (cases p) (auto simp: access_fields park_publish_def collect_notify_frame split: if_splits option.splits list.splits)

lemma insert_fields:
  shows "queue (group_insert i p g) = insert_lower (\<lambda>a b. handle_key (((handles g)(handle_alloc g :=
      \<lparr>lh_task_id = i, lh_priority = p, lh_locked = False, lh_notified = False\<rparr>)) a) < handle_key (((handles g)(handle_alloc g :=
      \<lparr>lh_task_id = i, lh_priority = p, lh_locked = False, lh_notified = False\<rparr>)) b)) (handle_alloc g) (queue g)"
    "handle_alloc (group_insert i p g) = Suc (handle_alloc g)"
    "lh_locked (handles (group_insert i p g) h) = (h \<noteq> handle_alloc g \<and> lh_locked (handles g h))"
  by (simp_all add: group_insert_def Let_def clear_notified_frame)

lemma distinct_insert_lower: "distinct (insert_lower lt x xs) \<longleftrightarrow> x \<notin> set xs \<and> distinct xs"
proof -
  have "distinct (insert_lower lt x xs) \<longleftrightarrow> distinct (x # xs)" by (rule distinct_mset_cong) (simp add: mset_insert_lower)
  then show ?thesis by simp
qed

lemma lock_inv_access:
  assumes inv: "lock_inv g pc" and step: "access (pc t) g = (p, g')"
  shows "lock_inv g' (\<lambda>u. if u = t then p else pc u)"
proof (cases "on_locks (pc t)")
  case False
  note pcs = access_off_locks_pc [OF step False] and same = access_off_locks [OF step False]
  show ?thesis
    by (rule lock_inv_move [OF inv]) (use pcs same lock_invD [OF inv] in \<open>auto\<close>)
next
  case True
  note D = lock_invD [OF inv]
  show ?thesis
  proof (cases "pc t")
    case (SlowInsert i q)
    then have "g' = group_insert i q g" "p = Ready" using step by auto
    moreover have "handle_alloc g \<notin> set (queue g)" using D(2) by blast
    ultimately show ?thesis
      using D(1,2) by (intro lock_inv_move [OF inv]) (auto simp: insert_fields distinct_insert_lower less_Suc_eq)
  next
    case (LockSee h)
    then show ?thesis using step D D(3) [of t h] by (intro lock_inv_move [OF inv]) (auto split: if_splits)
  next
    case (LockTake h)
    then show ?thesis using step D by (intro lock_inv_move [OF inv]) (auto simp: access_fields)
  next
    case (UnlockGive h)
    then show ?thesis using step D D(3) [of t h] by (intro lock_inv_move [OF inv]) (auto simp: access_fields split: if_splits)
  next
    case (UnlockErase h was prev)
    then show ?thesis using step D
      by (intro lock_inv_move [OF inv]) (auto simp: access_fields collect_notify_frame)
  qed (use True in simp_all)
qed

section \<open>Sums over the threads\<close>

lemma sum_at:
  fixes f :: "'b \<Rightarrow> int" and t n :: nat
  assumes "t < n"
  shows "(\<Sum>u<n. f (if u = t then p else pc u)) = (\<Sum>u<n. f (pc u)) - f (pc t) + f p"
proof -
  have split: "(\<Sum>u<n. h u) = h t + (\<Sum>u \<in> {..<n} - {t}. h u)" for h :: "nat \<Rightarrow> int"
    using assms by (intro sum.remove) auto
  have "(\<Sum>u \<in> {..<n} - {t}. f (if u = t then p else pc u)) = (\<Sum>u \<in> {..<n} - {t}. f (pc u))"
    by (rule sum.cong) auto
  then show ?thesis using split [of "\<lambda>u. f (if u = t then p else pc u)"] split [of "\<lambda>u. f (pc u)"] by simp
qed

definition slow_inv :: "nat \<Rightarrow> 'p group \<Rightarrow> (nat \<Rightarrow> 'p gpc) \<Rightarrow> bool" where
  "slow_inv n g pc \<longleftrightarrow> slow_pending g = int (length (queue g)) + (\<Sum>t<n. slow_share (pc t))"

lemma slow_share_access:
  assumes "access p g = (p', g')" "\<And>h. handle_of p = Some h \<Longrightarrow> h \<in> set (queue g)"
  shows "slow_pending g' - int (length (queue g')) - slow_share p' = slow_pending g - int (length (queue g)) - slow_share p"
proof (cases p)
  case (UnlockErase h was prev)
  then have mem: "h \<in> set (queue g)" using assms(2) by simp
  then have "int (length (remove1 h (queue g))) = int (length (queue g)) - 1"
    using length_pos_if_in_set [OF mem] by (simp add: length_remove1 of_nat_diff Suc_le_eq)
  then show ?thesis using UnlockErase assms by (auto simp: access_fields)
qed (use assms in \<open>auto simp: access_fields park_publish_def split: if_splits option.splits list.splits\<close>)

lemma slow_inv_access:
  assumes "slow_inv n g pc" "lock_inv g pc" "t < n" "access (pc t) g = (p, g')"
  shows "slow_inv n g' (\<lambda>u. if u = t then p else pc u)"
proof -
  have "slow_pending g' - int (length (queue g')) - slow_share p = slow_pending g - int (length (queue g)) - slow_share (pc t)"
    using lock_invD(3) [OF assms(2)] by (intro slow_share_access [OF assms(4)]) blast
  then show ?thesis using assms(1) unfolding slow_inv_def sum_at [OF assms(3)] by simp
qed

section \<open>The accounting\<close>

text \<open>
  \<open>debt\<close> is what a thread owes the equation between two of its accesses: a token it holds is -1, one it has still to
  take for a task it started is 1.
\<close>

fun debt :: "'p gpc \<Rightarrow> int" where
  "debt (TrySlowAgain q) = - 1"
| "debt (TryRun q) = - 1"
| "debt (ReleaseAdd k) = - 1"
| "debt (ParkSlow s prev) = - 1"
| "debt (ParkClaim s prev) = - 1"
| "debt (DrainSubmit k e uncounted) = (if uncounted then 0 else - 1)"
| "debt (DrainPay k uncounted) = (if uncounted then 1 else 0)"
| "debt _ = 0"

lemma debt_finish [simp]: "debt (finish_pc k) = 0"
  by (cases k) simp_all

definition hands :: "(nat \<Rightarrow> 'p gpc) \<Rightarrow> nat set" where
  "hands pc = {s. \<exists>t. hand (pc t) = Some s}"

text \<open>The waiters, in a bucket or taken out of one, that have made their decrement.\<close>

definition reserved :: "'p group \<Rightarrow> (nat \<Rightarrow> 'p gpc) \<Rightarrow> nat set" where
  "reserved g pc = {s \<in> bucket_slots g \<union> hands pc. slots g s}"

definition balance :: "'p group \<Rightarrow> (nat \<Rightarrow> 'p gpc) \<Rightarrow> int" where
  "balance g pc = tokens g + running g + locked g + int (card (reserved g pc)) - concurrency g"

definition account_inv :: "nat \<Rightarrow> 'p group \<Rightarrow> (nat \<Rightarrow> 'p gpc) \<Rightarrow> bool" where
  "account_inv n g pc \<longleftrightarrow> balance g pc = (\<Sum>t<n. debt (pc t))"

lemma hands_same: "hand p = hand (pc t) \<Longrightarrow> hands (\<lambda>u. if u = t then p else pc u) = hands pc"
  by (auto simp: hands_def)

lemma hands_take:
  assumes "hand (pc t) = None" "hand p = Some s"
  shows "hands (\<lambda>u. if u = t then p else pc u) = insert s (hands pc)"
proof -
  have "(\<exists>u. hand (if u = t then p else pc u) = Some x) \<longleftrightarrow> x = s \<or> (\<exists>u. hand (pc u) = Some x)" for x
    using assms by (metis option.discI option.inject)
  then show ?thesis unfolding hands_def by auto
qed

lemma hands_drop:
  assumes ok: "gslots_ok B sl al pc" and held: "hand (pc t) = Some s" and none: "hand p = None"
  shows "hands (\<lambda>u. if u = t then p else pc u) = hands pc - {s}"
proof -
  have "(\<exists>u. hand (if u = t then p else pc u) = Some x) \<longleftrightarrow> x \<noteq> s \<and> (\<exists>u. hand (pc u) = Some x)" for x
    using gslots_okD(4) [OF ok held] held none by (metis option.discI option.inject)
  then show ?thesis unfolding hands_def by auto
qed

lemma reserved_finite: "slot_inv g pc \<Longrightarrow> finite (reserved g pc)"
  by (rule finite_subset [of _ "{..<slot_alloc g}"])
    (auto simp: reserved_def hands_def slot_inv_def dest: gslots_okD(1,2))

lemma access_off_tokens:
  assumes "access p g = (p', g')" "\<not> on_slots p" "\<not> on_locks p"
  shows "tokens g' + running g' - debt p' = tokens g + running g - debt p \<and> concurrency g' = concurrency g"
  using assms by (cases p) (auto simp: access_fields split: if_splits option.splits)

lemma locked_erase:
  assumes "distinct (queue g)" "\<not> lh_locked (handles g h)" "\<And>k. lh_locked (handles g' k) = lh_locked (handles g k)"
    "queue g' = remove1 h (queue g)"
  shows "locked g' = locked g"
proof (cases "h \<in> set (queue g)")
  case True
  then have m: "mset (queue g) = mset (h # remove1 h (queue g))" by simp
  have "locked g = sum_list (map (\<lambda>x. if lh_locked (handles g x) then 1 else 0) (h # remove1 h (queue g)))"
    unfolding locked_def by (rule sum_list_mset_cong [OF m])
  then show ?thesis using assms(2) by (simp add: locked_def assms(3,4))
next
  case False
  then show ?thesis by (simp add: locked_def assms(3,4) remove1_idem)
qed

lemma locked_insert:
  assumes "handle_alloc g \<notin> set (queue g)"
  shows "locked (group_insert i p g) = locked g"
proof -
  let ?g = "group_insert i p g"
  have m: "mset (queue ?g) = mset (handle_alloc g # queue g)" by (simp add: insert_fields mset_insert_lower)
  have "locked ?g = sum_list (map (\<lambda>h. if lh_locked (handles ?g h) then 1 else 0) (handle_alloc g # queue g))"
    unfolding locked_def by (rule sum_list_mset_cong [OF m])
  also have "\<dots> = locked g"
    unfolding locked_def using assms by (simp add: insert_fields) (rule sum_list_cong, auto)
  finally show ?thesis .
qed

lemma set_locked_fields:
  "tokens (set_locked h b g) = tokens g" "running (set_locked h b g) = running g" "concurrency (set_locked h b g) = concurrency g"
  by (simp_all add: set_locked_def)

lemma locked_set:
  assumes "distinct (queue g)" "h \<in> set (queue g)"
  shows "locked (set_locked h b g) = locked g - (if lh_locked (handles g h) then 1 else 0) + (if b then 1 else 0)"
  unfolding set_locked_def by (rule locked_update [OF assms])

lemma balance_frame:
  assumes "bucket_slots g' = bucket_slots g" "slots g' = slots g" "hand p = hand (pc t)"
    "tokens g' + running g' + locked g' - debt p = tokens g + running g + locked g - debt (pc t)" "concurrency g' = concurrency g"
  shows "balance g' (\<lambda>u. if u = t then p else pc u) = balance g pc - debt (pc t) + debt p"
  using assms by (simp add: balance_def reserved_def hands_same)

lemma balance_access:
  assumes slot: "slot_inv g pc" and lock: "lock_inv g pc" and step: "access (pc t) g = (p, g')"
  shows "balance g' (\<lambda>u. if u = t then p else pc u) = balance g pc - debt (pc t) + debt p"
proof -
  have ok: "buckets_ok g" "gslots_ok (bucket_slots g) (slots g) (slot_alloc g) pc" using slot by (auto simp: slot_inv_def)
  note fin = reserved_finite [OF slot] and D = lock_invD [OF lock]
  have frame: ?thesis if "\<not> on_slots (pc t)" "tokens g' + running g' + locked g' - debt p = tokens g + running g + locked g - debt (pc t)"
    "concurrency g' = concurrency g"
    using access_off_slots [OF step that(1)] that by (intro balance_frame) (auto simp: bucket_slots_def parked_def)
  show ?thesis
  proof (cases "pc t")
    case (ParkPublish q)
    obtain task pool clear_idle where q: "q = (task, pool, clear_idle)" by (cases q)
    obtain slot where pub: "park_publish task pool clear_idle g = (slot, g')" "p = ParkSub slot"
      using step ParkPublish q by (cases "park_publish task pool clear_idle g") auto
    have "length (wait_buckets g) = PRIORITY_BUCKETS" using ok(1) by (simp add: buckets_ok_def)
    note f = publish_fields [OF pub(1) this]
    have "bucket_slots g' = insert (slot_alloc g) (bucket_slots g)"
      using arg_cong [OF f(12), of set_mset] by (simp add: bucket_slots_def)
    moreover have "slot_alloc g \<notin> bucket_slots g \<union> hands pc" using gslots_okD(1,2) [OF ok(2)] by (auto simp: hands_def)
    moreover have "hands (\<lambda>u. if u = t then p else pc u) = hands pc" using ParkPublish pub(2) by (intro hands_same) simp
    ultimately have "reserved g' (\<lambda>u. if u = t then p else pc u) = reserved g pc" by (auto simp: reserved_def f(2))
    then show ?thesis using ParkPublish pub(2) f by (simp add: balance_def locked_def)
  next
    case (ParkClaim s prev)
    have g': "g' = g\<lparr>slots := (slots g)(s := True)\<rparr>" and p: "hand p = None" "debt p = (if slots g s then - 1 else 0)"
      using step ParkClaim by auto
    have "hands (\<lambda>u. if u = t then p else pc u) = hands pc" using ParkClaim p(1) by (intro hands_same) simp
    moreover have b: "bucket_slots g' = bucket_slots g" using g' by (simp add: bucket_slots_def parked_def)
    moreover have "s \<in> bucket_slots g \<union> hands pc" if "\<not> slots g s"
      using gslots_okD(7) [OF ok(2), of t s] ParkClaim that by (auto simp: hands_def)
    ultimately have "reserved g' (\<lambda>u. if u = t then p else pc u) = (if slots g s then reserved g pc else insert s (reserved g pc))"
      using g' by (auto simp: reserved_def)
    moreover have "s \<notin> reserved g pc" if "\<not> slots g s" using that by (simp add: reserved_def)
    ultimately have "card (reserved g' (\<lambda>u. if u = t then p else pc u)) = card (reserved g pc) + (if slots g s then 0 else 1)"
      using fin by simp
    then show ?thesis using ParkClaim p(2) g' by (simp add: balance_def locked_def)
  next
    case (DrainScan k b)
    show ?thesis
    proof (cases "b < PRIORITY_BUCKETS \<and> wait_buckets g ! b \<noteq> []")
      case True
      then obtain e es where e: "wait_buckets g ! b = e # es" by (cases "wait_buckets g ! b") auto
      have g': "g' = g\<lparr>wait_buckets := (wait_buckets g)[b := es]\<rparr>" "p = DrainClaim k e" using step DrainScan True e by auto
      have "hands (\<lambda>u. if u = t then p else pc u) = insert (we_slot e) (hands pc)" using DrainScan g' by (intro hands_take) auto
      moreover note pop_slot_inv [OF slot, of t b e es] DrainScan True e
      ultimately have "reserved g' (\<lambda>u. if u = t then p else pc u) = reserved g pc" using g' by (auto simp: reserved_def)
      then show ?thesis using DrainScan g' by (simp add: balance_def locked_def)
    next
      case False
      then have "g' = g" "hand p = None" "debt p = 0" using DrainScan step by (auto split: if_splits list.splits)
      then show ?thesis using DrainScan by (intro balance_frame) auto
    qed
  next
    case (DrainClaim k e)
    let ?s = "we_slot e"
    have g': "g' = g\<lparr>slots := (slots g)(?s := True)\<rparr>" and p: "p = DrainSubmit k e (\<not> slots g ?s)" using step DrainClaim by auto
    have "hands (\<lambda>u. if u = t then p else pc u) = hands pc - {?s}" using DrainClaim p by (intro hands_drop [OF ok(2)]) auto
    moreover have b: "bucket_slots g' = bucket_slots g" using g' by (simp add: bucket_slots_def parked_def)
    moreover have "?s \<notin> bucket_slots g" "?s \<in> hands pc" using gslots_okD(3) [OF ok(2), of t ?s] DrainClaim by (auto simp: hands_def intro!: exI [of _ t])
    ultimately have set: "reserved g' (\<lambda>u. if u = t then p else pc u) = reserved g pc - {?s}" and "?s \<in> reserved g pc \<longleftrightarrow> slots g ?s"
      using g' by (auto simp: reserved_def)
    then have "int (card (reserved g' (\<lambda>u. if u = t then p else pc u))) = int (card (reserved g pc)) - (if slots g ?s then 1 else 0)"
      unfolding set using card_Suc_Diff1 [OF fin, of ?s] by (cases "slots g ?s") simp_all
    then show ?thesis using DrainClaim p g' by (simp add: balance_def locked_def)
  next
    case (SlowInsert i q)
    then have "g' = group_insert i q g" "p = Ready" using step by auto
    moreover have "handle_alloc g \<notin> set (queue g)" using D(2) by blast
    ultimately show ?thesis using locked_insert [of g i q] SlowInsert by (intro frame) (auto simp: group_insert_def Let_def)
  next
    case (LockTake h)
    then show ?thesis using step locked_set [OF D(1), of h True] D(3,5) [of t h]
      by (intro frame) (auto simp: add_tokens_frame set_locked_fields)
  next
    case (UnlockGive h)
    then show ?thesis using step locked_set [OF D(1), of h False] D(3) [of t h]
      by (intro frame) (auto simp: add_tokens_frame set_locked_fields split: if_splits)
  next
    case (UnlockErase h was prev)
    then have "locked g' = locked g"
      using step D(5) [of t h] by (intro locked_erase [OF D(1), of h]) (auto simp: access_fields collect_notify_frame)
    then show ?thesis using UnlockErase step by (intro frame) (auto simp: access_fields)
  next
    case (LockSee h)
    then show ?thesis using step by (intro frame) auto
  qed (use frame access_off_tokens [OF step] access_off_locks [OF step] locked_cong [of g' g] in simp_all)
qed

section \<open>Who will look at the buckets again\<close>

text \<open>
  A waiter is settled when its thread has passed the decrement. A thread works if what it does next ends in a start or
  a look at a settled waiter, or leaves another that does.
\<close>

definition settled_in :: "(nat \<Rightarrow> 'p gpc) \<Rightarrow> 'p wait_entry list \<Rightarrow> bool" where
  "settled_in pc es \<longleftrightarrow> (\<exists>e \<in> set es. \<forall>u. pc u \<noteq> ParkSub (we_slot e))"

fun works :: "'p group \<Rightarrow> (nat \<Rightarrow> 'p gpc) \<Rightarrow> 'p gpc \<Rightarrow> bool" where
  "works g pc (TrySlowAgain q) \<longleftrightarrow> True"
| "works g pc (TryRun q) \<longleftrightarrow> True"
| "works g pc (ParkSlow s prev) \<longleftrightarrow> True"
| "works g pc (ParkClaim s prev) \<longleftrightarrow> prev > 0 \<or> slots g s"
| "works g pc (ReleaseAdd k) \<longleftrightarrow> True"
| "works g pc (ReleaseSlow k) \<longleftrightarrow> True"
| "works g pc (DrainScan k b) \<longleftrightarrow> settled_in pc (concat (drop b (wait_buckets g)))"
| "works g pc (DrainClaim k e) \<longleftrightarrow> True"
| "works g pc (DrainSubmit k e uncounted) \<longleftrightarrow> True"
| "works g pc (UnlockDrain was_locked prev) \<longleftrightarrow> was_locked"
| "works g pc _ \<longleftrightarrow> False"

definition awake :: "'p group \<Rightarrow> (nat \<Rightarrow> 'p gpc) \<Rightarrow> bool" where
  "awake g pc \<longleftrightarrow> running g > 0 \<or> slow_pending g > 0 \<or> (\<exists>t. works g pc (pc t))"

text \<open>What the places know: a token was seen before the slow path is looked at, and a lock not locked is counted.\<close>

fun place_ok :: "nat \<Rightarrow> 'p gpc \<Rightarrow> bool" where
  "place_ok unused (ParkSlow s prev) \<longleftrightarrow> prev > 0"
| "place_ok unused (UnlockErase h was_locked prev) \<longleftrightarrow> was_locked \<or> unused > 0"
| "place_ok unused (UnlockCount removed was_locked prev ns) \<longleftrightarrow> was_locked \<or> unused > 0"
| "place_ok unused _ \<longleftrightarrow> True"

definition wake_inv :: "nat \<Rightarrow> 'p group \<Rightarrow> (nat \<Rightarrow> 'p gpc) \<Rightarrow> bool" where
  "wake_inv unused g pc \<longleftrightarrow> 0 \<le> running g \<and> (\<forall>t. place_ok unused (pc t))
     \<and> (unused = 0 \<longrightarrow> settled_in pc (parked g) \<longrightarrow> awake g pc)"

lemma settled_in_same:
  assumes "\<And>s. pc t \<noteq> ParkSub s" "\<And>s. p \<noteq> ParkSub s"
  shows "settled_in (\<lambda>u. if u = t then p else pc u) es = settled_in pc es"
  using assms unfolding settled_in_def by (metis (full_types))

lemma settled_in_more:
  assumes "settled_in pc es" "set es \<subseteq> set es'" "\<And>e. e \<in> set es \<Longrightarrow> p \<noteq> ParkSub (we_slot e)"
  shows "settled_in (\<lambda>u. if u = t then p else pc u) es'"
  using assms unfolding settled_in_def by (metis (full_types) subsetD)

lemma awake_others:
  assumes awake: "awake g pc" and idle: "\<not> works g pc (pc t)"
    and more: "running g \<le> running g'" "slow_pending g \<le> slow_pending g'" "\<And>u s. owner (pc u) = Some s \<Longrightarrow> slots g s \<Longrightarrow> slots g' s"
      "\<And>b. settled_in pc (concat (drop b (wait_buckets g))) \<Longrightarrow> settled_in (\<lambda>u. if u = t then p else pc u) (concat (drop b (wait_buckets g')))"
  shows "awake g' (\<lambda>u. if u = t then p else pc u)"
proof -
  have keeps: "works g pc (pc u) \<Longrightarrow> works g' (\<lambda>u. if u = t then p else pc u) (pc u)" for u
    using more(3) [of u] more(4) by (cases "pc u") auto
  consider "running g > 0" | "slow_pending g > 0" | u where "u \<noteq> t" "works g pc (pc u)"
    using awake idle unfolding awake_def by metis
  then show ?thesis
  proof cases
    case 3
    then have "works g' (\<lambda>u. if u = t then p else pc u) ((\<lambda>u. if u = t then p else pc u) u)" using keeps by simp
    then show ?thesis unfolding awake_def by blast
  qed (use more(1,2) in \<open>auto simp: awake_def\<close>)
qed

lemma awake_self: "works g' (\<lambda>u. if u = t then p else pc u) p \<Longrightarrow> awake g' (\<lambda>u. if u = t then p else pc u)"
  unfolding awake_def by (intro disjI2 exI [of _ t]) simp

lemma slow_share_sum: "0 \<le> (\<Sum>t<n. slow_share (pc t))"
proof (rule sum_nonneg)
  show "0 \<le> slow_share (pc t)" for t by (cases "pc t") auto
qed

lemma slow_inv_nonneg: "slow_inv n g pc \<Longrightarrow> 0 \<le> slow_pending g"
  using slow_share_sum [of pc n] by (simp add: slow_inv_def)

lemma slow_inv_queue: "slow_inv n g pc \<Longrightarrow> slow_pending g \<le> 0 \<Longrightarrow> queue g = []"
proof -
  assume "slow_inv n g pc" "slow_pending g \<le> 0"
  then have "int (length (queue g)) \<le> 0" using slow_share_sum [of pc n] unfolding slow_inv_def by linarith
  then show "queue g = []" by simp
qed

text \<open>A waiter that finds no token when it makes its decrement leaves the look at the buckets to another.\<close>

lemma awake_park:
  assumes at: "pc t = ParkSub s" "tokens g \<le> 0" "0 < concurrency g" "0 \<le> running g"
    and slot: "slot_inv g pc" and slow: "slow_inv n g pc" and acct: "account_inv n g pc"
    and wake: "settled_in pc (parked g) \<Longrightarrow> awake g pc"
  shows "awake (add_tokens (- 1) g) (\<lambda>u. if u = t then ParkClaim s prev else pc u)"
proof (rule ccontr)
  let ?g = "add_tokens (- 1) g" and ?pc = "\<lambda>u. if u = t then ParkClaim s prev else pc u"
  assume asleep: "\<not> awake ?g ?pc"
  have ok: "gslots_ok (bucket_slots g) (slots g) (slot_alloc g) pc" using slot by (simp add: slot_inv_def)
  have none: "running g = 0" "slow_pending g \<le> 0" "\<not> works ?g ?pc (?pc u)" for u
    using asleep at(4) by (auto simp: awake_def add_tokens_def)
  have idle: "\<not> works ?g ?pc (pc u)" if "u \<noteq> t" for u using none(3) [of u] that by simp
  have "locked g = 0" using slow_inv_queue [OF slow none(2)] by (simp add: locked_def)
  have "awake ?g ?pc" if "awake g pc"
    by (rule awake_others [OF that]) (use at in \<open>auto simp: add_tokens_def intro: settled_in_more\<close>)
  then have unsettled: "\<not> settled_in pc (parked g)" using wake asleep by blast
  have away: "s' \<notin> bucket_slots g" if "\<And>u. pc u \<noteq> ParkSub s'" for s'
  proof
    assume "s' \<in> bucket_slots g"
    then have "settled_in pc (parked g)" using that by (auto simp: settled_in_def bucket_slots_def)
    then show False using unsettled by blast
  qed
  have no_hand: "hand (pc u) = None" for u
    using idle [of u] at(1) by (cases "u = t"; cases "pc u") auto
  have "0 \<le> debt (pc u)" for u
  proof (cases "u = t")
    case False
    note idle = idle [OF False]
    show ?thesis
    proof (cases "pc u")
      case (ParkClaim s' p)
      have "pc v \<noteq> ParkSub s'" for v using gslots_okD(8) [OF ok, of u s' v] ParkClaim by auto
      then have "s' \<notin> bucket_slots g" by (rule away)
      then have "slots g s'" using gslots_okD(7) [OF ok, of u s'] ParkClaim no_hand by auto
      then show ?thesis using idle ParkClaim by (simp add: add_tokens_def)
    qed (use idle in \<open>auto split: if_splits\<close>)
  qed (use at in simp)
  then have "0 \<le> balance g pc" using acct by (simp add: account_inv_def sum_nonneg)
  then have "card (reserved g pc) \<noteq> 0" using at(2,3) none(1) \<open>locked g = 0\<close> by (auto simp: balance_def)
  then obtain s' where s': "s' \<in> reserved g pc" by (metis card.empty ex_in_conv)
  then have "s' \<in> bucket_slots g" "slots g s'" using no_hand by (auto simp: reserved_def hands_def)
  moreover have "pc v \<noteq> ParkSub s'" for v using gslots_okD(6) [OF ok, of v s'] calculation by auto
  ultimately show False using away by blast
qed

lemma place_ok_mono: "place_ok k p \<Longrightarrow> k \<le> l \<Longrightarrow> place_ok l p"
  by (cases p) auto

lemma place_ok_finish [simp]: "place_ok k (finish_pc f)"
  by (cases f) simp_all

lemma place_ok_access:
  assumes "access p g = (p', g')" "place_ok k p"
  shows "place_ok (k + unused_by p g) p'"
  using assms by (cases p) (auto simp: unused_by_def Let_def split_beta split: if_splits option.splits list.splits)

lemma running_access:
  assumes "access p g = (p', g')"
  shows "running g \<le> running g'"
  using assms by (cases p) (auto simp: access_fields park_publish_def split: if_splits option.splits list.splits)

lemma finish_not_sub [simp]: "finish_pc k \<noteq> ParkSub s"
  by (cases k) simp_all

lemma push_grows: "list_all2 (\<lambda>x y. set x \<subseteq> set y) bs (bs[i := bs ! i @ [e]])"
  by (cases "i < length bs") (auto simp: list_all2_conv_all_nth nth_list_update)

fun plain :: "'p gpc \<Rightarrow> bool" where
  "plain Ready \<longleftrightarrow> True"
| "plain (TrySlow q) \<longleftrightarrow> True"
| "plain (TryTokens q) \<longleftrightarrow> True"
| "plain (TryCas q expected) \<longleftrightarrow> True"
| "plain (ReleaseNotify k) \<longleftrightarrow> True"
| "plain (DrainPay k uncounted) \<longleftrightarrow> True"
| "plain (SlowInsert i p) \<longleftrightarrow> True"
| "plain (LockSee h) \<longleftrightarrow> True"
| "plain (LockScan h) \<longleftrightarrow> True"
| "plain (LockTake h) \<longleftrightarrow> True"
| "plain (UnlockGive h) \<longleftrightarrow> True"
| "plain (UnlockErase h was_locked prev) \<longleftrightarrow> True"
| "plain _ \<longleftrightarrow> False"

lemma access_plain:
  assumes "access p g = (p', g')" "plain p"
  shows "wait_buckets g' = wait_buckets g \<and> slots g' = slots g \<and> slow_pending g' = slow_pending g
    \<and> p' \<noteq> ParkSub s \<and> p \<noteq> ParkSub s \<and> \<not> works g pc p"
  using assms by (cases p) (auto simp: access_fields split: if_splits)

lemma awake_access:
  assumes step: "access (pc t) g = (p, g')"
    and slot: "slot_inv g pc" and slow: "slow_inv n g pc" and acct: "account_inv n g pc" and conc: "0 < concurrency g" "0 \<le> running g"
    and wake: "settled_in pc (parked g) \<Longrightarrow> awake g pc" and place: "place_ok 0 (pc t)"
    and settled: "settled_in (\<lambda>u. if u = t then p else pc u) (parked g')"
  shows "awake g' (\<lambda>u. if u = t then p else pc u)"
proof -
  let ?pc = "\<lambda>u. if u = t then p else pc u"
  have others: ?thesis if "\<not> works g pc (pc t)" "\<And>s. pc t \<noteq> ParkSub s" "\<And>s. p \<noteq> ParkSub s" "wait_buckets g' = wait_buckets g"
    "\<And>s. slots g s \<Longrightarrow> slots g' s" "slow_pending g \<le> slow_pending g'"
  proof (rule awake_others [OF _ that(1) running_access [OF step] that(6,5)])
    note same = settled_in_same [of pc t p, OF that(2,3)]
    show "awake g pc" using settled that(4) unfolding same by (intro wake) (simp add: parked_def)
    show "settled_in pc (concat (drop b (wait_buckets g))) \<Longrightarrow> settled_in ?pc (concat (drop b (wait_buckets g')))" for b
      unfolding same that(4) .
  qed
  have off: ?thesis if "plain (pc t)" using access_plain [OF step that] by (intro others) auto
  have scan: ?thesis if "p = DrainScan k 0" for k
    using settled that by (intro awake_self) (simp add: parked_def)
  show ?thesis
  proof (cases "pc t")
    case (TryRun q)
    then show ?thesis using step conc by (auto simp: awake_def access_fields split: option.splits)
  next
    case (ParkPublish q)
    obtain task pool clear_idle where q: "q = (task, pool, clear_idle)" by (cases q)
    obtain s where pub: "park_publish task pool clear_idle g = (s, g')" "p = ParkSub s"
      using step ParkPublish q by (cases "park_publish task pool clear_idle g") auto
    have ok: "buckets_ok g" "gslots_ok (bucket_slots g) (slots g) (slot_alloc g) pc" using slot by (auto simp: slot_inv_def)
    have "length (wait_buckets g) = PRIORITY_BUCKETS" using ok(1) by (simp add: buckets_ok_def)
    note f = publish_fields [OF pub(1) this]
    have old: "we_slot e \<noteq> slot_alloc g" if "e \<in> set (parked g)" for e
      using gslots_okD(1) [OF ok(2)] that by (fastforce simp: bucket_slots_def)
    have drop: "set (concat (drop b (wait_buckets g))) \<subseteq> set (parked g)" for b
      by (auto simp: parked_def dest: in_set_dropD)
    have grow: "set (concat (drop b (wait_buckets g))) \<subseteq> set (concat (drop b (wait_buckets g')))" for b
    proof -
      have "wait_buckets g' = (wait_buckets g)[priority_index (t_priority task) := wait_buckets g ! priority_index (t_priority task)
          @ [\<lparr>we_task = task, we_pool = pool, we_clear_idle = clear_idle, we_slot = slot_alloc g\<rparr>]]"
        using pub(1) by (auto simp: park_publish_def log_event_def Let_def split: option.splits)
      then have "list_all2 (\<lambda>x y. set x \<subseteq> set y) (wait_buckets g) (wait_buckets g')"
        by (simp only: push_grows)
      then have "list_all2 (\<lambda>x y. set x \<subseteq> set y) (drop b (wait_buckets g)) (drop b (wait_buckets g'))" by (rule list_all2_dropI)
      then show ?thesis by (induction rule: list_all2_induct) auto
    qed
    have fresh: "p \<noteq> ParkSub (we_slot e)" if "e \<in> set (concat (drop b (wait_buckets g)))" for b e
      using old [OF subsetD [OF drop that]] pub(2) f(1) by simp
    have "settled_in pc (parked g)"
    proof -
      have "set (parked g') = insert \<lparr>we_task = task, we_pool = pool, we_clear_idle = clear_idle, we_slot = slot_alloc g\<rparr> (set (parked g))"
        using arg_cong [OF f(12), of set_mset] by simp
      then obtain e where e: "e \<in> set (parked g)" "\<forall>u. ?pc u \<noteq> ParkSub (we_slot e)"
        using settled pub(2) f(1) unfolding settled_in_def by (metis (full_types) insert_iff wait_entry.select_convs(4))
      have "pc u \<noteq> ParkSub (we_slot e)" for u
        using e(2) [rule_format, of u] ParkPublish by (cases "u = t") auto
      then show ?thesis using e(1) by (auto simp: settled_in_def)
    qed
    then show ?thesis
    proof (intro awake_others [OF wake])
      show "settled_in pc (concat (drop b (wait_buckets g))) \<Longrightarrow> settled_in ?pc (concat (drop b (wait_buckets g')))" for b
        by (rule settled_in_more [OF _ grow]) (use fresh in blast)+
      show "owner (pc u) = Some s \<Longrightarrow> slots g s \<Longrightarrow> slots g' s" for u s
        using f(2) gslots_okD(5) [OF ok(2), of u s] by simp
    qed (use f ParkPublish in simp_all)
  next
    case (ParkSub s)
    show ?thesis
    proof (cases "tokens g > 0")
      case True
      then show ?thesis using step ParkSub by (intro awake_self) auto
    next
      case False
      then show ?thesis using step ParkSub awake_park [OF ParkSub _ conc slot slow acct wake] by auto
    qed
  next
    case (ParkSlow s prev)
    then show ?thesis using step place by (intro awake_self) (auto split: if_splits)
  next
    case (ParkClaim s prev)
    then consider "slots g s" | "\<not> slots g s" "prev > 0" | "\<not> slots g s" "prev \<le> 0" by fastforce
    then show ?thesis
    proof cases
      case 1
      then show ?thesis using step ParkClaim by (intro awake_self) auto
    next
      case 2
      then show ?thesis using step ParkClaim by (intro scan [of Return]) auto
    next
      case 3
      then show ?thesis using step ParkClaim by (intro others) auto
    qed
  next
    case (ReleaseAdd k)
    then show ?thesis using step scan [of k] by (cases "tokens g < 0") (auto intro!: awake_self)
  next
    case (ReleaseSlow k)
    then show ?thesis using step scan [of k] by (cases "slow_pending g > 0") (auto simp: awake_def)
  next
    case (DrainScan k b)
    consider "b \<ge> PRIORITY_BUCKETS" | "b < PRIORITY_BUCKETS" "wait_buckets g ! b = []" | e es where "b < PRIORITY_BUCKETS" "wait_buckets g ! b = e # es"
      by (cases "b < PRIORITY_BUCKETS"; cases "wait_buckets g ! b") (auto simp: not_less)
    then show ?thesis
    proof cases
      case 1
      moreover have "length (wait_buckets g) = PRIORITY_BUCKETS" using slot by (simp add: slot_inv_def buckets_ok_def)
      ultimately show ?thesis using step DrainScan by (intro others) (auto simp: settled_in_def)
    next
      case 2
      have len: "length (wait_buckets g) = PRIORITY_BUCKETS" using slot by (simp add: slot_inv_def buckets_ok_def)
      then have d: "concat (drop b (wait_buckets g)) = concat (drop (Suc b) (wait_buckets g))"
        using 2 Cons_nth_drop_Suc [of b "wait_buckets g"] by (metis append_Nil concat.simps(2))
      have g': "g' = g" "p = DrainScan k (Suc b)" using step DrainScan 2 by auto
      show ?thesis
      proof (cases "works g pc (pc t)")
        case True
        then show ?thesis using DrainScan g' d by (intro awake_self) (auto simp: settled_in_same)
      next
        case False
        then show ?thesis using DrainScan g' by (intro others) auto
      qed
    next
      case 3
      then show ?thesis using step DrainScan by (intro awake_self) auto
    qed
  next
    case (DrainSubmit k e uncounted)
    then show ?thesis using step conc by (auto simp: awake_def access_fields)
  next
    case (SlowCount i q)
    then show ?thesis using step slow_inv_nonneg [OF slow] by (auto simp: awake_def)
  next
    case (UnlockCount removed was prev ns)
    then show ?thesis using step place by (intro awake_self) auto
  next
    case (UnlockDrain was prev)
    show ?thesis
    proof (cases was)
      case True
      show ?thesis
      proof (cases "prev < 0 \<or> slow_pending g = 0")
        case drain: True
        have "p = DrainScan Return 0" using step UnlockDrain \<open>was\<close> drain by (auto split: if_splits)
        then show ?thesis by (rule scan)
      next
        case False
        then have "slow_pending g > 0" using slow_inv_nonneg [OF slow] by simp
        then show ?thesis using step UnlockDrain by (simp add: awake_def)
      qed
    next
      case False
      then show ?thesis using step UnlockDrain by (intro others) auto
    qed
  next
    case (DrainClaim k e)
    then show ?thesis using step by (intro awake_self) auto
  next
    case (TrySlowAgain q)
    then show ?thesis using step by (intro awake_self) auto
  qed (use off in simp_all)
qed

section \<open>Histories\<close>

text \<open>
  The tasks a thread carries, and those a group has: parked, and submitted to a pool. A task goes from the call of
  \<open>try_submit\<close> through these to its submission.
\<close>

fun request_tasks :: "'p request option \<Rightarrow> reaction_task list" where
  "request_tasks None = []"
| "request_tasks (Some (task, pool, clear_idle)) = [task]"

fun finish_tasks :: "'p finish \<Rightarrow> reaction_task list" where
  "finish_tasks Return = []"
| "finish_tasks (ThenPark q) = request_tasks (Some q)"

fun carried :: "'p gpc \<Rightarrow> reaction_task list" where
  "carried (TrySlow q) = request_tasks q"
| "carried (TryTokens q) = request_tasks q"
| "carried (TryCas q expected) = request_tasks q"
| "carried (TrySlowAgain q) = request_tasks q"
| "carried (TryRun q) = request_tasks q"
| "carried (ParkPublish q) = request_tasks (Some q)"
| "carried (ReleaseAdd k) = finish_tasks k"
| "carried (ReleaseSlow k) = finish_tasks k"
| "carried (ReleaseNotify k) = finish_tasks k"
| "carried (DrainScan k b) = finish_tasks k"
| "carried (DrainClaim k e) = we_task e # finish_tasks k"
| "carried (DrainSubmit k e uncounted) = we_task e # finish_tasks k"
| "carried (DrainPay k uncounted) = finish_tasks k"
| "carried _ = []"

fun submitted :: "'p group_event list \<Rightarrow> reaction_task list" where
  "submitted [] = []"
| "submitted (EvSubmit task pool clear_idle force # evs) = task # submitted evs"
| "submitted (_ # evs) = submitted evs"

definition has_task :: "reaction_task \<Rightarrow> 'p group \<Rightarrow> int" where
  "has_task x g = int (count (mset (map we_task (parked g)) + mset (submitted (events g))) x)"

definition carries :: "reaction_task \<Rightarrow> 'p gpc \<Rightarrow> int" where
  "carries x p = int (count (mset (carried p)) x)"

lemma submitted_append [simp]: "submitted (evs @ evs') = submitted evs @ submitted evs'"
  by (induction evs rule: submitted.induct) simp_all

lemma submitted_notify [simp]: "submitted (map EvNotify hs) = []"
  by (induction hs) simp_all

lemma carried_finish [simp]: "carried (finish_pc k) = finish_tasks k" "finish_tasks (finish_of q) = request_tasks q"
  by (cases k; simp) (cases q; simp)

lemma drop_registration_events [simp]:
  "submitted (events (drop_registration e g)) = submitted (events g)" "parked (drop_registration e g) = parked g"
  by (simp_all add: drop_registration_frame parked_def split: option.splits)

lemma has_task_access:
  assumes "access p g = (p', g')" "length (wait_buckets g) = PRIORITY_BUCKETS"
  shows "has_task x g' + carries x p' = has_task x g + carries x p"
proof (cases p)
  case (ParkPublish q)
  obtain task pool clear_idle where q: "q = (task, pool, clear_idle)" by (cases q)
  obtain s where pub: "park_publish task pool clear_idle g = (s, g')" "p' = ParkSub s"
    using assms(1) ParkPublish q by (cases "park_publish task pool clear_idle g") auto
  have "submitted (events g') = submitted (events g)"
    using pub(1) by (auto simp: park_publish_def log_event_def Let_def split: option.splits)
  then show ?thesis
    using publish_fields(12) [OF pub(1) assms(2)] ParkPublish pub(2) q by (simp add: has_task_def carries_def)
next
  case (TryRun q)
  then show ?thesis using assms(1)
    by (cases q) (auto simp: has_task_def carries_def parked_def log_event_def make_running_lock_def)
next
  case (DrainScan k b)
  show ?thesis
  proof (cases "b < PRIORITY_BUCKETS \<and> wait_buckets g ! b \<noteq> []")
    case True
    then obtain e es where e: "wait_buckets g ! b = e # es" by (cases "wait_buckets g ! b") auto
    have m: "mset (parked g) = add_mset e (mset (concat ((wait_buckets g)[b := es])))"
      using True assms(2) pop_concat [OF _ e] by (simp add: parked_def)
    have "g' = g\<lparr>wait_buckets := (wait_buckets g)[b := es]\<rparr>" "p' = DrainClaim k e" using assms(1) DrainScan True e by auto
    then show ?thesis using DrainScan unfolding has_task_def carries_def mset_map m by (simp add: parked_def)
  next
    case False
    then show ?thesis using assms(1) DrainScan by (auto simp: has_task_def carries_def split: if_splits list.splits)
  qed
next
  case (DrainSubmit k e uncounted)
  then show ?thesis using assms(1)
    by (auto simp: has_task_def carries_def log_event_def make_running_lock_def parked_def drop_registration_frame split: option.splits)
qed (use assms in \<open>auto simp: has_task_def carries_def parked_def access_fields split: if_splits\<close>)

text \<open>Everything that holds in every state.\<close>

definition ginv :: "'p grace \<Rightarrow> bool" where
  "ginv r \<longleftrightarrow> (\<forall>t. gr_threads r \<le> t \<longrightarrow> gr_pc r t = Ready) \<and> slot_inv (gr_group r) (gr_pc r) \<and> lock_inv (gr_group r) (gr_pc r)
     \<and> slow_inv (gr_threads r) (gr_group r) (gr_pc r) \<and> account_inv (gr_threads r) (gr_group r) (gr_pc r)
     \<and> 0 < concurrency (gr_group r) \<and> wake_inv (gr_unused r) (gr_group r) (gr_pc r)"

lemma concurrency_access:
  assumes "access p g = (p', g')"
  shows "concurrency g' = concurrency g"
  using assms by (cases p) (auto simp: access_fields park_publish_def split: if_splits option.splits list.splits)

lemma wake_inv_access:
  assumes step: "access (pc t) g = (p, g')"
    and slot: "slot_inv g pc" and slow: "slow_inv n g pc" and acct: "account_inv n g pc" and conc: "0 < concurrency g"
    and wake: "wake_inv k g pc"
  shows "wake_inv (k + unused_by (pc t) g) g' (\<lambda>u. if u = t then p else pc u)"
proof -
  let ?k = "k + unused_by (pc t) g"
  have r: "0 \<le> running g" and places: "place_ok k (pc u)" for u using wake by (auto simp: wake_inv_def)
  have "place_ok ?k ((\<lambda>u. if u = t then p else pc u) u)" for u
    using place_ok_access [OF step places] place_ok_mono [OF places, of ?k u] by simp
  moreover have "awake g' (\<lambda>u. if u = t then p else pc u)"
    if "?k = 0" "settled_in (\<lambda>u. if u = t then p else pc u) (parked g')"
    using wake that places [of t] by (intro awake_access [OF step slot slow acct conc r]) (auto simp: wake_inv_def)
  ultimately show ?thesis using r running_access [OF step] by (simp add: wake_inv_def)
qed

lemma set_gpc_fields [simp]:
  "gr_pc (set_gpc t p r) = (\<lambda>u. if u = t then p else gr_pc r u)" "gr_group (set_gpc t p r) = gr_group r"
  "gr_threads (set_gpc t p r) = gr_threads r" "gr_unused (set_gpc t p r) = gr_unused r"
  by (simp_all add: set_gpc_def)

lemma ginv_step_thread:
  assumes inv: "ginv r" and t: "t < gr_threads r"
  shows "ginv (step_gthread t r)"
proof (cases "wants_mutex (gr_pc r t) \<and> \<not> mutex_free r")
  case False
  obtain p g where step: "access (gr_pc r t) (gr_group r) = (p, g)" by fastforce
  have "balance g (\<lambda>u. if u = t then p else gr_pc r u) = balance (gr_group r) (gr_pc r) - debt (gr_pc r t) + debt p"
    using inv by (intro balance_access [of "gr_group r" "gr_pc r" t p g]) (auto simp: ginv_def step)
  then have "account_inv (gr_threads r) g (\<lambda>u. if u = t then p else gr_pc r u)"
    using inv unfolding account_inv_def sum_at [OF t] by (simp add: ginv_def account_inv_def)
  then show ?thesis
    using inv t False step slot_inv_access [of "gr_group r" "gr_pc r" t p g] lock_inv_access [of "gr_group r" "gr_pc r" t p g]
      slow_inv_access [of "gr_threads r" "gr_group r" "gr_pc r" t p g]
      wake_inv_access [of "gr_pc r" t "gr_group r" p g "gr_threads r" "gr_unused r"] concurrency_access [OF step]
    by (simp add: ginv_def step_gthread_def cong: if_cong)
qed (use assms in \<open>simp add: step_gthread_def\<close>)

text \<open>A call begins with an access that changes nothing yet.\<close>

lemma ginv_call:
  assumes inv: "ginv r" and call: "may_call t r"
    and p: "hand p = None" "owner p = None" "slow_share p = 0" "sees_unlocked p = None" "\<And>k. place_ok k p" "\<And>s. p \<noteq> ParkSub s"
      "\<And>h. handle_of p = Some h \<Longrightarrow> free_handle h r"
    and g: "g = (gr_group r)\<lparr>running := running (gr_group r) + debt p\<rparr>" "0 \<le> running g"
    and awake: "running g = running (gr_group r) \<or> works g (\<lambda>u. if u = t then p else gr_pc r u) p"
  shows "ginv (set_gpc t p (r\<lparr>gr_group := g\<rparr>))"
proof -
  let ?pc = "\<lambda>u. if u = t then p else gr_pc r u" and ?g = "gr_group r"
  have t: "t < gr_threads r" "gr_pc r t = Ready" using call by (auto simp: may_call_def)
  have same: "wait_buckets g = wait_buckets ?g" "slots g = slots ?g" "slot_alloc g = slot_alloc ?g" "queue g = queue ?g" "handles g = handles ?g"
      "handle_alloc g = handle_alloc ?g" "slow_pending g = slow_pending ?g" "concurrency g = concurrency ?g" "tokens g = tokens ?g"
    by (simp_all add: g)
  have I: "slot_inv ?g (gr_pc r)" "lock_inv ?g (gr_pc r)" "slow_inv (gr_threads r) ?g (gr_pc r)" "account_inv (gr_threads r) ?g (gr_pc r)"
    "wake_inv (gr_unused r) ?g (gr_pc r)" "\<And>u. gr_threads r \<le> u \<Longrightarrow> gr_pc r u = Ready" "0 < concurrency ?g"
    using inv by (auto simp: ginv_def)
  have s: "slot_inv g ?pc" by (rule slot_inv_frame [OF I(1)]) (use t p same in simp_all)
  have "handle_of (gr_pc r u) \<noteq> Some h" if "handle_of p = Some h" for h u
    using p(7) [OF that] I(6) [of u] by (cases "u < gr_threads r") (auto simp: free_handle_def list_all_iff)
  then have l: "lock_inv g ?pc"
    using p t by (intro lock_inv_move [OF I(2)]) (auto simp: same lock_invD [OF I(2)] free_handle_def)
  have w: "slow_inv (gr_threads r) g ?pc" using I(3) p t unfolding slow_inv_def sum_at [OF t(1)] same by simp
  have "balance g ?pc = balance ?g (gr_pc r) - debt (gr_pc r t) + debt p"
    by (rule balance_frame) (use p t same in \<open>auto simp: bucket_slots_def parked_def g locked_def\<close>)
  then have a: "account_inv (gr_threads r) g ?pc" using I(4) t unfolding account_inv_def sum_at [OF t(1)] by simp
  have "awake g ?pc" if "gr_unused r = 0" "settled_in ?pc (parked g)"
  proof (cases "works g ?pc p")
    case False
    have se: "settled_in ?pc es = settled_in (gr_pc r) es" for es using t p(6) by (intro settled_in_same) auto
    show ?thesis
    proof (rule awake_others)
      show "awake ?g (gr_pc r)" using I(5) that by (simp add: wake_inv_def se parked_def same)
      show "running ?g \<le> running g" using awake False by simp
    qed (use t in \<open>simp_all add: same se\<close>)
  qed (rule awake_self)
  then have "wake_inv (gr_unused r) g ?pc" using I(5) p(5) g(2) by (simp add: wake_inv_def)
  then show ?thesis using s l w a I(6,7) t by (simp add: ginv_def same cong: if_cong)
qed

lemma ginv_step: "ginv r \<Longrightarrow> ginv (grace_step m r)"
proof (cases m)
  case (CallTry t q)
  then show "ginv r \<Longrightarrow> ?thesis"
    using ginv_call [of r t "TrySlow q" "gr_group r"] by (auto simp: ginv_def wake_inv_def)
next
  case (CallFinish t)
  then show "ginv r \<Longrightarrow> ?thesis"
    using ginv_call [of r t "ReleaseAdd Return" "(gr_group r)\<lparr>running := running (gr_group r) - 1\<rparr>"] by auto
next
  case (CallLock t i p)
  then show "ginv r \<Longrightarrow> ?thesis"
    using ginv_call [of r t "SlowCount i p" "gr_group r"] by (auto simp: ginv_def wake_inv_def)
next
  case (CallTryLock t h)
  then show "ginv r \<Longrightarrow> ?thesis"
    using ginv_call [of r t "LockSee h" "gr_group r"] by (auto simp: ginv_def wake_inv_def)
next
  case (CallUnlock t h)
  then show "ginv r \<Longrightarrow> ?thesis"
    using ginv_call [of r t "UnlockGive h" "gr_group r"] by (auto simp: ginv_def wake_inv_def)
next
  case (GStep t)
  then show "ginv r \<Longrightarrow> ?thesis" using ginv_step_thread [of r t] by simp
qed

lemma ginv_new: "0 < gd_concurrency d \<Longrightarrow> ginv (new_grace n d)"
  by (simp add: ginv_def new_grace_def new_group_def slot_inv_def buckets_ok_def gslots_ok_def bucket_slots_def parked_def lock_inv_def
      slow_inv_def account_inv_def balance_def locked_def reserved_def hands_def wake_inv_def settled_in_def)

lemma ginv_run: "ginv r \<Longrightarrow> ginv (grace_run ms r)"
  unfolding grace_run_def by (induction ms arbitrary: r) (simp_all add: ginv_step)

text \<open>The tasks given to \<open>try_submit\<close> by the calls of a history.\<close>

fun given :: "'p gmove list \<Rightarrow> 'p grace \<Rightarrow> reaction_task list" where
  "given [] r = []"
| "given (m # ms) r =
     (case m of CallTry t q \<Rightarrow> (if may_call t r then request_tasks q else []) | _ \<Rightarrow> []) @ given ms (grace_step m r)"

definition all_tasks :: "reaction_task \<Rightarrow> 'p grace \<Rightarrow> int" where
  "all_tasks x r = has_task x (gr_group r) + (\<Sum>t<gr_threads r. carries x (gr_pc r t))"

lemma has_task_running [simp]: "has_task x (g\<lparr>running := k\<rparr>) = has_task x g"
  by (simp add: has_task_def parked_def)

lemma all_tasks_call:
  "may_call t r \<Longrightarrow> has_task x g = has_task x (gr_group r) \<Longrightarrow>
   all_tasks x (set_gpc t p (r\<lparr>gr_group := g\<rparr>)) = all_tasks x r + carries x p"
  by (simp add: all_tasks_def may_call_def sum_at carries_def [of x Ready] cong: if_cong)

lemma all_tasks_step:
  assumes "ginv r"
  shows "all_tasks x (grace_step m r)
    = all_tasks x r + int (count (mset (case m of CallTry t q \<Rightarrow> (if may_call t r then request_tasks q else []) | _ \<Rightarrow> [])) x)"
proof (cases m)
  case (GStep t)
  show ?thesis
  proof (cases "t < gr_threads r \<and> (wants_mutex (gr_pc r t) \<longrightarrow> mutex_free r)")
    case True
    obtain p g where step: "access (gr_pc r t) (gr_group r) = (p, g)" by fastforce
    have "length (wait_buckets (gr_group r)) = PRIORITY_BUCKETS" using assms by (simp add: ginv_def slot_inv_def buckets_ok_def)
    then show ?thesis
      using has_task_access [OF step, of x] True GStep step by (simp add: step_gthread_def all_tasks_def sum_at cong: if_cong)
  qed (use GStep in \<open>auto simp: step_gthread_def\<close>)
qed (use all_tasks_call [of _ r x "gr_group r"] all_tasks_call [of _ r x "(gr_group r)\<lparr>running := running (gr_group r) - 1\<rparr>"]
  in \<open>auto simp: carries_def\<close>)

lemma all_tasks_run: "ginv r \<Longrightarrow> all_tasks x (grace_run ms r) = all_tasks x r + int (count (mset (given ms r)) x)"
proof (induction ms arbitrary: r)
  case (Cons m ms)
  then show ?case using all_tasks_step [OF Cons.prems, of x m] Cons.IH [OF ginv_step [OF Cons.prems, of m]]
    by (simp add: grace_run_def)
qed (simp add: grace_run_def)

lemma threads_run [simp]: "gr_threads (grace_run ms r) = gr_threads r"
proof -
  have "gr_threads (grace_step m r) = gr_threads r" for m and r :: "'a grace"
    by (cases m) (auto simp: step_gthread_def split_beta Let_def)
  then show ?thesis unfolding grace_run_def by (induction ms arbitrary: r) simp_all
qed

lemma concurrency_grace [simp]: "concurrency (gr_group (grace_run ms r)) = concurrency (gr_group r)"
proof -
  have "concurrency (gr_group (step_gthread t r)) = concurrency (gr_group r)" for t and r :: "'a grace"
    using concurrency_access [of "gr_pc r t" "gr_group r"]
    by (cases "access (gr_pc r t) (gr_group r)") (simp add: step_gthread_def)
  then have "concurrency (gr_group (grace_step m r)) = concurrency (gr_group r)" for m and r :: "'a grace"
    by (cases m) auto
  then show ?thesis unfolding grace_run_def by (induction ms arbitrary: r) simp_all
qed

lemma counted_card:
  assumes "distinct (map we_slot (parked g))"
  shows "counted g = int (card {s \<in> bucket_slots g. slots g s})"
proof -
  have "counted g = int (length (filter (slots g) (map we_slot (parked g))))"
  proof -
    have "sum_list (map (\<lambda>e. if slots g (we_slot e) then 1 else 0) es) = int (length (filter (slots g) (map we_slot es)))" for es :: "'a wait_entry list"
      by (induction es) simp_all
    then show ?thesis by (simp only: counted_def)
  qed
  then show ?thesis
    using distinct_card [OF distinct_filter [OF assms], of "slots g"] by (simp add: bucket_slots_def image_def conj_commute)
qed

section \<open>What holds under concurrency\<close>



section \<open>What does not\<close>

text \<open>
  The histories. Thread 0 runs a task and ends it while thread 1 has parked one and not yet decremented the counter. The
  freed token is visible before the waiter is taken out of its bucket, so a third thread takes it as well.
\<close>

definition normal :: "reaction_task \<Rightarrow> reaction_task" where
  "normal a = a\<lparr>t_priority := 500\<rparr>"

definition overrun_start :: "reaction_task \<Rightarrow> reaction_task \<Rightarrow> 'p \<Rightarrow> 'p gmove list" where
  "overrun_start a b p = CallTry 0 (Some (normal a, Some p, False)) # replicate 5 (GStep 0)
     @ CallTry 1 (Some (normal b, Some p, False)) # replicate 3 (GStep 1) @ CallFinish 0 # replicate 2 (GStep 0)"

definition overrun_end :: "'p gmove list" where
  "overrun_end = replicate 6 (GStep 0) @ replicate 9 (GStep 1)"

definition overrun_fast :: "reaction_task \<Rightarrow> reaction_task \<Rightarrow> reaction_task \<Rightarrow> 'p \<Rightarrow> 'p gmove list" where
  "overrun_fast a b c p = overrun_start a b p @ CallTry 2 (Some (normal c, Some p, False)) # replicate 5 (GStep 2) @ overrun_end"

definition overrun_slow :: "reaction_task \<Rightarrow> reaction_task \<Rightarrow> nid \<Rightarrow> int \<Rightarrow> 'p \<Rightarrow> 'p gmove list" where
  "overrun_slow a b i prio p = overrun_start a b p @ CallLock 2 i prio # replicate 2 (GStep 2) @ CallTryLock 2 0 # replicate 3 (GStep 2)
     @ overrun_end"

text \<open>One more task is submitted, and one of the two that run ends.\<close>

definition overrun_next :: "reaction_task \<Rightarrow> 'p \<Rightarrow> 'p gmove list" where
  "overrun_next a p = CallTry 1 (Some (normal a, Some p, False)) # replicate 5 (GStep 1) @ CallFinish 0 # replicate 7 (GStep 0)"

lemmas grace_eval = grace_run_def numeral_eq_Suc new_grace_def may_call_def step_gthread_def mutex_free_def free_handle_def set_gpc_def
  group_eval unused_by_def normal_def group_insert_def set_locked_def

text \<open>
  C4. The concurrency of a group can be exceeded. \<open>release_token\<close> makes the freed token visible and only then takes a
  waiter out of its bucket: in a group of concurrency 1 a task submitted in between takes the token, the waiter is
  started all the same, and both run at once (as do a waiter and the owner of a group lock that was locked in
  between). The excess lasts while tasks wait: the end of one of the two starts the next waiter beside the other.
\<close>

theorem group_race_overruns:
  "(let r = grace_run (overrun_fast a b c p) (new_grace 3 (example_group 1)) in
      concurrency (gr_group r) = 1 \<and> running (gr_group r) = 2 \<and> (\<forall>t. gr_pc r t = Ready)
      \<and> submitted (events (gr_group r)) = [normal a, normal c, normal b])
   \<and> (let r = grace_run (overrun_slow a b i prio p) (new_grace 3 (example_group 1)) in
      running (gr_group r) = 1 \<and> locked (gr_group r) = 1 \<and> (\<forall>t. gr_pc r t = Ready))
   \<and> (let r = grace_run (overrun_fast a b c p @ overrun_next d p) (new_grace 3 (example_group 1)) in
      running (gr_group r) = 2 \<and> (\<forall>t. gr_pc r t = Ready) \<and> submitted (events (gr_group r)) = [normal a, normal c, normal b, normal d])"
proof (intro conjI)
  show "let r = grace_run (overrun_fast a b c p) (new_grace 3 (example_group 1)) in
      concurrency (gr_group r) = 1 \<and> running (gr_group r) = 2 \<and> (\<forall>t. gr_pc r t = Ready)
      \<and> submitted (events (gr_group r)) = [normal a, normal c, normal b]"
    by (simp add: overrun_start_def overrun_end_def overrun_fast_def grace_eval)
  show "let r = grace_run (overrun_slow a b i prio p) (new_grace 3 (example_group 1)) in
      running (gr_group r) = 1 \<and> locked (gr_group r) = 1 \<and> (\<forall>t. gr_pc r t = Ready)"
    by (simp add: overrun_start_def overrun_end_def overrun_slow_def grace_eval)
  show "let r = grace_run (overrun_fast a b c p @ overrun_next d p) (new_grace 3 (example_group 1)) in
      running (gr_group r) = 2 \<and> (\<forall>t. gr_pc r t = Ready) \<and> submitted (events (gr_group r)) = [normal a, normal c, normal b, normal d]"
    by (simp add: overrun_start_def overrun_end_def overrun_fast_def overrun_next_def grace_eval)
qed

text \<open>A history with a parked task, for the two theorems above.\<close>

definition parks_one :: "reaction_task \<Rightarrow> reaction_task \<Rightarrow> 'p \<Rightarrow> 'p gmove list" where
  "parks_one a b p = CallTry 0 (Some (normal a, Some p, False)) # replicate 5 (GStep 0)
     @ CallTry 1 (Some (normal b, Some p, False)) # replicate 5 (GStep 1)"

lemma parks_one_state:
  "parked (gr_group (grace_run (parks_one a b p) (new_grace 2 (example_group 1)))) \<noteq> []"
  "gr_unused (grace_run (parks_one a b p) (new_grace 2 (example_group 1))) = 0"
  "gr_pc (grace_run (parks_one a b p) (new_grace 2 (example_group 1))) t = Ready"
  "queue (gr_group (grace_run (parks_one a b p) (new_grace 2 (example_group 1)))) = []"
  "running (gr_group (grace_run (parks_one a b p) (new_grace 2 (example_group 1)))) = 1"
  "locked (gr_group (grace_run (parks_one a b p) (new_grace 2 (example_group 1)))) = 0"
  "counted (gr_group (grace_run (parks_one a b p) (new_grace 2 (example_group 1)))) = 1"
  by (simp_all add: parks_one_def grace_eval)



end
