(* ===== verification/Plant_Life.thy ===== *)
theory Plant_Life
  imports Fun_Fusion Emit_Dispatch
begin

text \<open>
  Reactors and the power plant (\<open>Reactor.hpp\<close>, \<open>PowerPlant.hpp\<close>, \<open>PowerPlant.cpp\<close>): an \<open>on\<close> statement makes a
  reaction and binds it by its words, a reactor unbinds its reactions when it is destroyed, and the plant installs,
  starts, stops and destroys the reactors. Each place a reaction can be bound at is a \<open>source\<close>; the controllers
  (\<open>IO_Control\<close>, \<open>Chrono_Control\<close>, \<open>Net_Controller\<close>) are here the lists of the reactions they keep.
\<close>

section \<open>Reactions and where they are bound\<close>

datatype source = FromType nat | FromIdle "nat option" | FromController nat

text \<open>
  An unbinder is determined by the source it removes the reaction from. The stores of the types are static and outlive
  the plant; \<open>pl_held\<close> are the reactions of the tasks that exist, \<open>pl_handles\<close> the handles of each reactor, \<open>pl_controls\<close> the
  controllers a reactor is.
\<close>

record bound =
  bd_reactor :: nat
  bd_emit_stats :: bool
  bd_unbinders :: "source list"

record 'v plant =
  pl_hub :: "'v hub"
  pl_idle :: "nat option \<Rightarrow> nat list"
  pl_controllers :: "nat \<Rightarrow> nat list option"
  pl_reactions :: "nat \<Rightarrow> bound option"
  pl_next_reaction :: nat
  pl_reactors :: "nat list"
  pl_next_reactor :: nat
  pl_handles :: "nat \<Rightarrow> nat list"
  pl_controls :: "nat \<Rightarrow> nat list"
  pl_held :: "nat list"
  pl_exists :: bool
  pl_started :: "nat option"
  pl_stopped :: "(bool \<times> nat) option"

fun entries :: "source \<Rightarrow> 'v plant \<Rightarrow> nat list" where
  "entries (FromType T) p = hb_callbacks (pl_hub p) T"
| "entries (FromIdle pool) p = pl_idle p pool"
| "entries (FromController k) p = (case pl_controllers p k of None \<Rightarrow> [] | Some rs \<Rightarrow> rs)"

definition add_unbinder :: "source \<Rightarrow> nat \<Rightarrow> 'v plant \<Rightarrow> 'v plant" where
  "add_unbinder s r p =
     p\<lparr>pl_reactions := (pl_reactions p)(r := map_option (\<lambda>b. b\<lparr>bd_unbinders := bd_unbinders b @ [s]\<rparr>) (pl_reactions p r))\<rparr>"

text \<open>What the words do at a source: a message to a controller that is not there is heard by nobody.\<close>

fun enter :: "source \<Rightarrow> nat \<Rightarrow> 'v plant \<Rightarrow> 'v plant" where
  "enter (FromType T) r p = p\<lparr>pl_hub := type_bind T r (pl_hub p)\<rparr>"
| "enter (FromIdle pool) r p = p\<lparr>pl_idle := (pl_idle p)(pool := pl_idle p pool @ [r])\<rparr>"
| "enter (FromController k) r p = p\<lparr>pl_controllers := (pl_controllers p)(k := map_option (\<lambda>rs. rs @ [r]) (pl_controllers p k))\<rparr>"

fun leave :: "nat \<Rightarrow> source \<Rightarrow> 'v plant \<Rightarrow> 'v plant" where
  "leave r (FromType T) p = p\<lparr>pl_hub := type_unbind T r (pl_hub p)\<rparr>"
| "leave r (FromIdle pool) p = p\<lparr>pl_idle := (pl_idle p)(pool := filter (\<lambda>i. i \<noteq> r) (pl_idle p pool))\<rparr>"
| "leave r (FromController k) p =
     p\<lparr>pl_controllers := (pl_controllers p)(k := map_option (erase_first (\<lambda>i. i = r)) (pl_controllers p k))\<rparr>"

section \<open>The words of a statement\<close>

text \<open>
  \<open>TypeWord\<close> is \<open>TypeBind\<close>, with whether its type may emit statistics; \<open>ControllerWord\<close> stands for the words that
  emit a message to their controller (\<open>IO\<close>, \<open>UDP\<close>, \<open>TCP\<close>, \<open>Every\<close>, \<open>Watchdog\<close>, \<open>Network\<close>). What such a word does with
  its arguments before it registers, open a socket for example, is the parameter \<open>setup\<close>; it may throw.
\<close>

datatype bind_word = TypeWord nat bool | IdleWord "nat option" | ControllerWord nat | NoBindWord

datatype 'a argument = ThisReaction | Given 'a

fun has_bind :: "bind_word \<Rightarrow> bool" where
  "has_bind NoBindWord \<longleftrightarrow> False"
| "has_bind _ \<longleftrightarrow> True"

fun bind_call ::
  "(nat \<Rightarrow> 'a argument list \<Rightarrow> 'e + 'b returned) \<Rightarrow> nat \<Rightarrow> bind_word \<Rightarrow> 'a argument list \<Rightarrow> 'v plant \<Rightarrow> ('e + 'b returned) \<times> 'v plant"
where
  "bind_call setup r (TypeWord T emits) args p =
     (let p1 = p\<lparr>pl_reactions := (pl_reactions p)(r := map_option (\<lambda>b. b\<lparr>bd_emit_stats := bd_emit_stats b \<and> emits\<rparr>) (pl_reactions p r))\<rparr>
      in (Inr Void, enter (FromType T) r (add_unbinder (FromType T) r p1)))"
| "bind_call setup r (IdleWord pool) args p = (Inr Void, enter (FromIdle pool) r (add_unbinder (FromIdle pool) r p))"
| "bind_call setup r (ControllerWord k) args p =
     (case setup k (tl args) of
        Inl e \<Rightarrow> (Inl e, p)
      | Inr x \<Rightarrow> (Inr x, enter (FromController k) r (add_unbinder (FromController k) r p)))"
| "bind_call setup r NoBindWord args p = (Inr Void, p)"

text \<open>A statement: its words, the arguments of \<open>on\<close>, and the ranges the compiler finds for the words that bind.\<close>

record 'a statement =
  st_words :: "bind_word list"
  st_args :: "'a list"
  st_ranges :: "(int \<times> int) list"

definition st_binds :: "'a statement \<Rightarrow> bind_word list" where
  "st_binds st = find_words has_bind (\<lambda>w. w) (st_words st)"

definition st_compiles :: "(bind_word \<Rightarrow> 'a argument list \<Rightarrow> bool) \<Rightarrow> 'a statement \<Rightarrow> bool" where
  "st_compiles callable st \<longleftrightarrow>
     fuse_functions callable 1 (ThisReaction # map Given (st_args st)) (st_binds st) = Some (st_ranges st)"

text \<open>\<open>Binder::then\<close>: the handle is kept only after every word has bound.\<close>

definition binder_then ::
  "(nat \<Rightarrow> 'a argument list \<Rightarrow> 'e + 'b returned) \<Rightarrow> nat \<Rightarrow> 'a statement \<Rightarrow> 'v plant \<Rightarrow> ('e + nat \<times> 'b list) \<times> 'v plant"
where
  "binder_then setup reactor st p =
     (let r = pl_next_reaction p;
          p1 = p\<lparr>pl_next_reaction := Suc r,
                 pl_reactions := (pl_reactions p)(r \<mapsto> \<lparr>bd_reactor = reactor, bd_emit_stats = True, bd_unbinders = []\<rparr>)\<rparr>
      in case fusion_call (bind_call setup r) 1 (ThisReaction # map Given (st_args st)) (st_binds st) (st_ranges st) p1 of
           (Inl e, p2) \<Rightarrow> (Inl e, p2)
         | (Inr xs, p2) \<Rightarrow> (Inr (r, xs), p2\<lparr>pl_handles := (pl_handles p2)(reactor := pl_handles p2 reactor @ [r])\<rparr>))"

section \<open>Handles and reactors\<close>

text \<open>A handle holds a weak pointer; a reaction lives while a source or a task keeps it.\<close>

definition alive :: "nat \<Rightarrow> 'v plant \<Rightarrow> bool" where
  "alive r p \<longleftrightarrow> r \<in> set (pl_held p) \<or> (case pl_reactions p r of None \<Rightarrow> False | Some b \<Rightarrow> list_ex (\<lambda>s. r \<in> set (entries s p)) (bd_unbinders b))"

definition unbind_handle :: "nat \<Rightarrow> 'v plant \<Rightarrow> 'v plant" where
  "unbind_handle r p =
     (if alive r p then (case pl_reactions p r of None \<Rightarrow> p | Some b \<Rightarrow> fold (leave r) (bd_unbinders b) p) else p)"

text \<open>\<open>~Reactor\<close>, after the members of the derived class are gone, and with them the list of a controller.\<close>

definition end_reactor :: "nat \<Rightarrow> 'v plant \<Rightarrow> 'v plant" where
  "end_reactor i p = fold unbind_handle (pl_handles p i) p"

definition destroy_reactor :: "nat \<Rightarrow> 'v plant \<Rightarrow> 'v plant" where
  "destroy_reactor i p =
     end_reactor i (p\<lparr>pl_controllers := (\<lambda>k. if k \<in> set (pl_controls p i) then None else pl_controllers p k)\<rparr>)"

text \<open>The constructor of a reactor, as the statements it makes; the first exception leaves it.\<close>

fun construct ::
  "(nat \<Rightarrow> 'a argument list \<Rightarrow> 'e + 'b returned) \<Rightarrow> nat \<Rightarrow> 'a statement list \<Rightarrow> 'v plant \<Rightarrow> 'e option \<times> 'v plant"
where
  "construct setup i [] p = (None, p)"
| "construct setup i (st # sts) p =
     (case binder_then setup i st p of
        (Inl e, p1) \<Rightarrow> (Some e, p1)
      | (Inr _, p1) \<Rightarrow> construct setup i sts p1)"

text \<open>\<open>install\<close>: when the constructor throws, the base class is destroyed and the reactor is not kept.\<close>

definition plant_install ::
  "(nat \<Rightarrow> 'a argument list \<Rightarrow> 'e + 'b returned) \<Rightarrow> nat list \<Rightarrow> 'a statement list \<Rightarrow> 'v plant \<Rightarrow> 'e option \<times> 'v plant"
where
  "plant_install setup controls sts p =
     (let i = pl_next_reactor p
      in case construct setup i sts (p\<lparr>pl_next_reactor := Suc i, pl_handles := (pl_handles p)(i := [])\<rparr>) of
           (Some e, p1) \<Rightarrow> (Some e, end_reactor i p1)
         | (None, p1) \<Rightarrow>
             (None, p1\<lparr>pl_reactors := pl_reactors p1 @ [i], pl_controls := (pl_controls p1)(i := controls),
                pl_controllers := (\<lambda>k. if k \<in> set controls then Some [] else pl_controllers p1 k)\<rparr>))"

section \<open>The plant\<close>

definition no_plant :: "'v plant" where
  "no_plant = \<lparr>pl_hub = new_hub, pl_idle = (\<lambda>_. []), pl_controllers = (\<lambda>_. None), pl_reactions = (\<lambda>_. None), pl_next_reaction = 1,
     pl_reactors = [], pl_next_reactor = 0, pl_handles = (\<lambda>_. []), pl_controls = (\<lambda>_. []), pl_held = [],
     pl_exists = False, pl_started = None, pl_stopped = None\<rparr>"

text \<open>The types of \<open>CommandLineArguments\<close>, \<open>Startup\<close> and \<open>Shutdown\<close>.\<close>

definition "ARGUMENTS = (0 :: nat)"

definition "STARTUP = (1 :: nat)"

definition "SHUTDOWN = (2 :: nat)"

definition plant_emit :: "nat \<Rightarrow> 'v program \<Rightarrow> nat \<Rightarrow> bool \<Rightarrow> 'v \<Rightarrow> 'v plant \<Rightarrow> 'v plant option" where
  "plant_emit n P T inl v p =
     map_option (\<lambda>h. p\<lparr>pl_hub := h\<rparr>) (emit_to n P \<lparr>em_type = T, em_inline = inl\<rparr> v (pl_hub p))"

text \<open>The constructor throws (\<open>None\<close> within) if there is a plant; the number bounds the depth of inline emissions.\<close>

definition plant_create :: "nat \<Rightarrow> 'v program \<Rightarrow> 'v \<Rightarrow> 'v plant \<Rightarrow> 'v plant option option" where
  "plant_create n P args p =
     (if pl_exists p then Some None
      else map_option Some (plant_emit n P ARGUMENTS False args (p\<lparr>pl_exists := True, pl_started := None, pl_stopped := None\<rparr>)))"

definition plant_start :: "nat \<Rightarrow> 'v program \<Rightarrow> 'v \<Rightarrow> 'v plant \<Rightarrow> 'v plant option" where
  "plant_start n P startup p =
     Option.bind (plant_emit n P STARTUP True startup p) (\<lambda>p1.
       Option.bind (case hb_store (pl_hub p1) ARGUMENTS of None \<Rightarrow> Some p1 | Some a \<Rightarrow> plant_emit n P ARGUMENTS True a p1) (\<lambda>p2.
         Some (p2\<lparr>pl_started := Some (length (hb_log (pl_hub p2)))\<rparr>)))"

definition plant_shutdown :: "nat \<Rightarrow> 'v program \<Rightarrow> 'v \<Rightarrow> bool \<Rightarrow> 'v plant \<Rightarrow> 'v plant option" where
  "plant_shutdown n P shutdown force p =
     map_option (\<lambda>p1. p1\<lparr>pl_stopped := Some (force, length (hb_log (pl_hub p1)))\<rparr>) (plant_emit n P SHUTDOWN False shutdown p)"

definition plant_destroy :: "'v plant \<Rightarrow> 'v plant" where
  "plant_destroy p = (fold destroy_reactor (rev (pl_reactors p)) p)\<lparr>pl_reactors := [], pl_exists := False\<rparr>"

text \<open>Emission by several handlers at once, \<open>emit_shared\<close>: the plant and the data go to each of them.\<close>

definition emit_shared ::
  "('h \<Rightarrow> 'a list \<Rightarrow> bool) \<Rightarrow> ('h \<Rightarrow> 'a list \<Rightarrow> 's \<Rightarrow> ('e + 'r returned) \<times> 's) \<Rightarrow> 'h list \<Rightarrow> 'a list \<Rightarrow> 's \<Rightarrow> (('e + 'r list) \<times> 's) option"
where
  "emit_shared callable handler hs args s =
     map_option (\<lambda>rs. fusion_call handler 2 args hs rs s) (fuse_functions callable 2 args hs)"

section \<open>Entries\<close>

fun drop_entry :: "source \<Rightarrow> nat \<Rightarrow> nat list \<Rightarrow> nat list" where
  "drop_entry (FromIdle pool) r rs = filter (\<lambda>i. i \<noteq> r) rs"
| "drop_entry s r rs = erase_first (\<lambda>i. i = r) rs"

fun heard :: "source \<Rightarrow> 'v plant \<Rightarrow> bool" where
  "heard (FromController k) p \<longleftrightarrow> pl_controllers p k \<noteq> None"
| "heard s p \<longleftrightarrow> True"

text \<open>Everything but the sources and the reactions.\<close>

definition rest_of :: "'v plant \<Rightarrow> nat list \<times> nat \<times> (nat \<Rightarrow> nat list) \<times> (nat \<Rightarrow> nat list) \<times> nat list \<times> nat" where
  "rest_of p = (pl_reactors p, pl_next_reactor p, pl_handles p, pl_controls p, pl_held p, pl_next_reaction p)"

lemma entries_enter: "entries s (enter s' r p) = entries s p @ (if s = s' \<and> heard s p then [r] else [])"
  by (cases s; cases s') (auto simp: type_bind_def split: option.splits)

lemma entries_leave: "entries s (leave r s' p) = (if s = s' then drop_entry s r (entries s p) else entries s p)"
  by (cases s; cases s') (auto simp: type_unbind_def split: option.splits)

lemma reactions_only [simp]:
  "entries s (p\<lparr>pl_reactions := f\<rparr>) = entries s p" "entries s (add_unbinder s' r p) = entries s p"
  "rest_of (p\<lparr>pl_reactions := f\<rparr>) = rest_of p" "rest_of (add_unbinder s' r p) = rest_of p"
  "heard s (p\<lparr>pl_reactions := f\<rparr>) = heard s p" "heard s (add_unbinder s' r p) = heard s p"
  by (cases s; simp add: add_unbinder_def rest_of_def)+

lemma other_fields [simp]:
  "entries s (p\<lparr>pl_next_reaction := n\<rparr>) = entries s p" "entries s (p\<lparr>pl_handles := f\<rparr>) = entries s p"
  "entries s (p\<lparr>pl_next_reactor := n\<rparr>) = entries s p" "entries s (p\<lparr>pl_reactors := l\<rparr>) = entries s p"
  "entries s (p\<lparr>pl_controls := f\<rparr>) = entries s p" "entries s (p\<lparr>pl_held := rs\<rparr>) = entries s p"
  "entries s (p\<lparr>pl_exists := e\<rparr>) = entries s p"
  by (cases s; simp)+

lemma source_rest [simp]:
  "rest_of (enter s r p) = rest_of p" "rest_of (leave r s p) = rest_of p"
  "pl_reactions (enter s r p) = pl_reactions p" "pl_reactions (leave r s p) = pl_reactions p"
  by (cases s; simp add: rest_of_def)+

lemma count_erase_first: "count_list (erase_first (\<lambda>i. i = r) xs) r = count_list xs r - 1"
  by (induction xs) auto

lemma filter_erase_first: "filter (\<lambda>i. i \<noteq> r) (erase_first (\<lambda>i. i = r) xs) = filter (\<lambda>i. i \<noteq> r) xs"
  by (induction xs) auto

lemma count_filter_self: "count_list (filter (\<lambda>i. i \<noteq> r) xs) r = 0"
  by (simp add: count_list_0_iff)

lemma drop_entry_all:
  assumes "count_list xs r \<le> n"
  shows "(drop_entry s r ^^ n) xs = filter (\<lambda>i. i \<noteq> r) xs"
proof -
  have none: "count_list xs r = 0 \<Longrightarrow> filter (\<lambda>i. i \<noteq> r) xs = xs" for xs :: "nat list"
    by (rule filter_True) (metis count_list_0_iff)
  have kept: "filter (\<lambda>i. i \<noteq> r) (drop_entry s r xs) = filter (\<lambda>i. i \<noteq> r) xs" for xs by (cases s) (simp_all add: filter_erase_first)
  have fewer: "count_list (drop_entry s r xs) r \<le> count_list xs r - 1" for xs
    by (cases s) (simp_all add: count_erase_first count_filter_self)
  show ?thesis using assms
  proof (induction n arbitrary: xs)
    case (Suc n)
    have "count_list (drop_entry s r xs) r \<le> n" using Suc.prems fewer [of xs] by linarith
    then show ?case using Suc.IH kept by (simp add: funpow_swap1)
  qed (simp add: none)
qed

lemma fold_leave:
  "entries s (fold (leave r) us p) = (drop_entry s r ^^ count_list us s) (entries s p)
   \<and> rest_of (fold (leave r) us p) = rest_of p \<and> pl_reactions (fold (leave r) us p) = pl_reactions p"
  by (induction us arbitrary: p) (simp_all add: entries_leave funpow_swap1)

section \<open>What is bound, and by whom\<close>

definition owner_of :: "nat \<Rightarrow> 'v plant \<Rightarrow> nat option" where
  "owner_of r p = map_option bd_reactor (pl_reactions p r)"

lemma owner_of_handles [simp]: "owner_of r (p\<lparr>pl_handles := f\<rparr>) = owner_of r p"
  by (simp add: owner_of_def)

text \<open>For each reaction its unbinders cover its entries.\<close>

definition covered :: "'v plant \<Rightarrow> bool" where
  "covered p \<longleftrightarrow> (\<forall>s r. count_list (entries s p) r \<le> (case pl_reactions p r of None \<Rightarrow> 0 | Some b \<Rightarrow> count_list (bd_unbinders b) s))"

text \<open>Everything bound belongs to a reactor of \<open>R\<close> that has its handle.\<close>

definition plant_inv :: "nat set \<Rightarrow> 'v plant \<Rightarrow> bool" where
  "plant_inv R p \<longleftrightarrow> covered p
     \<and> (\<forall>s. \<forall>r \<in> set (entries s p). \<exists>i \<in> R. owner_of r p = Some i \<and> r \<in> set (pl_handles p i))
     \<and> (\<forall>i \<in> R. i < pl_next_reactor p \<and> (\<forall>r \<in> set (pl_handles p i). owner_of r p = Some i))
     \<and> (\<forall>r. pl_reactions p r \<noteq> None \<longrightarrow> r < pl_next_reaction p)"

lemma unbind_handle_entries:
  assumes "covered p"
  shows "entries s (unbind_handle r p) = filter (\<lambda>i. i \<noteq> r) (entries s p)
    \<and> rest_of (unbind_handle r p) = rest_of p \<and> pl_reactions (unbind_handle r p) = pl_reactions p"
proof (cases "alive r p \<and> pl_reactions p r \<noteq> None")
  case True
  then obtain b where b: "pl_reactions p r = Some b" by auto
  then have "count_list (entries s p) r \<le> count_list (bd_unbinders b) s"
    using assms by (simp add: covered_def) (metis option.simps(5))
  then show ?thesis using True b fold_leave [of s r "bd_unbinders b" p] by (simp add: unbind_handle_def drop_entry_all)
next
  case False
  have "count_list (entries s p) r = 0"
  proof (cases "pl_reactions p r")
    case None
    then show ?thesis using assms by (simp add: covered_def) (metis le_zero_eq option.simps(4))
  next
    case (Some b)
    then have le: "count_list (entries s p) r \<le> count_list (bd_unbinders b) s"
      using assms by (simp add: covered_def) (metis option.simps(5))
    have "s \<in> set (bd_unbinders b) \<Longrightarrow> r \<notin> set (entries s p)" using False Some by (auto simp: alive_def list_ex_iff)
    then show ?thesis using le by (metis count_list_0_iff le_zero_eq)
  qed
  then have "filter (\<lambda>i. i \<noteq> r) (entries s p) = entries s p" by (intro filter_True) (metis count_list_0_iff)
  then show ?thesis using False by (auto simp: unbind_handle_def)
qed

lemma count_filter_le: "count_list (filter P xs) r \<le> count_list xs r"
  by (induction xs) auto

lemma covered_filter:
  assumes "covered p" "\<And>s. entries s q = filter (P s) (entries s p)" "pl_reactions q = pl_reactions p"
  shows "covered q"
proof -
  have "count_list (entries s q) r \<le> count_list (entries s p) r" for s r unfolding assms(2) by (rule count_filter_le)
  then show ?thesis using assms(1) unfolding covered_def assms(3) by (meson order_trans)
qed

lemma unbind_handles_entries:
  assumes "covered p"
  shows "(\<forall>s. entries s (fold unbind_handle rs p) = filter (\<lambda>i. i \<notin> set rs) (entries s p))
    \<and> rest_of (fold unbind_handle rs p) = rest_of p \<and> pl_reactions (fold unbind_handle rs p) = pl_reactions p"
  using assms
proof (induction rs arbitrary: p)
  case (Cons r rs)
  let ?q = "unbind_handle r p"
  have e: "\<And>s. entries s ?q = filter (\<lambda>i. i \<noteq> r) (entries s p)" and same: "rest_of ?q = rest_of p" "pl_reactions ?q = pl_reactions p"
    using unbind_handle_entries [OF Cons.prems, of _ r] by blast+
  have "covered ?q" by (rule covered_filter [OF Cons.prems e same(2)])
  note ih = Cons.IH [OF this]
  have "entries s (fold unbind_handle rs ?q) = filter (\<lambda>i. i \<notin> set (r # rs)) (entries s p)" for s
    using ih by (simp add: e)
  then show ?case using ih same by simp
qed simp

section \<open>What a statement binds\<close>

definition unbinds :: "'v plant \<Rightarrow> nat \<Rightarrow> source \<Rightarrow> nat" where
  "unbinds p r s = (case pl_reactions p r of None \<Rightarrow> 0 | Some b \<Rightarrow> count_list (bd_unbinders b) s)"

lemma covered_alt: "covered p \<longleftrightarrow> (\<forall>s r. count_list (entries s p) r \<le> unbinds p r s)"
  by (simp add: covered_def unbinds_def)

text \<open>Binding changes nothing but the entries of the reaction, and adds an unbinder for each.\<close>

definition binds_only :: "nat \<Rightarrow> 'v plant \<Rightarrow> 'v plant \<Rightarrow> bool" where
  "binds_only r p q \<longleftrightarrow> rest_of q = rest_of p \<and> (\<forall>r'. owner_of r' q = owner_of r' p) \<and> (\<forall>r' s. r' \<noteq> r \<longrightarrow> unbinds q r' s = unbinds p r' s)
     \<and> (\<forall>s. filter (\<lambda>i. i \<noteq> r) (entries s q) = filter (\<lambda>i. i \<noteq> r) (entries s p))
     \<and> (\<forall>s. count_list (entries s q) r + unbinds p r s \<le> count_list (entries s p) r + unbinds q r s)"

lemma binds_only_refl [simp]: "binds_only r p p"
  by (simp add: binds_only_def)

lemma binds_only_trans: "binds_only r p q \<Longrightarrow> binds_only r q w \<Longrightarrow> binds_only r p w"
proof -
  assume a: "binds_only r p q" and b: "binds_only r q w"
  have "count_list (entries s w) r + unbinds p r s \<le> count_list (entries s p) r + unbinds w r s" for s
  proof -
    have "count_list (entries s q) r + unbinds p r s \<le> count_list (entries s p) r + unbinds q r s"
      "count_list (entries s w) r + unbinds q r s \<le> count_list (entries s q) r + unbinds w r s"
      using a b by (simp_all add: binds_only_def)
    then show ?thesis by linarith
  qed
  then show "binds_only r p w" using a b by (simp add: binds_only_def)
qed

lemma binds_only_owner: "binds_only r p q \<Longrightarrow> owner_of r' q = owner_of r' p"
  by (simp add: binds_only_def)

lemma register_binds:
  assumes "owner_of r p \<noteq> None"
  shows "binds_only r p (enter s r (add_unbinder s r p))"
proof -
  obtain b where b: "pl_reactions p r = Some b" using assms by (auto simp: owner_of_def)
  let ?q = "enter s r (add_unbinder s r p)"
  have "owner_of r' ?q = owner_of r' p" for r' using b by (simp add: owner_of_def) (simp add: add_unbinder_def)
  moreover have "unbinds ?q r' s' = unbinds p r' s' + (if r' = r \<and> s' = s then 1 else 0)" for r' s'
    using b by (simp add: unbinds_def) (simp add: add_unbinder_def)
  ultimately show ?thesis by (auto simp: binds_only_def entries_enter)
qed

lemma bind_call_binds:
  assumes "owner_of r p \<noteq> None" "bind_call setup r w args p = (x, q)"
  shows "binds_only r p q"
proof (cases w)
  case (TypeWord T emits)
  let ?p = "p\<lparr>pl_reactions := (pl_reactions p)(r := map_option (\<lambda>b. b\<lparr>bd_emit_stats := bd_emit_stats b \<and> emits\<rparr>) (pl_reactions p r))\<rparr>"
  have "owner_of r' ?p = owner_of r' p" "unbinds ?p r' s = unbinds p r' s" for r' s
    by (cases "pl_reactions p r"; simp add: owner_of_def unbinds_def)+
  then have "binds_only r p ?p" "owner_of r ?p \<noteq> None" using assms(1) by (simp_all add: binds_only_def)
  moreover have "binds_only r ?p (enter (FromType T) r (add_unbinder (FromType T) r ?p))"
    by (rule register_binds) (rule calculation(2))
  ultimately show ?thesis using assms(2) TypeWord binds_only_trans by (auto simp: Let_def simp del: enter.simps)
next
  case (IdleWord pool)
  then show ?thesis using assms register_binds by (auto simp del: enter.simps)
next
  case (ControllerWord k)
  then show ?thesis using assms register_binds by (auto simp del: enter.simps split: sum.splits)
qed (use assms in auto)

lemma fusion_binds:
  "owner_of r p \<noteq> None \<Longrightarrow> fusion_call (bind_call setup r) n args ws rs p = (x, q) \<Longrightarrow> binds_only r p q"
proof (induction ws arbitrary: rs p x q)
  case Nil
  then show ?case by (cases rs) auto
next
  case (Cons w ws)
  show ?case
  proof (cases rs)
    case Nil
    then show ?thesis using Cons.prems(2) by simp
  next
    case (Cons rg rs')
    obtain y p1 where y: "bind_call setup r w (call_arguments n rg args) p = (y, p1)" by fastforce
    have first: "binds_only r p p1" using bind_call_binds [OF Cons.prems(1) y] .
    then have own: "owner_of r p1 \<noteq> None" using Cons.prems(1) by (simp add: binds_only_owner)
    obtain z p2 where z: "fusion_call (bind_call setup r) n args ws rs' p1 = (z, p2)" by fastforce
    have "binds_only r p1 p2" using Cons.IH [OF own z] .
    then show ?thesis using Cons.prems(2) y z first binds_only_trans local.Cons by (cases y; cases z) auto
  qed
qed

text \<open>A statement is safe if only its first binding word can throw.\<close>

fun never_throws :: "(nat \<Rightarrow> 'a argument list \<Rightarrow> 'e + 'b returned) \<Rightarrow> bind_word \<Rightarrow> bool" where
  "never_throws setup (ControllerWord k) \<longleftrightarrow> (\<forall>args. \<exists>x. setup k args = Inr x)"
| "never_throws setup w \<longleftrightarrow> True"

definition safe_statement :: "(nat \<Rightarrow> 'a argument list \<Rightarrow> 'e + 'b returned) \<Rightarrow> 'a statement \<Rightarrow> bool" where
  "safe_statement setup st \<longleftrightarrow> (\<forall>w \<in> set (drop 1 (st_binds st)). never_throws setup w)"

lemma bind_call_throws: "bind_call setup r w args p = (Inl e, q) \<Longrightarrow> q = p \<and> \<not> never_throws setup w"
  by (cases w) (auto simp: Let_def split: sum.splits, metis sum.distinct(1))

lemma fusion_no_throw:
  "\<forall>w \<in> set ws. never_throws setup w \<Longrightarrow> fst (fusion_call (bind_call setup r) n args ws rs p) \<noteq> Inl e"
proof (induction ws arbitrary: rs p)
  case Nil
  then show ?case by (cases rs) auto
next
  case (Cons w ws)
  show ?case
  proof (cases rs)
    case (Cons rg rs')
    obtain y p1 where y: "bind_call setup r w (call_arguments n rg args) p = (y, p1)" by fastforce
    then obtain x where x: "y = Inr x" using bind_call_throws Cons.prems by (cases y) fastforce+
    obtain z p2 where z: "fusion_call (bind_call setup r) n args ws rs' p1 = (z, p2)" by fastforce
    then have "z \<noteq> Inl e" using Cons.IH [of rs' p1] Cons.prems by auto
    then show ?thesis using y x z Cons by (cases z) auto
  qed simp
qed

lemma safe_throw:
  assumes "safe_statement setup st" "fusion_call (bind_call setup r) n args (st_binds st) rs p = (Inl e, q)"
  shows "q = p"
proof (cases "st_binds st")
  case Nil
  then show ?thesis using assms(2) by (cases rs) auto
next
  case binds: (Cons w ws)
  show ?thesis
  proof (cases rs)
    case Nil
    then show ?thesis using assms(2) binds by simp
  next
    case ranges: (Cons rg rs')
    obtain y p1 where y: "bind_call setup r w (call_arguments n rg args) p = (y, p1)" by fastforce
    obtain z p2 where z: "fusion_call (bind_call setup r) n args ws rs' p1 = (z, p2)" by fastforce
    have "fst (fusion_call (bind_call setup r) n args ws rs' p1) \<noteq> Inl e" for e
      using assms(1) binds by (intro fusion_no_throw) (simp add: safe_statement_def)
    then obtain xs where xs: "z = Inr xs" using z by (cases z) auto
    show ?thesis
    proof (cases y)
      case (Inl e')
      then show ?thesis using assms(2) binds ranges y bind_call_throws by fastforce
    qed (use assms(2) binds ranges y z xs in simp)
  qed
qed

lemma plant_invD:
  assumes "plant_inv R p"
  shows "covered p" "r \<in> set (entries s p) \<Longrightarrow> \<exists>i \<in> R. owner_of r p = Some i \<and> r \<in> set (pl_handles p i)"
    "i \<in> R \<Longrightarrow> i < pl_next_reactor p" "i \<in> R \<Longrightarrow> r \<in> set (pl_handles p i) \<Longrightarrow> owner_of r p = Some i"
    "owner_of r p \<noteq> None \<Longrightarrow> r < pl_next_reaction p"
  using assms unfolding plant_inv_def owner_of_def by (blast, blast, blast, blast, fastforce)

lemma then_inv:
  assumes inv: "plant_inv R p" and i: "i \<in> R" and safe: "safe_statement setup st" and run: "binder_then setup i st p = (x, q)"
  shows "plant_inv R q \<and> pl_reactors q = pl_reactors p \<and> pl_next_reactor q = pl_next_reactor p"
proof -
  let ?r = "pl_next_reaction p"
  let ?p = "p\<lparr>pl_next_reaction := Suc ?r,
      pl_reactions := (pl_reactions p)(?r \<mapsto> \<lparr>bd_reactor = i, bd_emit_stats = True, bd_unbinders = []\<rparr>)\<rparr>"
  note D = plant_invD [OF inv]
  have fresh: "owner_of ?r p = None" using D(5) [of ?r] by blast
  have ent: "entries s ?p = entries s p" for s by (cases s) simp_all
  have own: "owner_of r ?p = (if r = ?r then Some i else owner_of r p)" for r by (simp add: owner_of_def)
  have unb: "unbinds ?p r s = (if r = ?r then 0 else unbinds p r s)" for r s by (simp add: unbinds_def)
  have new: "?r \<notin> set (entries s p)" for s using D(2) [of ?r s] fresh by auto
  then have zero: "count_list (entries s p) ?r = 0" for s by (metis count_list_0_iff)
  obtain y q1 where y: "fusion_call (bind_call setup ?r) 1 (ThisReaction # map Given (st_args st)) (st_binds st) (st_ranges st) ?p = (y, q1)"
    by fastforce
  show ?thesis
  proof (cases y)
    case (Inl e)
    then have "q = ?p" using run y safe_throw [OF safe, of ?r 1 _ "st_ranges st" ?p e q1] by (simp add: binder_then_def Let_def)
    moreover have "covered ?p" using D(1) zero by (auto simp: covered_alt ent unb)
    ultimately show ?thesis
      using inv D(2) fresh unfolding plant_inv_def by (auto simp: ent own less_SucI split: if_splits) (use D(4,5) in \<open>force simp: owner_of_def\<close>)+
  next
    case (Inr xs)
    let ?q = "q1\<lparr>pl_handles := (pl_handles q1)(i := pl_handles q1 i @ [?r])\<rparr>"
    have q: "q = ?q" using run y Inr by (simp add: binder_then_def Let_def)
    have b: "binds_only ?r ?p q1" using fusion_binds [OF _ y] own by simp
    have rest: "rest_of q1 = rest_of ?p" and own1: "owner_of r q1 = owner_of r ?p" for r using b by (simp_all add: binds_only_def)
    have fields: "pl_reactors q1 = pl_reactors p" "pl_next_reactor q1 = pl_next_reactor p" "pl_handles q1 = pl_handles p"
      "pl_next_reaction q1 = Suc ?r" using rest by (simp_all add: rest_of_def)
    have entq: "entries s ?q = entries s q1" for s by (cases s) simp_all
    have ownq: "owner_of r ?q = owner_of r q1" for r by (simp add: owner_of_def)
    have kept: "r \<in> set (entries s p)" if "r \<in> set (entries s q1)" "r \<noteq> ?r" for r s
    proof -
      have "filter (\<lambda>i. i \<noteq> ?r) (entries s q1) = filter (\<lambda>i. i \<noteq> ?r) (entries s p)" using b ent by (simp add: binds_only_def)
      moreover have "r \<in> set (filter (\<lambda>i. i \<noteq> ?r) (entries s q1))" using that by simp
      ultimately have "r \<in> set (filter (\<lambda>i. i \<noteq> ?r) (entries s p))" by metis
      then show ?thesis by simp
    qed
    have "covered q1"
      unfolding covered_alt
    proof (intro allI)
      fix s r
      show "count_list (entries s q1) r \<le> unbinds q1 r s"
      proof (cases "r = ?r")
        case True
        have "count_list (entries s q1) ?r + unbinds ?p ?r s \<le> count_list (entries s ?p) ?r + unbinds q1 ?r s"
          using b by (simp add: binds_only_def)
        then show ?thesis using True zero unb ent by simp
      next
        case False
        have same: "count_list (filter (\<lambda>i. i \<noteq> ?r) xs) r = count_list xs r" for xs using False by (induction xs) auto
        have "filter (\<lambda>i. i \<noteq> ?r) (entries s q1) = filter (\<lambda>i. i \<noteq> ?r) (entries s p)" using b ent by (simp add: binds_only_def)
        then have "count_list (entries s q1) r = count_list (entries s p) r" using same by metis
        moreover have "unbinds q1 r s = unbinds p r s" using b unb False by (simp add: binds_only_def)
        ultimately show ?thesis using D(1) by (simp add: covered_alt)
      qed
    qed
    then have cov: "covered ?q" using covered_filter [of q1 ?q "\<lambda>_ _. True"] entq by simp
    have "\<exists>j \<in> R. owner_of r ?q = Some j \<and> r \<in> set (pl_handles ?q j)" if "r \<in> set (entries s ?q)" for r s
    proof (cases "r = ?r")
      case True
      then show ?thesis using i by (intro bexI [of _ i]) (simp_all add: ownq own1 own)
    next
      case False
      have "r \<in> set (entries s p)" using kept False that entq by metis
      then obtain j where "j \<in> R" "owner_of r p = Some j" "r \<in> set (pl_handles p j)" using D(2) by blast
      then show ?thesis using False by (intro bexI [of _ j]) (auto simp: ownq own1 own fields)
    qed
    moreover have "owner_of r ?q = Some j" if "j \<in> R" "r \<in> set (pl_handles ?q j)" for j r
      using that D(4) [of j r] fresh by (auto simp: ownq own1 own fields split: if_splits)
    moreover have "r < pl_next_reaction ?q" if "pl_reactions ?q r \<noteq> None" for r
    proof -
      have "owner_of r q1 \<noteq> None" using that by (simp add: owner_of_def)
      then show ?thesis using own1 [of r] own [of r] D(5) [of r] fields by (auto split: if_splits)
    qed
    moreover have "j < pl_next_reactor ?q" if "j \<in> R" for j using D(3) [OF that] fields by simp
    ultimately have "plant_inv R ?q" using cov unfolding plant_inv_def by blast
    then show ?thesis using q fields by simp
  qed
qed

lemma construct_inv:
  assumes "plant_inv R p" "i \<in> R" "\<forall>st \<in> set sts. safe_statement setup st" "construct setup i sts p = (e, q)"
  shows "plant_inv R q \<and> pl_reactors q = pl_reactors p \<and> pl_next_reactor q = pl_next_reactor p"
  using assms
proof (induction sts arbitrary: p)
  case (Cons st sts)
  obtain x p1 where x: "binder_then setup i st p = (x, p1)" by fastforce
  note one = then_inv [OF Cons.prems(1,2) _ x] Cons.prems(3)
  show ?case
  proof (cases x)
    case (Inl e')
    then show ?thesis using one x Cons.prems(4) by simp
  next
    case (Inr y)
    then show ?thesis using one x Cons.IH [of p1] Cons.prems by simp
  qed
qed simp

section \<open>Installing and destroying reactors\<close>

lemma end_reactor_entries:
  assumes inv: "plant_inv R p" and i: "i \<in> R"
  shows "entries s (end_reactor i p) = filter (\<lambda>r. owner_of r p \<noteq> Some i) (entries s p)"
proof -
  have "entries s (end_reactor i p) = filter (\<lambda>r. r \<notin> set (pl_handles p i)) (entries s p)"
    using unbind_handles_entries [OF plant_invD(1) [OF inv]] by (simp add: end_reactor_def)
  also have "\<dots> = filter (\<lambda>r. owner_of r p \<noteq> Some i) (entries s p)"
  proof (rule filter_cong [OF refl])
    fix r
    assume "r \<in> set (entries s p)"
    then obtain j where j: "owner_of r p = Some j" "r \<in> set (pl_handles p j)" using plant_invD(2) [OF inv] by blast
    then show "(r \<notin> set (pl_handles p i)) = (owner_of r p \<noteq> Some i)"
      using plant_invD(4) [OF inv i, of r] by (cases "j = i") auto
  qed
  finally show ?thesis .
qed

lemma fewer_entries_inv:
  assumes inv: "plant_inv R p" and ent: "\<And>s. entries s q = filter (P s) (entries s p)"
    and same: "rest_of q = rest_of p" "pl_reactions q = pl_reactions p"
    and R: "R' \<subseteq> R" "\<And>s r. r \<in> set (entries s q) \<Longrightarrow> owner_of r p \<noteq> Some i" "R \<subseteq> insert i R'"
  shows "plant_inv R' q"
proof -
  note D = plant_invD [OF inv]
  have own: "owner_of r q = owner_of r p" "unbinds q r s = unbinds p r s" for r s using same(2) by (simp_all add: owner_of_def unbinds_def)
  have rest: "pl_next_reactor q = pl_next_reactor p" "pl_handles q = pl_handles p" "pl_next_reaction q = pl_next_reaction p"
    using same(1) by (simp_all add: rest_of_def)
  have "covered q" by (rule covered_filter [OF D(1) ent same(2)])
  moreover have "\<exists>j \<in> R'. owner_of r q = Some j \<and> r \<in> set (pl_handles q j)" if "r \<in> set (entries s q)" for s r
  proof -
    have "r \<in> set (entries s p)" using that by (simp add: ent)
    then obtain j where "j \<in> R" "owner_of r p = Some j" "r \<in> set (pl_handles p j)" using D(2) by blast
    then show ?thesis using R(2) [OF that] R(3) own rest by auto
  qed
  moreover have "\<forall>j \<in> R'. j < pl_next_reactor q \<and> (\<forall>r \<in> set (pl_handles q j). owner_of r q = Some j)"
    using D(3,4) R(1) own rest by auto
  moreover have "r < pl_next_reaction q" if "pl_reactions q r \<noteq> None" for r
    using D(5) [of r] that same(2) rest by (auto simp: owner_of_def)
  ultimately show ?thesis unfolding plant_inv_def by blast
qed

lemma end_reactor_inv:
  assumes "plant_inv (insert i R) p" "i \<notin> R"
  shows "plant_inv R (end_reactor i p) \<and> rest_of (end_reactor i p) = rest_of p \<and> pl_reactions (end_reactor i p) = pl_reactions p"
proof -
  have same: "rest_of (end_reactor i p) = rest_of p" "pl_reactions (end_reactor i p) = pl_reactions p"
    using unbind_handles_entries [OF plant_invD(1) [OF assms(1)]] by (simp_all add: end_reactor_def)
  have "plant_inv R (end_reactor i p)"
    by (rule fewer_entries_inv [OF assms(1) end_reactor_entries [OF assms(1)] same]) (auto simp: end_reactor_entries [OF assms(1)])
  then show ?thesis using same by simp
qed

definition hush :: "nat list \<Rightarrow> 'v plant \<Rightarrow> 'v plant" where
  "hush ks p = p\<lparr>pl_controllers := (\<lambda>k. if k \<in> set ks then None else pl_controllers p k)\<rparr>"

definition of_controller :: "nat list \<Rightarrow> source \<Rightarrow> bool" where
  "of_controller ks s \<longleftrightarrow> (case s of FromController k \<Rightarrow> k \<in> set ks | _ \<Rightarrow> False)"

lemma hush_entries: "entries s (hush ks p) = filter (\<lambda>_. \<not> of_controller ks s) (entries s p)"
  by (cases s) (auto simp: hush_def of_controller_def)

lemma hush_inv: "plant_inv R p \<Longrightarrow> plant_inv R (hush ks p)"
proof -
  assume inv: "plant_inv R p"
  have "covered (hush ks p)" by (rule covered_filter [OF plant_invD(1) [OF inv] hush_entries]) (simp add: hush_def)
  moreover have "entries s (hush ks p) = filter (\<lambda>_. \<not> of_controller ks s) (entries s p)" for s by (rule hush_entries)
  ultimately show ?thesis using inv unfolding plant_inv_def by (auto simp: owner_of_def hush_def split: if_splits)
qed

lemma destroy_reactor_hush: "destroy_reactor i p = end_reactor i (hush (pl_controls p i) p)"
  by (simp add: destroy_reactor_def hush_def)

lemma destroy_reactor_inv:
  assumes "plant_inv (insert i R) p" "i \<notin> R"
  shows "plant_inv R (destroy_reactor i p) \<and> rest_of (destroy_reactor i p) = rest_of p
    \<and> entries s (destroy_reactor i p) = filter (\<lambda>r. owner_of r p \<noteq> Some i \<and> \<not> of_controller (pl_controls p i) s) (entries s p)"
proof -
  let ?h = "hush (pl_controls p i) p"
  note inv = hush_inv [OF assms(1), of "pl_controls p i"]
  have "rest_of ?h = rest_of p" "owner_of r ?h = owner_of r p" for r by (simp_all add: hush_def rest_of_def owner_of_def)
  then show ?thesis
    using end_reactor_inv [OF inv assms(2)] end_reactor_entries [OF inv, of i s]
    by (simp add: destroy_reactor_hush hush_entries conj_commute)
qed

lemma install_inv:
  assumes inv: "plant_inv (set (pl_reactors p)) p" and dist: "distinct (pl_reactors p)"
    and safe: "\<forall>st \<in> set sts. safe_statement setup st" and run: "plant_install setup controls sts p = (e, q)"
  shows "plant_inv (set (pl_reactors q)) q \<and> distinct (pl_reactors q)"
proof -
  let ?i = "pl_next_reactor p" and ?R = "set (pl_reactors p)"
  let ?p = "p\<lparr>pl_next_reactor := Suc ?i, pl_handles := (pl_handles p)(?i := [])\<rparr>"
  note D = plant_invD [OF inv]
  have fresh: "?i \<notin> ?R" using D(3) by blast
  have own: "owner_of r ?p = owner_of r p" "unbinds ?p r s = unbinds p r s" for r s by (simp_all add: owner_of_def unbinds_def)
  have "covered ?p" using D(1) by (simp add: covered_alt own)
  moreover have "\<exists>j \<in> insert ?i ?R. owner_of r ?p = Some j \<and> r \<in> set (pl_handles ?p j)" if "r \<in> set (entries s ?p)" for s r
    using D(2) [of r s] that fresh own by fastforce
  moreover have "\<forall>j \<in> insert ?i ?R. j < pl_next_reactor ?p \<and> (\<forall>r \<in> set (pl_handles ?p j). owner_of r ?p = Some j)"
    using D(3,4) fresh own by (auto simp: less_SucI)
  moreover have "r < pl_next_reaction ?p" if "pl_reactions ?p r \<noteq> None" for r using D(5) [of r] that by (simp add: owner_of_def)
  ultimately have start: "plant_inv (insert ?i ?R) ?p" unfolding plant_inv_def by blast
  obtain x p1 where x: "construct setup ?i sts ?p = (x, p1)" by fastforce
  have built: "plant_inv (insert ?i ?R) p1" "pl_reactors p1 = pl_reactors p"
    using construct_inv [OF start _ safe x] by simp_all
  show ?thesis
  proof (cases x)
    case (Some e')
    then have q: "q = end_reactor ?i p1" using run x by (simp add: plant_install_def Let_def)
    have "pl_reactors q = pl_reactors p" using end_reactor_inv [OF built(1) fresh] built(2) by (simp add: q rest_of_def)
    then show ?thesis using end_reactor_inv [OF built(1) fresh] dist q by simp
  next
    case None
    let ?h = "hush controls p1"
    have q: "q = p1\<lparr>pl_reactors := pl_reactors p @ [?i], pl_controls := (pl_controls p1)(?i := controls),
        pl_controllers := (\<lambda>k. if k \<in> set controls then Some [] else pl_controllers p1 k)\<rparr>"
      using run x None built(2) by (simp add: plant_install_def Let_def)
    have ent: "entries s q = entries s ?h" for s by (cases s) (auto simp: q hush_def)
    have same: "owner_of r q = owner_of r ?h" "unbinds q r s = unbinds ?h r s" for r s by (simp_all add: q owner_of_def unbinds_def hush_def)
    have "plant_inv (insert ?i ?R) ?h" by (rule hush_inv [OF built(1)])
    then have "plant_inv (insert ?i ?R) q"
      unfolding plant_inv_def covered_alt ent same by (simp add: q hush_def)
    then show ?thesis using dist fresh by (simp add: q)
  qed
qed

section \<open>Histories of a plant\<close>

text \<open>Reactors are installed, handles unbound by the user, and tasks of reactions come and go.\<close>

datatype 'a plant_op = InstallReactor "nat list" "'a statement list" | UnbindHandle nat | HoldTask nat | DropTask nat

fun plant_step :: "(nat \<Rightarrow> 'a argument list \<Rightarrow> 'e + 'b returned) \<Rightarrow> 'a plant_op \<Rightarrow> 'v plant \<Rightarrow> 'v plant" where
  "plant_step setup (InstallReactor controls sts) p = snd (plant_install setup controls sts p)"
| "plant_step setup (UnbindHandle r) p = unbind_handle r p"
| "plant_step setup (HoldTask r) p = p\<lparr>pl_held := r # pl_held p\<rparr>"
| "plant_step setup (DropTask r) p = p\<lparr>pl_held := remove1 r (pl_held p)\<rparr>"

definition installs :: "'a plant_op \<Rightarrow> 'a statement list" where
  "installs op = (case op of InstallReactor controls sts \<Rightarrow> sts | _ \<Rightarrow> [])"

definition live_plant :: "'v plant \<Rightarrow> bool" where
  "live_plant p \<longleftrightarrow> plant_inv (set (pl_reactors p)) p \<and> distinct (pl_reactors p)"

lemma plant_inv_held: "plant_inv R (p\<lparr>pl_held := rs\<rparr>) = plant_inv R p"
  by (simp add: plant_inv_def covered_def owner_of_def)

lemma plant_step_live:
  assumes "live_plant p" "\<forall>st \<in> set (installs op). safe_statement setup st"
  shows "live_plant (plant_step setup op p)"
proof (cases op)
  case (InstallReactor controls sts)
  obtain e q where q: "plant_install setup controls sts p = (e, q)" by fastforce
  show ?thesis
    using install_inv [OF _ _ _ q] assms InstallReactor q by (simp add: live_plant_def installs_def)
next
  case (UnbindHandle r)
  have inv: "plant_inv (set (pl_reactors p)) p" using assms(1) by (simp add: live_plant_def)
  have ent: "\<And>s. entries s (unbind_handle r p) = filter (\<lambda>i. i \<noteq> r) (entries s p)"
    and same: "rest_of (unbind_handle r p) = rest_of p" "pl_reactions (unbind_handle r p) = pl_reactions p"
    using unbind_handle_entries [OF plant_invD(1) [OF inv], of _ r] by blast+
  have "pl_reactors (unbind_handle r p) = pl_reactors p" using same(1) by (simp add: rest_of_def)
  moreover have "owner_of r' p \<noteq> Some (pl_next_reactor p)" if "r' \<in> set (entries s (unbind_handle r p))" for s r'
  proof -
    have "r' \<in> set (entries s p)" using that by (simp add: ent)
    then show ?thesis using plant_invD(2,3) [OF inv] by (metis less_irrefl option.inject)
  qed
  then have "plant_inv (set (pl_reactors p)) (unbind_handle r p)"
    by (intro fewer_entries_inv [OF inv ent same, where i = "pl_next_reactor p"]) auto
  ultimately show ?thesis using assms(1) UnbindHandle by (simp add: live_plant_def)
qed (use assms plant_inv_held in \<open>auto simp: live_plant_def\<close>)

lemma plant_run_live:
  assumes "\<forall>op \<in> set ops. \<forall>st \<in> set (installs op). safe_statement setup st" "live_plant p"
  shows "live_plant (fold (plant_step setup) ops p)"
  using assms by (induction ops arbitrary: p) (simp_all add: plant_step_live)

lemma no_plant_live: "live_plant no_plant"
proof -
  have e: "entries s no_plant = []" for s by (cases s) (simp_all add: no_plant_def new_hub_def)
  show ?thesis by (simp add: live_plant_def plant_inv_def covered_def e) (simp add: no_plant_def)
qed

lemma plant_inv_empty:
  assumes "plant_inv {} q"
  shows "entries s q = []"
proof (cases "entries s q")
  case (Cons r rs)
  then have "r \<in> set (entries s q)" by simp
  then show ?thesis using plant_invD(2) [OF assms] by blast
qed

lemma destroy_all:
  "plant_inv (set is) p \<Longrightarrow> distinct is \<Longrightarrow> plant_inv {} (fold destroy_reactor (rev is) p)"
proof (induction "is" arbitrary: p rule: rev_induct)
  case (snoc i "is")
  have "plant_inv (set is) (destroy_reactor i p)"
    using snoc.prems by (intro conjunct1 [OF destroy_reactor_inv]) auto
  then show ?case using snoc by simp
qed simp

text \<open>
  C22. A reactor takes with it exactly the reactions it bound. After any history of installations, also ones whose
  constructor fails, of handles unbound by the user and of tasks that keep reactions alive, destroying a reactor
  removes its reactions from the stores of the types and from the idle tasks and leaves all others in their order, and
  destroying the plant leaves no reaction bound anywhere. Required is that in every statement only the first binding
  word can throw.
\<close>

theorem reactors_leave_nothing:
  assumes "\<forall>op \<in> set ops. \<forall>st \<in> set (installs op). safe_statement setup st"
    and p: "p = fold (plant_step setup) ops no_plant"
  shows "entries s (plant_destroy p) = [] \<and> (i \<in> set (pl_reactors p) \<longrightarrow>
      entries (FromType T) (destroy_reactor i p) = filter (\<lambda>r. owner_of r p \<noteq> Some i) (entries (FromType T) p)
      \<and> entries (FromIdle pool) (destroy_reactor i p) = filter (\<lambda>r. owner_of r p \<noteq> Some i) (entries (FromIdle pool) p))"
proof -
  have "live_plant p" unfolding p by (rule plant_run_live [OF assms(1) no_plant_live])
  then have live: "plant_inv (set (pl_reactors p)) p" "distinct (pl_reactors p)" by (simp_all add: live_plant_def)
  have "entries s (fold destroy_reactor (rev (pl_reactors p)) p) = []" by (rule plant_inv_empty [OF destroy_all [OF live]])
  then have gone: "entries s (plant_destroy p) = []" by (simp add: plant_destroy_def)
  have "entries s' (destroy_reactor i p) = filter (\<lambda>r. owner_of r p \<noteq> Some i \<and> \<not> of_controller (pl_controls p i) s') (entries s' p)"
    if "i \<in> set (pl_reactors p)" for s'
  proof -
    have "set (pl_reactors p) = insert i (set (pl_reactors p) - {i})" using that by auto
    then have "plant_inv (insert i (set (pl_reactors p) - {i})) p" using live(1) by metis
    then show ?thesis using destroy_reactor_inv [of i "set (pl_reactors p) - {i}" p s'] by simp
  qed
  note this [of "FromType T"] this [of "FromIdle pool"]
  then have "i \<in> set (pl_reactors p) \<longrightarrow>
      entries (FromType T) (destroy_reactor i p) = filter (\<lambda>r. owner_of r p \<noteq> Some i) (entries (FromType T) p)
      \<and> entries (FromIdle pool) (destroy_reactor i p) = filter (\<lambda>r. owner_of r p \<noteq> Some i) (entries (FromIdle pool) p)"
    by (simp add: of_controller_def del: entries.simps)
  then show ?thesis using gone by blast
qed

definition trigger_statement :: "nat statement" where
  "trigger_statement = \<lparr>st_words = [TypeWord 5 True, NoBindWord], st_args = [], st_ranges = [(1, 1)]\<rparr>"

definition no_setup :: "nat \<Rightarrow> nat argument list \<Rightarrow> nat + nat returned" where
  "no_setup k args = Inr Void"

lemmas plant_eval = plant_install_def binder_then_def st_binds_def find_words_eq no_plant_def new_hub_def Let_def add_unbinder_def
  type_bind_def type_unbind_def call_arguments_def pick_def plant_destroy_def destroy_reactor_def end_reactor_def unbind_handle_def alive_def

theorem reactors_leave_nothing_witness:
  "entries (FromType 5) (plant_destroy (snd (plant_install no_setup [] [trigger_statement] no_plant)) :: nat plant) = []
   \<and> entries (FromType 5) (snd (plant_install no_setup [] [trigger_statement] no_plant) :: nat plant) = [1]"
proof
  have safe: "\<forall>op \<in> set [InstallReactor [] [trigger_statement]]. \<forall>st \<in> set (installs op). safe_statement no_setup st"
    by (simp add: installs_def safe_statement_def no_setup_def st_binds_def find_words_eq trigger_statement_def)
  show "entries (FromType 5) (plant_destroy (snd (plant_install no_setup [] [trigger_statement] no_plant)) :: nat plant) = []"
    using conjunct1 [OF reactors_leave_nothing [OF safe refl, of "FromType 5"]] by (simp del: entries.simps)
  show "entries (FromType 5) (snd (plant_install no_setup [] [trigger_statement] no_plant) :: nat plant) = [1]"
    by (simp add: plant_eval trigger_statement_def)
qed

section \<open>A word that throws\<close>

definition failing_statement :: "nat \<Rightarrow> nat \<Rightarrow> 'a list \<Rightarrow> 'a statement" where
  "failing_statement T k args =
     \<lparr>st_words = [TypeWord T True, ControllerWord k], st_args = args, st_ranges = [(1, 1), (1, 1 + int (length args))]\<rparr>"

lemma failing_install:
  assumes "setup k (map Given args) = Inl e"
  shows "plant_install setup [] [failing_statement T k args] no_plant
    = (Some e, no_plant\<lparr>pl_next_reactor := 1, pl_next_reaction := 2, pl_hub := type_bind T 1 new_hub,
        pl_reactions := [1 \<mapsto> \<lparr>bd_reactor = 0, bd_emit_stats = True, bd_unbinders = [FromType T]\<rparr>]\<rparr>)"
proof -
  have "call_arguments 1 (1, 1 + int (length args)) (ThisReaction # map Given args) = ThisReaction # map Given args"
    using call_arguments_range [of 1 "ThisReaction # map Given args" 1 "1 + length args"] by simp
  moreover have "(\<lambda>_. [])(0 := []) = ((\<lambda>_. []) :: nat \<Rightarrow> nat list)" by auto
  ultimately show ?thesis using assms
    by (simp add: plant_install_def binder_then_def st_binds_def find_words_eq failing_statement_def Let_def add_unbinder_def end_reactor_def
        no_plant_def)
qed

text \<open>
  C23. A word that throws leaves the reaction bound by the words before it. If the second word of a statement throws in a
  constructor, the exception leaves \<open>install\<close> and the reactor is destroyed, but its handle was not yet kept: the
  reaction stays in the store of the type even after the plant is gone, and an emission of the type still makes a
  task of it, whose callback and \<open>reactor\<close> refer to the destroyed reactor.
\<close>

theorem failed_bind_stays_bound:
  assumes "setup k (map Given args) = Inl e"
    and P: "pg_enabled P 1" "pg_words P 1 = [Required T]" "\<not> resolve_inline (pg_inline P 1) False"
  shows "\<exists>p q. plant_install setup [] [failing_statement T k args] no_plant = (Some e, p) \<and> pl_reactors p = []
    \<and> entries (FromType T) (plant_destroy p) = [1] \<and> owner_of 1 p = Some 0
    \<and> plant_emit (Suc n) P T False v (plant_destroy p) = Some q \<and> hb_log (pl_hub q) = [Queued 1 [Some v]]"
proof -
  let ?p = "no_plant\<lparr>pl_next_reactor := 1, pl_next_reaction := 2, pl_hub := type_bind T 1 new_hub,
        pl_reactions := [1 \<mapsto> \<lparr>bd_reactor = 0, bd_emit_stats = True, bd_unbinders = [FromType T]\<rparr>]\<rparr>"
  have "plant_install setup [] [failing_statement T k args] no_plant = (Some e, ?p)" using assms(1) by (rule failing_install)
  moreover have "pl_reactors ?p = []" "entries (FromType T) (plant_destroy ?p) = [1]" "owner_of 1 ?p = Some 0"
    by (simp_all add: no_plant_def plant_destroy_def type_bind_def new_hub_def owner_of_def)
  moreover have "\<exists>q. plant_emit (Suc n) P T False v (plant_destroy ?p) = Some q \<and> hb_log (pl_hub q) = [Queued 1 [Some v]]"
    using P by (simp add: plant_emit_def plant_destroy_def no_plant_def type_bind_def new_hub_def task_data_def cache_get_def Let_def)
  ultimately show ?thesis by blast
qed

theorem failed_bind_stays_bound_witness:
  "\<exists>p q. plant_install (\<lambda>_ _. Inl ''socket'' :: string + nat returned) [] [failing_statement 5 0 ([] :: nat list)] no_plant = (Some ''socket'', p)
     \<and> plant_emit 1 (example_program\<lparr>pg_words := (\<lambda>_. [Required 5])\<rparr>) 5 False 7 (plant_destroy p) = Some q
     \<and> hb_log (pl_hub q) = [Queued 1 [Some 7]]"
  using failed_bind_stays_bound [of "\<lambda>_ _. Inl ''socket'' :: string + nat returned" 0 "[] :: nat list" "''socket''"
      "example_program\<lparr>pg_words := (\<lambda>_. [Required 5])\<rparr>" 5 0 7]
  by (auto simp: example_program_def resolve_inline_def)

section \<open>Starting and stopping\<close>

lemma emission_log:
  "emit_to n P e v h = Some h' \<Longrightarrow> \<exists>l. hb_log h' = hb_log h @ l"
  "dispatch n P e v rs h = Some h' \<Longrightarrow> \<exists>l. hb_log h' = hb_log h @ l"
  "run_body n P es h = Some h' \<Longrightarrow> \<exists>l. hb_log h' = hb_log h @ l"
proof (induction n P e v h and n P e v rs h and n P es h arbitrary: h' and h' and h' rule: emit_to_dispatch_run_body.induct)
  case (2 n P e v h)
  then show ?case by (auto split: option.splits)
next
  case (4 n P e v r rs h)
  then show ?case by (auto simp: Let_def split: option.splits if_splits) fastforce+
next
  case (6 n P e v es h)
  then show ?case by (auto split: option.splits) fastforce
qed auto

text \<open>A reaction that only needs the data of the emission is dispatched by it: run at once, or queued.\<close>

lemma dispatch_reaches:
  "dispatch n P e v rs h = Some h' \<Longrightarrow> r \<in> set rs \<Longrightarrow> pg_enabled P r \<Longrightarrow> pg_words P r = [Required (em_type e)] \<Longrightarrow>
   \<exists>l. hb_log h' = hb_log h @ l
     \<and> (if resolve_inline (pg_inline P r) (em_inline e) then Ran r [Some v] else Queued r [Some v]) \<in> set l"
proof (induction rs arbitrary: h)
  case (Cons r' rs)
  let ?h = "h\<lparr>hb_thread := (hb_thread h)(em_type e \<mapsto> v)\<rparr>"
  show ?case
  proof (cases "r' = r")
    case True
    have d: "task_data P r ?h = Some [Some v]" using Cons.prems by (simp add: task_data_def cache_get_def)
    show ?thesis
    proof (cases "resolve_inline (pg_inline P r) (em_inline e)")
      case inl: True
      then obtain h2 where h2: "run_body n P (pg_body P r [Some v]) (?h\<lparr>hb_log := hb_log ?h @ [Ran r [Some v]]\<rparr>) = Some h2" "dispatch n P e v rs h2 = Some h'"
        using Cons.prems(1) True d by (auto simp: Let_def split: option.splits)
      obtain l2 where l2: "hb_log h2 = hb_log h @ Ran r [Some v] # l2" using emission_log(3) [OF h2(1)] by auto
      obtain l3 where l3: "hb_log h' = hb_log h2 @ l3" using emission_log(2) [OF h2(2)] by blast
      show ?thesis using inl l2 l3 by (intro exI [of _ "Ran r [Some v] # l2 @ l3"]) simp
    next
      case False
      then have "dispatch n P e v rs (?h\<lparr>hb_log := hb_log ?h @ [Queued r [Some v]]\<rparr>) = Some h'"
        using Cons.prems(1) True d by (simp add: Let_def)
      then obtain l where "hb_log h' = hb_log h @ Queued r [Some v] # l" using emission_log(2) by fastforce
      then show ?thesis using False by (intro exI [of _ "Queued r [Some v] # l"]) simp
    qed
  next
    case False
    then have mem: "r \<in> set rs" using Cons.prems(2) by simp
    obtain h2 l2 where h2: "dispatch n P e v rs h2 = Some h'" "hb_log h2 = hb_log h @ l2"
    proof (cases "task_data P r' ?h")
      case None
      then show ?thesis using Cons.prems(1) that [of ?h "[]"] by (simp add: Let_def)
    next
      case (Some d)
      show ?thesis
      proof (cases "resolve_inline (pg_inline P r') (em_inline e)")
        case True
        then obtain h2 where h2: "run_body n P (pg_body P r' d) (?h\<lparr>hb_log := hb_log ?h @ [Ran r' d]\<rparr>) = Some h2" "dispatch n P e v rs h2 = Some h'"
          using Cons.prems(1) Some by (auto simp: Let_def split: option.splits)
        then show ?thesis using emission_log(3) [OF h2(1)] that by auto
      next
        case False
        then show ?thesis using Cons.prems(1) Some that [of "?h\<lparr>hb_log := hb_log ?h @ [Queued r' d]\<rparr>" "[Queued r' d]"] by (simp add: Let_def)
      qed
    qed
    obtain l where "hb_log h' = hb_log h2 @ l" "(if resolve_inline (pg_inline P r) (em_inline e) then Ran r [Some v] else Queued r [Some v]) \<in> set l"
      using Cons.IH [OF h2(1) mem Cons.prems(3,4)] by blast
    then show ?thesis using h2(2) by (intro exI [of _ "l2 @ l"]) simp
  qed
qed simp

lemma plant_emit_reaches:
  assumes "plant_emit n P T inl v p = Some q"
  shows "\<exists>l. hb_log (pl_hub q) = hb_log (pl_hub p) @ l \<and> (\<forall>r \<in> set (hb_callbacks (pl_hub p) T). pg_enabled P r \<longrightarrow> pg_words P r = [Required T] \<longrightarrow>
      (if resolve_inline (pg_inline P r) inl then Ran r [Some v] else Queued r [Some v]) \<in> set l)"
proof (cases n)
  case (Suc m)
  let ?e = "\<lparr>em_type = T, em_inline = inl\<rparr>"
  obtain h1 where h1: "dispatch m P ?e v (hb_callbacks (pl_hub p) T) (pl_hub p) = Some h1" "hb_log (pl_hub q) = hb_log h1"
    using assms Suc by (auto simp: plant_emit_def split: option.splits)
  obtain l where l: "hb_log h1 = hb_log (pl_hub p) @ l" using emission_log(2) [OF h1(1)] by blast
  have "(if resolve_inline (pg_inline P r) inl then Ran r [Some v] else Queued r [Some v]) \<in> set l"
    if "r \<in> set (hb_callbacks (pl_hub p) T)" "pg_enabled P r" "pg_words P r = [Required T]" for r
    using dispatch_reaches [OF h1(1) that(1,2)] that(3) l by auto
  then show ?thesis using h1(2) l by auto
qed (use assms in \<open>simp add: plant_emit_def\<close>)


definition life_program :: "nat program" where
  "life_program = \<lparr>pg_words = (\<lambda>r. if r = 1 then [Required STARTUP] else [Required SHUTDOWN]), pg_inline = (\<lambda>_. NEUTRAL),
     pg_enabled = (\<lambda>_. True), pg_body = (\<lambda>_ _. [])\<rparr>"

definition life_plant :: "nat plant" where
  "life_plant = no_plant\<lparr>pl_hub := type_bind SHUTDOWN 2 (type_bind STARTUP 1 new_hub)\<rparr>"

lemmas life_eval = life_program_def life_plant_def plant_emit_def no_plant_def new_hub_def type_bind_def STARTUP_def SHUTDOWN_def
  ARGUMENTS_def task_data_def cache_get_def resolve_inline_def Let_def numeral_2_eq_2


end
