(* ===== verification/IO_Windows.thy ===== *)
theory IO_Windows
  imports Nuc_Prelude
begin

text \<open>
  The IO controller for Windows (\<open>extension/IOController_Windows.ipp\<close>): an event object of the system for each task and
  one to wake the loop, the list of events the loop waits for, and the events a task has waiting and in processing.
  The reactions of the controller hold \<open>tasks_mutex\<close>; the loop lets them in between the wait and the processing, so the
  two are separate steps. The answers of the system are the argument \<open>answers\<close> of an operation; an exception of an
  operation is its result. \<open>event_t\<close> is a \<open>long\<close> of 32 bits, an event object a number.
\<close>

section \<open>State\<close>

type_synonym wsa_events = u32

abbreviation FD_READ :: wsa_events where "FD_READ \<equiv> 0x1"
abbreviation FD_WRITE :: wsa_events where "FD_WRITE \<equiv> 0x2"
abbreviation FD_OOB :: wsa_events where "FD_OOB \<equiv> 0x4"
abbreviation FD_ACCEPT :: wsa_events where "FD_ACCEPT \<equiv> 0x8"
abbreviation FD_CLOSE :: wsa_events where "FD_CLOSE \<equiv> 0x20"

datatype w_event_type = W_READ | W_WRITE | W_CLOSE | W_ERROR

fun w_event_bits :: "w_event_type \<Rightarrow> wsa_events" where
  "w_event_bits W_READ = (FD_READ OR FD_OOB OR FD_ACCEPT)"
| "w_event_bits W_WRITE = FD_WRITE"
| "w_event_bits W_CLOSE = FD_CLOSE"
| "w_event_bits W_ERROR = 0"

record w_task =
  wt_fd :: int
  wt_listening :: wsa_events
  wt_waiting :: wsa_events
  wt_processing :: wsa_events
  wt_reaction :: nid

text \<open>\<open>w_open\<close> are the event objects that exist, \<open>w_submitted\<close> the runs submitted: reaction, socket and events.\<close>

record wio =
  w_notifier :: nat
  w_signalled :: bool
  w_running :: bool
  w_dirty :: bool
  w_watches :: "nat list"
  w_tasks :: "(nat \<times> w_task) list"
  w_open :: "nat list"
  w_submitted :: "(nid \<times> int \<times> wsa_events) list"

datatype w_error = CreateEventFailed | EventSelectFailed | CloseEventFailed | SetEventFailed | ResetEventFailed | EnumEventsFailed

text \<open>
  What \<open>WSACreateEvent\<close>, \<open>WSAEventSelect\<close>, \<open>WSACloseEvent\<close>, \<open>WSASetEvent\<close>, \<open>WSAResetEvent\<close> and \<open>WSAEnumNetworkEvents\<close>
  answer to an operation.
\<close>

record answers =
  k_create :: "nat option"
  k_select :: bool
  k_close :: bool
  k_set :: bool
  k_reset :: bool
  k_enum :: "wsa_events option"

section \<open>Operations\<close>

definition w_remove_task :: "answers \<Rightarrow> nat \<Rightarrow> wio \<Rightarrow> w_error option \<times> wio" where
  "w_remove_task k e s =
     (let s1 = s\<lparr>w_tasks := key_erase e (w_tasks s)\<rparr>
      in if k_close k then (None, s1\<lparr>w_open := remove1 e (w_open s1)\<rparr>) else (Some CloseEventFailed, s1))"

definition w_rebuild_list :: "wio \<Rightarrow> wio" where
  "w_rebuild_list s = s\<lparr>w_watches := w_notifier s # map fst (w_tasks s), w_dirty := False\<rparr>"

text \<open>\<open>gets\<close> tells whether a reaction makes a task of its event.\<close>

definition w_fire_event :: "(nid \<Rightarrow> bool) \<Rightarrow> nat \<Rightarrow> wio \<Rightarrow> wio" where
  "w_fire_event gets e s =
     (case map_of (w_tasks s) e of
        None \<Rightarrow> s
      | Some t \<Rightarrow>
          if wt_processing t = 0 \<and> wt_waiting t \<noteq> 0
          then (let t1 = t\<lparr>wt_processing := wt_waiting t, wt_waiting := 0\<rparr>
                in if gets (wt_reaction t)
                   then s\<lparr>w_tasks := key_update e (\<lambda>_. t1) (w_tasks s),
                          w_submitted := w_submitted s @ [(wt_reaction t, wt_fd t, wt_waiting t)]\<rparr>
                   else s\<lparr>w_tasks := key_update e (\<lambda>_. t1\<lparr>wt_waiting := wt_waiting t1 OR wt_processing t1, wt_processing := 0\<rparr>) (w_tasks s)\<rparr>)
          else s)"

definition w_process_event :: "answers \<Rightarrow> (nid \<Rightarrow> bool) \<Rightarrow> nat \<Rightarrow> wio \<Rightarrow> w_error option \<times> wio" where
  "w_process_event k gets e s =
     (if e = w_notifier s then (if k_reset k then (None, s\<lparr>w_signalled := False\<rparr>) else (Some ResetEventFailed, s))
      else case map_of (w_tasks s) e of
             None \<Rightarrow> (None, s\<lparr>w_dirty := True\<rparr>)
           | Some t \<Rightarrow>
               (case k_enum k of
                  None \<Rightarrow> (Some EnumEventsFailed, s)
                | Some ev \<Rightarrow> (None, w_fire_event gets e (s\<lparr>w_tasks := key_update e (\<lambda>t. t\<lparr>wt_waiting := wt_waiting t OR ev\<rparr>) (w_tasks s)\<rparr>))))"

definition w_bump :: "answers \<Rightarrow> wio \<Rightarrow> w_error option \<times> wio" where
  "w_bump k s = (if k_set k then (None, s\<lparr>w_signalled := True\<rparr>) else (Some SetEventFailed, s))"

definition w_configure :: "answers \<Rightarrow> int \<Rightarrow> wsa_events \<Rightarrow> nid \<Rightarrow> wio \<Rightarrow> w_error option \<times> wio" where
  "w_configure k fd events r s =
     (case k_create k of
        None \<Rightarrow> (Some CreateEventFailed, s)
      | Some e \<Rightarrow>
          (let s1 = s\<lparr>w_open := e # w_open s\<rparr>;
               t = \<lparr>wt_fd = fd, wt_listening = events, wt_waiting = 0, wt_processing = 0, wt_reaction = r\<rparr>
           in if k_select k
              then w_bump k (s1\<lparr>w_tasks := (if map_of (w_tasks s) e = None then key_insert e t (w_tasks s) else w_tasks s), w_dirty := True\<rparr>)
              else (Some EventSelectFailed, s1)))"

definition w_find :: "nid \<Rightarrow> wio \<Rightarrow> (nat \<times> w_task) option" where
  "w_find r s = find (\<lambda>(e, t). wt_reaction t = r) (w_tasks s)"

definition w_finished :: "answers \<Rightarrow> (nid \<Rightarrow> bool) \<Rightarrow> nid \<Rightarrow> wio \<Rightarrow> w_error option \<times> wio" where
  "w_finished k gets r s =
     (case w_find r s of
        None \<Rightarrow> (None, s)
      | Some (e, t) \<Rightarrow>
          if wt_processing t AND w_event_bits W_CLOSE \<noteq> 0 then w_remove_task k e (s\<lparr>w_dirty := True\<rparr>)
          else (None, w_fire_event gets e (s\<lparr>w_tasks := key_update e (\<lambda>t. t\<lparr>wt_processing := 0\<rparr>) (w_tasks s)\<rparr>)))"

definition w_unbind :: "answers \<Rightarrow> nid \<Rightarrow> wio \<Rightarrow> w_error option \<times> wio" where
  "w_unbind k r s =
     (case (case w_find r s of None \<Rightarrow> (None, s) | Some (e, t) \<Rightarrow> w_remove_task k e s) of
        (Some err, s1) \<Rightarrow> (Some err, s1)
      | (None, s1) \<Rightarrow> w_bump k (s1\<lparr>w_dirty := True\<rparr>))"

definition w_shutdown :: "answers \<Rightarrow> wio \<Rightarrow> w_error option \<times> wio" where
  "w_shutdown k s = w_bump k (s\<lparr>w_running := False\<rparr>)"

text \<open>One turn of the loop up to the wait, and after it: \<open>i\<close> is the answer of \<open>WSAWaitForMultipleEvents\<close>, a position or a failure.\<close>

definition w_before_wait :: "wio \<Rightarrow> wio" where
  "w_before_wait s = (if w_running s \<and> w_dirty s then w_rebuild_list s else s)"

definition w_after_wait :: "answers \<Rightarrow> (nid \<Rightarrow> bool) \<Rightarrow> nat option \<Rightarrow> wio \<Rightarrow> w_error option \<times> wio" where
  "w_after_wait k gets i s =
     (case i of
        None \<Rightarrow> (None, s)
      | Some n \<Rightarrow> if n < length (w_watches s) then w_process_event k gets (w_watches s ! n) s else (None, s))"

definition new_wio :: "answers \<Rightarrow> w_error + wio" where
  "new_wio k =
     (case k_create k of
        None \<Rightarrow> Inl CreateEventFailed
      | Some e \<Rightarrow> Inr (w_rebuild_list \<lparr>w_notifier = e, w_signalled = False, w_running = True, w_dirty = True, w_watches = [],
                         w_tasks = [], w_open = [e], w_submitted = []\<rparr>))"

datatype w_op = ConfigureW answers int wsa_events nid | FinishedW answers nid | UnbindW answers nid | ShutdownW answers
  | BeforeWait | AfterWait answers "nat option"

fun w_step :: "(nid \<Rightarrow> bool) \<Rightarrow> w_op \<Rightarrow> wio \<Rightarrow> w_error option \<times> wio" where
  "w_step gets (ConfigureW k fd events r) s = w_configure k fd events r s"
| "w_step gets (FinishedW k r) s = w_finished k gets r s"
| "w_step gets (UnbindW k r) s = w_unbind k r s"
| "w_step gets (ShutdownW k) s = w_shutdown k s"
| "w_step gets BeforeWait s = (None, w_before_wait s)"
| "w_step gets (AfterWait k i) s = w_after_wait k gets i s"

definition w_run :: "(nid \<Rightarrow> bool) \<Rightarrow> w_op list \<Rightarrow> wio \<Rightarrow> wio" where
  "w_run gets ops s = fold (\<lambda>op s. snd (w_step gets op s)) ops s"

text \<open>The system creates event objects that do not exist yet.\<close>

fun w_creates :: "w_op \<Rightarrow> nat option" where
  "w_creates (ConfigureW k fd events r) = k_create k"
| "w_creates op = None"

fun creates_fresh :: "(nid \<Rightarrow> bool) \<Rightarrow> w_op list \<Rightarrow> wio \<Rightarrow> bool" where
  "creates_fresh gets [] s \<longleftrightarrow> True"
| "creates_fresh gets (op # ops) s \<longleftrightarrow>
     (case w_creates op of None \<Rightarrow> True | Some e \<Rightarrow> e \<notin> set (w_open s)) \<and> creates_fresh gets ops (snd (w_step gets op s))"

section \<open>What every operation keeps\<close>

definition w_keys :: "wio \<Rightarrow> nat set" where
  "w_keys s = fst ` set (w_tasks s)"

text \<open>The event objects: each task has its own, all exist, and a list that is not dirty has them all behind the notifier.\<close>

definition w_objects :: "wio \<Rightarrow> bool" where
  "w_objects s \<longleftrightarrow> distinct (map fst (w_tasks s)) \<and> w_notifier s \<notin> w_keys s \<and> distinct (w_open s)
     \<and> insert (w_notifier s) (w_keys s) \<subseteq> set (w_open s)
     \<and> (\<exists>ws. w_watches s = w_notifier s # ws \<and> (w_dirty s \<or> w_keys s \<subseteq> set ws))"

text \<open>The events of a task: what waits has a run in front of it, and what is in processing was submitted.\<close>

definition w_task_ok :: "(nid \<Rightarrow> bool) \<Rightarrow> (nid \<times> int \<times> wsa_events) list \<Rightarrow> w_task \<Rightarrow> bool" where
  "w_task_ok gets runs t \<longleftrightarrow> (wt_waiting t \<noteq> 0 \<and> gets (wt_reaction t) \<longrightarrow> wt_processing t \<noteq> 0)
     \<and> (wt_processing t \<noteq> 0 \<longrightarrow> (wt_reaction t, wt_fd t, wt_processing t) \<in> set runs)"

definition w_inv :: "(nid \<Rightarrow> bool) \<Rightarrow> wio \<Rightarrow> bool" where
  "w_inv gets s \<longleftrightarrow> w_objects s \<and> (\<forall>(e, t) \<in> set (w_tasks s). w_task_ok gets (w_submitted s) t)"

lemma w_task_ok_more: "w_task_ok gets runs t \<Longrightarrow> w_task_ok gets (runs @ runs') t"
  by (auto simp: w_task_ok_def)

lemma keys_update [simp]: "fst ` set (key_update e f m) = fst ` set m"
  using fst_key_update [of e f m] by (metis set_map)

lemma set_update:
  assumes "(e', t') \<in> set (key_update e f m)"
  shows "(e' = e \<and> (\<exists>t. (e, t) \<in> set m \<and> t' = f t)) \<or> (e' \<noteq> e \<and> (e', t') \<in> set m)"
  using assms by (auto simp: key_update_def split: if_splits)

text \<open>Firing on a state in which only the task of \<open>e\<close> may be out of order.\<close>

lemma w_fire_event_inv:
  assumes obj: "w_objects s" and others: "\<forall>(e', t) \<in> set (w_tasks s). e' \<noteq> e \<longrightarrow> w_task_ok gets (w_submitted s) t"
    and runs: "\<forall>t. map_of (w_tasks s) e = Some t \<longrightarrow> wt_processing t \<noteq> 0 \<longrightarrow> (wt_reaction t, wt_fd t, wt_processing t) \<in> set (w_submitted s)"
  shows "w_inv gets (w_fire_event gets e s)"
proof (cases "map_of (w_tasks s) e")
  case None
  then have "e \<notin> w_keys s" by (simp add: map_of_eq_None_iff w_keys_def)
  then show ?thesis using obj others None by (force simp: w_inv_def w_fire_event_def w_keys_def)
next
  case (Some t)
  have dist: "distinct (map fst (w_tasks s))" using obj by (simp add: w_objects_def)
  have only: "t' = t" if "(e, t') \<in> set (w_tasks s)" for t' using that Some dist by (metis map_of_is_SomeI option.inject)
  show ?thesis
  proof (cases "wt_processing t = 0 \<and> wt_waiting t \<noteq> 0")
    case True
    let ?s = "w_fire_event gets e s"
    have objs: "w_objects ?s" using obj Some by (simp add: w_objects_def w_fire_event_def w_keys_def Let_def)
    have "w_task_ok gets (w_submitted ?s) t'" if "(e', t') \<in> set (w_tasks ?s)" for e' t'
    proof (cases "e' = e")
      case here: True
      show ?thesis using that here True Some
        by (cases "gets (wt_reaction t)") (auto simp: w_fire_event_def Let_def w_task_ok_def dest!: set_update)
    next
      case False
      have "(e', t') \<in> set (w_tasks s)"
        using that False True Some by (cases "gets (wt_reaction t)") (auto simp: w_fire_event_def Let_def dest!: set_update)
      then have "w_task_ok gets (w_submitted s) t'" using others False by blast
      then show ?thesis using True Some w_task_ok_more by (auto simp: w_fire_event_def Let_def)
    qed
    then show ?thesis using objs by (auto simp: w_inv_def)
  next
    case False
    then have same: "w_fire_event gets e s = s" using Some by (auto simp: w_fire_event_def)
    have "w_task_ok gets (w_submitted s) t" using False runs Some by (auto simp: w_task_ok_def)
    then have "w_task_ok gets (w_submitted s) t'" if "(e', t') \<in> set (w_tasks s)" for e' t'
      using that only others by (cases "e' = e") auto
    then show ?thesis using same obj by (auto simp: w_inv_def)
  qed
qed

lemma erase_keys: "w_keys (s\<lparr>w_tasks := key_erase e (w_tasks s)\<rparr>) = w_keys s - {e}"
  by (force simp: w_keys_def key_erase_def)

lemma remove_task_inv:
  assumes inv: "w_inv gets s" and e: "e \<in> w_keys s"
  shows "w_inv gets (snd (w_remove_task k e s))"
proof -
  let ?s = "snd (w_remove_task k e s)"
  have obj: "w_objects s" using inv by (simp add: w_inv_def)
  have keys: "w_keys ?s = w_keys s - {e}" using erase_keys [of e s] by (simp add: w_remove_task_def Let_def w_keys_def)
  have ne: "e \<noteq> w_notifier s" using obj e by (auto simp: w_objects_def)
  have "distinct (map fst (w_tasks ?s))"
    using obj by (simp add: w_objects_def w_remove_task_def Let_def key_erase_def distinct_map_filter)
  moreover have "set (w_open s) - {e} \<subseteq> set (w_open ?s)" "distinct (w_open ?s)"
    using obj by (auto simp: w_objects_def w_remove_task_def Let_def)
  moreover have "w_notifier ?s = w_notifier s" "w_watches ?s = w_watches s" "w_dirty ?s = w_dirty s"
    by (simp_all add: w_remove_task_def Let_def)
  ultimately have "w_objects ?s" using obj ne unfolding w_objects_def keys by auto
  moreover have "\<forall>(e', t) \<in> set (w_tasks ?s). w_task_ok gets (w_submitted ?s) t"
    using inv by (auto simp: w_inv_def w_remove_task_def Let_def key_erase_def)
  ultimately show ?thesis by (simp add: w_inv_def)
qed

lemma dirty_inv: "w_inv gets s \<Longrightarrow> w_inv gets (s\<lparr>w_dirty := True\<rparr>)"
  by (auto simp: w_inv_def w_objects_def w_keys_def)

lemma bump_inv: "w_inv gets s \<Longrightarrow> w_inv gets (snd (w_bump k s))"
  by (simp add: w_inv_def w_objects_def w_keys_def w_bump_def)

lemma find_key: "w_find r s = Some (e, t) \<Longrightarrow> (e, t) \<in> set (w_tasks s) \<and> wt_reaction t = r"
  unfolding w_find_def by (drule find_Some_iff [THEN iffD1]) (auto, metis nth_mem)

lemma configure_inv:
  assumes inv: "w_inv gets s" and fresh: "\<forall>e. k_create k = Some e \<longrightarrow> e \<notin> set (w_open s)"
  shows "w_inv gets (snd (w_configure k fd events r s))"
proof (cases "k_create k")
  case (Some e)
  have e: "e \<notin> set (w_open s)" using fresh Some by simp
  have obj: "w_objects s" using inv by (simp add: w_inv_def)
  then have key: "e \<notin> w_keys s" "e \<noteq> w_notifier s" using e by (auto simp: w_objects_def)
  then have none: "map_of (w_tasks s) e = None" by (simp add: map_of_eq_None_iff w_keys_def)
  let ?t = "\<lparr>wt_fd = fd, wt_listening = events, wt_waiting = 0, wt_processing = 0, wt_reaction = r\<rparr>"
  let ?s1 = "s\<lparr>w_open := e # w_open s\<rparr>"
  let ?s2 = "?s1\<lparr>w_tasks := key_insert e ?t (w_tasks s), w_dirty := True\<rparr>"
  have "w_inv gets ?s1" using inv e by (auto simp: w_inv_def w_objects_def w_keys_def)
  moreover have "w_inv gets ?s2"
    using inv e key distinct_key_insert [of "w_tasks s" e ?t] by (auto simp: w_inv_def w_objects_def w_keys_def w_task_ok_def)
  ultimately show ?thesis using Some none bump_inv by (simp add: w_configure_def Let_def)
qed (use inv in \<open>simp add: w_configure_def\<close>)

lemma finished_inv:
  assumes inv: "w_inv gets s"
  shows "w_inv gets (snd (w_finished k gets r s))"
proof (cases "w_find r s")
  case (Some et)
  obtain e t where et: "et = (e, t)" by (cases et)
  have mem: "(e, t) \<in> set (w_tasks s)" using find_key Some et by blast
  show ?thesis
  proof (cases "wt_processing t AND w_event_bits W_CLOSE \<noteq> 0")
    case True
    have "e \<in> w_keys (s\<lparr>w_dirty := True\<rparr>)" using mem by (force simp: w_keys_def)
    then show ?thesis using True Some et remove_task_inv [OF dirty_inv [OF inv]] by (simp add: w_finished_def)
  next
    case False
    let ?s = "s\<lparr>w_tasks := key_update e (\<lambda>t. t\<lparr>wt_processing := 0\<rparr>) (w_tasks s)\<rparr>"
    have "w_inv gets (w_fire_event gets e ?s)"
    proof (rule w_fire_event_inv)
      show "w_objects ?s" using inv by (simp add: w_inv_def w_objects_def w_keys_def)
      show "\<forall>(e', t) \<in> set (w_tasks ?s). e' \<noteq> e \<longrightarrow> w_task_ok gets (w_submitted ?s) t"
        using inv by (auto simp: w_inv_def dest!: set_update)
    qed (auto simp: map_of_key_update)
    then show ?thesis using False Some et by (simp add: w_finished_def)
  qed
qed (use inv in \<open>simp add: w_finished_def\<close>)

lemma w_process_event_inv:
  assumes inv: "w_inv gets s"
  shows "w_inv gets (snd (w_process_event k gets e s))"
proof (cases "e \<noteq> w_notifier s \<and> map_of (w_tasks s) e \<noteq> None \<and> k_enum k \<noteq> None")
  case True
  then obtain t ev where t: "map_of (w_tasks s) e = Some t" and ev: "k_enum k = Some ev" by auto
  let ?s = "s\<lparr>w_tasks := key_update e (\<lambda>t. t\<lparr>wt_waiting := wt_waiting t OR ev\<rparr>) (w_tasks s)\<rparr>"
  have "w_inv gets (w_fire_event gets e ?s)"
  proof (rule w_fire_event_inv)
    show "w_objects ?s" using inv by (simp add: w_inv_def w_objects_def w_keys_def)
    show "\<forall>(e', t) \<in> set (w_tasks ?s). e' \<noteq> e \<longrightarrow> w_task_ok gets (w_submitted ?s) t"
      using inv by (auto simp: w_inv_def dest!: set_update)
    show "\<forall>t. map_of (w_tasks ?s) e = Some t \<longrightarrow> wt_processing t \<noteq> 0 \<longrightarrow> (wt_reaction t, wt_fd t, wt_processing t) \<in> set (w_submitted ?s)"
      using inv t by (auto simp: map_of_key_update w_inv_def w_task_ok_def dest: map_of_SomeD)
  qed
  then show ?thesis using True t ev by (simp add: w_process_event_def)
next
  case False
  have "w_inv gets (s\<lparr>w_signalled := False\<rparr>)" using inv by (simp add: w_inv_def w_objects_def w_keys_def)
  then show ?thesis using False inv dirty_inv by (auto simp: w_process_event_def split: option.splits)
qed

lemma step_inv:
  assumes inv: "w_inv gets s" and fresh: "\<forall>e. w_creates op = Some e \<longrightarrow> e \<notin> set (w_open s)"
  shows "w_inv gets (snd (w_step gets op s))"
proof (cases op)
  case (ConfigureW k fd events r)
  then show ?thesis using configure_inv [OF inv] fresh by simp
next
  case (FinishedW k r)
  then show ?thesis using finished_inv [OF inv] by simp
next
  case (UnbindW k r)
  show ?thesis
  proof (cases "w_find r s")
    case None
    then show ?thesis using UnbindW bump_inv [OF dirty_inv [OF inv]] by (simp add: w_unbind_def)
  next
    case (Some et)
    obtain e t where et: "et = (e, t)" by (cases et)
    have "e \<in> w_keys s" using find_key [of r s e t] Some et by (force simp: w_keys_def)
    then have rem: "w_inv gets (snd (w_remove_task k e s))" by (rule remove_task_inv [OF inv])
    obtain x s1 where x: "w_remove_task k e s = (x, s1)" by fastforce
    then show ?thesis using UnbindW Some et rem bump_inv [OF dirty_inv] by (cases x) (simp_all add: w_unbind_def)
  qed
next
  case (ShutdownW k)
  have "w_inv gets (s\<lparr>w_running := False\<rparr>)" using inv by (simp add: w_inv_def w_objects_def w_keys_def)
  then show ?thesis using ShutdownW bump_inv by (simp add: w_shutdown_def)
next
  case BeforeWait
  have "w_inv gets (w_rebuild_list s)" using inv by (auto simp: w_inv_def w_objects_def w_keys_def w_rebuild_list_def)
  then show ?thesis using BeforeWait inv by (simp add: w_before_wait_def)
next
  case (AfterWait k i)
  then show ?thesis using w_process_event_inv [OF inv] inv by (simp add: w_after_wait_def split: option.splits)
qed

lemma run_inv: "creates_fresh gets ops s \<Longrightarrow> w_inv gets s \<Longrightarrow> w_inv gets (w_run gets ops s)"
  unfolding w_run_def
proof (induction ops arbitrary: s)
  case (Cons op ops)
  then show ?case using step_inv [of gets s op] by (auto split: option.splits)
qed simp

lemma new_inv: "new_wio k = Inr s \<Longrightarrow> w_inv gets s"
  by (auto simp: new_wio_def w_inv_def w_objects_def w_keys_def w_rebuild_list_def split: option.splits)

section \<open>The events of a task are run\<close>

text \<open>What firing does to a task whose reaction takes its events.\<close>

lemma fire_event_runs:
  assumes "map_of (w_tasks s) e = Some t" "wt_processing t = 0" "wt_waiting t \<noteq> 0" "gets (wt_reaction t)"
  shows "w_submitted (w_fire_event gets e s) = w_submitted s @ [(wt_reaction t, wt_fd t, wt_waiting t)]"
  using assms by (simp add: w_fire_event_def Let_def)

lemma find_unique:
  assumes "map_of (w_tasks s) e = Some t" "distinct (map (wt_reaction \<circ> snd) (w_tasks s))"
  shows "w_find (wt_reaction t) s = Some (e, t)"
proof -
  have mem: "(e, t) \<in> set (w_tasks s)" using assms(1) by (rule map_of_SomeD)
  have "\<exists>et. w_find (wt_reaction t) s = Some et"
    using mem by (cases "w_find (wt_reaction t) s") (auto simp: w_find_def find_None_iff)
  then obtain e' t' where f: "w_find (wt_reaction t) s = Some (e', t')" by auto
  have "inj_on (wt_reaction \<circ> snd) (set (w_tasks s))" using assms(2) by (simp add: distinct_map)
  then have "(e', t') = (e, t)" by (rule inj_onD) (use find_key [OF f] mem in simp_all)
  then show ?thesis using f by simp
qed


definition w_fine :: "nat option \<Rightarrow> wsa_events option \<Rightarrow> answers" where
  "w_fine e ev = \<lparr>k_create = e, k_select = True, k_close = True, k_set = True, k_reset = True, k_enum = ev\<rparr>"


section \<open>Beyond the limit of the system\<close>

text \<open>
  \<open>WSAWaitForMultipleEvents\<close> takes at most 64 objects and fails at once for more. The loop regards a failure as a turn
  without events: from the sixty-fourth task on it spins and no task gets an event any more.
\<close>

definition w_turn :: "(nat list \<Rightarrow> nat option) \<Rightarrow> answers \<Rightarrow> (nid \<Rightarrow> bool) \<Rightarrow> wio \<Rightarrow> wio" where
  "w_turn wait k gets s = (let s1 = w_before_wait s in snd (w_after_wait k gets (wait (w_watches s1)) s1))"

lemma windows_io_deaf_beyond_64:
  assumes wait: "\<forall>ws. length ws > 64 \<longrightarrow> wait ws = None"
    and s: "w_running s" "w_dirty s" "length (w_tasks s) \<ge> 64"
  shows "w_submitted ((w_turn wait k gets ^^ n) s) = w_submitted s"
proof -
  have "(w_turn wait k gets ^^ n) s = (if n = 0 then s else w_rebuild_list s)"
  proof (induction n)
    case (Suc n)
    have "w_turn wait k gets s = w_rebuild_list s" "w_turn wait k gets (w_rebuild_list s) = w_rebuild_list s"
      using wait s by (simp_all add: w_turn_def w_before_wait_def w_after_wait_def w_rebuild_list_def)
    then show ?case using Suc by (cases n) simp_all
  qed simp
  then show ?thesis by (simp add: w_rebuild_list_def)
qed

end
