(* ===== verification/Sched_Conserve.thy ===== *)
theory Sched_Conserve
  imports Task_Scheduler
begin

text \<open>
  The scheduler as a whole: groups, pools, locks and workers run together, over any history of submissions,
  iterations of workers, ends of tasks, starts, stops and idle tasks. No task is lost or made twice on its way between
  the queues of the pools, the wait buckets of the groups and the workers.
\<close>

section \<open>Groups\<close>

text \<open>The tasks a list of events submits, and the pools it submits them to.\<close>

definition event_tasks :: "'p group_event list \<Rightarrow> reaction_task multiset" where
  "event_tasks es = mset (concat (map (\<lambda>e. case e of EvSubmit t p ci f \<Rightarrow> [t] | _ \<Rightarrow> []) es))"

definition event_pools :: "'p group_event list \<Rightarrow> 'p option set" where
  "event_pools es = {p. \<exists>t ci f. EvSubmit t p ci f \<in> set es}"

definition waiting_tasks :: "'p group \<Rightarrow> reaction_task multiset" where
  "waiting_tasks g = mset (map we_task (parked g))"

definition waiting_pools :: "'p group \<Rightarrow> 'p option set" where
  "waiting_pools g = we_pool ` set (parked g)"

text \<open>An operation of a group that takes in the tasks \<open>M\<close>, whose pools are in \<open>A\<close>.\<close>

definition group_takes :: "reaction_task multiset \<Rightarrow> 'p option set \<Rightarrow> 'p group \<Rightarrow> 'p group \<Rightarrow> bool" where
  "group_takes M A g g' \<longleftrightarrow> length (wait_buckets g') = length (wait_buckets g)
     \<and> (\<exists>es. events g' = events g @ es \<and> waiting_tasks g' + event_tasks es = waiting_tasks g + M
          \<and> waiting_pools g' \<union> event_pools es \<subseteq> waiting_pools g \<union> A)"

lemma event_append [simp]:
  "event_tasks (es @ es') = event_tasks es + event_tasks es'" "event_pools (es @ es') = event_pools es \<union> event_pools es'"
  "event_tasks [] = {#}" "event_pools [] = {}"
  by (auto simp: event_tasks_def event_pools_def)

lemma event_submit [simp]: "event_tasks [EvSubmit t p ci f] = {#t#}" "event_pools [EvSubmit t p ci f] = {p}"
  by (auto simp: event_tasks_def event_pools_def)

lemma event_quiet:
  assumes "\<forall>e \<in> set es. \<forall>t p ci f. e \<noteq> EvSubmit t p ci f"
  shows "event_tasks es = {#}" "event_pools es = {}"
proof -
  show "event_tasks es = {#}" using assms by (induction es) (auto simp: event_tasks_def split: group_event.splits)
  show "event_pools es = {}" using assms by (fastforce simp: event_pools_def)
qed

lemma takes_trans: "group_takes M A g g' \<Longrightarrow> group_takes N B g' g'' \<Longrightarrow> group_takes (M + N) (A \<union> B) g g''"
proof -
  assume a: "group_takes M A g g'" and b: "group_takes N B g' g''"
  obtain es where es: "events g' = events g @ es" "waiting_tasks g' + event_tasks es = waiting_tasks g + M"
      "waiting_pools g' \<union> event_pools es \<subseteq> waiting_pools g \<union> A" using a by (auto simp: group_takes_def)
  obtain fs where fs: "events g'' = events g' @ fs" "waiting_tasks g'' + event_tasks fs = waiting_tasks g' + N"
      "waiting_pools g'' \<union> event_pools fs \<subseteq> waiting_pools g' \<union> B" using b by (auto simp: group_takes_def)
  have "waiting_tasks g'' + event_tasks (es @ fs) = (waiting_tasks g'' + event_tasks fs) + event_tasks es" by (simp add: ac_simps)
  also have "\<dots> = waiting_tasks g + (M + N)" using es(2) fs(2) by (simp add: ac_simps)
  finally have "waiting_tasks g'' + event_tasks (es @ fs) = waiting_tasks g + (M + N)" .
  moreover have "events g'' = events g @ es @ fs" "waiting_pools g'' \<union> event_pools (es @ fs) \<subseteq> waiting_pools g \<union> (A \<union> B)"
    using es fs by auto
  ultimately show ?thesis using a b unfolding group_takes_def by metis
qed

lemma takes_none: "group_takes {#} {} g g' \<Longrightarrow> group_takes N B g' g'' \<Longrightarrow> group_takes N B g g''"
  using takes_trans [of "{#}" "{}" g g' N B g''] by simp

lemma takes_then_none: "group_takes M A g g' \<Longrightarrow> group_takes {#} {} g' g'' \<Longrightarrow> group_takes M A g g''"
  using takes_trans [of M A g g' "{#}" "{}" g''] by simp

lemma takes_quiet:
  assumes "wait_buckets g' = wait_buckets g" "events g' = events g @ es" "\<forall>e \<in> set es. \<forall>t p ci f. e \<noteq> EvSubmit t p ci f"
  shows "group_takes {#} {} g g'"
  using assms(1,2) event_quiet [OF assms(3)]
  by (auto simp: group_takes_def waiting_tasks_def waiting_pools_def parked_def intro!: exI [of _ es])

lemma takes_refl [simp]: "group_takes {#} {} g g"
  by (rule takes_quiet [of _ _ "[]"]) simp_all

lemma drain_takes: "group_takes {#} {} g (drain_and_pay g)"
proof (cases "pop_buckets (wait_buckets g)")
  case None
  then show ?thesis by (simp add: drain_and_pay_eq)
next
  case (Some p)
  obtain e bs where p: "p = (e, bs)" by (cases p)
  have bs: "parked g = e # concat bs" "length bs = length (wait_buckets g)"
    using pop_buckets_concat [of "wait_buckets g"] Some p by (simp_all add: parked_def)
  let ?es = "EvSubmit (we_task e) (we_pool e) (we_clear_idle e) True # (case we_pool e of None \<Rightarrow> [] | Some p \<Rightarrow> [EvUnregister p])"
  have g': "wait_buckets (drain_and_pay g) = bs" "events (drain_and_pay g) = events g @ ?es"
    using Some p by (simp_all add: drain_and_pay_eq drop_registration_def log_event_def split: option.splits)
  have "event_tasks ?es = {#we_task e#}" "event_pools ?es = {we_pool e}"
    by (auto simp: event_tasks_def event_pools_def split: option.splits)
  then have "waiting_tasks (drain_and_pay g) + event_tasks ?es = waiting_tasks g + {#}"
      "waiting_pools (drain_and_pay g) \<union> event_pools ?es \<subseteq> waiting_pools g \<union> {}"
    using g'(1) bs(1) by (auto simp: waiting_tasks_def waiting_pools_def parked_def)
  then show ?thesis using g' bs(2) unfolding group_takes_def by metis
qed

lemma notify_takes: "group_takes {#} {} g (notify_slow_path g)"
  by (rule takes_quiet [where es = "map EvNotify (fst (collect_notify (queue g) (tokens g) (handles g)))"])
    (auto simp: notify_slow_path_def notify_handles_def split_beta)

lemma tokens_takes: "group_takes {#} {} g (add_tokens d g)"
  by (rule takes_quiet [of _ _ "[]"]) (simp_all add: add_tokens_def)

lemma release_takes: "group_takes {#} {} g (release_token g)"
  unfolding release_token_def Let_def
  by (simp add: takes_none [OF tokens_takes drain_takes] takes_none [OF tokens_takes notify_takes])

lemma running_takes: "group_takes {#} {} g (g\<lparr>running := n\<rparr>)"
  by (rule takes_quiet [of _ _ "[]"]) simp_all

lemma end_running_takes: "group_takes {#} {} g (destroy_running_lock g)"
  unfolding destroy_running_lock_def by (rule takes_none [OF running_takes release_takes])

lemma acquire_takes: "group_takes {#} {} g (snd (try_acquire_running_lock g))"
  by (simp add: try_acquire_running_lock_def Let_def make_running_lock_def takes_none [OF tokens_takes release_takes]
      takes_none [OF tokens_takes running_takes])

lemma slots_takes: "group_takes {#} {} g (g\<lparr>slots := f\<rparr>)"
  by (rule takes_quiet [of _ _ "[]"]) simp_all

lemma publish_takes:
  assumes "length (wait_buckets g) = PRIORITY_BUCKETS"
  shows "group_takes {#t#} {p} g (snd (park_publish t p ci g))"
proof -
  let ?e = "\<lparr>we_task = t, we_pool = p, we_clear_idle = ci, we_slot = slot_alloc g\<rparr>" and ?i = "priority_index (t_priority t)"
  let ?g = "snd (park_publish t p ci g)" and ?es = "(case p of None \<Rightarrow> [] | Some q \<Rightarrow> [EvRegister q])"
  have g': "wait_buckets ?g = (wait_buckets g)[?i := wait_buckets g ! ?i @ [?e]]" "events ?g = events g @ ?es"
    by (simp_all add: park_publish_def Let_def log_event_def split: option.splits)
  have "mset (parked ?g) = add_mset ?e (mset (parked g))"
    unfolding parked_def g'(1) using assms by (intro mset_concat_push) simp
  then have "waiting_tasks ?g = waiting_tasks g + {#t#}" "waiting_pools ?g = insert p (waiting_pools g)"
    by (simp_all add: waiting_tasks_def waiting_pools_def flip: set_mset_mset)
  moreover have "event_tasks ?es = {#}" "event_pools ?es = {}" by (auto simp: event_tasks_def event_pools_def split: option.splits)
  ultimately show ?thesis using g' unfolding group_takes_def by (intro conjI exI [of _ ?es]) simp_all
qed

lemma reconcile_takes: "group_takes {#} {} g (park_reconcile slot g)"
  unfolding park_reconcile_def Let_def
  by (simp add: takes_none [OF tokens_takes release_takes] takes_none [OF tokens_takes slots_takes]
      takes_none [OF takes_none [OF tokens_takes slots_takes] drain_takes])

lemma park_takes:
  assumes "length (wait_buckets g) = PRIORITY_BUCKETS"
  shows "group_takes {#t#} {p} g (park t p ci g)"
  using takes_then_none [OF publish_takes [OF assms, of t p ci] reconcile_takes [of _ "fst (park_publish t p ci g)"]]
  by (simp add: park_def split_beta)

lemma submit_takes:
  assumes "length (wait_buckets g) = PRIORITY_BUCKETS"
  shows "group_takes {#t#} {p} g (snd (try_submit t p ci g))"
proof (cases "slow_pending g = 0 \<and> tokens g > 0")
  case True
  let ?g = "log_event (EvSubmit t p ci False) (make_running_lock (add_tokens (- 1) g))"
  have "group_takes {#t#} {p} g ?g"
    unfolding group_takes_def
    by (intro conjI exI [of _ "[EvSubmit t p ci False]"])
      (simp_all add: log_event_def make_running_lock_def add_tokens_def waiting_tasks_def waiting_pools_def parked_def)
  then show ?thesis using True by (simp add: try_submit_def add_tokens_frame)
next
  case False
  then show ?thesis using park_takes [OF assms, of t p ci] by (auto simp: try_submit_def)
qed

lemma end_group_lock_takes: "group_takes {#} {} g (destroy_group_lock h g)"
proof -
  let ?was = "lh_locked (handles g h)"
  let ?g1 = "if ?was then add_tokens 1 (g\<lparr>handles := (handles g)(h := (handles g h)\<lparr>lh_locked := False\<rparr>)\<rparr>) else g"
  let ?g2 = "?g1\<lparr>queue := remove1 h (queue ?g1)\<rparr>"
  let ?c = "collect_notify (queue ?g2) (tokens ?g2) (handles ?g2)"
  let ?g3 = "?g2\<lparr>handles := snd ?c\<rparr>"
  let ?g4 = "if h \<in> set (queue ?g1) then ?g3\<lparr>slow_pending := slow_pending ?g3 - 1\<rparr> else ?g3"
  let ?g5 = "notify_handles (fst ?c) ?g4"
  have quiet: "group_takes {#} {} g ?g5"
    by (rule takes_quiet [where es = "map EvNotify (fst ?c)"]) (auto simp: notify_handles_def add_tokens_def)
  have "destroy_group_lock h g = (if ?was \<and> (if ?was then tokens g else 0) < 0 then drain_and_pay ?g5
      else if ?was \<and> slow_pending ?g5 = 0 then drain_and_pay ?g5 else ?g5)"
    unfolding destroy_group_lock_def Let_def split_beta ..
  then show ?thesis using quiet takes_none [OF quiet drain_takes] by metis
qed

section \<open>Where the tasks of the scheduler are\<close>

fun sum_values :: "('v \<Rightarrow> 'a multiset) \<Rightarrow> ('k \<times> 'v) list \<Rightarrow> 'a multiset" where
  "sum_values f [] = {#}"
| "sum_values f ((k, v) # m) = f v + sum_values f m"

definition work_of :: "slock ptask list \<Rightarrow> reaction_task multiset" where
  "work_of ts = mset (work_tasks ts)"

text \<open>The work depends only on which tasks there are.\<close>

lemma work_mset: "mset ts = add_mset t (mset us) \<Longrightarrow> work_of ts = work_of us + work_of [t]"
proof -
  let ?f = "\<lambda>t :: slock ptask. case pt_work t of Work w \<Rightarrow> {#w#} | IdleDispatch _ \<Rightarrow> {#}"
  have "work_of ts = sum_mset (image_mset ?f (mset ts))" for ts :: "slock ptask list"
    by (induction ts) (auto simp: work_of_def work_tasks_def split: pool_work.splits)
  then show "mset ts = add_mset t (mset us) \<Longrightarrow> work_of ts = work_of us + work_of [t]" by (simp add: ac_simps)
qed

definition pool_tasks :: "spool \<Rightarrow> reaction_task multiset" where
  "pool_tasks p = work_of (concat (p_buckets p))"

definition queued :: "sched \<Rightarrow> reaction_task multiset" where
  "queued s = sum_values pool_tasks (s_pools s)"

definition waiting :: "sched \<Rightarrow> reaction_task multiset" where
  "waiting s = sum_values waiting_tasks (s_groups s)"

definition executing :: "sched \<Rightarrow> reaction_task multiset" where
  "executing s = work_of (map snd (s_executing s))"

definition sched_tasks :: "sched \<Rightarrow> reaction_task multiset" where
  "sched_tasks s = queued s + waiting s + executing s + mset (s_done s) + mset (s_dropped s)"

definition sched_ok :: "sched \<Rightarrow> bool" where
  "sched_ok s \<longleftrightarrow> sched_keys_ok s
     \<and> (\<forall>(k, p) \<in> set (s_pools s). length (p_buckets p) = PRIORITY_BUCKETS)
     \<and> (\<forall>(k, g) \<in> set (s_groups s). length (wait_buckets g) = PRIORITY_BUCKETS
          \<and> waiting_pools g \<subseteq> Some ` {p. pool_at p s \<noteq> None})
     \<and> (\<forall>r p. s_cache s r = Some p \<longrightarrow> pool_at p s \<noteq> None)"

text \<open>
  The tasks that the code of a task submits while it runs are \<open>made\<close>. A step of the scheduler takes in the tasks \<open>M\<close>,
  and what the tasks that it ends have made.
\<close>

definition made_by :: "(reaction_task \<Rightarrow> reaction_task multiset) \<Rightarrow> reaction_task list \<Rightarrow> reaction_task multiset" where
  "made_by made ts = sum_list (map made ts)"

definition sched_takes ::
  "(reaction_task \<Rightarrow> reaction_task multiset) \<Rightarrow> reaction_task multiset \<Rightarrow> sched \<Rightarrow> sched \<Rightarrow> bool"
where
  "sched_takes made M s s' \<longleftrightarrow> (sched_ok s \<longrightarrow> sched_ok s'
     \<and> sched_tasks s' + made_by made (s_done s) = sched_tasks s + M + made_by made (s_done s')
     \<and> (\<forall>p. pool_at p s \<noteq> None \<longrightarrow> pool_at p s' \<noteq> None))"

lemma sched_takes_trans:
  assumes "sched_takes made M s s'" "sched_takes made N s' s''"
  shows "sched_takes made (M + N) s s''"
  unfolding sched_takes_def
proof
  assume ok: "sched_ok s"
  then have a: "sched_ok s'" "sched_tasks s' + made_by made (s_done s) = sched_tasks s + M + made_by made (s_done s')"
      "\<forall>p. pool_at p s \<noteq> None \<longrightarrow> pool_at p s' \<noteq> None"
    using assms(1) by (auto simp: sched_takes_def)
  then have b: "sched_ok s''" "sched_tasks s'' + made_by made (s_done s') = sched_tasks s' + N + made_by made (s_done s'')"
      "\<forall>p. pool_at p s' \<noteq> None \<longrightarrow> pool_at p s'' \<noteq> None"
    using assms(2) by (auto simp: sched_takes_def)
  have "(sched_tasks s'' + made_by made (s_done s)) + made_by made (s_done s')
      = (sched_tasks s'' + made_by made (s_done s')) + made_by made (s_done s)" by (simp add: ac_simps)
  also have "\<dots> = (sched_tasks s' + made_by made (s_done s)) + N + made_by made (s_done s'')" unfolding b(2) by (simp add: ac_simps)
  also have "\<dots> = (sched_tasks s + (M + N) + made_by made (s_done s'')) + made_by made (s_done s')" unfolding a(2) by (simp add: ac_simps)
  finally have "sched_tasks s'' + made_by made (s_done s) = sched_tasks s + (M + N) + made_by made (s_done s'')" by simp
  then show "sched_ok s'' \<and> sched_tasks s'' + made_by made (s_done s) = sched_tasks s + (M + N) + made_by made (s_done s'')
      \<and> (\<forall>p. pool_at p s \<noteq> None \<longrightarrow> pool_at p s'' \<noteq> None)"
    using a b by simp
qed

lemma sched_takes_refl [simp]: "sched_takes made {#} s s"
  by (simp add: sched_takes_def)

lemma sched_takes_none: "sched_takes made {#} s s' \<Longrightarrow> sched_takes made N s' s'' \<Longrightarrow> sched_takes made N s s''"
  using sched_takes_trans [of made "{#}" s s' N s''] by simp

lemma sched_takes_then_none: "sched_takes made M s s' \<Longrightarrow> sched_takes made {#} s' s'' \<Longrightarrow> sched_takes made M s s''"
  using sched_takes_trans [of made M s s' "{#}" s''] by simp

lemma sched_takes_fold:
  "(\<And>x s. x \<in> set xs \<Longrightarrow> sched_takes made {#} s (f x s)) \<Longrightarrow> sched_takes made {#} s (fold f xs s)"
proof (induction xs arbitrary: s)
  case (Cons x xs)
  have "sched_takes made {#} s (f x s)" using Cons.prems by simp
  moreover have "sched_takes made {#} (f x s) (fold f xs (f x s))" using Cons.prems by (intro Cons.IH) simp
  ultimately show ?case using sched_takes_none by simp
qed simp

lemma sched_takes_power:
  "(\<And>s. sched_takes made {#} s (f s)) \<Longrightarrow> sched_takes made {#} s ((f ^^ n) s)"
proof (induction n arbitrary: s)
  case (Suc n)
  then show ?case using sched_takes_then_none [of made "{#}" s "(f ^^ n) s" "f ((f ^^ n) s)"] by simp
qed simp

section \<open>Maps of pools and groups\<close>

lemma sum_values_update:
  "distinct (map fst m) \<Longrightarrow> map_of m k = Some v \<Longrightarrow> sum_values f (key_update k (\<lambda>_. v') m) + f v = sum_values f m + f v'"
proof (induction m)
  case (Cons kv m)
  obtain k' w where kv: "kv = (k', w)" by (cases kv)
  show ?case
  proof (cases "k' = k")
    case True
    have "k \<notin> fst ` set m" using Cons.prems(1) kv True by auto
    then have "key_update k (\<lambda>_. v') m = m" unfolding key_update_def by (intro map_idI) force
    then show ?thesis using Cons.prems kv True by (simp add: key_update_def ac_simps)
  next
    case False
    then show ?thesis using Cons kv by (simp add: key_update_def ac_simps)
  qed
qed simp

lemma sum_values_append [simp]: "sum_values f (m @ m') = sum_values f m + sum_values f m'"
  by (induction m) (auto simp: ac_simps)

lemma sum_values_insert: "sum_values f (key_insert k v m) = sum_values f m + f v"
proof -
  let ?p = "\<lambda>y. fst y < fst (k, v)"
  have "sum_values f (key_insert k v m) = sum_values f (takeWhile ?p m @ dropWhile ?p m) + f v"
    unfolding key_insert_def insert_lower_def sum_values_append by (simp add: ac_simps)
  then show ?thesis by (simp only: takeWhile_dropWhile_id)
qed

lemma update_values: "(k', v') \<in> set (key_update k (\<lambda>_. v) m) \<Longrightarrow> v' = v \<or> (k', v') \<in> set m"
  by (auto simp: key_update_def split: if_splits)

text \<open>A pool in which the tasks change from \<open>W\<close> to \<open>W'\<close>, and a group likewise.\<close>

lemma update_pool:
  assumes p: "pool_at r s = Some p" and len: "length (p_buckets p') = length (p_buckets p)"
    and ok: "sched_ok s" and s': "s' = s\<lparr>s_pools := key_update r (\<lambda>_. p') (s_pools s), s_shared := sh\<rparr>"
  shows "sched_ok s' \<and> sched_tasks s' + pool_tasks p = sched_tasks s + pool_tasks p' \<and> (\<forall>q. pool_at q s' = None \<longleftrightarrow> pool_at q s = None)"
proof -
  have keys: "sched_keys_ok s" using ok by (simp add: sched_ok_def)
  have at: "pool_at q s' = (if q = r then Some p' else pool_at q s)" for q
    using p by (simp add: s' pool_at_def map_of_key_update)
  have "(r, p) \<in> set (s_pools s)" using p by (simp add: pool_at_def map_of_SomeD)
  then have five: "length (p_buckets p') = PRIORITY_BUCKETS" using len ok by (auto simp: sched_ok_def)
  have "queued s' + pool_tasks p = queued s + pool_tasks p'"
    using sum_values_update [of "s_pools s" r p pool_tasks p'] keys p by (simp add: queued_def s' sched_keys_ok_def pool_at_def)
  then have tasks: "sched_tasks s' + pool_tasks p = sched_tasks s + pool_tasks p'"
    by (simp add: sched_tasks_def s' waiting_def executing_def ac_simps)
  have "sched_keys_ok s'" using keys by (simp add: s' sched_keys_ok_def)
  moreover have "\<forall>(k, q) \<in> set (s_pools s'). length (p_buckets q) = PRIORITY_BUCKETS"
    using ok five by (auto simp: s' sched_ok_def dest!: update_values)
  moreover have "{q. pool_at q s' \<noteq> None} = {q. pool_at q s \<noteq> None}" using at p by auto
  ultimately have "sched_ok s'" using ok at p unfolding sched_ok_def by (simp add: s')
  then show ?thesis using tasks at p by auto
qed

lemma pool_change_takes:
  assumes p: "pool_at r s = Some p" and f: "f (p, s_shared s) = (p', sh')" and len: "length (p_buckets p') = length (p_buckets p)"
    and work: "pool_tasks p' = pool_tasks p + M"
  shows "sched_takes made M s (on_pool r f s)"
proof -
  have eq: "on_pool r f s = s\<lparr>s_pools := key_update r (\<lambda>_. p') (s_pools s), s_shared := sh'\<rparr>"
    using f p by (simp add: on_pool_def)
  have same: "s_done (on_pool r f s) = s_done s" unfolding eq by simp
  show ?thesis
    unfolding sched_takes_def same
  proof
    assume "sched_ok s"
    note up = update_pool [OF p len this eq]
    have "sched_tasks (on_pool r f s) + pool_tasks p = (sched_tasks s + M) + pool_tasks p"
      using up unfolding work by (simp only: ac_simps)
    then have "sched_tasks (on_pool r f s) = sched_tasks s + M" by (rule add_right_imp_eq)
    then show "sched_ok (on_pool r f s) \<and> sched_tasks (on_pool r f s) + made_by made (s_done s) = sched_tasks s + M + made_by made (s_done s)
        \<and> (\<forall>q. pool_at q s \<noteq> None \<longrightarrow> pool_at q (on_pool r f s) \<noteq> None)" using up by simp
  qed
qed

lemma on_pool_takes:
  assumes "\<And>p sh. p_buckets (fst (f (p, sh))) = p_buckets p"
  shows "sched_takes made {#} s (on_pool r f s)"
proof (cases "pool_at r s")
  case (Some p)
  obtain p' sh' where f: "f (p, s_shared s) = (p', sh')" by fastforce
  have "p_buckets p' = p_buckets p" using assms [of p "s_shared s"] f by simp
  then show ?thesis by (intro pool_change_takes [where f = f, OF Some f]) (simp_all add: pool_tasks_def)
qed (simp add: on_pool_def)

lemma submit_signal_buckets: "p_buckets (fst (submit_signal ci ps)) = p_buckets (fst ps)"
  by (simp add: submit_signal_def signal_def clear_pool_idle_frame Let_def)

lemma pool_submit_buckets:
  assumes "submit_accepts force p"
  shows "p_buckets (fst (pool_submit t ci force (p, sh)))
    = (p_buckets p)[priority_index (work_priority (pt_work t)) := p_buckets p ! priority_index (work_priority (pt_work t)) @ [t]]"
  using assms by (simp add: pool_submit_def submit_signal_buckets) (simp add: submit_enqueue_def submit_count_def Let_def)

lemma on_pool_submit:
  assumes p: "pool_at r s = Some p" and acc: "submit_accepts force p"
  shows "sched_takes made (work_of [t]) s (on_pool r (pool_submit t ci force) s)"
proof (cases "sched_ok s")
  case True
  obtain p' sh' where f: "pool_submit t ci force (p, s_shared s) = (p', sh')" by fastforce
  let ?b = "priority_index (work_priority (pt_work t))"
  have "(r, p) \<in> set (s_pools s)" using p by (simp add: pool_at_def map_of_SomeD)
  then have five: "length (p_buckets p) = PRIORITY_BUCKETS" using True by (auto simp: sched_ok_def)
  have buckets: "p_buckets p' = (p_buckets p)[?b := p_buckets p ! ?b @ [t]]" using pool_submit_buckets [OF acc, of t ci "s_shared s"] f by simp
  have "mset (concat (p_buckets p')) = add_mset t (mset (concat (p_buckets p)))"
    unfolding buckets using five by (intro mset_concat_push) simp
  then have "pool_tasks p' = pool_tasks p + work_of [t]" unfolding pool_tasks_def by (rule work_mset)
  then show ?thesis by (intro pool_change_takes [where f = "pool_submit t ci force", OF p f]) (simp_all add: buckets)
qed (simp add: sched_takes_def)

section \<open>Carrying out what a group asks for\<close>

lemma update_group:
  assumes g: "group_at r s = Some g" and len: "length (wait_buckets g') = length (wait_buckets g)"
    and pools: "waiting_pools g' \<subseteq> Some ` {p. pool_at p s \<noteq> None}" and ok: "sched_ok s"
  shows "sched_ok (set_group r g' s) \<and> sched_tasks (set_group r g' s) + waiting_tasks g = sched_tasks s + waiting_tasks g'"
proof -
  let ?s = "set_group r g' s"
  have keys: "sched_keys_ok s" using ok by (simp add: sched_ok_def)
  have "waiting ?s + waiting_tasks g = waiting s + waiting_tasks g'"
    using sum_values_update [of "s_groups s" r g waiting_tasks g'] keys g
    by (simp add: waiting_def set_group_def sched_keys_ok_def group_at_def)
  then have tasks: "sched_tasks ?s + waiting_tasks g = sched_tasks s + waiting_tasks g'"
    by (simp add: sched_tasks_def set_group_def queued_def executing_def waiting_def ac_simps)
  have at: "pool_at q ?s = pool_at q s" for q by (simp add: pool_at_def set_group_def)
  have "(r, g) \<in> set (s_groups s)" using g by (simp add: group_at_def map_of_SomeD)
  then have five: "length (wait_buckets g') = PRIORITY_BUCKETS" using len ok by (auto simp: sched_ok_def)
  have "sched_keys_ok ?s" using keys by (simp add: set_group_def sched_keys_ok_def)
  moreover have "\<forall>(k, h) \<in> set (s_groups ?s). length (wait_buckets h) = PRIORITY_BUCKETS \<and> waiting_pools h \<subseteq> Some ` {p. pool_at p s \<noteq> None}"
  proof (intro ballI, clarify)
    fix k h
    assume "(k, h) \<in> set (s_groups ?s)"
    then have "h = g' \<or> (k, h) \<in> set (s_groups s)" by (auto simp: set_group_def dest: update_values)
    then show "length (wait_buckets h) = PRIORITY_BUCKETS \<and> waiting_pools h \<subseteq> Some ` {p. pool_at p s \<noteq> None}"
      using five pools ok by (auto simp: sched_ok_def)
  qed
  moreover have "s_pools ?s = s_pools s" "s_cache ?s = s_cache s" by (simp_all add: set_group_def)
  ultimately have "sched_ok ?s" using ok unfolding sched_ok_def at by auto
  then show ?thesis using tasks by simp
qed

lemma dropped_takes: "sched_takes made (mset ts) s (s\<lparr>s_dropped := s_dropped s @ ts\<rparr>)"
proof -
  have "pool_at q (s\<lparr>s_dropped := s_dropped s @ ts\<rparr>) = pool_at q s" for q by (simp add: pool_at_def)
  then show ?thesis by (simp add: sched_takes_def sched_ok_def sched_keys_ok_def sched_tasks_def queued_def waiting_def executing_def ac_simps)
qed

text \<open>One event: a submitted task goes into its pool or is dropped.\<close>

lemma event_takes:
  assumes "event_pools [e] \<subseteq> Some ` {p. pool_at p s \<noteq> None}"
  shows "sched_takes made (event_tasks [e]) s (snd (apply_event r e (n, s)))"
proof (cases e)
  case (EvRegister p)
  have "sched_takes made {#} s (on_pool p (\<lambda>ps. (register_external_waiter ps, snd ps)) s)"
    by (rule on_pool_takes) (simp add: register_external_waiter_def signal_def Let_def)
  then show ?thesis using EvRegister by (simp add: event_tasks_def)
next
  case (EvUnregister p)
  have "sched_takes made {#} s (on_pool p (\<lambda>(q, sh). (unregister_external_waiter q, sh)) s)"
    by (rule on_pool_takes) (simp add: unregister_external_waiter_def signal_def Let_def)
  then show ?thesis using EvUnregister by (simp add: event_tasks_def)
next
  case (EvNotify h)
  have "sched_takes made {#} s (on_pool (s_notify s (r, h)) (pool_notify (\<not> current_pool_idle s)) s)"
    by (rule on_pool_takes) (simp add: pool_notify_def signal_def clear_pool_idle_frame Let_def)
  then show ?thesis using EvNotify by (simp add: event_tasks_def)
next
  case (EvSubmit t pool ci force)
  obtain p q where p: "pool = Some p" "pool_at p s = Some q" using assms EvSubmit by auto
  have work: "work_of [\<lparr>pt_work = Work t, pt_lock = Some (RunningL r)\<rparr>] = {#t#}" by (simp add: work_of_def work_tasks_def)
  show ?thesis
  proof (cases "submit_accepts force q")
    case True
    then show ?thesis using p EvSubmit on_pool_submit [OF p(2) True, of made "\<lparr>pt_work = Work t, pt_lock = Some (RunningL r)\<rparr>" ci] work by simp
  next
    case False
    then show ?thesis using p EvSubmit dropped_takes [of made "[t]" s] by simp
  qed
qed

lemma events_take:
  "event_pools es \<subseteq> Some ` {p. pool_at p s \<noteq> None} \<Longrightarrow> sched_ok s \<Longrightarrow>
   sched_takes made (event_tasks es) s (snd (fold (apply_event r) es (n, s)))"
proof (induction es arbitrary: n s)
  case (Cons e es)
  obtain n1 s1 where s1: "apply_event r e (n, s) = (n1, s1)" by fastforce
  have split: "event_pools (e # es) = event_pools [e] \<union> event_pools es" "event_tasks (e # es) = event_tasks [e] + event_tasks es"
    using event_append(1,2) [of "[e]" es] by simp_all
  have first: "sched_takes made (event_tasks [e]) s s1"
    using event_takes [where e = e and s = s and made = made and r = r and n = n] Cons.prems(1) s1 unfolding split by simp
  then have "sched_ok s1" "event_pools es \<subseteq> Some ` {p. pool_at p s1 \<noteq> None}"
    using Cons.prems unfolding split sched_takes_def by auto
  then show ?case using Cons.IH [where s = s1 and n = n1] first s1 sched_takes_trans unfolding split by simp
qed simp

lemma group_op_takes:
  assumes g: "group_at r s = Some g" and f: "length (wait_buckets g) = PRIORITY_BUCKETS \<Longrightarrow> group_takes M A g (f g)"
    and A: "A \<subseteq> Some ` {p. pool_at p s \<noteq> None}"
  shows "sched_takes made M s (snd (group_op_events r f s))"
proof (cases "sched_ok s")
  case True
  have gs: "(r, g) \<in> set (s_groups s)" using g by (simp add: group_at_def map_of_SomeD)
  then have five: "length (wait_buckets g) = PRIORITY_BUCKETS" "waiting_pools g \<subseteq> Some ` {p. pool_at p s \<noteq> None}"
    using True by (auto simp: sched_ok_def)
  obtain es where es: "length (wait_buckets (f g)) = length (wait_buckets g)" "events (f g) = events g @ es"
      "waiting_tasks (f g) + event_tasks es = waiting_tasks g + M" "waiting_pools (f g) \<union> event_pools es \<subseteq> waiting_pools g \<union> A"
    using f [OF five(1)] by (auto simp: group_takes_def)
  let ?s = "set_group r (f g) s"
  have pools: "waiting_pools (f g) \<subseteq> Some ` {p. pool_at p s \<noteq> None}" "event_pools es \<subseteq> Some ` {p. pool_at p s \<noteq> None}"
    using es(4) five(2) A by blast+
  have up: "sched_ok ?s" "sched_tasks ?s + waiting_tasks g = sched_tasks s + waiting_tasks (f g)"
    using update_group [OF g es(1) pools(1) True] by blast+
  have at: "pool_at q ?s = pool_at q s" "s_done ?s = s_done s" for q by (simp_all add: pool_at_def set_group_def)
  have new: "new_events g (f g) = es" using es(2) by (simp add: new_events_def)
  let ?s' = "snd (group_op_events r f s)"
  have s': "?s' = snd (fold (apply_event r) es (0, ?s))" using g new by (simp add: group_op_events_def Let_def)
  have "sched_takes made (event_tasks es) ?s ?s'" unfolding s' using pools(2) at(1) up(1) by (intro events_take) auto
  then have fin: "sched_ok ?s'" "sched_tasks ?s' + made_by made (s_done s) = sched_tasks ?s + event_tasks es + made_by made (s_done ?s')"
      "\<forall>p. pool_at p s \<noteq> None \<longrightarrow> pool_at p ?s' \<noteq> None"
    using up(1) at by (auto simp: sched_takes_def)
  have "(sched_tasks ?s' + made_by made (s_done s)) + waiting_tasks g = (sched_tasks ?s + waiting_tasks g) + event_tasks es + made_by made (s_done ?s')"
    unfolding fin(2) by (simp only: ac_simps)
  also have "\<dots> = (waiting_tasks (f g) + event_tasks es) + sched_tasks s + made_by made (s_done ?s')" unfolding up(2) by (simp only: ac_simps)
  also have "\<dots> = (sched_tasks s + M + made_by made (s_done ?s')) + waiting_tasks g" unfolding es(3) by (simp only: ac_simps)
  finally have "sched_tasks ?s' + made_by made (s_done s) = sched_tasks s + M + made_by made (s_done ?s')" by (rule add_right_imp_eq)
  then show ?thesis using fin(1,3) by (simp add: sched_takes_def)
qed (simp add: sched_takes_def)

lemma group_op_takes_none:
  assumes "\<And>g. group_takes {#} {} g (f g)"
  shows "sched_takes made {#} s (snd (group_op_events r f s))"
proof (cases "group_at r s")
  case None
  then show ?thesis by (simp add: group_op_events_def)
next
  case (Some g)
  then show ?thesis by (rule group_op_takes [OF _ assms]) simp
qed

lemma refused_takes: "sched_takes made {#} s (((\<lambda>x. snd (group_op_events r destroy_running_lock x)) ^^ n) s)"
  by (rule sched_takes_power) (rule group_op_takes_none [OF end_running_takes])

lemma group_call_takes:
  assumes "group_at r s = Some g" "length (wait_buckets g) = PRIORITY_BUCKETS \<Longrightarrow> group_takes M A g (f g)"
    and "A \<subseteq> Some ` {p. pool_at p s \<noteq> None}"
  shows "sched_takes made M s (group_call r f s)"
  unfolding group_call_def split_beta Let_def
  by (rule sched_takes_then_none [OF group_op_takes [where f = f, OF assms] refused_takes])

lemma group_call_takes_none:
  assumes "\<And>g. group_takes {#} {} g (f g)"
  shows "sched_takes made {#} s (group_call r f s)"
  unfolding group_call_def split_beta Let_def
  by (rule sched_takes_none [OF group_op_takes_none [where f = f, OF assms] refused_takes])

lemma destroy_slock_takes: "sched_takes made {#} s (destroy_slock l s)"
proof (cases l)
  case (Some k)
  show ?thesis
  proof (cases k)
    case (RunningL r)
    then show ?thesis using Some group_call_takes_none [OF end_running_takes] by simp
  next
    case (CombinedL ks)
    have "sched_takes made {#} s (fold (\<lambda>(r, h). group_call r (destroy_group_lock h)) ks s)"
      by (rule sched_takes_fold) (auto intro!: group_call_takes_none end_group_lock_takes)
    then show ?thesis using Some CombinedL by simp
  qed
qed simp

lemma discard_takes: "sched_takes made (work_of ts) s (discard_tasks ts s)"
  unfolding discard_tasks_def work_of_def
  by (rule sched_takes_then_none [OF dropped_takes]) (rule sched_takes_fold, rule destroy_slock_takes)

section \<open>Submitting a task\<close>

text \<open>What the code of a task does to the scheduler: it submits the tasks \<open>made t\<close>, and does not end a task of a worker.\<close>

definition ordinary_body :: "(reaction_task \<Rightarrow> reaction_task multiset) \<Rightarrow> (reaction_task \<Rightarrow> sched \<Rightarrow> sched) \<Rightarrow> bool" where
  "ordinary_body made exec \<longleftrightarrow> (\<forall>t s. sched_takes made (made t) s (exec t s) \<and> s_executing (exec t s) = s_executing s)"

lemma run_takes:
  assumes "ordinary_body made exec"
  shows "sched_takes made {#t#} s (run_inline_now exec t s)"
proof -
  let ?s = "exec t s" and ?s' = "run_inline_now exec t s"
  have ex: "sched_takes made (made t) s ?s" using assms by (simp add: ordinary_body_def)
  have at: "pool_at q ?s' = pool_at q ?s" for q by (simp add: run_inline_now_def pool_at_def Let_def)
  have "sched_ok ?s' = sched_ok ?s" unfolding sched_ok_def at by (simp add: run_inline_now_def sched_keys_ok_def Let_def)
  moreover have "sched_tasks ?s' = sched_tasks ?s + {#t#}" "made_by made (s_done ?s') = made_by made (s_done ?s) + made t"
    by (simp_all add: run_inline_now_def sched_tasks_def queued_def waiting_def executing_def made_by_def Let_def)
  ultimately show ?thesis using ex at unfolding sched_takes_def by (simp add: ac_simps)
qed

lemma new_pool_buckets: "p_buckets (fst (new_pool b d sh)) = replicate PRIORITY_BUCKETS []"
  by (simp add: new_pool_def split_beta Let_def)

lemma pool_start_buckets: "p_buckets (pool_start b n p) = p_buckets p"
  by (simp add: pool_start_def Let_def)

lemma no_tasks: "pool_tasks p = {#}" if "p_buckets p = replicate n []"
proof -
  have "concat (replicate n []) = ([] :: slock ptask list)" by (induction n) simp_all
  then show ?thesis using that by (simp add: pool_tasks_def work_of_def work_tasks_def)
qed

lemma get_pool_takes:
  assumes "get_pool d s = Inr (p, s')"
  shows "sched_takes made {#} s s' \<and> pool_at p s' \<noteq> None"
proof (cases "pool_at (pd_ref d) s")
  case None
  define isd where "isd = (pd_ref d = pd_ref (s_default s))"
  define q0 where "q0 = (fst (new_pool isd d (s_shared s)) :: spool)"
  define q where "q = (if pd_ref d \<noteq> pd_ref (s_main s) \<and> s_started s then pool_start isd (s_default_concurrency s) q0 else q0)"
  define sh where "sh = snd (new_pool isd d (s_shared s) :: spool \<times> pool_shared)"
  have "p_buckets q0 = replicate PRIORITY_BUCKETS []" unfolding q0_def by (rule new_pool_buckets)
  then have q: "p_buckets q = replicate PRIORITY_BUCKETS []" unfolding q_def by (simp add: pool_start_buckets)
  have s': "p = pd_ref d" "s' = s\<lparr>s_pools := key_insert (pd_ref d) q (s_pools s), s_shared := sh\<rparr>"
    using assms None unfolding q_def q0_def sh_def isd_def by (auto simp: get_pool_def split_beta Let_def split: if_splits)
  have fresh: "pd_ref d \<notin> fst ` set (s_pools s)" using None by (simp add: pool_at_def map_of_eq_None_iff)
  have at: "pool_at r s' = (if r = pd_ref d then Some q else pool_at r s)" for r unfolding s' using None by (rule pool_at_insert)
  have "sched_tasks s' = sched_tasks s" using no_tasks [OF q]
    by (simp add: s' sched_tasks_def queued_def waiting_def executing_def sum_values_insert)
  moreover have "sched_ok s \<Longrightarrow> sched_ok s'"
  proof -
    assume ok: "sched_ok s"
    have more: "Some ` {r. pool_at r s \<noteq> None} \<subseteq> Some ` {r. pool_at r s' \<noteq> None}" using at by auto
    have "sched_keys_ok s'" using ok fresh distinct_key_insert [of "s_pools s" "pd_ref d" q] by (simp add: sched_ok_def sched_keys_ok_def s')
    moreover have "\<forall>(k, r) \<in> set (s_pools s'). length (p_buckets r) = PRIORITY_BUCKETS"
    proof (intro ballI, clarify)
      fix k r
      assume "(k, r) \<in> set (s_pools s')"
      then have "r = q \<or> (k, r) \<in> set (s_pools s)" by (auto simp: s'(2))
      then show "length (p_buckets r) = PRIORITY_BUCKETS" using ok q by (auto simp: sched_ok_def)
    qed
    moreover have "\<forall>(k, g) \<in> set (s_groups s'). length (wait_buckets g) = PRIORITY_BUCKETS \<and> waiting_pools g \<subseteq> Some ` {r. pool_at r s' \<noteq> None}"
    proof (intro ballI, clarify)
      fix k g
      assume "(k, g) \<in> set (s_groups s')"
      then have "(k, g) \<in> set (s_groups s)" by (simp add: s'(2))
      then show "length (wait_buckets g) = PRIORITY_BUCKETS \<and> waiting_pools g \<subseteq> Some ` {r. pool_at r s' \<noteq> None}"
        using ok more unfolding sched_ok_def by blast
    qed
    moreover have "pool_at p s' \<noteq> None" if "s_cache s' r = Some p" for r p
    proof -
      have "s_cache s r = Some p" using that by (simp add: s'(2))
      then have "pool_at p s \<noteq> None" using ok by (simp add: sched_ok_def)
      then show ?thesis by (simp add: at)
    qed
    ultimately show "sched_ok s'" unfolding sched_ok_def by blast
  qed
  moreover have "s_done s' = s_done s" "pool_at p s' \<noteq> None" "\<forall>r. pool_at r s \<noteq> None \<longrightarrow> pool_at r s' \<noteq> None"
    by (simp_all add: s'(2) at) (simp_all add: s'(1) at flip: s'(2))
  ultimately show ?thesis by (simp add: sched_takes_def)
next
  case (Some q)
  then show ?thesis using assms by (auto simp: get_pool_def)
qed

lemma resolve_takes:
  assumes "resolve_pool t s = Inr (p, s')" "sched_ok s"
  shows "sched_takes made {#} s s' \<and> pool_at p s' \<noteq> None"
proof (cases "t_parent t")
  case None
  then show ?thesis using assms(1) get_pool_takes by (simp add: resolve_pool_def)
next
  case (Some r)
  show ?thesis
  proof (cases "s_cache s r")
    case None
    then obtain s1 where s1: "get_pool (t_pool t) s = Inr (p, s1)" "s' = s1\<lparr>s_cache := (s_cache s1)(r \<mapsto> p)\<rparr>"
      using assms(1) Some by (auto simp: resolve_pool_def split: sum.splits)
    have got: "sched_takes made {#} s s1" "pool_at p s1 \<noteq> None" using get_pool_takes [OF s1(1)] by blast+
    have at: "pool_at q s' = pool_at q s1" for q by (simp add: s1(2) pool_at_def)
    have "sched_ok s1 \<Longrightarrow> sched_ok s'" using got(2) unfolding sched_ok_def at by (auto simp: s1(2) sched_keys_ok_def)
    moreover have "sched_tasks s' = sched_tasks s1" "s_done s' = s_done s1"
      by (simp_all add: s1(2) sched_tasks_def queued_def waiting_def executing_def)
    ultimately show ?thesis using got at unfolding sched_takes_def by simp
  next
    case (Some q)
    then show ?thesis using assms \<open>t_parent t = Some r\<close> by (auto simp: resolve_pool_def sched_ok_def)
  qed
qed

lemma get_group_takes:
  assumes "get_group d s = (r, s')"
  shows "sched_takes made {#} s s' \<and> group_at r s' \<noteq> None \<and> (\<forall>p. pool_at p s' = pool_at p s)"
proof (cases "group_at (gd_ref d) s")
  case None
  then have s': "r = gd_ref d" "s' = s\<lparr>s_groups := key_insert (gd_ref d) (new_group d) (s_groups s)\<rparr>"
    using assms by (auto simp: get_group_def)
  have fresh: "gd_ref d \<notin> fst ` set (s_groups s)" using None by (simp add: group_at_def map_of_eq_None_iff)
  have at: "pool_at q s' = pool_at q s" for q by (simp add: s'(2) pool_at_def)
  have here: "group_at r s' = Some (new_group d)" using map_of_key_insert [OF fresh] by (simp add: s' group_at_def)
  have nobody: "parked (new_group d :: sgroup) = []" by (simp add: parked_def new_group_def)
  have "sched_tasks s' = sched_tasks s"
    using nobody by (simp add: s'(2) sched_tasks_def queued_def waiting_def executing_def sum_values_insert waiting_tasks_def)
  moreover have "sched_ok s \<Longrightarrow> sched_ok s'"
  proof -
    assume ok: "sched_ok s"
    have "sched_keys_ok s'" using ok fresh distinct_key_insert [of "s_groups s" "gd_ref d" "new_group d"]
      by (simp add: sched_ok_def sched_keys_ok_def s'(2))
    moreover have "waiting_pools (new_group d :: sgroup) = {}" "length (wait_buckets (new_group d :: sgroup)) = PRIORITY_BUCKETS"
      using nobody by (simp_all add: waiting_pools_def new_group_def)
    ultimately show "sched_ok s'" using ok unfolding sched_ok_def at by (simp add: s'(2))
  qed
  ultimately show ?thesis using here at s'(2) by (simp add: sched_takes_def)
next
  case (Some g)
  then show ?thesis using assms by (auto simp: get_group_def)
qed

lemma group_lock_takes: "group_takes {#} {} g (snd (group_lock i p g))"
  by (rule takes_quiet [of _ _ "[]"]) (simp_all add: group_lock_def Let_def)

lemma quiet_group_update:
  assumes g: "group_at r s = Some g" and len: "wait_buckets g' = wait_buckets g"
  shows "sched_takes made {#} s (set_group r g' s) \<and> (\<forall>p. pool_at p (set_group r g' s) = pool_at p s)"
proof -
  have at: "pool_at p (set_group r g' s) = pool_at p s" for p by (simp add: set_group_def pool_at_def)
  have same: "waiting_tasks g' = waiting_tasks g" "waiting_pools g' = waiting_pools g"
    using len by (simp_all add: waiting_tasks_def waiting_pools_def parked_def)
  have mem: "(r, g) \<in> set (s_groups s)" using g by (simp add: group_at_def map_of_SomeD)
  have "sched_ok s \<Longrightarrow> sched_ok (set_group r g' s) \<and> sched_tasks (set_group r g' s) = sched_tasks s"
  proof -
    assume ok: "sched_ok s"
    then have "waiting_pools g' \<subseteq> Some ` {p. pool_at p s \<noteq> None}" using mem same by (auto simp: sched_ok_def)
    then show "sched_ok (set_group r g' s) \<and> sched_tasks (set_group r g' s) = sched_tasks s"
      using update_group [OF g _ _ ok, of g'] len same by simp
  qed
  moreover have "s_done (set_group r g' s) = s_done s" by (simp add: set_group_def)
  ultimately show ?thesis using at by (simp add: sched_takes_def)
qed

lemma notify_pool_takes [simp]:
  "sched_takes made {#} s (s\<lparr>s_notify := f\<rparr>)" "pool_at p (s\<lparr>s_notify := f\<rparr>) = pool_at p s"
proof -
  show at: "pool_at p (s\<lparr>s_notify := f\<rparr>) = pool_at p s" for p by (simp add: pool_at_def)
  show "sched_takes made {#} s (s\<lparr>s_notify := f\<rparr>)"
    by (simp add: sched_takes_def sched_ok_def sched_keys_ok_def at sched_tasks_def queued_def waiting_def executing_def)
qed

lemma add_locks_takes:
  "add_group_locks i p pool ds (ks, s) = (ks', s') \<Longrightarrow> sched_takes made {#} s s' \<and> (\<forall>q. pool_at q s' = pool_at q s)"
proof (induction ds arbitrary: ks s)
  case (Cons d ds)
  obtain r s1 where s1: "get_group d s = (r, s1)" by fastforce
  then have got: "sched_takes made {#} s s1" "group_at r s1 \<noteq> None" "\<forall>q. pool_at q s1 = pool_at q s" using get_group_takes by blast+
  then obtain g where g: "group_at r s1 = Some g" by blast
  obtain h g' where h: "group_lock i p g = (h, g')" by fastforce
  then have same: "wait_buckets g' = wait_buckets g" by (auto simp: group_lock_def Let_def)
  let ?s2 = "(set_group r g' s1)\<lparr>s_notify := (s_notify s1)((r, h) := pool)\<rparr>"
  note up = quiet_group_update [OF g same]
  have two: "sched_takes made {#} s ?s2" "\<forall>q. pool_at q ?s2 = pool_at q s"
    using sched_takes_none [OF sched_takes_none [OF got(1) conjunct1 [OF up]] notify_pool_takes(1)] up got(3) by simp_all
  have "add_group_locks i p pool ds (ks @ [(r, h)], ?s2) = (ks', s')" using Cons.prems s1 g h by (simp add: Let_def)
  then show ?case using Cons.IH two sched_takes_none by fastforce
qed simp

text \<open>Trying the locks of a task changes no wait bucket.\<close>

lemma acquire_group_waits:
  assumes "distinct (map fst gs)"
  shows "map (\<lambda>(k, g). (k, wait_buckets g)) (snd (acquire_group k gs)) = map (\<lambda>(k, g). (k, wait_buckets g)) gs"
proof (cases "map_of gs (fst k)")
  case (Some g)
  have same: "wait_buckets (snd (group_lock_lock (snd k) g)) = wait_buckets g" by (simp add: group_lock_lock_def add_tokens_def)
  have "g' = g" if "(fst k, g') \<in> set gs" for g' using that Some assms by simp
  then show ?thesis using Some same by (auto simp: acquire_group_def key_update_def split_beta Let_def)
qed (simp add: acquire_group_def)

lemma waits_keys: "map (\<lambda>(k, g). (k, wait_buckets g)) gs' = map (\<lambda>(k, g). (k, wait_buckets g)) gs \<Longrightarrow> map fst gs' = map fst gs"
proof -
  assume "map (\<lambda>(k, g). (k, wait_buckets g)) gs' = map (\<lambda>(k, g). (k, wait_buckets g)) gs"
  then have "map fst (map (\<lambda>(k, g). (k, wait_buckets g)) gs') = map fst (map (\<lambda>(k, g). (k, wait_buckets g)) gs)" by simp
  then show ?thesis by (simp add: comp_def split_beta)
qed

lemma try_slock_waits:
  assumes "distinct (map fst gs)"
  shows "map (\<lambda>(k, g). (k, wait_buckets g)) (snd (try_slock l gs)) = map (\<lambda>(k, g). (k, wait_buckets g)) gs"
proof (cases l)
  case (CombinedL ks)
  have "map (\<lambda>(k, g). (k, wait_buckets g)) (snd (combined_lock (map acquire_group ks) gs)) = map (\<lambda>(k, g). (k, wait_buckets g)) gs"
    using assms
  proof (induction ks arbitrary: gs)
    case (Cons k ks)
    obtain ok gs1 where one: "acquire_group k gs = (ok, gs1)" by fastforce
    then have same: "map (\<lambda>(k, g). (k, wait_buckets g)) gs1 = map (\<lambda>(k, g). (k, wait_buckets g)) gs"
      using acquire_group_waits [OF Cons.prems, of k] by simp
    then have "distinct (map fst gs1)" using waits_keys Cons.prems by metis
    then show ?case using Cons.IH one same by simp
  qed simp
  then show ?thesis using CombinedL by simp
qed simp

lemma same_waits_takes:
  assumes "map (\<lambda>(k, g). (k, wait_buckets g)) gs = map (\<lambda>(k, g). (k, wait_buckets g)) (s_groups s)"
  shows "sched_takes made {#} s (s\<lparr>s_groups := gs\<rparr>)" "pool_at q (s\<lparr>s_groups := gs\<rparr>) = pool_at q s"
proof -
  show at: "pool_at q (s\<lparr>s_groups := gs\<rparr>) = pool_at q s" for q by (simp add: pool_at_def)
  have sums: "sum_values waiting_tasks m = sum_values (\<lambda>bs. mset (map we_task (concat bs))) (map (\<lambda>(k, g). (k, wait_buckets g)) m)"
    for m :: "(nat \<times> sgroup) list" by (induction m) (auto simp: waiting_tasks_def parked_def)
  have "sum_values waiting_tasks gs = sum_values waiting_tasks (s_groups s)" unfolding sums assms ..
  then have tasks: "sched_tasks (s\<lparr>s_groups := gs\<rparr>) = sched_tasks s" by (simp add: sched_tasks_def queued_def waiting_def executing_def)
  let ?ok = "\<lambda>bs. length bs = PRIORITY_BUCKETS \<and> we_pool ` set (concat bs) \<subseteq> Some ` {p. pool_at p s \<noteq> None}"
  have ok: "(\<forall>(k, g) \<in> set m. length (wait_buckets g) = PRIORITY_BUCKETS \<and> waiting_pools g \<subseteq> Some ` {p. pool_at p s \<noteq> None})
      \<longleftrightarrow> (\<forall>(k, bs) \<in> set (map (\<lambda>(k, g). (k, wait_buckets g)) m). ?ok bs)" for m :: "(nat \<times> sgroup) list"
    by (simp add: waiting_pools_def parked_def split_beta)
  have "sched_ok (s\<lparr>s_groups := gs\<rparr>) = sched_ok s"
    unfolding sched_ok_def at using waits_keys [OF assms] ok [of gs] ok [of "s_groups s"] assms by (simp add: sched_keys_ok_def)
  then show "sched_takes made {#} s (s\<lparr>s_groups := gs\<rparr>)" using tasks at by (simp add: sched_takes_def)
qed

lemma submit_to_pool_takes:
  assumes "pool_at p s \<noteq> None"
  shows "sched_takes made {#t#} s (submit_to_pool p t l ci s)"
proof -
  obtain q where q: "pool_at p s = Some q" using assms by auto
  have work: "work_of [\<lparr>pt_work = Work t, pt_lock = l\<rparr>] = {#t#}" by (simp add: work_of_def work_tasks_def)
  show ?thesis
  proof (cases "submit_accepts False q")
    case True
    then show ?thesis using q on_pool_submit [OF q True, of made "\<lparr>pt_work = Work t, pt_lock = l\<rparr>" ci] work by (simp add: submit_to_pool_def)
  next
    case False
    then show ?thesis using q sched_takes_then_none [OF dropped_takes [of made "[t]" s] destroy_slock_takes] by (simp add: submit_to_pool_def)
  qed
qed

lemma group_five:
  assumes "sched_ok s" "group_at r s = Some g"
  shows "length (wait_buckets g) = PRIORITY_BUCKETS"
proof -
  have "(r, g) \<in> set (s_groups s)" using assms(2) by (simp add: group_at_def map_of_SomeD)
  then show ?thesis using assms(1) by (auto simp: sched_ok_def)
qed

text \<open>A group stays where it is.\<close>

lemma apply_event_groups: "s_groups (snd (apply_event r e (n, s))) = s_groups s"
  by (cases e) (auto simp: on_pool_def split_beta split: option.splits)

lemma events_groups: "s_groups (snd (fold (apply_event r) es (n, s))) = s_groups s"
proof (induction es arbitrary: n s)
  case (Cons e es)
  obtain n1 s1 where s1: "apply_event r e (n, s) = (n1, s1)" by fastforce
  then have "s_groups s1 = s_groups s" using apply_event_groups [of r e n s] by simp
  then show ?case using Cons.IH [of n1 s1] s1 by simp
qed simp

lemma group_op_keeps: "group_at r s \<noteq> None \<Longrightarrow> group_at r (snd (group_op_events r' f s)) \<noteq> None"
  by (auto simp: group_op_events_def Let_def group_at_def events_groups set_group_def map_of_key_update split: option.splits)

lemma group_call_keeps: "group_at r s \<noteq> None \<Longrightarrow> group_at r (group_call r' f s) \<noteq> None"
proof -
  assume "group_at r s \<noteq> None"
  then have start: "group_at r (snd (group_op_events r' f s)) \<noteq> None" by (rule group_op_keeps)
  have "group_at r x \<noteq> None \<Longrightarrow> group_at r (((\<lambda>x. snd (group_op_events r' destroy_running_lock x)) ^^ n) x) \<noteq> None" for n x
  proof (induction n)
    case (Suc n)
    then show ?case using group_op_keeps [of r "((\<lambda>x. snd (group_op_events r' destroy_running_lock x)) ^^ n) x"] by simp
  qed simp
  then show ?thesis using start by (simp add: group_call_def split_beta)
qed

lemma submit_one_group:
  assumes body: "ordinary_body made exec" and pool: "pool_at pool s \<noteq> None" and r: "get_group d s = (r, s2)"
  shows "sched_takes made {#t#} s
    (let acquired = (t_run_inline t \<and> (case group_at r s2 of None \<Rightarrow> False | Some g \<Rightarrow> fst (try_acquire_running_lock g)));
         s3 = (if t_run_inline t then group_call r (\<lambda>g. snd (try_acquire_running_lock g)) s2 else s2)
     in if acquired then group_call r destroy_running_lock (run_inline_now exec t s3)
        else group_call r (\<lambda>g. snd (try_submit t (Some pool) ci g)) s3)"
proof (cases "sched_ok s")
  case True
  define s3 where "s3 = (if t_run_inline t then group_call r (\<lambda>g. snd (try_acquire_running_lock g)) s2 else s2)"
  have got: "sched_takes made {#} s s2" "group_at r s2 \<noteq> None" using get_group_takes [OF r] by blast+
  have "sched_takes made {#} s2 s3" unfolding s3_def by (simp add: group_call_takes_none [OF acquire_takes])
  then have s3: "sched_takes made {#} s s3" using sched_takes_none [OF got(1)] by blast
  then have ok3: "sched_ok s3" "pool_at pool s3 \<noteq> None" using True pool by (auto simp: sched_takes_def)
  have ran: "sched_takes made {#t#} s (group_call r destroy_running_lock (run_inline_now exec t s3))"
    by (rule sched_takes_then_none [OF sched_takes_none [OF s3 run_takes [OF body]] group_call_takes_none [OF end_running_takes]])
  have "sched_takes made {#t#} s (group_call r (\<lambda>g. snd (try_submit t (Some pool) ci g)) s3)"
  proof -
    have "group_at r s3 \<noteq> None"
      unfolding s3_def using got(2) group_call_keeps [OF got(2)] by (simp split: if_split)
    then obtain g where g: "group_at r s3 = Some g" by blast
    have "sched_takes made {#t#} s3 (group_call r (\<lambda>g. snd (try_submit t (Some pool) ci g)) s3)"
      by (rule group_call_takes [where f = "\<lambda>g. snd (try_submit t (Some pool) ci g)", OF g submit_takes]) (use ok3(2) in simp_all)
    then show ?thesis by (rule sched_takes_none [OF s3])
  qed
  then show ?thesis using ran unfolding Let_def s3_def [symmetric] by (simp split: if_split)
qed (simp add: sched_takes_def)

lemma submit_locks:
  assumes body: "ordinary_body made exec" and pool: "pool_at pool s \<noteq> None" and l: "get_groups_lock i p pool ds s = (l, s2)"
  shows "sched_takes made {#t#} s
    (let (ok, gs) = (if t_run_inline t then (case l of None \<Rightarrow> (True, s_groups s2) | Some k \<Rightarrow> try_slock k (s_groups s2)) else (False, s_groups s2));
         s3 = s2\<lparr>s_groups := gs\<rparr>
     in if ok then destroy_slock l (run_inline_now exec t s3) else submit_to_pool pool t l ci s3)"
proof (cases "sched_ok s")
  case True
  have got: "sched_takes made {#} s s2 \<and> (\<forall>q. pool_at q s2 = pool_at q s)"
  proof (cases "ds = []")
    case False
    then have "add_group_locks i p pool ds ([], s) = (fst (add_group_locks i p pool ds ([], s)), s2)"
      using l by (auto simp: get_groups_lock_def split_beta)
    then show ?thesis by (rule add_locks_takes)
  qed (use l in \<open>simp add: get_groups_lock_def\<close>)
  obtain ok gs where gs: "(if t_run_inline t then (case l of None \<Rightarrow> (True, s_groups s2) | Some k \<Rightarrow> try_slock k (s_groups s2)) else (False, s_groups s2)) = (ok, gs)"
    by fastforce
  have "distinct (map fst (s_groups s2))" using got True by (simp add: sched_takes_def sched_ok_def sched_keys_ok_def)
  then have same: "map (\<lambda>(k, g). (k, wait_buckets g)) gs = map (\<lambda>(k, g). (k, wait_buckets g)) (s_groups s2)"
    using gs try_slock_waits [of "s_groups s2"] by (auto split: if_splits option.splits dest!: arg_cong [of "try_slock _ _" _ snd])
  let ?s3 = "s2\<lparr>s_groups := gs\<rparr>"
  have s3: "sched_takes made {#} s ?s3" using sched_takes_none [OF conjunct1 [OF got] same_waits_takes(1) [OF same]] .
  have "pool_at pool ?s3 \<noteq> None" using pool got by (simp add: same_waits_takes(2) [OF same])
  then have "sched_takes made {#t#} s (submit_to_pool pool t l ci ?s3)" by (intro sched_takes_none [OF s3] submit_to_pool_takes)
  moreover have "sched_takes made {#t#} s (destroy_slock l (run_inline_now exec t ?s3))"
    by (rule sched_takes_then_none [OF sched_takes_none [OF s3 run_takes [OF body]] destroy_slock_takes])
  ultimately show ?thesis unfolding gs by (simp add: Let_def split: if_split)
qed (simp add: sched_takes_def)

definition submission :: "reaction_task option \<Rightarrow> reaction_task multiset" where
  "submission task = (case task of None \<Rightarrow> {#} | Some t \<Rightarrow> {#t#})"

lemma sched_submit_takes:
  assumes body: "ordinary_body made exec" and run: "sched_submit exec task s = Inr s'"
  shows "sched_takes made (submission task) s s'"
proof (cases task)
  case None
  then show ?thesis using run by (simp add: sched_submit_def submission_def)
next
  case (Some t)
  show ?thesis
  proof (cases "sched_ok s")
    case True
    obtain pool s1 where s1: "resolve_pool t s = Inr (pool, s1)" using run Some by (auto simp: sched_submit_def split: sum.splits)
    have got: "sched_takes made {#} s s1" "pool_at pool s1 \<noteq> None" using resolve_takes [OF s1 True] by blast+
    have "sched_takes made {#t#} s1 s'"
    proof (cases "\<exists>d. t_groups t = [d]")
      case True
      then obtain d where d: "t_groups t = [d]" by blast
      obtain r s2 where r: "get_group d s1 = (r, s2)" by fastforce
      show ?thesis using submit_one_group [OF body got(2) r, of t "\<not> current_pool_idle s1"] run Some s1 d r
        by (auto simp: sched_submit_def Let_def split: if_splits)
    next
      case False
      obtain l s2 where l: "get_groups_lock (t_id t) (t_priority t) pool (t_groups t) s1 = (l, s2)" by fastforce
      obtain ok gs where gs: "(if t_run_inline t then (case l of None \<Rightarrow> (True, s_groups s2) | Some k \<Rightarrow> try_slock k (s_groups s2)) else (False, s_groups s2)) = (ok, gs)"
        by fastforce
      have "s' = (if ok then destroy_slock l (run_inline_now exec t (s2\<lparr>s_groups := gs\<rparr>)) else submit_to_pool pool t l (\<not> current_pool_idle s1) (s2\<lparr>s_groups := gs\<rparr>))"
        using run Some s1 l gs False by (auto simp: sched_submit_def Let_def split: list.splits if_splits)
      then show ?thesis using submit_locks [OF body got(2) l, of t "\<not> current_pool_idle s1"] unfolding gs by (simp add: Let_def split: if_splits)
    qed
    then show ?thesis using sched_takes_none [OF got(1)] Some by (simp add: submission_def)
  qed (simp add: sched_takes_def)
qed

section \<open>Workers\<close>

text \<open>One iteration of a worker: what it hands out or discards, and what stays queued.\<close>

fun handed_out :: "slock outcome \<Rightarrow> slock ptask list" where
  "handed_out (Dispatch t) = [t]"
| "handed_out (Discarded ts) = ts"
| "handed_out Waiting = []"
| "handed_out Shutdown = []"

lemma work_append [simp]: "work_of (ts @ us) = work_of ts + work_of us"
  by (simp add: work_of_def work_tasks_def)

lemma work_nothing [simp]: "work_of [] = {#}" "work_of [idle_ptask rs] = {#}"
  by (simp_all add: work_of_def work_tasks_def idle_ptask_def)

lemma pool_tasks_cong: "p_buckets p' = p_buckets p \<Longrightarrow> pool_tasks p' = pool_tasks p"
  by (simp add: pool_tasks_def)

lemma dequeue_tasks:
  assumes "try_dequeue_task p = Some (t, p')"
  shows "pool_tasks p = work_of [t] + pool_tasks p'" "length (p_buckets p') = length (p_buckets p)"
proof -
  obtain bs where bs: "pop_buckets (p_buckets p) = Some (t, bs)" "p_buckets p' = bs"
    using assms by (auto simp: try_dequeue_task_def split: option.splits)
  then have "concat (p_buckets p) = [t] @ concat bs" "length bs = length (p_buckets p)" using pop_buckets_concat [of "p_buckets p"] by simp_all
  then show "pool_tasks p = work_of [t] + pool_tasks p'" "length (p_buckets p') = length (p_buckets p)"
    using bs(2) by (simp_all only: pool_tasks_def work_append)
qed

lemma requeue_tasks:
  assumes "length (p_buckets p) = PRIORITY_BUCKETS"
  shows "pool_tasks ((submit_enqueue t (submit_count p))\<lparr>p_live := b\<rparr>) = pool_tasks p + work_of [t]"
    "length (p_buckets ((submit_enqueue t (submit_count p))\<lparr>p_live := b\<rparr>)) = PRIORITY_BUCKETS"
proof -
  let ?i = "priority_index (work_priority (pt_work t))" and ?p = "(submit_enqueue t (submit_count p))\<lparr>p_live := b\<rparr>"
  have eq: "p_buckets ?p = (p_buckets p)[?i := p_buckets p ! ?i @ [t]]" by (simp add: submit_enqueue_def submit_count_def Let_def)
  have "mset (concat (p_buckets ?p)) = add_mset t (mset (concat (p_buckets p)))" unfolding eq using assms by (intro mset_concat_push) simp
  then show "pool_tasks ?p = pool_tasks p + work_of [t]" unfolding pool_tasks_def by (rule work_mset)
  show "length (p_buckets ?p) = PRIORITY_BUCKETS" unfolding eq using assms by simp
qed

lemma lock_task_waits:
  assumes "distinct (map fst gs)" "lock_task try_slock t gs = (ok, gs')"
  shows "map (\<lambda>(k, g). (k, wait_buckets g)) gs' = map (\<lambda>(k, g). (k, wait_buckets g)) gs"
proof (cases "pt_lock t")
  case None
  then show ?thesis using assms(2) by (simp add: lock_task_def)
next
  case (Some l)
  then have "try_slock l gs = (ok, gs')" using assms(2) by (simp add: lock_task_def)
  then show ?thesis using try_slock_waits [OF assms(1), of l] by simp
qed

lemma dequeue_or_idle_takes:
  assumes len: "length (p_buckets p) = PRIORITY_BUCKETS" and keys: "distinct (map fst gs)"
    and run: "dequeue_or_idle try_slock tid (p, sh, gs) = (out, p', sh', gs')"
  shows "work_of (handed_out out) + pool_tasks p' = pool_tasks p \<and> length (p_buckets p') = PRIORITY_BUCKETS
    \<and> map (\<lambda>(k, g). (k, wait_buckets g)) gs' = map (\<lambda>(k, g). (k, wait_buckets g)) gs"
proof (cases "if p_live p then try_dequeue_task p else None")
  case None
  obtain rs p1 sh1 where i: "get_idle_task tid (p\<lparr>p_live := False\<rparr>, sh) = (rs, p1, sh1)" by (metis prod.collapse)
  have "p_buckets p1 = p_buckets p" using get_idle_frame(1) [of tid "(p\<lparr>p_live := False\<rparr>, sh)"] i by simp
  then show ?thesis using run None i len pool_tasks_cong [of p1 p] by (auto simp: dequeue_or_idle_def split: if_splits)
next
  case (Some tp)
  obtain t p1 where t: "tp = (t, p1)" by (cases tp)
  then have d: "try_dequeue_task p = Some (t, p1)" using Some by (simp split: if_splits)
  note deq = dequeue_tasks [OF d]
  obtain ok gs1 where l: "lock_task try_slock t gs = (ok, gs1)" by fastforce
  note waits = lock_task_waits [OF keys l]
  show ?thesis
  proof (cases ok)
    case True
    obtain p2 sh2 where p2: "clear_pool_idle (clear_thread_idle tid p1, sh) = (p2, sh2)" by fastforce
    have "p_buckets p2 = p_buckets p1"
      using clear_pool_idle_frame(1) [of "(clear_thread_idle tid p1, sh)"] p2 by (simp add: clear_thread_idle_frame)
    moreover have "out = Dispatch t" "p' = p2" "gs' = gs1" using run Some t l True p2 by (simp_all add: dequeue_or_idle_def)
    ultimately show ?thesis using deq len waits pool_tasks_cong [of p2 p1] by simp
  next
    case False
    then have "out = Waiting" "p' = (submit_enqueue t (submit_count p1))\<lparr>p_live := False\<rparr>" "gs' = gs1"
      using run Some t l by (simp_all add: dequeue_or_idle_def)
    then show ?thesis using deq len waits requeue_tasks [where p = p1 and t = t and b = False] by (simp add: ac_simps)
  qed
qed

lemma get_task_takes:
  assumes len: "length (p_buckets p) = PRIORITY_BUCKETS" and keys: "distinct (map fst gs)"
    and run: "get_task_iter try_slock tid (p, sh, gs) = (out, p', sh', gs')"
  shows "work_of (handed_out out) + pool_tasks p' = pool_tasks p \<and> length (p_buckets p') = PRIORITY_BUCKETS
    \<and> map (\<lambda>(k, g). (k, wait_buckets g)) gs' = map (\<lambda>(k, g). (k, wait_buckets g)) gs"
proof -
  consider (leave) "\<not> loop_condition p" | (discard) "loop_condition p" "p_discard p"
    | (idle) "loop_condition p" "\<not> p_discard p" "p_pending_idle p" | (work) "loop_condition p" "\<not> p_discard p" "\<not> p_pending_idle p" by blast
  then show ?thesis
  proof cases
    case leave
    then have "out = Shutdown" "p' = signal True p" "gs' = gs" using run by (simp_all add: get_task_iter_def)
    then show ?thesis using len by (simp add: signal_def pool_tasks_def)
  next
    case discard
    then have "out = Discarded (concat (p_buckets p))" "p_buckets p' = map (\<lambda>_. []) (p_buckets p)" "gs' = gs"
      using run by (auto simp: get_task_iter_def drain_queues_def signal_def)
    then show ?thesis using len by (simp add: pool_tasks_def del: length_concat)
  next
    case idle
    obtain rs p1 where i: "get_local_idle_task tid (p\<lparr>p_pending_idle := False\<rparr>) = (rs, p1)" by fastforce
    have b: "p_buckets p1 = p_buckets p" using idle_frame(3) [of tid "p\<lparr>p_pending_idle := False\<rparr>"] i by simp
    show ?thesis
    proof (cases "rs = []")
      case True
      then have "dequeue_or_idle try_slock tid (p1, sh, gs) = (out, p', sh', gs')" using run idle i by (simp add: get_task_iter_def)
      then show ?thesis using dequeue_or_idle_takes [OF _ keys, of p1 tid sh out p' sh' gs'] b len pool_tasks_cong [of p1 p] by simp
    next
      case False
      then have "out = Dispatch (idle_ptask rs)" "p' = p1" "gs' = gs" using run idle i by (simp_all add: get_task_iter_def)
      then show ?thesis using b len pool_tasks_cong [of p1 p] by simp
    qed
  next
    case work
    then have "dequeue_or_idle try_slock tid (p, sh, gs) = (out, p', sh', gs')" using run by (simp add: get_task_iter_def)
    then show ?thesis by (rule dequeue_or_idle_takes [OF len keys])
  qed
qed

lemma update_groups_too:
  assumes p: "pool_at r s = Some p" and len: "length (p_buckets p') = length (p_buckets p)" and ok: "sched_ok s"
    and waits: "map (\<lambda>(k, g). (k, wait_buckets g)) gs = map (\<lambda>(k, g). (k, wait_buckets g)) (s_groups s)"
    and s': "s' = s\<lparr>s_pools := key_update r (\<lambda>_. p') (s_pools s), s_shared := sh, s_groups := gs\<rparr>"
  shows "sched_ok s' \<and> sched_tasks s' + pool_tasks p = sched_tasks s + pool_tasks p' \<and> (\<forall>q. pool_at q s' = None \<longleftrightarrow> pool_at q s = None)"
proof -
  let ?s = "s\<lparr>s_pools := key_update r (\<lambda>_. p') (s_pools s), s_shared := sh\<rparr>"
  note up = update_pool [OF p len ok refl, of sh]
  have eq: "s' = ?s\<lparr>s_groups := gs\<rparr>" by (simp add: s')
  have "map (\<lambda>(k, g). (k, wait_buckets g)) gs = map (\<lambda>(k, g). (k, wait_buckets g)) (s_groups ?s)" using waits by simp
  note same = same_waits_takes [OF this, folded eq]
  have "sched_ok s'" "sched_tasks s' = sched_tasks ?s" using same(1) [of "\<lambda>_. {#}"] up by (simp_all add: sched_takes_def eq)
  then show ?thesis using up same(2) by simp
qed

lemma same_buckets_takes:
  assumes "map (\<lambda>(k, p). (k, p_buckets p)) ps = map (\<lambda>(k, p). (k, p_buckets p)) (s_pools s)"
  shows "sched_takes made {#} s (s\<lparr>s_pools := ps\<rparr>)"
proof -
  let ?s = "s\<lparr>s_pools := ps\<rparr>"
  have "map fst (map (\<lambda>(k, p). (k, p_buckets p)) ps) = map fst (map (\<lambda>(k, p). (k, p_buckets p)) (s_pools s))" by (simp only: assms)
  then have keys: "map fst ps = map fst (s_pools s)" by (simp add: comp_def split_beta)
  have at: "pool_at q ?s = None \<longleftrightarrow> pool_at q s = None" for q
    using keys by (simp add: pool_at_def map_of_eq_None_iff) (metis list.set_map)
  have sums: "sum_values pool_tasks m = sum_values (\<lambda>bs. work_of (concat bs)) (map (\<lambda>(k, p). (k, p_buckets p)) m)"
    for m :: "(nat \<times> spool) list" by (induction m) (auto simp: pool_tasks_def)
  have "sum_values pool_tasks ps = sum_values pool_tasks (s_pools s)" unfolding sums assms ..
  then have tasks: "sched_tasks ?s = sched_tasks s" by (simp add: sched_tasks_def queued_def waiting_def executing_def)
  have five: "(\<forall>(k, p) \<in> set m. length (p_buckets p) = PRIORITY_BUCKETS)
      \<longleftrightarrow> (\<forall>(k, bs) \<in> set (map (\<lambda>(k, p). (k, p_buckets p)) m). length bs = PRIORITY_BUCKETS)" for m :: "(nat \<times> spool) list"
    by (simp add: split_beta)
  have "sched_ok ?s = sched_ok s"
    unfolding sched_ok_def at using keys five [of ps] five [of "s_pools s"] assms by (simp add: sched_keys_ok_def del: not_None_eq)
  then show ?thesis using tasks at by (simp add: sched_takes_def del: not_None_eq)
qed

lemma worker_take_takes: "sched_takes made {#} s (worker_take r tid s)"
proof (cases "sched_ok s \<and> pool_at r s \<noteq> None")
  case True
  then obtain p where p: "pool_at r s = Some p" and ok: "sched_ok s" by auto
  have "(r, p) \<in> set (s_pools s)" using p by (simp add: pool_at_def map_of_SomeD)
  then have len: "length (p_buckets p) = PRIORITY_BUCKETS" using ok by (auto simp: sched_ok_def)
  have keys: "distinct (map fst (s_groups s))" using ok by (simp add: sched_ok_def sched_keys_ok_def)
  obtain out p' sh' gs' where it: "get_task_iter try_slock tid (p, s_shared s, s_groups s) = (out, p', sh', gs')" by (metis prod.collapse)
  let ?s = "s\<lparr>s_pools := key_update r (\<lambda>_. p') (s_pools s), s_shared := sh', s_groups := gs'\<rparr>"
  note got = get_task_takes [OF len keys it]
  have "length (p_buckets p') = length (p_buckets p)" using got len by simp
  note up = update_groups_too [OF p this ok _ refl, of gs' sh']
  have "sched_tasks ?s + work_of (handed_out out) + pool_tasks p' = sched_tasks ?s + pool_tasks p" using got by (simp add: ac_simps)
  also have "\<dots> = sched_tasks s + pool_tasks p'" using up got by blast
  finally have tasks: "sched_tasks ?s + work_of (handed_out out) = sched_tasks s" by simp
  have at: "\<forall>q. pool_at q ?s = None \<longleftrightarrow> pool_at q s = None" and oks: "sched_ok ?s" using up got by blast+
  have same: "s_done ?s = s_done s" by simp
  show ?thesis
  proof (cases out)
    case (Dispatch t)
    let ?s' = "?s\<lparr>s_executing := s_executing ?s @ [((r, tid), t)]\<rparr>"
    have w: "worker_take r tid s = ?s'" using p it Dispatch by (simp add: worker_take_def Let_def)
    have at': "pool_at q ?s' = pool_at q ?s" for q by (simp add: pool_at_def)
    have "sched_ok ?s'" using oks unfolding sched_ok_def at' by (simp add: sched_keys_ok_def)
    moreover have "sched_tasks ?s' = sched_tasks ?s + work_of [t]"
      by (simp add: sched_tasks_def queued_def waiting_def executing_def ac_simps)
    ultimately show ?thesis using tasks at at' Dispatch unfolding sched_takes_def w by (simp del: not_None_eq)
  next
    case (Discarded ts)
    have w: "worker_take r tid s = discard_tasks ts ?s" using p it Discarded by (simp add: worker_take_def Let_def)
    have "sched_takes made (work_of ts) ?s (discard_tasks ts ?s)" by (rule discard_takes)
    then have "sched_ok (discard_tasks ts ?s)"
        "sched_tasks (discard_tasks ts ?s) + made_by made (s_done s) = sched_tasks ?s + work_of ts + made_by made (s_done (discard_tasks ts ?s))"
        "\<forall>q. pool_at q ?s \<noteq> None \<longrightarrow> pool_at q (discard_tasks ts ?s) \<noteq> None"
      using oks unfolding sched_takes_def same by blast+
    then show ?thesis using tasks at Discarded unfolding sched_takes_def w by (simp del: not_None_eq)
  next
    case Waiting
    have w: "worker_take r tid s = ?s" using p it Waiting by (simp add: worker_take_def Let_def)
    show ?thesis using tasks at oks Waiting unfolding sched_takes_def w by (simp del: not_None_eq)
  next
    case Shutdown
    let ?s' = "?s\<lparr>s_pools := key_update r worker_exit (s_pools ?s)\<rparr>"
    have w: "worker_take r tid s = ?s'" using p it Shutdown by (simp add: worker_take_def Let_def)
    have first: "sched_takes made {#} s ?s" using tasks at oks Shutdown unfolding sched_takes_def by (simp del: not_None_eq)
    have "sched_takes made {#} ?s ?s'"
      by (rule same_buckets_takes) (auto simp: key_update_def worker_exit_def)
    then show ?thesis unfolding w by (rule sched_takes_none [OF first])
  qed
next
  case False
  then show ?thesis by (auto simp: worker_take_def sched_takes_def)
qed

lemma erase_executing:
  "map_of xs k = Some t \<Longrightarrow> work_of (map snd (erase_first (\<lambda>e. fst e = k) xs)) + work_of [t] = work_of (map snd xs)"
proof (induction xs)
  case (Cons x xs)
  have split: "work_of (a # as) = work_of [a] + work_of as" for a as using work_append [of "[a]" as] by simp
  show ?case
  proof (cases "fst x = k")
    case True
    then have "snd x = t" using Cons.prems by (cases x) simp
    then show ?thesis using True split [of t "map snd xs"] by (simp add: ac_simps)
  next
    case False
    then have "map_of xs k = Some t" using Cons.prems by (cases x) simp
    then have ih: "work_of (map snd (erase_first (\<lambda>e. fst e = k) xs)) + work_of [t] = work_of (map snd xs)" by (rule Cons.IH)
    show ?thesis
      using False split [of "snd x" "map snd (erase_first (\<lambda>e. fst e = k) xs)"] split [of "snd x" "map snd xs"] ih
      by (simp add: add.assoc)
  qed
qed simp

lemma worker_finish_takes:
  assumes body: "ordinary_body made exec"
  shows "sched_takes made {#} s (worker_finish exec r tid s)"
proof (cases "map_of (s_executing s) (r, tid)")
  case None
  then show ?thesis by (simp add: worker_finish_def)
next
  case (Some t)
  define s1 where "s1 = (case pt_work t of Work w \<Rightarrow> run_inline_now exec w s | IdleDispatch _ \<Rightarrow> s)"
  let ?s2 = "s1\<lparr>s_executing := erase_first (\<lambda>e. fst e = (r, tid)) (s_executing s1)\<rparr>"
  have same: "s_executing s1 = s_executing s"
    using body by (auto simp: s1_def run_inline_now_def ordinary_body_def Let_def split: pool_work.splits)
  have ran: "sched_takes made (work_of [t]) s s1"
    using run_takes [OF body] by (auto simp: s1_def work_of_def work_tasks_def split: pool_work.splits)
  have "executing ?s2 + work_of [t] = executing s1"
    using erase_executing [OF Some] by (simp add: executing_def same)
  then have tasks: "sched_tasks ?s2 + work_of [t] = sched_tasks s1"
    by (simp add: sched_tasks_def queued_def waiting_def)
  have at: "pool_at q ?s2 = pool_at q s1" for q by (simp add: pool_at_def)
  have oks: "sched_ok ?s2 = sched_ok s1" unfolding sched_ok_def at by (simp add: sched_keys_ok_def)
  have two: "sched_takes made {#} s ?s2"
    unfolding sched_takes_def
  proof
    assume "sched_ok s"
    then have a: "sched_ok s1" "sched_tasks s1 + made_by made (s_done s) = sched_tasks s + work_of [t] + made_by made (s_done s1)"
      "\<forall>p. pool_at p s \<noteq> None \<longrightarrow> pool_at p s1 \<noteq> None" using ran by (auto simp: sched_takes_def)
    have "(sched_tasks ?s2 + made_by made (s_done s)) + work_of [t] = (sched_tasks ?s2 + work_of [t]) + made_by made (s_done s)" by (simp only: ac_simps)
    also have "\<dots> = (sched_tasks s + {#} + made_by made (s_done ?s2)) + work_of [t]" unfolding tasks a(2) by (simp add: ac_simps)
    finally have "sched_tasks ?s2 + made_by made (s_done s) = sched_tasks s + {#} + made_by made (s_done ?s2)" by (rule add_right_imp_eq)
    then show "sched_ok ?s2 \<and> sched_tasks ?s2 + made_by made (s_done s) = sched_tasks s + {#} + made_by made (s_done ?s2)
        \<and> (\<forall>p. pool_at p s \<noteq> None \<longrightarrow> pool_at p ?s2 \<noteq> None)" using a oks at by simp
  qed
  show ?thesis using sched_takes_none [OF two destroy_slock_takes] Some by (simp add: worker_finish_def s1_def Let_def)
qed

section \<open>Starting, stopping and idle tasks\<close>

lemma sched_start_takes: "sched_takes made {#} s (sched_start s)"
proof -
  have at: "pool_at q (s\<lparr>s_started := b\<rparr>) = pool_at q s" for q b by (simp add: pool_at_def)
  have first: "sched_takes made {#} s (s\<lparr>s_started := True\<rparr>)"
    by (simp add: sched_takes_def sched_ok_def at sched_keys_ok_def sched_tasks_def queued_def waiting_def executing_def)
  show ?thesis
    unfolding sched_start_def Let_def
    by (rule sched_takes_none [OF first same_buckets_takes]) (auto simp: pool_start_buckets)
qed

lemma pool_stop_tasks:
  assumes "pool_stop tid ty p = (drained, blocked, p')"
  shows "work_of drained + pool_tasks p' = pool_tasks p \<and> length (p_buckets p') = length (p_buckets p)"
proof -
  have "p_buckets p' = p_buckets p \<and> drained = [] \<or> p_buckets p' = map (\<lambda>_. []) (p_buckets p) \<and> drained = concat (p_buckets p)"
    using assms by (auto simp: pool_stop_def signal_def drain_queues_def Let_def split: StopType.splits if_splits)
  then show ?thesis by (auto simp: pool_tasks_def)
qed

lemma stop_pool_takes: "sched_takes made {#} s (stop_pool caller ty r s)"
proof (cases "sched_ok s \<and> pool_at r s \<noteq> None")
  case True
  then obtain p where p: "pool_at r s = Some p" and ok: "sched_ok s" by auto
  obtain drained blocked p' where st: "pool_stop caller ty p = (drained, blocked, p')" by (metis prod.collapse)
  note stop = pool_stop_tasks [OF st]
  let ?s = "s\<lparr>s_pools := key_update r (\<lambda>_. p') (s_pools s)\<rparr>"
  have eq: "?s = s\<lparr>s_pools := key_update r (\<lambda>_. p') (s_pools s), s_shared := s_shared s\<rparr>" by simp
  note up = update_pool [OF p conjunct2 [OF stop] ok eq]
  have "sched_tasks ?s + work_of drained + pool_tasks p' = sched_tasks ?s + pool_tasks p" using stop by (simp add: ac_simps)
  also have "\<dots> = sched_tasks s + pool_tasks p'" using up by blast
  finally have tasks: "sched_tasks ?s + work_of drained = sched_tasks s" by simp
  have same: "s_done ?s = s_done s" by simp
  have w: "stop_pool caller ty r s = discard_tasks drained ?s" using p st by (simp add: stop_pool_def)
  have "sched_takes made (work_of drained) ?s (discard_tasks drained ?s)" by (rule discard_takes)
  then have "sched_ok (discard_tasks drained ?s)"
      "sched_tasks (discard_tasks drained ?s) + made_by made (s_done s) = sched_tasks ?s + work_of drained + made_by made (s_done (discard_tasks drained ?s))"
      "\<forall>q. pool_at q ?s \<noteq> None \<longrightarrow> pool_at q (discard_tasks drained ?s) \<noteq> None"
    using up unfolding sched_takes_def same by blast+
  then show ?thesis using tasks up unfolding sched_takes_def w by (simp del: not_None_eq)
next
  case False
  then show ?thesis by (auto simp: stop_pool_def sched_takes_def)
qed

lemma sched_stop_takes: "sched_takes made {#} s (sched_stop caller force s)"
proof -
  have at: "pool_at q (s\<lparr>s_running := b\<rparr>) = pool_at q s" for q b by (simp add: pool_at_def)
  have first: "sched_takes made {#} s (s\<lparr>s_running := False\<rparr>)"
    by (simp add: sched_takes_def sched_ok_def at sched_keys_ok_def sched_tasks_def queued_def waiting_def executing_def)
  show ?thesis
    unfolding sched_stop_def Let_def by (rule sched_takes_none [OF first]) (rule sched_takes_fold, rule stop_pool_takes)
qed

lemma final_stop_takes: "sched_takes made {#} s (sched_final_stop caller s)"
  unfolding sched_final_stop_def by (rule sched_takes_fold) (rule stop_pool_takes)

lemma shared_takes: "sched_takes made {#} s (s\<lparr>s_shared := sh\<rparr>)"
proof -
  have at: "pool_at q (s\<lparr>s_shared := sh\<rparr>) = pool_at q s" for q by (simp add: pool_at_def)
  show ?thesis by (simp add: sched_takes_def sched_ok_def at sched_keys_ok_def sched_tasks_def queued_def waiting_def executing_def)
qed

lemma add_idle_takes:
  assumes "sched_add_idle_task r d s = Inr s'"
  shows "sched_takes made {#} s s'"
proof (cases d)
  case None
  let ?s = "s\<lparr>s_shared := (s_shared s)\<lparr>sched_idle_tasks := sched_idle_tasks (s_shared s) @ [r],
      global_idle_count := global_idle_count (s_shared s) + 1\<rparr>\<rparr>"
  obtain p s1 where s1: "get_pool (s_main s) ?s = Inr (p, s1)" "s' = on_pool p (pool_notify True) s1"
    using assms None by (auto simp: sched_add_idle_task_def Let_def split: sum.splits)
  have "sched_takes made {#} s1 s'"
    unfolding s1(2) by (rule on_pool_takes) (simp add: pool_notify_def signal_def clear_pool_idle_frame Let_def)
  then show ?thesis using sched_takes_none [OF shared_takes sched_takes_none [OF conjunct1 [OF get_pool_takes [OF s1(1)]]]] by blast
next
  case (Some dd)
  obtain p s1 where s1: "get_pool dd s = Inr (p, s1)" "s' = on_pool p (\<lambda>(q, sh). (pool_add_idle_task r q, sh)) s1"
    using assms Some by (auto simp: sched_add_idle_task_def split: sum.splits)
  have "sched_takes made {#} s1 s'"
    unfolding s1(2) by (rule on_pool_takes) (simp add: pool_add_idle_task_def signal_def Let_def)
  then show ?thesis using sched_takes_none [OF conjunct1 [OF get_pool_takes [OF s1(1)]]] by blast
qed

lemma remove_idle_takes:
  assumes "sched_remove_idle_task i d s = Inr s'"
  shows "sched_takes made {#} s s'"
proof (cases d)
  case None
  then show ?thesis using assms shared_takes by (auto simp: sched_remove_idle_task_def Let_def)
next
  case (Some dd)
  obtain p s1 where s1: "get_pool dd s = Inr (p, s1)" "s' = on_pool p (\<lambda>(q, sh). (pool_remove_idle_task i q, sh)) s1"
    using assms Some by (auto simp: sched_remove_idle_task_def split: sum.splits)
  have "sched_takes made {#} s1 s'"
    unfolding s1(2) by (rule on_pool_takes) (simp add: pool_remove_idle_task_def Let_def)
  then show ?thesis using sched_takes_none [OF conjunct1 [OF get_pool_takes [OF s1(1)]]] by blast
qed

section \<open>Histories of the scheduler\<close>

datatype sched_op = SubmitTask "reaction_task option" | TakeTask nat nat | FinishTask nat nat | StartScheduler
  | StopScheduler nat bool | FinalStop nat | AddIdleTask idle_reaction "pool_descriptor option" | RemoveIdleTask nid "pool_descriptor option"

fun sched_step :: "(reaction_task \<Rightarrow> sched \<Rightarrow> sched) \<Rightarrow> sched_op \<Rightarrow> sched \<Rightarrow> sched_error + sched" where
  "sched_step exec (SubmitTask task) s = sched_submit exec task s"
| "sched_step exec (TakeTask r tid) s = Inr (worker_take r tid s)"
| "sched_step exec (FinishTask r tid) s = Inr (worker_finish exec r tid s)"
| "sched_step exec StartScheduler s = Inr (sched_start s)"
| "sched_step exec (StopScheduler caller force) s = Inr (sched_stop caller force s)"
| "sched_step exec (FinalStop caller) s = Inr (sched_final_stop caller s)"
| "sched_step exec (AddIdleTask r d) s = sched_add_idle_task r d s"
| "sched_step exec (RemoveIdleTask i d) s = sched_remove_idle_task i d s"

fun sched_history :: "(reaction_task \<Rightarrow> sched \<Rightarrow> sched) \<Rightarrow> sched_op list \<Rightarrow> sched \<Rightarrow> sched_error + sched" where
  "sched_history exec [] s = Inr s"
| "sched_history exec (op # ops) s = (case sched_step exec op s of Inl e \<Rightarrow> Inl e | Inr s' \<Rightarrow> sched_history exec ops s')"

fun op_submits :: "sched_op \<Rightarrow> reaction_task multiset" where
  "op_submits (SubmitTask task) = submission task"
| "op_submits op = {#}"

definition submits :: "sched_op list \<Rightarrow> reaction_task multiset" where
  "submits ops = sum_list (map op_submits ops)"

lemma sched_step_takes:
  assumes "ordinary_body made exec" "sched_step exec op s = Inr s'"
  shows "sched_takes made (op_submits op) s s'"
  using assms sched_submit_takes worker_take_takes worker_finish_takes sched_start_takes sched_stop_takes final_stop_takes
    add_idle_takes remove_idle_takes by (cases op) auto

lemma sched_history_takes:
  "ordinary_body made exec \<Longrightarrow> sched_history exec ops s = Inr s' \<Longrightarrow> sched_takes made (submits ops) s s'"
proof (induction ops arbitrary: s)
  case (Cons op ops)
  obtain s1 where s1: "sched_step exec op s = Inr s1" "sched_history exec ops s1 = Inr s'" using Cons.prems(2) by (auto split: sum.splits)
  show ?case
    using sched_takes_trans [OF sched_step_takes [OF Cons.prems(1) s1(1)] Cons.IH [OF Cons.prems(1) s1(2)]] by (simp add: submits_def)
qed (simp add: submits_def)

lemma new_sched_empty: "sched_ok (new_sched n m d) \<and> sched_tasks (new_sched n m d) = {#} \<and> s_done (new_sched n m d) = []"
proof -
  let ?s0 = "\<lparr>s_default_concurrency = n, s_running = True, s_started = False, s_pools = [], s_groups = [],
      s_shared = \<lparr>active_pools = 0, global_idle_count = 0, sched_idle_tasks = []\<rparr>,
      s_cache = (\<lambda>_. None), s_current = None, s_notify = (\<lambda>_. 0), s_main = m, s_default = d,
      s_executing = [], s_done = [], s_dropped = []\<rparr>"
  have start: "sched_ok ?s0" "sched_tasks ?s0 = {#}" by (simp_all add: sched_ok_def sched_keys_ok_def sched_tasks_def queued_def waiting_def executing_def)
  obtain r s1 where s1: "get_pool m ?s0 = Inr (r, s1)" by (simp add: get_pool_def pool_at_def split_beta Let_def)
  have ended: "s_done s1 = []" using s1 by (auto simp: get_pool_def split_beta Let_def split: if_splits)
  have got: "sched_takes (\<lambda>_. {#}) {#} ?s0 s1" using get_pool_takes [OF s1] by blast
  have "made_by (\<lambda>_. {#}) ts = {#}" for ts by (induction ts) (simp_all add: made_by_def)
  then have one: "sched_ok s1" "sched_tasks s1 = {#}" using got start by (simp_all add: sched_takes_def)
  have new: "new_sched n m d = s1\<lparr>s_current := Some r\<rparr>" using s1 by (simp add: new_sched_def)
  have at: "pool_at q (s1\<lparr>s_current := Some r\<rparr>) = pool_at q s1" for q by (simp add: pool_at_def)
  have "sched_ok (s1\<lparr>s_current := Some r\<rparr>)" using one(1) unfolding sched_ok_def at by (simp add: sched_keys_ok_def)
  then show ?thesis using one(2) ended unfolding new by (simp add: sched_tasks_def queued_def waiting_def executing_def)
qed


definition main_desc :: pool_descriptor where
  "main_desc = example_pool_desc False 1"

definition plain_task :: reaction_task where
  "plain_task = (example_task 1 500)\<lparr>t_pool := main_desc\<rparr>"

lemmas submit_eval = new_sched_def get_pool_def new_pool_def counting_new_def pool_at_def group_at_def key_insert_def insert_lower_def
  sched_submit_def resolve_pool_def get_groups_lock_def current_pool_idle_def is_idle_def submit_to_pool_def submit_accepts_def on_pool_def
  pool_submit_def submit_signal_def clear_pool_idle_def submit_enqueue_def submit_count_def signal_def key_update_def
  plain_task_def main_desc_def example_pool_desc_def example_task_def blank_task_def priority_index_simp Let_def


end
